(* ===== verification/Go_Prelude.thy ===== *)
theory Go_Prelude
  imports Main "HOL-Library.Word" "HOL-Library.Product_Lexorder" "HOL-Library.Multiset"
begin

text \<open>
  Shared ground of the development: names for the machine types of the Go source, the
  conversions between them, slices, and the parts of Go's standard library that the
  runtime calls (\<open>unicode/utf8\<close>, \<open>unicode/utf16\<close>, \<open>sort.Slice\<close>, \<open>sort.Search\<close>),
  with the lemmas about them that the component theories use.

  Fixed-width Go integers (\<open>uint8\<close>, \<open>uint16\<close>, \<open>uint32\<close>) are words, so arithmetic
  wraps as it does in Go. Go's \<open>int\<close> used as an index is \<open>nat\<close> (or \<open>int\<close> where the
  code uses a negative sentinel), \<open>rune\<close> and \<open>int32\<close> values are \<open>int\<close>.
\<close>

named_theorems go_word_simps \<open>conversions between words and indices\<close>
named_theorems utf8_simps \<open>facts about the UTF-8 codec\<close>

type_synonym u8 = "8 word"
type_synonym u16 = "16 word"
type_synonym u32 = "32 word"
type_synonym bytes = "8 word list"
type_synonym rune = int

subsection \<open>Conversions and slices\<close>

text \<open>\<open>int32(x)\<close>: keep the low 32 bits and read them as two's complement.\<close>

definition go_int32 :: "int \<Rightarrow> int" where
  "go_int32 x = sint (word_of_int x :: 32 word)"

text \<open>\<open>uint32(n)\<close> for an \<open>int\<close> that is a length or an index.\<close>

definition u32_of :: "nat \<Rightarrow> u32" where
  "u32_of n = word_of_nat n"

definition u16_of :: "nat \<Rightarrow> u16" where
  "u16_of n = word_of_nat n"

text \<open>\<open>xs[i:j]\<close>.\<close>

definition go_slice :: "'a list \<Rightarrow> nat \<Rightarrow> nat \<Rightarrow> 'a list" where
  "go_slice xs i j = take (j - i) (drop i xs)"

lemma go_int32_id [go_word_simps]:
  assumes "- (2 ^ 31) \<le> x" and "x < 2 ^ 31"
  shows "go_int32 x = x"
  using assms by (simp add: go_int32_def signed_of_int signed_take_bit_int_eq_self)

lemma unat_u32_of [go_word_simps]: "n < 2 ^ 32 \<Longrightarrow> unat (u32_of n) = n"
  by (simp add: u32_of_def unat_of_nat)

lemma u32_of_unat [simp]: "u32_of (unat w) = w"
  by (simp add: u32_of_def)

lemma u32_of_add [go_word_simps]: "u32_of (m + n) = u32_of m + u32_of n"
  by (simp add: u32_of_def)

lemma u32_of_0 [simp]: "u32_of 0 = 0"
  by (simp add: u32_of_def)

lemma u32_of_Suc [go_word_simps]: "u32_of (Suc n) = u32_of n + 1"
  by (simp add: u32_of_def)

lemma u32_of_le_iff [go_word_simps]:
  "m < 2 ^ 32 \<Longrightarrow> n < 2 ^ 32 \<Longrightarrow> (u32_of m \<le> u32_of n) = (m \<le> n)"
  by (simp add: word_le_nat_alt unat_u32_of)

lemma u32_of_less_iff [go_word_simps]:
  "m < 2 ^ 32 \<Longrightarrow> n < 2 ^ 32 \<Longrightarrow> (u32_of m < u32_of n) = (m < n)"
  by (simp add: word_less_nat_alt unat_u32_of)

lemma u32_of_eq_iff [go_word_simps]:
  "m < 2 ^ 32 \<Longrightarrow> n < 2 ^ 32 \<Longrightarrow> (u32_of m = u32_of n) = (m = n)"
  by (metis unat_u32_of)

lemma unat_u32_less [simp]: "unat (w :: u32) < 2 ^ 32"
  using unsigned_less [of w, where ?'a = nat] by simp

lemma bex_enumerate: "(\<exists>x \<in> set (enumerate 0 xs). P x) \<longleftrightarrow> (\<exists>k < length xs. P (k, xs ! k))"
proof -
  have "set (enumerate 0 xs) = (\<lambda>k. (k, xs ! k)) ` {..<length xs}"
    by (auto simp: in_set_enumerate_eq image_iff)
  then show ?thesis by auto
qed

lemma length_go_slice [simp]: "length (go_slice xs i j) = min (j - i) (length xs - i)"
  by (simp add: go_slice_def)

lemma go_slice_Nil [simp]: "j \<le> i \<Longrightarrow> go_slice xs i j = []"
  by (simp add: go_slice_def)

lemma go_slice_all: "go_slice xs 0 (length xs) = xs"
  by (simp add: go_slice_def)

lemma go_slice_to_end: "go_slice xs i (length xs) = drop i xs"
  by (simp add: go_slice_def)

lemma go_slice_append:
  assumes "i \<le> j" and "j \<le> k"
  shows "go_slice xs i j @ go_slice xs j k = go_slice xs i k"
proof -
  have "drop j xs = drop (j - i) (drop i xs)" using assms by simp
  moreover have "k - i = (j - i) + (k - j)" using assms by simp
  ultimately show ?thesis by (simp add: go_slice_def take_add)
qed

lemma go_slice_drop_append:
  assumes "i \<le> j"
  shows "go_slice xs i j @ drop j xs = drop i xs"
  using assms by (metis add.commute append_take_drop_id drop_drop le_add_diff_inverse2 go_slice_def)

lemma take_go_slice_append: "i \<le> j \<Longrightarrow> take i xs @ go_slice xs i j = take j xs"
  by (metis le_add_diff_inverse go_slice_def take_add)

lemma nth_go_slice: "k < j - i \<Longrightarrow> i + k < length xs \<Longrightarrow> go_slice xs i j ! k = xs ! (i + k)"
  by (simp add: go_slice_def)

lemma set_go_slice_subset: "set (go_slice xs i j) \<subseteq> set xs"
  unfolding go_slice_def by (meson in_set_dropD in_set_takeD subsetI)

subsection \<open>\<open>sort.Search\<close> and \<open>sort.Slice\<close>\<close>

text \<open>\<open>sort.Search(n, f)\<close>: binary search for the first index where \<open>f\<close> holds.\<close>

function go_search_loop :: "(nat \<Rightarrow> bool) \<Rightarrow> nat \<Rightarrow> nat \<Rightarrow> nat" where
  "go_search_loop f i j =
     (if i < j then
        (let h = (i + j) div 2
         in if \<not> f h then go_search_loop f (h + 1) j else go_search_loop f i h)
      else i)"
  by pat_completeness auto
termination
  by (relation "measure (\<lambda>(f, i, j). j - i)") auto

declare go_search_loop.simps [simp del]

definition go_search :: "nat \<Rightarrow> (nat \<Rightarrow> bool) \<Rightarrow> nat" where
  "go_search n f = go_search_loop f 0 n"

lemma go_search_loop_spec:
  assumes mono: "\<And>k l. k \<le> l \<Longrightarrow> l < n \<Longrightarrow> f k \<Longrightarrow> f l"
  shows "i \<le> j \<Longrightarrow> j \<le> n \<Longrightarrow> \<forall>k < i. \<not> f k \<Longrightarrow> \<forall>k < n. j \<le> k \<longrightarrow> f k \<Longrightarrow>
    go_search_loop f i j \<le> j \<and> (\<forall>k < go_search_loop f i j. \<not> f k) \<and>
    (\<forall>k < n. go_search_loop f i j \<le> k \<longrightarrow> f k)"
proof (induction "j - i" arbitrary: i j rule: less_induct)
  case less
  let ?h = "(i + j) div 2"
  consider (stop) "\<not> i < j" | (right) "i < j" "\<not> f ?h" | (left) "i < j" "f ?h" by blast
  then show ?case
  proof cases
    case stop
    then have "go_search_loop f i j = i" by (simp add: go_search_loop.simps [of f i j])
    then show ?thesis using stop less.prems by auto
  next
    case right
    have eq: "go_search_loop f i j = go_search_loop f (?h + 1) j"
      using right by (simp add: go_search_loop.simps [of f i j])
    have "?h < n" using right less.prems by linarith
    then have "\<not> f k" if "k < ?h + 1" for k using mono [of k ?h] that right by auto
    then show ?thesis unfolding eq using less.hyps [of j "?h + 1"] right less.prems by auto
  next
    case left
    have eq: "go_search_loop f i j = go_search_loop f i ?h"
      using left by (simp add: go_search_loop.simps [of f i j])
    have le: "go_search_loop f i ?h \<le> ?h \<and> (\<forall>k < go_search_loop f i ?h. \<not> f k) \<and>
        (\<forall>k < n. go_search_loop f i ?h \<le> k \<longrightarrow> f k)"
    proof (rule less.hyps)
      show "\<forall>k < n. ?h \<le> k \<longrightarrow> f k" using left(2) mono by blast
    qed (use left less.prems in auto)
    moreover have "?h \<le> j" using left by simp
    ultimately show ?thesis unfolding eq by (meson le_trans)
  qed
qed

text \<open>
  The contract of \<open>sort.Search\<close>: on a predicate that stays true once it is true, the
  result splits the indices into those where it fails and those where it holds.
\<close>

locale monotone_search =
  fixes pred :: "'c \<Rightarrow> nat \<Rightarrow> bool" and size_of :: "'c \<Rightarrow> nat" and ok :: "'c \<Rightarrow> bool"
  assumes pred_mono: "ok c \<Longrightarrow> k \<le> l \<Longrightarrow> l < size_of c \<Longrightarrow> pred c k \<Longrightarrow> pred c l"
begin

lemma search_spec:
  assumes "ok c"
  shows "go_search (size_of c) (pred c) \<le> size_of c"
    and "k < go_search (size_of c) (pred c) \<Longrightarrow> \<not> pred c k"
    and "go_search (size_of c) (pred c) \<le> k \<Longrightarrow> k < size_of c \<Longrightarrow> pred c k"
proof -
  have "go_search (size_of c) (pred c) \<le> size_of c \<and>
      (\<forall>k < go_search (size_of c) (pred c). \<not> pred c k) \<and>
      (\<forall>k < size_of c. go_search (size_of c) (pred c) \<le> k \<longrightarrow> pred c k)"
    unfolding go_search_def
    by (rule go_search_loop_spec [OF pred_mono [OF assms]]) auto
  then show "go_search (size_of c) (pred c) \<le> size_of c"
    and "k < go_search (size_of c) (pred c) \<Longrightarrow> \<not> pred c k"
    and "go_search (size_of c) (pred c) \<le> k \<Longrightarrow> k < size_of c \<Longrightarrow> pred c k"
    by blast+
qed

lemma search_eqI:
  assumes "ok c" and "r \<le> size_of c" and "\<And>k. k < r \<Longrightarrow> \<not> pred c k"
    and "r < size_of c \<Longrightarrow> pred c r"
  shows "go_search (size_of c) (pred c) = r"
proof -
  have "\<not> go_search (size_of c) (pred c) < r"
    using assms(2,3) search_spec(3) [OF assms(1), of "go_search (size_of c) (pred c)"] by auto
  moreover have "\<not> r < go_search (size_of c) (pred c)"
    using assms(4) search_spec(1,2) [OF assms(1)] by (meson order_less_le_trans)
  ultimately show ?thesis by simp
qed

end

text \<open>
  \<open>sort.Slice\<close> with a comparison on two keys: sorted by the pair of keys. Go's sort is
  not stable; the theorems that depend on more than the sorted order are proved for any
  sorted permutation, and the model uses the stable one.
\<close>

definition go_sort_by :: "('a \<Rightarrow> 'k::linorder) \<Rightarrow> 'a list \<Rightarrow> 'a list" where
  "go_sort_by key xs = sort_key key xs"

lemma set_go_sort_by [simp]: "set (go_sort_by key xs) = set xs"
  by (simp add: go_sort_by_def)

lemma length_go_sort_by [simp]: "length (go_sort_by key xs) = length xs"
  by (simp add: go_sort_by_def)

lemma mset_go_sort_by [simp]: "mset (go_sort_by key xs) = mset xs"
  by (simp add: go_sort_by_def)

lemma sorted_go_sort_by: "sorted (map key (go_sort_by key xs))"
  by (simp add: go_sort_by_def)

lemma go_sort_by_Nil [simp]: "go_sort_by key xs = [] \<longleftrightarrow> xs = []"
  by (metis length_0_conv length_go_sort_by)

lemma go_sort_by_keys:
  assumes "mset xs = mset ys"
  shows "map key (go_sort_by key xs) = map key (go_sort_by key ys)"
proof -
  have "sort (map key (go_sort_by key ys)) = map key (go_sort_by key xs)"
    by (rule properties_for_sort) (use assms sorted_go_sort_by in simp_all)
  then show ?thesis by (simp add: sorted_sort_id sorted_go_sort_by)
qed

subsection \<open>\<open>unicode/utf8\<close> and \<open>unicode/utf16\<close>\<close>

definition RuneError :: rune where
  "RuneError = 0xFFFD"

text \<open>
  \<open>utf8.DecodeRune\<close>: the first rune of the bytes and its width. An empty input gives
  width 0, an invalid or short sequence the replacement rune with width 1. The
  accepted second bytes depend on the first one, as in Go's \<open>acceptRanges\<close>.
\<close>

definition is_cont :: "int \<Rightarrow> int \<Rightarrow> u8 \<Rightarrow> bool" where
  "is_cont lo hi b \<longleftrightarrow> lo \<le> uint b \<and> uint b \<le> hi"

definition decode2 :: "int \<Rightarrow> bytes \<Rightarrow> rune \<times> nat" where
  "decode2 x rest = (case rest of
       b1 # _ \<Rightarrow> if is_cont 0x80 0xBF b1
                 then ((x - 0xC0) * 64 + (uint b1 - 0x80), 2) else (RuneError, 1)
     | [] \<Rightarrow> (RuneError, 1))"

definition decode3 :: "int \<Rightarrow> bytes \<Rightarrow> rune \<times> nat" where
  "decode3 x rest = (case rest of
       b1 # b2 # _ \<Rightarrow>
         if is_cont (if x = 0xE0 then 0xA0 else 0x80) (if x = 0xED then 0x9F else 0xBF) b1
            \<and> is_cont 0x80 0xBF b2
         then ((x - 0xE0) * 4096 + (uint b1 - 0x80) * 64 + (uint b2 - 0x80), 3)
         else (RuneError, 1)
     | _ \<Rightarrow> (RuneError, 1))"

definition decode4 :: "int \<Rightarrow> bytes \<Rightarrow> rune \<times> nat" where
  "decode4 x rest = (case rest of
       b1 # b2 # b3 # _ \<Rightarrow>
         if is_cont (if x = 0xF0 then 0x90 else 0x80) (if x = 0xF4 then 0x8F else 0xBF) b1
            \<and> is_cont 0x80 0xBF b2 \<and> is_cont 0x80 0xBF b3
         then ((x - 0xF0) * 262144 + (uint b1 - 0x80) * 4096 + (uint b2 - 0x80) * 64
               + (uint b3 - 0x80), 4)
         else (RuneError, 1)
     | _ \<Rightarrow> (RuneError, 1))"

definition decode_rune :: "bytes \<Rightarrow> rune \<times> nat" where
  "decode_rune bs = (case bs of
       [] \<Rightarrow> (RuneError, 0)
     | b0 # rest \<Rightarrow>
         (let x = uint b0
          in if x < 0x80 then (x, 1)
             else if x < 0xC2 \<or> 0xF4 < x then (RuneError, 1)
             else if x < 0xE0 then decode2 x rest
             else if x < 0xF0 then decode3 x rest
             else decode4 x rest))"

text \<open>\<open>utf8.EncodeRune\<close> (the bytes written) and \<open>utf8.RuneLen\<close>.\<close>

definition valid_rune :: "rune \<Rightarrow> bool" where
  "valid_rune r \<longleftrightarrow> 0 \<le> r \<and> r \<le> 0x10FFFF \<and> \<not> (0xD800 \<le> r \<and> r \<le> 0xDFFF)"

definition encode_valid :: "rune \<Rightarrow> bytes" where
  "encode_valid r =
     (if r \<le> 0x7F then [word_of_int r]
      else if r \<le> 0x7FF then
        [word_of_int (0xC0 + r div 64), word_of_int (0x80 + r mod 64)]
      else if r \<le> 0xFFFF then
        [word_of_int (0xE0 + r div 4096), word_of_int (0x80 + r div 64 mod 64),
         word_of_int (0x80 + r mod 64)]
      else
        [word_of_int (0xF0 + r div 262144), word_of_int (0x80 + r div 4096 mod 64),
         word_of_int (0x80 + r div 64 mod 64), word_of_int (0x80 + r mod 64)])"

definition encode_rune :: "rune \<Rightarrow> bytes" where
  "encode_rune r = encode_valid (if valid_rune r then r else RuneError)"

definition rune_len :: "rune \<Rightarrow> int" where
  "rune_len r =
     (if r < 0 then -1 else if r \<le> 0x7F then 1 else if r \<le> 0x7FF then 2
      else if 0xD800 \<le> r \<and> r \<le> 0xDFFF then -1 else if r \<le> 0xFFFF then 3
      else if r \<le> 0x10FFFF then 4 else -1)"

text \<open>\<open>utf16.IsSurrogate\<close> and \<open>utf16.DecodeRune\<close>.\<close>

definition is_surrogate :: "rune \<Rightarrow> bool" where
  "is_surrogate r \<longleftrightarrow> 0xD800 \<le> r \<and> r < 0xE000"

definition utf16_decode_rune :: "rune \<Rightarrow> rune \<Rightarrow> rune" where
  "utf16_decode_rune r1 r2 =
     (if 0xD800 \<le> r1 \<and> r1 < 0xDC00 \<and> 0xDC00 \<le> r2 \<and> r2 < 0xE000
      then (r1 - 0xD800) * 1024 + (r2 - 0xDC00) + 0x10000
      else RuneError)"

lemmas decode_defs = decode_rune_def decode2_def decode3_def decode4_def

lemma decode_rune_size [utf8_simps]:
  assumes "bs \<noteq> []"
  shows "1 \<le> snd (decode_rune bs)" and "snd (decode_rune bs) \<le> length bs"
    and "snd (decode_rune bs) \<le> 4"
  using assms by (auto simp: decode_defs Let_def split: list.splits)

lemma decode_rune_ascii [utf8_simps]: "uint b < 0x80 \<Longrightarrow> decode_rune (b # rest) = (uint b, 1)"
  by (simp add: decode_rune_def)

lemma decode_rune_high:
  assumes "0x80 \<le> uint b"
  shows "0x80 \<le> fst (decode_rune (b # rest))"
  using assms
  by (auto simp: decode_defs Let_def is_cont_def RuneError_def split: list.splits if_splits)

lemma decode_rune_conts:
  assumes "0 < k" and "k < snd (decode_rune bs)"
  shows "0x80 \<le> uint (bs ! k)"
proof (cases bs)
  case Nil
  with assms show ?thesis by (simp add: decode_rune_def)
next
  case (Cons b rest)
  consider "k = 1" | "k = 2" | "k = 3"
    using assms decode_rune_size(3) [of bs] Cons by fastforce
  then show ?thesis
    using assms(2) Cons
    by cases (auto simp: decode_defs Let_def is_cont_def numeral_2_eq_2 numeral_3_eq_3
        split: list.splits if_splits)
qed

text \<open>A rune is a newline exactly when its first byte is.\<close>

lemma decode_rune_newline [utf8_simps]:
  "fst (decode_rune (b # rest)) = 10 \<longleftrightarrow> b = 10"
proof (cases "uint b < 0x80")
  case True
  then show ?thesis by (simp add: decode_rune_ascii word_uint_eq_iff)
next
  case False
  then have "b \<noteq> 10" by auto
  with False decode_rune_high [of b rest] show ?thesis by auto
qed

lemma uint_word8: "0 \<le> r \<Longrightarrow> r < 256 \<Longrightarrow> uint (word_of_int r :: u8) = r"
  by (simp add: unsigned_of_int take_bit_int_eq_self)

lemma length_encode_rune [utf8_simps]:
  "valid_rune r \<Longrightarrow> int (length (encode_rune r)) = rune_len r"
  by (auto simp: encode_rune_def encode_valid_def rune_len_def valid_rune_def)

text \<open>The four widths of a well-formed sequence, on the bit fields of the rune.\<close>

lemma decode_two:
  assumes "uint w0 = 0xC0 + a" "uint w1 = 0x80 + b" "2 \<le> a" "a < 32" "0 \<le> b" "b < 64"
  shows "decode_rune (w0 # w1 # rest) = (a * 64 + b, 2)"
  using assms by (simp add: decode_rune_def decode2_def is_cont_def)

lemma decode_three:
  assumes "uint w0 = 0xE0 + a" "uint w1 = 0x80 + b" "uint w2 = 0x80 + c"
    and "0 \<le> a" "a < 16" "0 \<le> b" "b < 64" "0 \<le> c" "c < 64"
    and "a = 0 \<longrightarrow> 32 \<le> b" "a = 13 \<longrightarrow> b \<le> 31"
  shows "decode_rune (w0 # w1 # w2 # rest) = (a * 4096 + b * 64 + c, 3)"
  using assms by (simp add: decode_rune_def decode3_def is_cont_def)

lemma decode_four:
  assumes "uint w0 = 0xF0 + a" "uint w1 = 0x80 + b" "uint w2 = 0x80 + c" "uint w3 = 0x80 + d"
    and "0 \<le> a" "a < 5" "0 \<le> b" "b < 64" "0 \<le> c" "c < 64" "0 \<le> d" "d < 64"
    and "a = 0 \<longrightarrow> 16 \<le> b" "a = 4 \<longrightarrow> b \<le> 15"
  shows "decode_rune (w0 # w1 # w2 # w3 # rest) = (a * 262144 + b * 4096 + c * 64 + d, 4)"
  using assms by (simp add: decode_rune_def decode4_def is_cont_def)

text \<open>Decoding what was encoded gives the rune back, whatever follows.\<close>

lemma decode_encode_rune [utf8_simps]:
  assumes "valid_rune r"
  shows "decode_rune (encode_rune r @ rest) = (r, length (encode_rune r))"
proof -
  have r: "0 \<le> r" "r \<le> 0x10FFFF" "r < 0xD800 \<or> 0xDFFF < r"
    using assms by (auto simp: valid_rune_def)
  have enc: "encode_rune r = encode_valid r" using assms by (simp add: encode_rune_def)
  have d1: "r div 4096 = r div 64 div 64" using zdiv_zmult2_eq [of 64 r 64] by simp
  have d2: "r div 262144 = r div 64 div 64 div 64"
    using zdiv_zmult2_eq [of 64 r 4096] zdiv_zmult2_eq [of 64 "r div 64" 64] by (simp add: d1)
  define p q s where "p = r div 64" and "q = p div 64" and "s = q div 64"
  define a b c where "a = r mod 64" and "b = p mod 64" and "c = q mod 64"
  have sums: "r = p * 64 + a" "p = q * 64 + b" "q = s * 64 + c"
    by (simp_all add: p_def q_def s_def a_def b_def c_def)
  have bnd: "0 \<le> a" "a < 64" "0 \<le> b" "b < 64" "0 \<le> c" "c < 64"
    by (simp_all add: a_def b_def c_def)
  have folds: "r div 64 = p" "r div 4096 = q" "r div 262144 = s" "r mod 64 = a"
    "p mod 64 = b" "q mod 64 = c"
    by (simp_all add: d1 d2 p_def q_def s_def a_def b_def c_def)
  consider "r \<le> 0x7F" | "0x7F < r" "r \<le> 0x7FF" | "0x7FF < r" "r \<le> 0xFFFF" | "0xFFFF < r"
    by linarith
  then show ?thesis
  proof cases
    case 1
    then show ?thesis using r by (simp add: enc encode_valid_def decode_rune_def uint_word8)
  next
    case 2
    have eq: "encode_valid r = [word_of_int (0xC0 + p), word_of_int (0x80 + a)]"
      using 2 by (simp add: encode_valid_def folds)
    have "decode_rune (encode_valid r @ rest) = (p * 64 + a, 2)"
      unfolding eq append.simps
      by (rule decode_two; (rule uint_word8)?; use 2 sums bnd in linarith)
    then show ?thesis unfolding enc by (simp add: eq sums(1) [symmetric])
  next
    case 3
    have eq: "encode_valid r =
        [word_of_int (0xE0 + q), word_of_int (0x80 + b), word_of_int (0x80 + a)]"
      using 3 by (simp add: encode_valid_def folds)
    have "decode_rune (encode_valid r @ rest) = (q * 4096 + b * 64 + a, 3)"
      unfolding eq append.simps
      by (rule decode_three; (rule uint_word8 impI)?; use 3 sums bnd r in linarith)
    moreover have "q * 4096 + b * 64 + a = r" using sums by linarith
    ultimately show ?thesis unfolding enc by (simp add: eq)
  next
    case 4
    have eq: "encode_valid r = [word_of_int (0xF0 + s), word_of_int (0x80 + c),
        word_of_int (0x80 + b), word_of_int (0x80 + a)]"
      using 4 by (simp add: encode_valid_def folds)
    have "decode_rune (encode_valid r @ rest) = (s * 262144 + c * 4096 + b * 64 + a, 4)"
      unfolding eq append.simps
      by (rule decode_four; (rule uint_word8 impI)?; use 4 sums bnd r in linarith)
    moreover have "s * 262144 + c * 4096 + b * 64 + a = r" using sums by linarith
    ultimately show ?thesis unfolding enc by (simp add: eq)
  qed
qed

end
