(* ===== verification/Source_Positions.thy ===== *)
theory Source_Positions
  imports Go_Prelude
begin

text \<open>
  Row/column positions, ranges and edit records (\<open>lexer.go\<close>, \<open>tree.go\<close>), and the
  functions that move a position over text: \<open>computeNewEndPoint\<close> (\<open>rewrite.go\<close>),
  \<open>advancePointByBytes\<close> (\<open>parser_result_helpers.go\<close>) and \<open>addPointDelta\<close>
  (\<open>utf16.go\<close>), with the point comparisons of \<open>tree.go\<close> and \<open>cursor.go\<close>.
  \<open>point_at src n\<close> is the position of byte \<open>n\<close>: what every other component has to
  agree with.
\<close>

named_theorems point_simps \<open>moving a position over text\<close>

record point =
  Row :: u32
  Column :: u32

record range =
  rStartByte :: u32
  rEndByte :: u32
  rStartPoint :: point
  rEndPoint :: point

record input_edit =
  eStartByte :: u32
  eOldEndByte :: u32
  eNewEndByte :: u32
  eStartPoint :: point
  eOldEndPoint :: point
  eNewEndPoint :: point

abbreviation zero_point :: point where
  "zero_point \<equiv> \<lparr>Row = 0, Column = 0\<rparr>"

text \<open>The loop body shared by the two position functions: \<open>'\n'\<close> is byte 10.\<close>

definition point_step :: "point \<Rightarrow> u8 \<Rightarrow> point" where
  "point_step p b =
     (if b = 10 then \<lparr>Row = Row p + 1, Column = 0\<rparr>
      else \<lparr>Row = Row p, Column = Column p + 1\<rparr>)"

definition computeNewEndPoint :: "point \<Rightarrow> bytes \<Rightarrow> point" where
  "computeNewEndPoint startPoint newText = foldl point_step startPoint newText"

text \<open>\<open>bytes.LastIndexByte\<close>: -1 when the byte does not occur.\<close>

fun last_index_byte :: "bytes \<Rightarrow> u8 \<Rightarrow> int" where
  "last_index_byte [] c = -1"
| "last_index_byte (b # bs) c =
     (if 0 \<le> last_index_byte bs c then last_index_byte bs c + 1
      else if b = c then 0 else -1)"

definition advancePointByBytes :: "point \<Rightarrow> bytes \<Rightarrow> point" where
  "advancePointByBytes start b =
     (if length b < 256 then foldl point_step start b
      else
        (let lastNewline = last_index_byte b 10
         in if lastNewline < 0
            then \<lparr>Row = Row start, Column = Column start + u32_of (length b)\<rparr>
            else \<lparr>Row = Row start + u32_of (count_list b 10),
                  Column = u32_of (nat (int (length b) - lastNewline - 1))\<rparr>))"

definition addPointDelta :: "point \<Rightarrow> point \<Rightarrow> point" where
  "addPointDelta start delta =
     (if Row delta = 0 then \<lparr>Row = Row start, Column = Column start + Column delta\<rparr>
      else \<lparr>Row = Row start + Row delta, Column = Column delta\<rparr>)"

definition pointLessThan :: "point \<Rightarrow> point \<Rightarrow> bool" where
  "pointLessThan a b = (if Row a \<noteq> Row b then Row a < Row b else Column a < Column b)"

definition pointLessOrEqual :: "point \<Rightarrow> point \<Rightarrow> bool" where
  "pointLessOrEqual a b = (if Row a \<noteq> Row b then Row a < Row b else Column a \<le> Column b)"

definition pointGreaterThan :: "point \<Rightarrow> point \<Rightarrow> bool" where
  "pointGreaterThan a b = (if Row a \<noteq> Row b then Row a > Row b else Column a > Column b)"

text \<open>The position of byte \<open>n\<close> of a source.\<close>

definition point_at :: "bytes \<Rightarrow> nat \<Rightarrow> point" where
  "point_at src n = computeNewEndPoint zero_point (take n src)"

subsection \<open>What an edit record means\<close>

text \<open>Replacing the old span of one \<open>InputEdit\<close> by the new text.\<close>

definition run_edit :: "bytes \<Rightarrow> input_edit \<Rightarrow> bytes \<Rightarrow> bytes" where
  "run_edit src ie t = take (unat (eStartByte ie)) src @ t @ drop (unat (eOldEndByte ie)) src"

text \<open>A record agrees with the text it is applied to, positions included.\<close>

definition edit_ok :: "bytes \<Rightarrow> input_edit \<Rightarrow> bytes \<Rightarrow> bool" where
  "edit_ok src ie t \<longleftrightarrow>
     eStartByte ie \<le> eOldEndByte ie \<and> unat (eOldEndByte ie) \<le> length src \<and>
     unat (eNewEndByte ie) = unat (eStartByte ie) + length t \<and>
     eStartPoint ie = point_at src (unat (eStartByte ie)) \<and>
     eOldEndPoint ie = point_at src (unat (eOldEndByte ie)) \<and>
     eNewEndPoint ie = point_at (run_edit src ie t) (unat (eNewEndByte ie))"

fun run_edits :: "bytes \<Rightarrow> (input_edit \<times> bytes) list \<Rightarrow> bytes" where
  "run_edits src [] = src"
| "run_edits src ((ie, t) # es) = run_edits (run_edit src ie t) es"

fun edits_ok :: "bytes \<Rightarrow> (input_edit \<times> bytes) list \<Rightarrow> bool" where
  "edits_ok src [] = True"
| "edits_ok src ((ie, t) # es) = (edit_ok src ie t \<and> edits_ok (run_edit src ie t) es)"

subsection \<open>Lemmas\<close>

lemma computeNewEndPoint_Nil [simp, point_simps]: "computeNewEndPoint p [] = p"
  by (simp add: computeNewEndPoint_def)

lemma computeNewEndPoint_Cons [point_simps]:
  "computeNewEndPoint p (b # bs) = computeNewEndPoint (point_step p b) bs"
  by (simp add: computeNewEndPoint_def)

lemma computeNewEndPoint_append [point_simps]:
  "computeNewEndPoint p (xs @ ys) = computeNewEndPoint (computeNewEndPoint p xs) ys"
  by (simp add: computeNewEndPoint_def)

lemma point_at_0 [simp]: "point_at src 0 = zero_point"
  by (simp add: point_at_def)

lemma point_at_append:
  "n = length xs \<Longrightarrow> point_at (xs @ ys) n = computeNewEndPoint zero_point xs"
  by (simp add: point_at_def)

lemma point_at_slice:
  "i \<le> j \<Longrightarrow> computeNewEndPoint (point_at src i) (go_slice src i j) = point_at src j"
  by (simp add: point_at_def computeNewEndPoint_append [symmetric] take_go_slice_append)

lemma no_newline_point:
  "10 \<notin> set bs \<Longrightarrow> computeNewEndPoint p bs = \<lparr>Row = Row p, Column = Column p + u32_of (length bs)\<rparr>"
proof (induction bs arbitrary: p)
  case Nil
  then show ?case by simp
next
  case (Cons b bs)
  then show ?case
    by (simp add: computeNewEndPoint_Cons point_step_def u32_of_Suc add.assoc add.commute)
qed

lemma last_index_byte_iff: "last_index_byte bs c < 0 \<longleftrightarrow> c \<notin> set bs"
  by (induction bs) auto

lemma last_index_byte_ge: "- 1 \<le> last_index_byte bs c"
  by (induction bs) auto

lemma last_index_byte_less: "last_index_byte bs c < int (length bs)"
  by (induction bs) auto

lemma newline_point:
  "10 \<in> set bs \<Longrightarrow> computeNewEndPoint p bs =
     \<lparr>Row = Row p + u32_of (count_list bs 10),
      Column = u32_of (nat (int (length bs) - last_index_byte bs 10 - 1))\<rparr>"
proof (induction bs arbitrary: p)
  case Nil
  then show ?case by simp
next
  case (Cons b bs)
  show ?case
  proof (cases "10 \<in> set bs")
    case True
    then have "0 \<le> last_index_byte bs 10" using last_index_byte_iff [of bs 10] by linarith
    with Cons.IH [OF True, of "point_step p b"] show ?thesis
      by (auto simp: computeNewEndPoint_Cons point_step_def u32_of_Suc algebra_simps)
  next
    case False
    then have "b = 10" and "last_index_byte bs 10 < 0" and "count_list bs 10 = 0"
      using Cons.prems last_index_byte_iff [of bs 10] by auto
    then show ?thesis
      by (simp add: computeNewEndPoint_Cons point_step_def no_newline_point [OF False] u32_of_Suc)
  qed
qed

lemma computeNewEndPoint_from:
  assumes "length bs < 2 ^ 32"
  shows "computeNewEndPoint p bs = addPointDelta p (computeNewEndPoint zero_point bs)"
proof (cases "10 \<in> set bs")
  case True
  have "count_list bs 10 \<noteq> 0" using True by (simp add: count_list_0_iff)
  moreover have "count_list bs 10 < 2 ^ 32"
    using assms count_le_length [of bs 10] by (meson le_less_trans)
  ultimately have "u32_of (count_list bs 10) \<noteq> 0"
    by (metis u32_of_0 unat_0 unat_u32_of)
  then show ?thesis by (simp add: newline_point [OF True] addPointDelta_def)
next
  case False
  then show ?thesis by (simp add: no_newline_point addPointDelta_def)
qed

lemma point_order:
  "pointGreaterThan a b = pointLessThan b a" "pointLessOrEqual a b = (\<not> pointLessThan b a)"
  by (auto simp: pointGreaterThan_def pointLessThan_def pointLessOrEqual_def)

text \<open>
  \<open>computeNewEndPoint\<close> and the faster \<open>advancePointByBytes\<close>, which counts newlines in
  bulk from 256 bytes on, compute the same position on every input.
\<close>

lemma advancePointByBytes_eq [point_simps]:
  "advancePointByBytes start b = computeNewEndPoint start b"
proof (cases "10 \<in> set b")
  case True
  then have "\<not> last_index_byte b 10 < 0" by (simp add: last_index_byte_iff)
  with True show ?thesis
    by (simp add: advancePointByBytes_def Let_def newline_point)
      (simp add: computeNewEndPoint_def [symmetric] newline_point)
next
  case False
  then have "last_index_byte b 10 < 0" by (simp add: last_index_byte_iff)
  with False show ?thesis
    by (simp add: advancePointByBytes_def Let_def no_newline_point)
      (simp add: computeNewEndPoint_def [symmetric] no_newline_point)
qed

subsection \<open>Properties\<close>

text \<open>
  All position functions agree: the block-wise \<open>advancePointByBytes\<close> moves a point
  over text exactly as the byte loop of \<open>computeNewEndPoint\<close> does, for texts of any length, and
  adding the position delta of a text with \<open>addPointDelta\<close> is the same as moving over it.
\<close>

lemma position_functions_agree:
  "advancePointByBytes p bs = computeNewEndPoint p bs \<and>
   (length bs < 2 ^ 32 \<longrightarrow> addPointDelta p (advancePointByBytes zero_point bs) = computeNewEndPoint p bs)"
  by (simp add: advancePointByBytes_eq computeNewEndPoint_from [of bs p])

end
