(* ===== verification/Rewriter.thy ===== *)
theory Rewriter
  imports Source_Positions
begin

text \<open>
  The source rewriter (\<open>rewrite.go\<close>): edits are collected, sorted, checked for overlap and
  applied in one pass, which also yields one \<open>InputEdit\<close> per edit in the coordinates of
  the source as it is when that edit is reached. The lemmas show that the edits do what
  their records say (applying the records one after the other rebuilds the new source,
  positions included), that the outcome does not depend on the order in which the edits
  were added nor on how the sort breaks ties, and when \<open>Apply\<close> fails.
\<close>

record rewriteEdit =
  startByte :: u32
  endByte :: u32
  newText :: bytes

record rewriter =
  source :: bytes
  edits :: "rewriteEdit list"

datatype rewrite_error =
    InvalidRange u32 u32 nat
  | OverlappingEdits u32 u32 u32 u32
  | OverlappingInsertions u32

definition NewRewriter :: "bytes \<Rightarrow> rewriter" where
  "NewRewriter src = \<lparr>source = src, edits = []\<rparr>"

definition add_edit :: "rewriter \<Rightarrow> u32 \<Rightarrow> u32 \<Rightarrow> bytes \<Rightarrow> rewriter" where
  "add_edit r s e t =
     r\<lparr>edits := edits r @ [\<lparr>startByte = s, endByte = e, newText = t\<rparr>]\<rparr>"

text \<open>A node enters the rewriter only through its byte span.\<close>

definition Replace :: "rewriter \<Rightarrow> u32 \<times> u32 \<Rightarrow> bytes \<Rightarrow> rewriter" where
  "Replace r node t = add_edit r (fst node) (snd node) t"

definition ReplaceRange :: "rewriter \<Rightarrow> u32 \<Rightarrow> u32 \<Rightarrow> bytes \<Rightarrow> rewriter" where
  "ReplaceRange r s e t = add_edit r s e t"

definition InsertBefore :: "rewriter \<Rightarrow> u32 \<times> u32 \<Rightarrow> bytes \<Rightarrow> rewriter" where
  "InsertBefore r node t = add_edit r (fst node) (fst node) t"

definition InsertAfter :: "rewriter \<Rightarrow> u32 \<times> u32 \<Rightarrow> bytes \<Rightarrow> rewriter" where
  "InsertAfter r node t = add_edit r (snd node) (snd node) t"

definition Delete :: "rewriter \<Rightarrow> u32 \<times> u32 \<Rightarrow> rewriter" where
  "Delete r node = add_edit r (fst node) (snd node) []"

definition edit_key :: "rewriteEdit \<Rightarrow> u32 \<times> u32" where
  "edit_key e = (startByte e, endByte e)"

text \<open>The first loop of \<open>Apply\<close>: every range is well-formed and inside the source.\<close>

fun check_ranges :: "nat \<Rightarrow> (u32 \<times> u32) list \<Rightarrow> rewrite_error option" where
  "check_ranges len [] = None"
| "check_ranges len ((s, e) # ks) =
     (if s > e \<or> unat e > len then Some (InvalidRange s e len) else check_ranges len ks)"

text \<open>The second loop: neighbours in the sorted order do not overlap.\<close>

fun check_overlaps :: "(u32 \<times> u32) list \<Rightarrow> rewrite_error option" where
  "check_overlaps ((s1, e1) # (s2, e2) # ks) =
     (if e1 > s2 then Some (OverlappingEdits s1 e1 s2 e2)
      else if s1 = e1 \<and> s2 = e2 \<and> s1 = s2 then Some (OverlappingInsertions s1)
      else check_overlaps ((s2, e2) # ks))"
| "check_overlaps ks = None"

text \<open>The third loop: copy, record, replace. State: position in the old source, new text so far
  and the point at its end.\<close>

fun apply_loop ::
  "bytes \<Rightarrow> rewriteEdit list \<Rightarrow> u32 \<Rightarrow> bytes \<Rightarrow> point \<Rightarrow> input_edit list \<Rightarrow> bytes \<times> input_edit list"
where
  "apply_loop src [] pos buf cur acc =
     (if pos < u32_of (length src) then buf @ drop (unat pos) src else buf, acc)"
| "apply_loop src (e # es) pos buf cur acc =
     (let unchanged = (if startByte e > pos
                       then go_slice src (unat pos) (unat (startByte e)) else []);
          buf1 = buf @ unchanged;
          startPoint = computeNewEndPoint cur unchanged;
          start = u32_of (length buf1);
          oldSpan = go_slice src (unat (startByte e)) (unat (endByte e));
          newEndPoint = computeNewEndPoint startPoint (newText e);
          ie = \<lparr>eStartByte = start,
                eOldEndByte = start + u32_of (length oldSpan),
                eNewEndByte = start + u32_of (length (newText e)),
                eStartPoint = startPoint,
                eOldEndPoint = computeNewEndPoint startPoint oldSpan,
                eNewEndPoint = newEndPoint\<rparr>
      in apply_loop src es (endByte e) (buf1 @ newText e) newEndPoint (acc @ [ie]))"

definition apply_sorted :: "bytes \<Rightarrow> rewriteEdit list \<Rightarrow> rewrite_error + bytes \<times> input_edit list" where
  "apply_sorted src es =
     (case check_ranges (length src) (map edit_key es) of
        Some err \<Rightarrow> Inl err
      | None \<Rightarrow>
          (case check_overlaps (map edit_key es) of
             Some err \<Rightarrow> Inl err
           | None \<Rightarrow> Inr (apply_loop src es 0 [] zero_point [])))"

definition Apply :: "rewriter \<Rightarrow> rewrite_error + bytes \<times> input_edit list" where
  "Apply r =
     (if edits r = [] then Inr (source r, [])
      else apply_sorted (source r) (go_sort_by edit_key (edits r)))"

subsection \<open>What the loop computes\<close>

text \<open>The new source as a splice of the old one.\<close>

fun splice :: "bytes \<Rightarrow> nat \<Rightarrow> rewriteEdit list \<Rightarrow> bytes" where
  "splice src pos [] = drop pos src"
| "splice src pos (e # es) =
     go_slice src pos (unat (startByte e)) @ newText e @ splice src (unat (endByte e)) es"

text \<open>Sorted, disjoint and inside the source, from \<open>pos\<close> on.\<close>

fun disjoint_from :: "nat \<Rightarrow> nat \<Rightarrow> rewriteEdit list \<Rightarrow> bool" where
  "disjoint_from len pos [] = (pos \<le> len)"
| "disjoint_from len pos (e # es) =
     (pos \<le> unat (startByte e) \<and> startByte e \<le> endByte e \<and> disjoint_from len (unat (endByte e)) es)"

subsection \<open>Lemmas\<close>

lemma disjoint_from_le: "disjoint_from len pos es \<Longrightarrow> pos \<le> len"
proof (induction es arbitrary: pos)
  case Nil
  then show ?case by simp
next
  case (Cons e es)
  then have "unat (endByte e) \<le> len" by simp
  then show ?case using Cons.prems by (auto simp: word_le_nat_alt)
qed

lemma check_ranges_None:
  "check_ranges len ks = None \<longleftrightarrow> (\<forall>(s, e) \<in> set ks. s \<le> e \<and> unat e \<le> len)"
  by (induction len ks rule: check_ranges.induct) auto

lemma checks_disjoint:
  assumes "check_ranges len (map edit_key es) = None"
    and "check_overlaps (map edit_key es) = None" and "pos \<le> len"
    and "es = [] \<or> pos \<le> unat (startByte (hd es))"
  shows "disjoint_from len pos es"
  using assms
proof (induction es arbitrary: pos)
  case Nil
  then show ?case by simp
next
  case (Cons e es)
  have e: "startByte e \<le> endByte e" "unat (endByte e) \<le> len"
    using Cons.prems(1) by (auto simp: edit_key_def split: if_splits)
  have rest: "check_ranges len (map edit_key es) = None"
    using Cons.prems(1) by (cases "edit_key e") (auto split: if_splits)
  have "check_overlaps (map edit_key es) = None \<and>
      (es = [] \<or> unat (endByte e) \<le> unat (startByte (hd es)))"
  proof (cases es)
    case (Cons a list)
    have "edit_key e = (startByte e, endByte e)" "edit_key a = (startByte a, endByte a)"
      by (simp_all add: edit_key_def)
    with \<open>check_overlaps (map edit_key (e # es)) = None\<close> Cons show ?thesis
      by (simp add: not_less word_le_nat_alt split: if_splits)
  qed simp
  then have "disjoint_from len (unat (endByte e)) es"
    using Cons.IH rest e(2) by blast
  then show ?case using Cons.prems(4) e(1) by simp
qed

lemma splice_length_le:
  "disjoint_from (length src) pos es \<Longrightarrow>
   length (splice src pos es) \<le> length src - pos + (\<Sum>e\<leftarrow>es. length (newText e))"
proof (induction es arbitrary: pos)
  case Nil
  then show ?case by simp
next
  case (Cons e es)
  have "unat (endByte e) \<le> length src"
    using Cons.prems disjoint_from_le by auto
  moreover have "unat (startByte e) \<le> unat (endByte e)"
    using Cons.prems by (simp add: word_le_nat_alt)
  ultimately show ?case
    using Cons.prems Cons.IH [of "unat (endByte e)"] by simp
qed

lemma unchanged_slice:
  "unat pos \<le> unat (startByte e) \<Longrightarrow>
   (if startByte e > pos then go_slice src (unat pos) (unat (startByte e)) else []) =
   go_slice src (unat pos) (unat (startByte e))"
  by (auto simp: word_less_nat_alt)

text \<open>
  One edit, with \<open>buf1\<close> the new text in front of it: the record built by the loop agrees with
  the text and running it moves the boundary past the replacement.
\<close>

lemma one_edit:
  fixes src buf1 :: bytes
  assumes se: "s \<le> e" "e \<le> length src"
    and len: "length buf1 + (length src - s) + length t < 2 ^ 32"
    and ie: "ie = \<lparr>eStartByte = u32_of (length buf1),
                eOldEndByte = u32_of (length buf1) + u32_of (length (go_slice src s e)),
                eNewEndByte = u32_of (length buf1) + u32_of (length t),
                eStartPoint = computeNewEndPoint zero_point buf1,
                eOldEndPoint = computeNewEndPoint (computeNewEndPoint zero_point buf1) (go_slice src s e),
                eNewEndPoint = computeNewEndPoint (computeNewEndPoint zero_point buf1) t\<rparr>"
  shows "run_edit (buf1 @ drop s src) ie t = (buf1 @ t) @ drop e src"
    and "edit_ok (buf1 @ drop s src) ie t"
proof -
  have old: "length (go_slice src s e) = e - s" using se by simp
  have st: "unat (eStartByte ie) = length buf1" using len by (simp add: ie unat_u32_of)
  have oe: "unat (eOldEndByte ie) = length buf1 + (e - s)"
    using len se by (simp add: ie old unat_u32_of u32_of_add [symmetric] del: length_go_slice)
  have ne: "unat (eNewEndByte ie) = length buf1 + length t"
    using len by (simp add: ie unat_u32_of u32_of_add [symmetric])
  show run: "run_edit (buf1 @ drop s src) ie t = (buf1 @ t) @ drop e src"
    using se by (simp add: run_edit_def st oe)
  have "take (length buf1 + (e - s)) (buf1 @ drop s src) = buf1 @ go_slice src s e"
    by (simp add: go_slice_def)
  then show "edit_ok (buf1 @ drop s src) ie t"
    unfolding edit_ok_def run word_le_nat_alt st oe ne point_at_def using se
    by (auto simp: ie computeNewEndPoint_append)
qed

lemma apply_loop_splice:
  assumes "disjoint_from (length src) (unat pos) es" and "length src < 2 ^ 32"
  shows "fst (apply_loop src es pos buf cur acc) = buf @ splice src (unat pos) es"
  using assms
proof (induction es arbitrary: pos buf cur acc)
  case Nil
  then show ?case by (simp add: word_less_nat_alt unat_u32_of)
next
  case (Cons e es)
  then show ?case by (simp add: Let_def unchanged_slice del: length_go_slice)
qed

lemma apply_loop_edits:
  assumes "disjoint_from (length src) (unat pos) es" and "cur = computeNewEndPoint zero_point buf"
    and "length buf + (length src - unat pos) + (\<Sum>e\<leftarrow>es. length (newText e)) < 2 ^ 32"
  shows "\<exists>recs. snd (apply_loop src es pos buf cur acc) = acc @ recs \<and> length recs = length es \<and>
    run_edits (buf @ drop (unat pos) src) (zip recs (map newText es)) = buf @ splice src (unat pos) es \<and>
    edits_ok (buf @ drop (unat pos) src) (zip recs (map newText es))"
  using assms
proof (induction es arbitrary: pos buf cur acc)
  case Nil
  then show ?case by simp
next
  case (Cons e es)
  let ?p = "unat pos" and ?s = "unat (startByte e)" and ?e = "unat (endByte e)"
  let ?u = "go_slice src ?p ?s"
  let ?buf1 = "buf @ ?u"
  let ?start = "computeNewEndPoint zero_point ?buf1"
  have ord: "?p \<le> ?s" "?s \<le> ?e" "?e \<le> length src"
    using Cons.prems(1) disjoint_from_le by (auto simp: word_le_nat_alt)
  define ie where "ie = \<lparr>eStartByte = u32_of (length ?buf1),
                eOldEndByte = u32_of (length ?buf1) + u32_of (length (go_slice src ?s ?e)),
                eNewEndByte = u32_of (length ?buf1) + u32_of (length (newText e)),
                eStartPoint = ?start,
                eOldEndPoint = computeNewEndPoint ?start (go_slice src ?s ?e),
                eNewEndPoint = computeNewEndPoint ?start (newText e)\<rparr>"
  have step: "apply_loop src (e # es) pos buf cur acc =
      apply_loop src es (endByte e) (?buf1 @ newText e) (computeNewEndPoint ?start (newText e)) (acc @ [ie])"
    using ord(1)
    by (simp add: Let_def unchanged_slice ie_def Cons.prems(2) computeNewEndPoint_append
        del: length_go_slice)
  have "length ?buf1 + (length src - ?s) + length (newText e) < 2 ^ 32"
    using Cons.prems(3) ord by simp
  note one = one_edit [OF ord(2,3) this ie_def]
  have "disjoint_from (length src) ?e es" using Cons.prems(1) by simp
  moreover have "length (?buf1 @ newText e) + (length src - ?e) + (\<Sum>e\<leftarrow>es. length (newText e)) < 2 ^ 32"
    using Cons.prems(3) ord by simp
  ultimately obtain recs where recs:
    "snd (apply_loop src es (endByte e) (?buf1 @ newText e)
        (computeNewEndPoint ?start (newText e)) (acc @ [ie])) = (acc @ [ie]) @ recs"
    "length recs = length es"
    "run_edits ((?buf1 @ newText e) @ drop ?e src) (zip recs (map newText es)) =
       (?buf1 @ newText e) @ splice src ?e es"
    "edits_ok ((?buf1 @ newText e) @ drop ?e src) (zip recs (map newText es))"
    using Cons.IH [of "endByte e" "computeNewEndPoint ?start (newText e)" "?buf1 @ newText e" "acc @ [ie]"]
    by (auto simp: computeNewEndPoint_append)
  have here: "buf @ drop ?p src = ?buf1 @ drop ?s src"
    using go_slice_drop_append [OF ord(1), of src] by simp
  have "run_edits (buf @ drop ?p src) (zip (ie # recs) (map newText (e # es))) =
      buf @ splice src ?p (e # es)"
    unfolding here using one(1) recs(3) by simp
  moreover have "edits_ok (buf @ drop ?p src) (zip (ie # recs) (map newText (e # es)))"
    unfolding here using one recs(4) by simp
  ultimately show ?case
    unfolding step using recs(1,2) by (intro exI [of _ "ie # recs"]) simp
qed

text \<open>Ties in the sort are always errors, so any sorted permutation gives the same outcome.\<close>

lemma no_overlap_distinct:
  assumes "check_overlaps ks = None" and "\<forall>(s, e) \<in> set ks. s \<le> e" and "sorted ks"
  shows "distinct ks"
  using assms
proof (induction ks rule: check_overlaps.induct)
  case (1 s1 e1 s2 e2 ks)
  have rest: "distinct ((s2, e2) # ks)" using 1 by (auto split: if_splits)
  have "(s1, e1) \<noteq> (s2, e2)"
    using "1.prems"(1,2) by (auto split: if_splits)
  then have "(s1, e1) < (s2, e2)" using "1.prems"(3) by auto
  then have "(s1, e1) \<notin> set ((s2, e2) # ks)"
    using "1.prems"(3) by (auto simp: not_less [symmetric])
  with rest show ?case by simp
qed auto

lemma sorted_by_key_unique:
  assumes "map key xs = map key ys" and "distinct (map key xs)" and "mset xs = mset ys"
  shows "xs = ys"
proof (rule nth_equalityI)
  show len: "length xs = length ys" using assms(3) by (rule mset_eq_length)
  fix i assume i: "i < length xs"
  have inj: "inj_on key (set xs)" using assms(2) by (simp add: distinct_map)
  have "ys ! i \<in> set xs" using i len assms(3) by (metis nth_mem set_mset_mset)
  moreover have "xs ! i \<in> set xs" using i by simp
  moreover have "key (xs ! i) = key (ys ! i)" using assms(1) i len by (metis nth_map)
  ultimately show "xs ! i = ys ! i" using inj by (simp add: inj_on_eq_iff)
qed

lemma apply_sorted_any_order:
  assumes "mset xs = mset ys" and "sorted (map edit_key xs)" and "sorted (map edit_key ys)"
  shows "apply_sorted src xs = apply_sorted src ys"
proof -
  have keys: "map edit_key xs = map edit_key ys"
  proof -
    have "sort (map edit_key ys) = map edit_key xs"
      by (rule properties_for_sort) (use assms in simp_all)
    then show ?thesis using assms(3) by (simp add: sorted_sort_id)
  qed
  show ?thesis
  proof (cases "check_ranges (length src) (map edit_key xs) = None \<and>
      check_overlaps (map edit_key xs) = None")
    case True
    then have "distinct (map edit_key xs)"
      using assms(2) by (intro no_overlap_distinct) (auto simp: check_ranges_None)
    then have "xs = ys" by (rule sorted_by_key_unique [OF keys _ assms(1)])
    then show ?thesis by simp
  next
    case False
    then show ?thesis by (auto simp: apply_sorted_def keys split: option.splits)
  qed
qed

lemma Apply_success:
  assumes "Apply r = Inr (out, recs)" and "edits r \<noteq> []"
  shows "disjoint_from (length (source r)) 0 (go_sort_by edit_key (edits r))"
    and "(out, recs) = apply_loop (source r) (go_sort_by edit_key (edits r)) 0 [] zero_point []"
proof -
  let ?es = "go_sort_by edit_key (edits r)"
  have "check_ranges (length (source r)) (map edit_key ?es) = None"
    "check_overlaps (map edit_key ?es) = None"
    "(out, recs) = apply_loop (source r) ?es 0 [] zero_point []"
    using assms by (auto simp: Apply_def apply_sorted_def split: option.splits)
  then show "disjoint_from (length (source r)) 0 ?es"
    and "(out, recs) = apply_loop (source r) ?es 0 [] zero_point []"
    by (auto intro: checks_disjoint)
qed

text \<open>
  When two edits may be applied together: their ranges do not overlap and they are not two
  insertions at one point. The check of neighbours in the sorted order decides exactly this
  for all pairs.
\<close>

definition compatible :: "u32 \<times> u32 \<Rightarrow> u32 \<times> u32 \<Rightarrow> bool" where
  "compatible a b \<longleftrightarrow>
     (snd a \<le> fst b \<or> snd b \<le> fst a) \<and> \<not> (fst a = snd a \<and> fst b = snd b \<and> fst a = fst b)"

lemma compatible_sym: "compatible a b = compatible b a"
  by (auto simp: compatible_def)

lemma sorted_wrt_insort_sym:
  assumes "\<And>a b. R a b = R b a"
  shows "sorted_wrt R (insort_key key x xs) \<longleftrightarrow> (\<forall>y \<in> set xs. R x y) \<and> sorted_wrt R xs"
  by (induction xs) (auto simp: set_insort_key assms)

lemma sorted_wrt_sort_sym:
  assumes "\<And>a b. R a b = R b a"
  shows "sorted_wrt R (go_sort_by key xs) = sorted_wrt R xs"
  unfolding go_sort_by_def
  by (induction xs) (auto simp: sorted_wrt_insort_sym [of R, OF assms])

lemma compatible_sorted_pair:
  assumes "fst a \<le> snd a" and "fst b \<le> snd b" and "a \<le> b"
  shows "compatible a b \<longleftrightarrow> snd a \<le> fst b \<and> \<not> (fst a = snd a \<and> fst b = snd b \<and> fst a = fst b)"
  using assms unfolding compatible_def less_eq_prod_def by (auto dest: order.antisym)

lemma check_overlaps_iff:
  assumes "\<forall>(s, e) \<in> set ks. s \<le> e" and "sorted ks"
  shows "check_overlaps ks = None \<longleftrightarrow> sorted_wrt compatible ks"
  using assms
proof (induction ks rule: check_overlaps.induct)
  case (1 s1 e1 s2 e2 ks)
  let ?a = "(s1, e1)" and ?b = "(s2, e2)"
  have IH: "check_overlaps (?b # ks) = None \<longleftrightarrow> sorted_wrt compatible (?b # ks)"
    if "\<not> s2 < e1" "\<not> (s1 = e1 \<and> s2 = e2 \<and> s1 = s2)"
    using 1 that by auto
  have ab: "compatible ?a ?b \<longleftrightarrow> e1 \<le> s2 \<and> \<not> (s1 = e1 \<and> s2 = e2 \<and> s1 = s2)"
    using compatible_sorted_pair [of ?a ?b] "1.prems" by auto
  have far: "compatible ?a c"
    if c: "c \<in> set ks" and w: "sorted_wrt compatible (?b # ks)" and "compatible ?a ?b" for c
  proof -
    have le: "?a \<le> c" "?b \<le> c" "fst c \<le> snd c" "s1 \<le> e1" "s2 \<le> e2"
      using "1.prems" c by auto
    have bc: "e2 \<le> fst c" "\<not> (s2 = e2 \<and> fst c = snd c \<and> s2 = fst c)"
      using w c compatible_sorted_pair [of ?b c] le by auto
    have "e1 \<le> fst c" using that(3) ab bc le by (meson order.trans)
    moreover have "\<not> (s1 = e1 \<and> fst c = snd c \<and> s1 = fst c)"
      using that(3) ab bc le by (metis order.antisym order.trans)
    ultimately show ?thesis using compatible_sorted_pair [of ?a c] le by auto
  qed
  show ?case
  proof (cases "compatible ?a ?b")
    case True
    then have ok: "\<not> s2 < e1" "\<not> (s1 = e1 \<and> s2 = e2 \<and> s1 = s2)" using ab by (auto simp: not_less)
    have eq1: "check_overlaps (?a # ?b # ks) = check_overlaps (?b # ks)"
      unfolding check_overlaps.simps(1) [of s1 e1] using ok by (simp only: if_False)
    have eq2: "check_overlaps (?b # ks) = None \<longleftrightarrow> sorted_wrt compatible (?b # ks)"
      using ok by (rule IH)
    have "\<forall>c \<in> set (?b # ks). compatible ?a c" if "sorted_wrt compatible (?b # ks)"
      using far [OF _ that True] True by simp
    then show ?thesis unfolding sorted_wrt.simps(2) [of compatible ?a] eq1 eq2 by blast
  next
    case False
    then have "s2 < e1 \<or> (s1 = e1 \<and> s2 = e2 \<and> s1 = s2)" unfolding ab not_less [symmetric] by blast
    then have "check_overlaps (?a # ?b # ks) \<noteq> None"
      by (auto simp: check_overlaps.simps(1) [of s1 e1])
    moreover have "\<not> sorted_wrt compatible (?a # ?b # ks)" using False by simp
    ultimately show ?thesis by blast
  qed
qed auto

lemma sorted_wrt_map_sort:
  "sorted_wrt compatible (map edit_key (go_sort_by edit_key es)) =
   sorted_wrt compatible (map edit_key es)"
  using sorted_wrt_sort_sym [of "\<lambda>a b. compatible (edit_key a) (edit_key b)" edit_key es]
  by (simp add: sorted_wrt_map compatible_sym)

lemma apply_replay:
  assumes "Apply r = Inr (out, recs)"
    and "length (source r) + (\<Sum>e\<leftarrow>edits r. length (newText e)) < 2 ^ 32"
  shows "run_edits (source r) (zip recs (map newText (go_sort_by edit_key (edits r)))) = out \<and>
    edits_ok (source r) (zip recs (map newText (go_sort_by edit_key (edits r)))) \<and>
    length recs = length (edits r)"
proof -
  let ?es = "go_sort_by edit_key (edits r)"
  have sum: "(\<Sum>e\<leftarrow>?es. length (newText e)) = (\<Sum>e\<leftarrow>edits r. length (newText e))"
    by (simp only: sum_mset_sum_list [symmetric] mset_map mset_go_sort_by)
  show ?thesis
  proof (cases "edits r = []")
    case True
    then show ?thesis using assms(1) by (simp add: Apply_def go_sort_by_def)
  next
    case False
    note ok = Apply_success [OF assms(1) False]
    have "fst (apply_loop (source r) ?es 0 [] zero_point []) = [] @ splice (source r) (unat (0 :: u32)) ?es"
      by (rule apply_loop_splice) (use ok(1) assms(2) in simp_all)
    then have out: "out = splice (source r) 0 ?es" by (simp add: ok(2) [symmetric])
    obtain recs' where
      "snd (apply_loop (source r) ?es 0 [] zero_point []) = [] @ recs'" "length recs' = length ?es"
      "run_edits (source r) (zip recs' (map newText ?es)) = splice (source r) 0 ?es"
      "edits_ok (source r) (zip recs' (map newText ?es))"
      using apply_loop_edits [of "source r" 0 ?es zero_point "[]" "[]"] ok(1) assms(2) sum by auto
    then show ?thesis by (simp add: ok(2) [symmetric] out)
  qed
qed

subsection \<open>Properties\<close>

text \<open>
  \<^bold>\<open>C1.\<close> When \<open>Apply\<close> succeeds, the \<open>InputEdit\<close> records it returns, run one after
  the other on the original source, produce exactly the returned new source, and every
  record's byte offsets and row/column points agree with the text at the moment it is run.
  The hypothesis bounds the source and the inserted text by the range of \<open>uint32\<close>.
\<close>

theorem rewrite_edits_replay:
  assumes "Apply r = Inr (out, recs)"
    and "length (source r) + (\<Sum>e\<leftarrow>edits r. length (newText e)) < 2 ^ 32"
  shows "run_edits (source r) (zip recs (map newText (go_sort_by edit_key (edits r)))) = out \<and>
    edits_ok (source r) (zip recs (map newText (go_sort_by edit_key (edits r)))) \<and>
    length recs = length (edits r)"
  using assms by (rule apply_replay)

text \<open>
  \<^bold>\<open>C22.\<close> The outcome of \<open>Apply\<close>, error value included, depends on the source and on the
  multiset of edits only: not on the order in which they were added, and not on how the
  unstable sort orders edits with equal ranges.
\<close>

theorem rewrite_order_irrelevant:
  assumes "mset (edits r1) = mset (edits r2)" and "source r1 = source r2"
    and "mset es = mset (edits r1)" and "sorted (map edit_key es)" and "edits r1 \<noteq> []"
  shows "Apply r1 = Apply r2 \<and> Apply r1 = apply_sorted (source r1) es"
proof
  show "Apply r1 = Apply r2"
    using assms apply_sorted_any_order
      [of "go_sort_by edit_key (edits r1)" "go_sort_by edit_key (edits r2)" "source r1"]
    by (auto simp: Apply_def sorted_go_sort_by)
  show "Apply r1 = apply_sorted (source r1) es"
    using assms(3-5) apply_sorted_any_order [of "go_sort_by edit_key (edits r1)" es "source r1"]
    by (simp add: Apply_def sorted_go_sort_by)
qed

text \<open>
  \<^bold>\<open>C23.\<close> \<open>Apply\<close> succeeds exactly when every edit range is ordered and inside the source
  and every two of the edits are compatible: the check of neighbours after sorting misses no
  overlapping pair and rejects no legal set of edits.
\<close>

theorem rewrite_apply_iff:
  "(\<exists>res. Apply r = Inr res) \<longleftrightarrow>
     (\<forall>e \<in> set (edits r). startByte e \<le> endByte e \<and> unat (endByte e) \<le> length (source r)) \<and>
     sorted_wrt compatible (map edit_key (edits r))"
proof (cases "edits r = []")
  case True
  then show ?thesis by (simp add: Apply_def)
next
  case False
  let ?ks = "map edit_key (go_sort_by edit_key (edits r))"
  have cr: "check_ranges (length (source r)) ?ks = None \<longleftrightarrow>
      (\<forall>e \<in> set (edits r). startByte e \<le> endByte e \<and> unat (endByte e) \<le> length (source r))"
    by (simp add: check_ranges_None) (simp add: edit_key_def)
  have "check_overlaps ?ks = None \<longleftrightarrow> sorted_wrt compatible (map edit_key (edits r))"
    if "check_ranges (length (source r)) ?ks = None"
  proof -
    have "\<forall>(s, e) \<in> set ?ks. s \<le> e" using that by (auto simp: check_ranges_None)
    from check_overlaps_iff [OF this sorted_go_sort_by] show ?thesis
      by (simp add: sorted_wrt_map_sort)
  qed
  then show ?thesis
    using False cr by (auto simp: Apply_def apply_sorted_def split: option.splits)
qed

definition sample_rewriter :: rewriter where
  "sample_rewriter =
     Delete (InsertAfter (Replace (NewRewriter [97, 98, 10, 99, 100]) (1, 2) [120, 10, 121]) (4, 4) [122])
       (2, 3)"

lemma sample_rewriter_result:
  "Apply sample_rewriter = Inr ([97, 120, 10, 121, 99, 122, 100],
     [\<lparr>eStartByte = 1, eOldEndByte = 2, eNewEndByte = 4,
       eStartPoint = \<lparr>Row = 0, Column = 1\<rparr>, eOldEndPoint = \<lparr>Row = 0, Column = 2\<rparr>,
       eNewEndPoint = \<lparr>Row = 1, Column = 1\<rparr>\<rparr>,
      \<lparr>eStartByte = 4, eOldEndByte = 5, eNewEndByte = 4,
       eStartPoint = \<lparr>Row = 1, Column = 1\<rparr>, eOldEndPoint = \<lparr>Row = 2, Column = 0\<rparr>,
       eNewEndPoint = \<lparr>Row = 1, Column = 1\<rparr>\<rparr>,
      \<lparr>eStartByte = 5, eOldEndByte = 5, eNewEndByte = 6,
       eStartPoint = \<lparr>Row = 1, Column = 2\<rparr>, eOldEndPoint = \<lparr>Row = 1, Column = 2\<rparr>,
       eNewEndPoint = \<lparr>Row = 1, Column = 3\<rparr>\<rparr>])"
  by (simp add: sample_rewriter_def NewRewriter_def Delete_def InsertAfter_def Replace_def add_edit_def
      Apply_def apply_sorted_def go_sort_by_def edit_key_def Let_def go_slice_def u32_of_def
      computeNewEndPoint_def point_step_def less_eq_prod_def)

theorem rewrite_edits_replay_witness:
  "\<exists>out recs. Apply sample_rewriter = Inr (out, recs) \<and> out = [97, 120, 10, 121, 99, 122, 100] \<and>
     run_edits (source sample_rewriter)
       (zip recs (map newText (go_sort_by edit_key (edits sample_rewriter)))) = out"
proof -
  have len: "length (source sample_rewriter) + (\<Sum>e\<leftarrow>edits sample_rewriter. length (newText e)) < 2 ^ 32"
    by (simp add: sample_rewriter_def NewRewriter_def Delete_def InsertAfter_def Replace_def add_edit_def)
  show ?thesis
    using rewrite_edits_replay [OF sample_rewriter_result len] sample_rewriter_result by blast
qed

theorem rewrite_order_irrelevant_witness:
  "Apply sample_rewriter = Apply (sample_rewriter\<lparr>edits := rev (edits sample_rewriter)\<rparr>)"
  using rewrite_order_irrelevant [of sample_rewriter "sample_rewriter\<lparr>edits := rev (edits sample_rewriter)\<rparr>"
      "go_sort_by edit_key (edits sample_rewriter)"]
  by (simp add: sorted_go_sort_by) (simp add: sample_rewriter_def Delete_def add_edit_def)

theorem rewrite_apply_iff_witness:
  "sorted_wrt compatible (map edit_key (edits sample_rewriter))"
  using rewrite_apply_iff [of sample_rewriter] sample_rewriter_result by blast

end
