(* ===== verification/Lex_Tables.thy ===== *)
theory Lex_Tables
  imports Go_Prelude
begin

text \<open>
  The tables of the table-driven lexer (\<open>language.go\<close>): DFA states and transitions, lex
  modes, the ASCII fast-path table built by \<open>buildLexAsciiTable\<close>, the keyword DFA walk
  \<open>lexKeywordSource\<close> (\<open>parser_dfa_token_source.go\<close>) and the prefilter that decides
  whether the walk is worth starting. The lemmas show that the fast path finds the
  transition the linear search finds, and that the prefilter rejects no keyword.
\<close>

unbundle bit_operations_syntax

record lex_transition =
  Lo :: rune
  Hi :: rune
  NextState :: int
  trSkip :: bool

record lex_state =
  AcceptToken :: u16
  AcceptPriority :: int
  Skip :: bool
  Default :: int
  onEOF :: int
  Transitions :: "lex_transition list"

record lex_mode =
  LexState :: u16
  ExternalLexState :: u16
  ReservedWordSetID :: u16
  AfterWhitespaceLexState :: u16
  LexStateID :: u32
  AfterWhitespaceLexStateID :: u32

definition LexStateIndex :: "lex_mode \<Rightarrow> u32" where
  "LexStateIndex m =
     (if LexStateID m \<noteq> 0 then LexStateID m
      else if LexState m = NOT 0 then NOT 0
      else ucast (LexState m))"

definition AfterWhitespaceLexStateIndex :: "lex_mode \<Rightarrow> u32" where
  "AfterWhitespaceLexStateIndex m =
     (if AfterWhitespaceLexStateID m \<noteq> 0 then AfterWhitespaceLexStateID m
      else if AfterWhitespaceLexState m = NOT 0 then NOT 0
      else ucast (AfterWhitespaceLexState m))"

definition SetLexStateIndex :: "lex_mode \<Rightarrow> u32 \<Rightarrow> lex_mode" where
  "SetLexStateIndex m idx =
     m\<lparr>LexStateID := idx, LexState := (if idx = NOT 0 then NOT 0 else ucast idx)\<rparr>"

definition SetAfterWhitespaceLexStateIndex :: "lex_mode \<Rightarrow> u32 \<Rightarrow> lex_mode" where
  "SetAfterWhitespaceLexStateIndex m idx =
     m\<lparr>AfterWhitespaceLexStateID := idx,
       AfterWhitespaceLexState := (if idx = NOT 0 then NOT 0 else ucast idx)\<rparr>"

record lex_mode_start =
  lexState :: u32
  afterWhitespaceLexState :: u32

definition LexModeStarts :: "lex_mode list \<Rightarrow> lex_mode_start list" where
  "LexModeStarts modes =
     map (\<lambda>m. \<lparr>lexState = LexStateIndex m,
               afterWhitespaceLexState = AfterWhitespaceLexStateIndex m\<rparr>) modes"

subsection \<open>The ASCII fast-path table\<close>

type_synonym ascii_table = "u32 list list"

definition lexAsciiNoMatch :: u32 where
  "lexAsciiNoMatch = 0x7FFFFFFF"

definition lexAsciiSkipBit :: u32 where
  "lexAsciiSkipBit = 0x80000000"

text \<open>The inner loop of \<open>buildLexAsciiTable\<close>, over the characters of one transition.\<close>

fun fill_row :: "u32 \<Rightarrow> nat list \<Rightarrow> u32 list \<times> int \<Rightarrow> u32 list \<times> int" where
  "fill_row v [] (row, remaining) = (row, remaining)"
| "fill_row v (c # cs) (row, remaining) =
     fill_row v cs (if row ! c = lexAsciiNoMatch then (row[c := v], remaining - 1) else (row, remaining))"

definition ascii_entry :: "lex_transition \<Rightarrow> u32" where
  "ascii_entry tr =
     (let v = word_of_int (NextState tr) in if trSkip tr then v OR lexAsciiSkipBit else v)"

definition ascii_span :: "lex_transition \<Rightarrow> nat list" where
  "ascii_span tr =
     (let lo = (if Lo tr < 0 then 0 else Lo tr);
          hi = (if Hi tr > 127 then 127 else Hi tr)
      in [nat lo..<Suc (nat hi)])"

fun ascii_row_loop :: "lex_transition list \<Rightarrow> u32 list \<times> int \<Rightarrow> u32 list" where
  "ascii_row_loop [] state = fst state"
| "ascii_row_loop (tr # trs) state =
     (if snd state = 0 then fst state
      else if Hi tr < 0 \<or> Lo tr \<ge> 128 then ascii_row_loop trs state
      else ascii_row_loop trs (fill_row (ascii_entry tr) (ascii_span tr) state))"

definition buildLexAsciiTable :: "lex_state list \<Rightarrow> ascii_table" where
  "buildLexAsciiTable states =
     map (\<lambda>st. ascii_row_loop (Transitions st) (replicate 128 lexAsciiNoMatch, 128)) states"

text \<open>The linear search for a transition, and the choice of the next state in the lexer's
  loops: the fast path for ASCII bytes when the table is there, then the default state.\<close>

fun match_transition :: "lex_transition list \<Rightarrow> rune \<Rightarrow> int \<times> bool" where
  "match_transition [] r = (- 1, False)"
| "match_transition (tr # trs) r =
     (if Lo tr \<le> r \<and> r \<le> Hi tr then (go_int32 (NextState tr), trSkip tr)
      else match_transition trs r)"

definition ascii_transition :: "u32 \<Rightarrow> int \<times> bool" where
  "ascii_transition v =
     (if v \<noteq> lexAsciiNoMatch then (sint (v AND NOT lexAsciiSkipBit), v AND lexAsciiSkipBit \<noteq> 0)
      else (- 1, False))"

definition lookup_transition ::
  "ascii_table option \<Rightarrow> int \<Rightarrow> lex_state \<Rightarrow> u8 \<Rightarrow> rune \<Rightarrow> int \<times> bool" where
  "lookup_transition tbl curState st b r =
     (case tbl of
        Some t \<Rightarrow>
          (if uint b < 0x80 \<and> curState < int (length t) then ascii_transition (t ! nat curState ! unat b)
           else match_transition (Transitions st) r)
      | None \<Rightarrow> match_transition (Transitions st) r)"

definition next_transition ::
  "ascii_table option \<Rightarrow> int \<Rightarrow> lex_state \<Rightarrow> u8 \<Rightarrow> rune \<Rightarrow> int \<times> bool" where
  "next_transition tbl curState st b r =
     (let (nextState, skipTransition) = lookup_transition tbl curState st b r
      in if nextState < 0 \<and> Default st \<ge> 0 then (go_int32 (Default st), False)
         else (nextState, skipTransition \<and> nextState \<ge> 0))"

text \<open>The rule for replacing the best match so far, given by its priority and its end.\<close>

fun better_accept :: "(int \<times> nat) option \<Rightarrow> int \<Rightarrow> nat \<Rightarrow> bool" where
  "better_accept None newPrio scanPos = True"
| "better_accept (Some (best, acceptPos)) newPrio scanPos =
     (newPrio < best \<or> newPrio = best \<and> acceptPos < scanPos)"

text \<open>The next rune of a source and its width: a single byte below \<open>0x80\<close>, else decoded.\<close>

definition rune_at :: "bytes \<Rightarrow> rune \<times> nat" where
  "rune_at bs = (if uint (hd bs) < 0x80 then (uint (hd bs), 1) else decode_rune bs)"

subsection \<open>The keyword DFA\<close>

record kw_scan =
  kState :: int
  kPos :: nat
  kAccept :: "(u16 \<times> bool \<times> int \<times> nat) option"
  kHops :: nat

definition kw_accept :: "lex_state \<Rightarrow> kw_scan \<Rightarrow> kw_scan" where
  "kw_accept st s =
     (if (AcceptToken st > 0 \<or> Skip st) \<and>
         better_accept (map_option (\<lambda>(_, _, p, n). (p, n)) (kAccept s)) (AcceptPriority st) (kPos s)
      then s\<lparr>kAccept := Some (AcceptToken st, Skip st, AcceptPriority st, kPos s)\<rparr>
      else s)"

text \<open>One round of the loop; \<open>False\<close> means that the loop breaks.\<close>

definition kw_step :: "lex_state list \<Rightarrow> bytes \<Rightarrow> kw_scan \<Rightarrow> kw_scan \<times> bool" where
  "kw_step states source s =
     (if kState s < 0 \<or> kState s \<ge> int (length states) then (s, False)
      else
        (let st = states ! nat (kState s); s1 = kw_accept st s in
         if kPos s1 \<ge> length source
         then (if onEOF st \<ge> 0 \<and> kHops s1 \<le> length states
               then (s1\<lparr>kState := go_int32 (onEOF st), kHops := kHops s1 + 1\<rparr>, True)
               else (s1, False))
         else
           (let s2 = s1\<lparr>kHops := 0\<rparr>;
                b = source ! kPos s2;
                (r, size) = rune_at (drop (kPos s2) source);
                (nextState, skipTransition) =
                  next_transition (Some (buildLexAsciiTable states)) (kState s2) st b r
            in if nextState < 0 then (s2, False)
               else
                 (let s3 = s2\<lparr>kPos := kPos s2 + size\<rparr>;
                      s4 = (if skipTransition then s3\<lparr>kAccept := None\<rparr> else s3)
                  in (s4\<lparr>kState := nextState\<rparr>, True)))))"

lemma rune_at_size: "bs \<noteq> [] \<Longrightarrow> 1 \<le> snd (rune_at bs) \<and> snd (rune_at bs) \<le> length bs"
  using decode_rune_size [of bs] by (cases bs) (auto simp: rune_at_def)

function kw_loop :: "lex_state list \<Rightarrow> bytes \<Rightarrow> kw_scan \<Rightarrow> kw_scan" where
  "kw_loop states source s =
     (case kw_step states source s of (s', continue) \<Rightarrow> if continue then kw_loop states source s' else s')"
  by pat_completeness auto

lemma kw_step_progress:
  assumes "kw_step states source s = (s', True)"
  shows "kPos s < length source \<and> kPos s < kPos s' \<and> kPos s' \<le> length source \<or>
    length source \<le> kPos s \<and> kPos s' = kPos s \<and> kHops s' = Suc (kHops s) \<and> kHops s \<le> length states"
proof -
  have pos [simp]: "kPos (kw_accept st s) = kPos s" "kHops (kw_accept st s) = kHops s" for st
    by (simp_all add: kw_accept_def)
  show ?thesis
    using assms rune_at_size [of "drop (kPos s) source"]
    by (auto simp: kw_step_def Let_def split: if_splits prod.splits)
qed

termination kw_loop
  by (relation "measures [\<lambda>(states, source, s). length source - kPos s,
      \<lambda>(states, source, s). length states + 1 - kHops s]")
    (auto dest!: kw_step_progress [OF sym])

declare kw_loop.simps [simp del]

text \<open>The symbol of the keyword that owns the source exactly, if there is one.\<close>

definition lexKeywordSource :: "lex_state list \<Rightarrow> bytes \<Rightarrow> u16 option" where
  "lexKeywordSource states source =
     (if states = [] then None
      else
        (case kAccept (kw_loop states source \<lparr>kState = 0, kPos = 0, kAccept = None, kHops = 0\<rparr>) of
           None \<Rightarrow> None
         | Some (acceptSymbol, acceptSkip, _, acceptPos) \<Rightarrow>
             (if acceptSymbol = 0 \<or> acceptSkip \<or> acceptPos \<noteq> length source then None
              else Some acceptSymbol)))"

subsection \<open>The keyword prefilter\<close>

type_synonym u64 = "64 word"

record kw_filter =
  allowAll :: bool
  hasAny :: bool
  first :: "u64 list"
  lengths :: "u64 list"

definition zero_filter :: kw_filter where
  "zero_filter = \<lparr>allowAll = False, hasAny = False, first = replicate 4 0, lengths = replicate 4 0\<rparr>"

definition allow_all_filter :: kw_filter where
  "allow_all_filter = zero_filter\<lparr>allowAll := True\<rparr>"

definition set_bit64 :: "u64 list \<Rightarrow> nat \<Rightarrow> u64 list" where
  "set_bit64 bits n = bits[n div 64 := bits ! (n div 64) OR push_bit (n mod 64) 1]"

definition test_bit64 :: "u64 list \<Rightarrow> nat \<Rightarrow> bool" where
  "test_bit64 bits n \<longleftrightarrow> bits ! (n div 64) AND push_bit (n mod 64) 1 \<noteq> 0"

text \<open>The loop over the transitions of one state: the filter with the first characters
  added, and the frames to append to the queue; \<open>None\<close> when the filter gives up.\<close>

fun kw_transitions ::
  "nat \<Rightarrow> lex_transition list \<Rightarrow> kw_filter \<Rightarrow> (kw_filter \<times> (int \<times> nat) list) option" where
  "kw_transitions depth [] f = Some (f, [])"
| "kw_transitions depth (tr # trs) f =
     (if NextState tr < 0 then kw_transitions depth trs f
      else if Lo tr < 0 \<or> Hi tr > 0x7F \<or> Hi tr < Lo tr then None
      else
        map_option (\<lambda>(g, queue). (g, (NextState tr, depth + 1) # queue))
          (kw_transitions depth trs
             (if depth = 0 then f\<lparr>first := fold (\<lambda>c bits. set_bit64 bits c) [nat (Lo tr)..<Suc (nat (Hi tr))] (first f)\<rparr>
              else f)))"

definition kw_mark :: "lex_state \<Rightarrow> nat \<Rightarrow> kw_filter \<Rightarrow> kw_filter" where
  "kw_mark st depth f =
     (if AcceptToken st \<noteq> 0 \<and> depth > 0
      then f\<lparr>hasAny := True, lengths := set_bit64 (lengths f) depth\<rparr> else f)"

function kw_bfs ::
  "lex_state list \<Rightarrow> (int \<times> nat) list \<Rightarrow> (int \<times> nat) set \<Rightarrow> kw_filter \<Rightarrow> kw_filter" where
  "kw_bfs states [] visited f = (if \<not> hasAny f then allow_all_filter else f)"
| "kw_bfs states ((q, depth) # queue) visited f =
     (if q < 0 \<or> q \<ge> int (length states) then allow_all_filter
      else if (q, depth) \<in> visited then kw_bfs states queue visited f
      else if depth > 255 then allow_all_filter
      else if Default (states ! nat q) \<ge> 0 then allow_all_filter
      else
        (case kw_transitions depth (Transitions (states ! nat q)) (kw_mark (states ! nat q) depth f) of
           None \<Rightarrow> allow_all_filter
         | Some (g, frames) \<Rightarrow> kw_bfs states (queue @ frames) (insert (q, depth) visited) g))"
  by pat_completeness auto

text \<open>Every round either shortens the queue or visits one more of finitely many frames.\<close>

definition kw_frames_left :: "nat \<Rightarrow> (int \<times> nat) set \<Rightarrow> nat" where
  "kw_frames_left n visited = card ({0..<int n} \<times> {0..255} - visited)"

lemma kw_frames_left_less:
  assumes "0 \<le> q" "q < int n" "depth \<le> 255" "(q, depth) \<notin> visited"
  shows "kw_frames_left n (insert (q, depth) visited) < kw_frames_left n visited"
proof -
  have "(q, depth) \<in> {0..<int n} \<times> {0..255} - visited" using assms by simp
  then have "{0..<int n} \<times> {0..255} - insert (q, depth) visited \<subset> {0..<int n} \<times> {0..255} - visited"
    by blast
  then show ?thesis unfolding kw_frames_left_def by (intro psubset_card_mono) auto
qed

termination kw_bfs
  by (relation "measures [\<lambda>(states, queue, visited, f). kw_frames_left (length states) visited,
      \<lambda>(states, queue, visited, f). length queue]")
    (auto simp: kw_frames_left_less)

declare kw_bfs.simps [simp del]

definition buildKeywordLexPrefilter :: "lex_state list \<Rightarrow> kw_filter" where
  "buildKeywordLexPrefilter states =
     (if states = [] then allow_all_filter else kw_bfs states [(0, 0)] {} zero_filter)"

definition keywordLexCouldMatch :: "lex_state list \<Rightarrow> bytes \<Rightarrow> nat \<Rightarrow> nat \<Rightarrow> bool" where
  "keywordLexCouldMatch states source start stop =
     (if states = [] then True
      else
        (let filter = buildKeywordLexPrefilter states; n = stop - start in
         if allowAll filter then True
         else if \<not> hasAny filter \<or> stop \<le> start \<or> stop > length source then False
         else if n \<ge> 256 then False
         else if \<not> test_bit64 (lengths filter) n then False
         else test_bit64 (first filter) (unat (source ! start))))"

subsection \<open>Lemmas: the fast path\<close>

text \<open>Tables as the grammar compiler writes them: state numbers that fit below the
  \<open>lexAsciiNoMatch\<close> marker.\<close>

definition transitions_ok :: "lex_transition list \<Rightarrow> bool" where
  "transitions_ok trs \<longleftrightarrow> (\<forall>tr \<in> set trs. 0 \<le> NextState tr \<and> NextState tr < 0x7FFFFFFF)"

definition lex_states_ok :: "lex_state list \<Rightarrow> bool" where
  "lex_states_ok states \<longleftrightarrow> (\<forall>st \<in> set states. transitions_ok (Transitions st))"

lemma ascii_entry_read:
  assumes "0 \<le> NextState tr" "NextState tr < 0x7FFFFFFF"
  shows "ascii_entry tr \<noteq> lexAsciiNoMatch"
    and "ascii_transition (ascii_entry tr) = (go_int32 (NextState tr), trSkip tr)"
proof -
  define v :: u32 where "v = word_of_int (NextState tr)"
  have uv: "uint v = NextState tr"
    using assms by (simp add: v_def unsigned_of_int take_bit_int_eq_self)
  have low: "\<not> bit v 31"
  proof -
    have "\<not> bit (uint v) 31" using assms uv by (simp add: bit_iff_odd)
    then show ?thesis by (simp add: bit_uint_iff)
  qed
  have skip: "bit lexAsciiSkipBit n \<longleftrightarrow> n = 31" for n
  proof -
    have "lexAsciiSkipBit = 2 ^ 31" by (simp add: lexAsciiSkipBit_def)
    then have "bit lexAsciiSkipBit n \<longleftrightarrow> bit (2 ^ 31 :: u32) n" by (simp only:)
    also have "\<dots> \<longleftrightarrow> n = 31" unfolding bit_exp_iff by auto
    finally show ?thesis .
  qed
  have clear: "v AND NOT lexAsciiSkipBit = v" "(v OR lexAsciiSkipBit) AND NOT lexAsciiSkipBit = v"
    using low by (auto intro!: bit_word_eqI simp: bit_and_iff bit_or_iff bit_not_iff skip)
  have mask: "v AND lexAsciiSkipBit = 0" "(v OR lexAsciiSkipBit) AND lexAsciiSkipBit = lexAsciiSkipBit"
    using low by (auto intro!: bit_word_eqI simp: bit_and_iff bit_or_iff skip)
  have sv: "sint v = NextState tr"
    using assms by (simp add: v_def signed_of_int signed_take_bit_int_eq_self)
  have ne: "v \<noteq> lexAsciiNoMatch"
    using assms uv by (auto simp: lexAsciiNoMatch_def)
  have ne': "v OR lexAsciiSkipBit \<noteq> lexAsciiNoMatch"
  proof
    assume "v OR lexAsciiSkipBit = lexAsciiNoMatch"
    with mask(2) have "lexAsciiNoMatch AND lexAsciiSkipBit = lexAsciiSkipBit" by simp
    then show False by (simp add: lexAsciiNoMatch_def lexAsciiSkipBit_def)
  qed
  have "lexAsciiSkipBit \<noteq> 0" by (simp add: lexAsciiSkipBit_def)
  then show "ascii_entry tr \<noteq> lexAsciiNoMatch"
    and "ascii_transition (ascii_entry tr) = (go_int32 (NextState tr), trSkip tr)"
    using ne ne' clear mask sv assms
    by (simp_all add: ascii_entry_def ascii_transition_def Let_def v_def [symmetric] go_int32_id)
qed

text \<open>The entry of a character after some transitions have been written: that of the first
  transition that matches it.\<close>

fun first_entry :: "lex_transition list \<Rightarrow> nat \<Rightarrow> u32" where
  "first_entry [] c = lexAsciiNoMatch"
| "first_entry (tr # trs) c = (if Lo tr \<le> int c \<and> int c \<le> Hi tr then ascii_entry tr else first_entry trs c)"

lemma first_entry_match:
  "transitions_ok trs \<Longrightarrow> ascii_transition (first_entry trs c) = match_transition trs (int c)"
  by (induction trs) (auto simp: transitions_ok_def ascii_entry_read ascii_transition_def [of lexAsciiNoMatch])

definition unset :: "u32 list \<Rightarrow> int" where
  "unset row = int (length (filter (\<lambda>v. v = lexAsciiNoMatch) row))"

lemma fill_row_spec:
  assumes "v \<noteq> lexAsciiNoMatch" "\<forall>c \<in> set cs. c < length row"
  shows "length (fst (fill_row v cs (row, remaining))) = length row \<and>
    (\<forall>c < length row. fst (fill_row v cs (row, remaining)) ! c =
       (if c \<in> set cs \<and> row ! c = lexAsciiNoMatch then v else row ! c)) \<and>
    (remaining = unset row \<longrightarrow> snd (fill_row v cs (row, remaining)) = unset (fst (fill_row v cs (row, remaining))))"
  using assms(2)
proof (induction cs arbitrary: row remaining)
  case Nil
  then show ?case by simp
next
  case (Cons c cs)
  show ?case
  proof (cases "row ! c = lexAsciiNoMatch")
    case True
    have "unset (row[c := v]) = unset row - 1"
    proof -
      have row: "row = take c row @ row ! c # drop (Suc c) row" using Cons.prems by (simp add: id_take_nth_drop)
      have upd: "row[c := v] = take c row @ v # drop (Suc c) row" using Cons.prems by (simp add: upd_conv_take_nth_drop)
      have "unset row = unset (take c row) + 1 + unset (drop (Suc c) row)"
        by (subst row) (simp add: unset_def True)
      then show ?thesis unfolding upd using assms(1) by (simp add: unset_def)
    qed
    then show ?thesis
      using Cons.IH [of "row[c := v]" "remaining - 1"] Cons.prems True assms(1) by (auto simp: nth_list_update)
  next
    case False
    then show ?thesis using Cons.IH [of row remaining] Cons.prems by auto
  qed
qed

lemma ascii_row_loop_spec:
  assumes "transitions_ok trs" "length row = 128" "remaining = unset row" "c < 128"
  shows "ascii_row_loop trs (row, remaining) ! c =
    (if row ! c = lexAsciiNoMatch then first_entry trs c else row ! c)"
  using assms
proof (induction trs arbitrary: row remaining)
  case Nil
  then show ?case by simp
next
  case (Cons tr trs)
  have ok: "transitions_ok trs" "ascii_entry tr \<noteq> lexAsciiNoMatch"
    using Cons.prems(1) by (auto simp: transitions_ok_def ascii_entry_read)
  consider "remaining = 0" | "remaining \<noteq> 0" "Hi tr < 0 \<or> Lo tr \<ge> 128"
    | "remaining \<noteq> 0" "\<not> (Hi tr < 0 \<or> Lo tr \<ge> 128)" by blast
  then show ?case
  proof cases
    case 1
    then have "row ! c \<noteq> lexAsciiNoMatch"
      using Cons.prems by (simp add: unset_def filter_empty_conv)
    then show ?thesis using 1 by simp
  next
    case 2
    then show ?thesis using Cons.IH [OF ok(1) Cons.prems(2-4)] Cons.prems(4) by auto
  next
    case 3
    have mem: "x \<in> set (ascii_span tr) \<longleftrightarrow> Lo tr \<le> int x \<and> int x \<le> Hi tr \<and> x < 128" for x
      using 3 by (auto simp: ascii_span_def Let_def)
    obtain row' rem' where fr: "fill_row (ascii_entry tr) (ascii_span tr) (row, remaining) = (row', rem')"
      by fastforce
    have "length row' = 128 \<and> rem' = unset row' \<and>
        row' ! c = (if c \<in> set (ascii_span tr) \<and> row ! c = lexAsciiNoMatch then ascii_entry tr else row ! c)"
      using fill_row_spec [OF ok(2), of "ascii_span tr" row remaining] Cons.prems(2-4) mem fr by auto
    then show ?thesis
      using 3 fr Cons.IH [OF ok(1), of row' rem'] Cons.prems(4) ok(2) mem by auto
  qed
qed

lemma buildLexAsciiTable_entry:
  assumes "lex_states_ok states" "q < length states" "c < 128"
  shows "ascii_transition (buildLexAsciiTable states ! q ! c) = match_transition (Transitions (states ! q)) (int c)"
proof -
  have ok: "transitions_ok (Transitions (states ! q))" using assms by (simp add: lex_states_ok_def)
  have "buildLexAsciiTable states ! q ! c = first_entry (Transitions (states ! q)) c"
    using ascii_row_loop_spec [OF ok, of "replicate 128 lexAsciiNoMatch" 128 c] assms
    by (simp add: buildLexAsciiTable_def unset_def)
  then show ?thesis using first_entry_match [OF ok] by simp
qed

lemma lookup_transition_ascii:
  assumes "lex_states_ok states" "0 \<le> q" "q < int (length states)" "uint b < 0x80 \<longrightarrow> r = uint b"
  shows "lookup_transition (Some (buildLexAsciiTable states)) q (states ! nat q) b r =
    lookup_transition None q (states ! nat q) b r"
proof (cases "uint b < 0x80")
  case True
  have ub: "int (unat b) = uint b" by simp
  then have "unat b < 128" using True by linarith
  then show ?thesis
    using assms(2-4) True buildLexAsciiTable_entry [OF assms(1), of "nat q" "unat b"]
    by (simp add: lookup_transition_def ub buildLexAsciiTable_def)
next
  case False
  then show ?thesis by (simp add: lookup_transition_def)
qed

lemma next_transition_ascii:
  assumes "lex_states_ok states" "0 \<le> q" "q < int (length states)" "uint b < 0x80 \<longrightarrow> r = uint b"
  shows "next_transition (Some (buildLexAsciiTable states)) q (states ! nat q) b r =
    next_transition None q (states ! nat q) b r"
  by (simp add: next_transition_def lookup_transition_ascii [OF assms])

subsection \<open>Lemmas: the keyword prefilter\<close>

lemma test_bit64_iff: "test_bit64 bits n \<longleftrightarrow> bit (bits ! (n div 64)) (n mod 64)"
  by (simp add: test_bit64_def bit_iff_and_push_bit_not_eq_0)

lemma length_set_bit64 [simp]: "length (set_bit64 bits n) = length bits"
  by (simp add: set_bit64_def)

lemma test_set_bit64:
  assumes "length bits = 4" "m < 256" "n < 256"
  shows "test_bit64 (set_bit64 bits m) n \<longleftrightarrow> n = m \<or> test_bit64 bits n"
proof (cases "m div 64 = n div 64")
  case True
  have "m mod 64 = n mod 64 \<longleftrightarrow> n = m" using True by (metis div_mult_mod_eq)
  then show ?thesis
    using True assms
    by (auto simp: test_bit64_iff set_bit64_def bit_or_iff bit_exp_iff)
next
  case False
  then show ?thesis using assms by (auto simp: test_bit64_iff set_bit64_def)
qed

lemma test_fold_set_bit64:
  assumes "length bits = 4" "\<forall>c \<in> set cs. c < 256" "n < 256"
  shows "length (fold (\<lambda>c bits. set_bit64 bits c) cs bits) = 4 \<and>
    (test_bit64 (fold (\<lambda>c bits. set_bit64 bits c) cs bits) n \<longleftrightarrow> n \<in> set cs \<or> test_bit64 bits n)"
  using assms by (induction cs arbitrary: bits) (auto simp: test_set_bit64)

text \<open>What the filter \<open>f\<close> records for a frame whose successors are in \<open>P\<close>.\<close>

definition transition_recorded :: "kw_filter \<Rightarrow> nat \<Rightarrow> (int \<times> nat) set \<Rightarrow> lex_transition \<Rightarrow> bool" where
  "transition_recorded f d P tr \<longleftrightarrow>
     (NextState tr \<ge> 0 \<longrightarrow> 0 \<le> Lo tr \<and> Hi tr \<le> 127 \<and> (NextState tr, d + 1) \<in> P \<and>
        (d = 0 \<longrightarrow> (\<forall>c. Lo tr \<le> int c \<and> int c \<le> Hi tr \<longrightarrow> test_bit64 (first f) c)))"

definition frame_recorded :: "lex_state list \<Rightarrow> kw_filter \<Rightarrow> (int \<times> nat) set \<Rightarrow> int \<times> nat \<Rightarrow> bool" where
  "frame_recorded states f P = (\<lambda>(q, d). 0 \<le> q \<and> q < int (length states) \<and> d \<le> 255 \<and>
     Default (states ! nat q) < 0 \<and>
     (AcceptToken (states ! nat q) \<noteq> 0 \<and> d > 0 \<longrightarrow> test_bit64 (lengths f) d) \<and>
     (\<forall>tr \<in> set (Transitions (states ! nat q)). transition_recorded f d P tr))"

definition filter_extends :: "kw_filter \<Rightarrow> kw_filter \<Rightarrow> bool" where
  "filter_extends f g \<longleftrightarrow> length (first g) = 4 \<and> length (lengths g) = 4 \<and> allowAll g = allowAll f \<and>
     (\<forall>n < 256. test_bit64 (first f) n \<longrightarrow> test_bit64 (first g) n) \<and>
     (\<forall>n < 256. test_bit64 (lengths f) n \<longrightarrow> test_bit64 (lengths g) n)"

lemma frame_recorded_mono:
  assumes "frame_recorded states f P x" "filter_extends f g" "P \<subseteq> Q"
  shows "frame_recorded states g Q x"
  using assms
  by (auto simp: frame_recorded_def transition_recorded_def filter_extends_def subset_eq split: prod.splits)

lemma kw_transitions_spec:
  assumes "kw_transitions d trs f = Some (g, frames)" "length (first f) = 4" "length (lengths f) = 4"
  shows "filter_extends f g \<and> (\<forall>tr \<in> set trs. transition_recorded g d (set frames) tr)"
  using assms
proof (induction trs arbitrary: f g frames)
  case Nil
  then show ?case by (simp add: filter_extends_def)
next
  case (Cons tr trs)
  show ?case
  proof (cases "NextState tr < 0")
    case True
    then show ?thesis using Cons by (auto simp: transition_recorded_def)
  next
    case False
    define cs where "cs = [nat (Lo tr)..<Suc (nat (Hi tr))]"
    define f1 where "f1 = (if d = 0 then f\<lparr>first := fold (\<lambda>c bits. set_bit64 bits c) cs (first f)\<rparr> else f)"
    obtain frames' where rest: "kw_transitions d trs f1 = Some (g, frames')"
      and frames: "frames = (NextState tr, d + 1) # frames'" and bounds: "0 \<le> Lo tr" "Hi tr \<le> 127"
      using Cons.prems(1) False by (auto simp: cs_def [symmetric] f1_def simp del: upt_Suc split: if_splits)
    have "\<forall>c \<in> set cs. c < 256" using bounds by (auto simp: cs_def)
    note fold = test_fold_set_bit64 [OF Cons.prems(2) this]
    have len: "length (first f1) = 4" "length (lengths f1) = 4" "filter_extends f f1"
      using Cons.prems(2,3) fold [of 0] fold by (auto simp: f1_def filter_extends_def)
    have first: "test_bit64 (first f1) c" if "d = 0" "Lo tr \<le> int c" "int c \<le> Hi tr" for c
    proof -
      have "c \<in> set cs" "c < 256" using that bounds by (auto simp: cs_def)
      then show ?thesis using fold [of c] that(1) by (simp add: f1_def)
    qed
    have IH: "filter_extends f1 g" "\<forall>tr \<in> set trs. transition_recorded g d (set frames') tr"
      using Cons.IH [OF rest len(1,2)] by auto
    have "transition_recorded g d (set frames) tr"
      using first IH(1) bounds frames by (auto simp: transition_recorded_def filter_extends_def)
    moreover have "filter_extends f g" using len(3) IH(1) by (auto simp: filter_extends_def)
    moreover have "transition_recorded g d (set frames) t" if "t \<in> set trs" for t
      using IH(2) that frames by (auto simp: transition_recorded_def)
    ultimately show ?thesis by simp
  qed
qed

lemma kw_mark_extends:
  assumes "length (first f) = 4" "length (lengths f) = 4" "d \<le> 255"
  shows "filter_extends f (kw_mark st d f)"
    and "AcceptToken st \<noteq> 0 \<Longrightarrow> d > 0 \<Longrightarrow> test_bit64 (lengths (kw_mark st d f)) d"
  using assms by (auto simp: kw_mark_def filter_extends_def test_set_bit64)

lemma kw_bfs_closed:
  assumes "length (first f) = 4" "length (lengths f) = 4"
    and "\<forall>x \<in> visited. frame_recorded states f (visited \<union> set queue) x"
    and "\<not> allowAll (kw_bfs states queue visited f)"
  shows "\<exists>V. visited \<union> set queue \<subseteq> V \<and> hasAny (kw_bfs states queue visited f) \<and>
    (\<forall>x \<in> V. frame_recorded states (kw_bfs states queue visited f) V x)"
  using assms
proof (induction states queue visited f rule: kw_bfs.induct)
  case (1 states visited f)
  have "kw_bfs states [] visited f = f"
    using 1(4) by (auto simp: kw_bfs.simps allow_all_filter_def split: if_splits)
  moreover have "hasAny f" using 1(4) by (auto simp: kw_bfs.simps allow_all_filter_def split: if_splits)
  ultimately show ?case using 1(3) by auto
next
  case (2 states q d queue visited f)
  let ?st = "states ! nat q"
  have na: "\<not> allowAll allow_all_filter \<Longrightarrow> P" for P by (simp add: allow_all_filter_def)
  have ok: "\<not> (q < 0 \<or> q \<ge> int (length states))"
    using 2(6) na by (auto simp: kw_bfs.simps split: if_splits)
  show ?case
  proof (cases "(q, d) \<in> visited")
    case True
    have eq: "kw_bfs states ((q, d) # queue) visited f = kw_bfs states queue visited f"
      using ok True by (simp add: kw_bfs.simps)
    have "visited \<union> set ((q, d) # queue) = visited \<union> set queue" using True by auto
    then show ?thesis using 2(1) [OF ok True] 2(3-6) unfolding eq by auto
  next
    case False
    have d: "\<not> d > 255" "\<not> Default ?st \<ge> 0"
      using 2(6) na ok False by (auto simp: kw_bfs.simps split: if_splits)
    obtain g frames where tr: "kw_transitions d (Transitions ?st) (kw_mark ?st d f) = Some (g, frames)"
      using 2(6) na ok False d by (auto simp: kw_bfs.simps split: if_splits option.splits)
    have eq: "kw_bfs states ((q, d) # queue) visited f =
        kw_bfs states (queue @ frames) (insert (q, d) visited) g"
      using ok False d tr by (simp add: kw_bfs.simps)
    have mark: "filter_extends f (kw_mark ?st d f)" using kw_mark_extends 2(3,4) d by simp
    have g: "filter_extends (kw_mark ?st d f) g"
      "\<forall>t \<in> set (Transitions ?st). transition_recorded g d (set frames) t"
      using kw_transitions_spec [OF tr] mark by (auto simp: filter_extends_def)
    have fg: "filter_extends f g" using mark g(1) by (auto simp: filter_extends_def)
    have "frame_recorded states g (set frames) (q, d)"
      using ok d g kw_mark_extends(2) [OF 2(3,4), of d ?st]
      by (auto simp: frame_recorded_def filter_extends_def)
    moreover have "filter_extends g g" using fg by (simp add: filter_extends_def)
    ultimately have "frame_recorded states g (insert (q, d) visited \<union> set (queue @ frames)) (q, d)"
      by (rule frame_recorded_mono) auto
    moreover have "frame_recorded states g (insert (q, d) visited \<union> set (queue @ frames)) x"
      if "x \<in> visited" for x
      by (rule frame_recorded_mono [OF bspec [OF 2(5) that] fg]) auto
    ultimately have "\<forall>x \<in> insert (q, d) visited.
        frame_recorded states g (insert (q, d) visited \<union> set (queue @ frames)) x" by blast
    then show ?thesis
      using 2(2) [OF ok False d tr refl] 2(6) fg unfolding eq by (auto simp: filter_extends_def)
  qed
qed

text \<open>The walk of \<open>lexKeywordSource\<close> stays inside the frames the filter has recorded.\<close>

definition kw_walk_ok ::
  "lex_state list \<Rightarrow> kw_filter \<Rightarrow> (int \<times> nat) set \<Rightarrow> bytes \<Rightarrow> kw_scan \<Rightarrow> bool" where
  "kw_walk_ok states f V source s \<longleftrightarrow>
     (kState s, kPos s) \<in> V \<and> kPos s \<le> length source \<and>
     (kPos s > 0 \<longrightarrow> test_bit64 (first f) (unat (source ! 0))) \<and>
     (case kAccept s of None \<Rightarrow> True
      | Some (symbol, skip, p, n) \<Rightarrow>
          n \<le> kPos s \<and> n < 256 \<and> (symbol \<noteq> 0 \<and> n > 0 \<longrightarrow> test_bit64 (lengths f) n))"

lemma match_transition_found:
  "0 \<le> fst (match_transition trs r) \<Longrightarrow>
     \<exists>tr \<in> set trs. Lo tr \<le> r \<and> r \<le> Hi tr \<and> match_transition trs r = (go_int32 (NextState tr), trSkip tr)"
  by (induction trs) auto

lemma next_transition_found:
  assumes "next_transition None q st b r = (n, sk)" "0 \<le> n" "Default st < 0"
  shows "\<exists>tr \<in> set (Transitions st). Lo tr \<le> r \<and> r \<le> Hi tr \<and> n = go_int32 (NextState tr)"
  using assms match_transition_found [of "Transitions st" r]
  by (force simp: next_transition_def lookup_transition_def split: if_splits prod.splits)

lemma rune_at_ascii: "uint (hd bs) < 0x80 \<Longrightarrow> rune_at bs = (uint (hd bs), 1)"
  by (simp add: rune_at_def)

lemma rune_at_low:
  assumes "bs \<noteq> []" "fst (rune_at bs) < 0x80"
  shows "rune_at bs = (uint (hd bs), 1)" and "uint (hd bs) < 0x80"
  using assms decode_rune_high [of "hd bs" "tl bs"] by (auto simp: rune_at_def split: if_splits)

lemma kw_accept_walk:
  assumes "kw_walk_ok states f V source s" "frame_recorded states f V (kState s, kPos s)"
  shows "kw_walk_ok states f V source (kw_accept (states ! nat (kState s)) s)"
  using assms
  by (auto simp: kw_walk_ok_def kw_accept_def frame_recorded_def word_gt_0 split: option.splits prod.splits)

lemma kw_step_walk:
  assumes ok: "lex_states_ok states" "\<forall>st \<in> set states. onEOF st < 0"
    and closed: "\<forall>x \<in> V. frame_recorded states f V x"
    and walk: "kw_walk_ok states f V source s"
    and step: "kw_step states source s = (s', cont)"
  shows "kw_walk_ok states f V source s'"
proof -
  let ?st = "states ! nat (kState s)" and ?bs = "drop (kPos s) source"
  have rec: "frame_recorded states f V (kState s, kPos s)"
    using walk closed by (simp add: kw_walk_ok_def)
  then have q: "0 \<le> kState s" "kState s < int (length states)" "Default ?st < 0"
    by (auto simp: frame_recorded_def)
  have eof: "onEOF ?st < 0" using ok(2) q by simp
  define s1 where "s1 = kw_accept ?st s"
  have s1: "kw_walk_ok states f V source s1" unfolding s1_def using kw_accept_walk [OF walk rec] .
  have same [simp]: "kState s1 = kState s" "kPos s1 = kPos s" by (simp_all add: s1_def kw_accept_def)
  show ?thesis
  proof (cases "kPos s < length source")
    case False
    then have "s' = s1" using step q eof by (auto simp: kw_step_def Let_def s1_def [symmetric])
    then show ?thesis using s1 by simp
  next
    case True
    then have ne: "?bs \<noteq> []" and hd: "hd ?bs = source ! kPos s" by (simp_all add: hd_drop_conv_nth)
    obtain r size where ra: "rune_at ?bs = (r, size)" by fastforce
    obtain n sk where nt: "next_transition (Some (buildLexAsciiTable states)) (kState s) ?st (source ! kPos s) r = (n, sk)"
      by fastforce
    have "uint (source ! kPos s) < 0x80 \<longrightarrow> r = uint (source ! kPos s)"
      using ra rune_at_ascii [of ?bs] hd by auto
    from next_transition_ascii [OF ok(1) q(1,2) this] nt
    have nt': "next_transition None (kState s) ?st (source ! kPos s) r = (n, sk)" by simp
    have s': "s' = (if n < 0 then s1\<lparr>kHops := 0\<rparr>
        else (let s3 = s1\<lparr>kHops := 0, kPos := kPos s + size\<rparr>;
                  s4 = (if sk then s3\<lparr>kAccept := None\<rparr> else s3) in s4\<lparr>kState := n\<rparr>))"
      using step q True ra nt by (auto simp: kw_step_def Let_def s1_def [symmetric] split: if_splits)
    show ?thesis
    proof (cases "n < 0")
      case True
      then show ?thesis using s1 s' by (auto simp: kw_walk_ok_def split: option.splits)
    next
      case False
      obtain tr where tr: "tr \<in> set (Transitions ?st)" "Lo tr \<le> r" "r \<le> Hi tr" "n = go_int32 (NextState tr)"
        using next_transition_found [OF nt' _ q(3)] False by auto
      have "0 \<le> NextState tr \<and> NextState tr < 0x7FFFFFFF"
        using ok(1) tr(1) q by (auto simp: lex_states_ok_def transitions_ok_def)
      then have n: "n = NextState tr" "0 \<le> NextState tr" using tr(4) by (simp_all add: go_int32_id)
      have trec: "transition_recorded f (kPos s) V tr" using rec tr(1) by (simp add: frame_recorded_def)
      then have "r < 0x80" using n(2) tr by (simp add: transition_recorded_def)
      then have low: "size = 1" "r = uint (source ! kPos s)"
        using rune_at_low [OF ne] ra hd by auto
      have "(n, kPos s + 1) \<in> V" using trec n by (simp add: transition_recorded_def)
      moreover have "test_bit64 (first f) (unat (source ! 0))"
      proof (cases "kPos s = 0")
        case True
        then have "Lo tr \<le> int (unat (source ! 0)) \<and> int (unat (source ! 0)) \<le> Hi tr"
          using tr low by simp
        then show ?thesis using trec n(2) True by (simp add: transition_recorded_def)
      next
        case False
        then show ?thesis using walk by (simp add: kw_walk_ok_def)
      qed
      ultimately show ?thesis
        using s1 s' False low(1) True by (auto simp: kw_walk_ok_def Let_def split: option.splits)
    qed
  qed
qed

lemma kw_loop_walk:
  assumes "lex_states_ok states" "\<forall>st \<in> set states. onEOF st < 0"
    and "\<forall>x \<in> V. frame_recorded states f V x" and "kw_walk_ok states f V source s"
  shows "kw_walk_ok states f V source (kw_loop states source s)"
  using assms
proof (induction states source s rule: kw_loop.induct)
  case (1 states source s)
  obtain s' cont where step: "kw_step states source s = (s', cont)" by fastforce
  have "kw_walk_ok states f V source s'" using kw_step_walk [OF 1(2-5) step] .
  then show ?case using 1(1) [OF step [symmetric]] 1(2-4) step by (subst kw_loop.simps) auto
qed

lemma lexKeywordSource_could_match:
  assumes ok: "lex_states_ok states" "\<forall>st \<in> set states. onEOF st < 0"
    and span: "start < stop" "stop \<le> length source"
    and lexed: "lexKeywordSource states (go_slice source start stop) = Some symbol"
  shows "keywordLexCouldMatch states source start stop"
proof (cases "allowAll (buildKeywordLexPrefilter states)")
  case True
  then show ?thesis by (simp add: keywordLexCouldMatch_def)
next
  case False
  let ?f = "buildKeywordLexPrefilter states" and ?src = "go_slice source start stop"
  define s0 where "s0 = \<lparr>kState = 0, kPos = 0, kAccept = None, kHops = 0\<rparr>"
  have ne: "states \<noteq> []" using lexed by (auto simp: lexKeywordSource_def)
  then have f: "?f = kw_bfs states [(0, 0)] {} zero_filter" by (simp add: buildKeywordLexPrefilter_def)
  obtain V where V: "(0, 0) \<in> V" "hasAny ?f" "\<forall>x \<in> V. frame_recorded states ?f V x"
    using kw_bfs_closed [of zero_filter "{}" states "[(0, 0)]"] False
    unfolding f by (auto simp: zero_filter_def)
  have "kw_walk_ok states ?f V ?src (kw_loop states ?src s0)"
    by (rule kw_loop_walk [OF ok V(3)]) (simp add: kw_walk_ok_def V(1) s0_def)
  moreover obtain p where "kAccept (kw_loop states ?src s0) = Some (symbol, False, p, length ?src)"
    and "symbol \<noteq> 0"
    using lexed ne by (auto simp: lexKeywordSource_def s0_def [symmetric] split: option.splits if_splits)
  ultimately have "test_bit64 (lengths ?f) (stop - start)" "stop - start < 256"
    "test_bit64 (first ?f) (unat (?src ! 0))"
    using span by (auto simp: kw_walk_ok_def)
  moreover have "?src ! 0 = source ! start" using nth_go_slice [of 0 stop start source] span by simp
  ultimately show ?thesis using span V(2) by (simp add: keywordLexCouldMatch_def Let_def)
qed

subsection \<open>Properties\<close>

text \<open>
  \<^bold>\<open>C19.\<close> The ASCII fast path is an optimisation only: with the table that
  \<open>buildLexAsciiTable\<close> builds, the lexer chooses in every state and for every rune the same
  next state and the same skip flag as the linear search through the transitions, default
  state included, provided the state numbers in the table stay below the \<open>lexAsciiNoMatch\<close>
  marker.
\<close>

theorem ascii_table_equiv:
  assumes "lex_states_ok states" and "0 \<le> curState" and "curState < int (length states)"
    and "bs \<noteq> []"
  shows "next_transition (Some (buildLexAsciiTable states)) curState (states ! nat curState)
      (hd bs) (fst (rune_at bs)) =
    next_transition None curState (states ! nat curState) (hd bs) (fst (rune_at bs))"
  by (rule next_transition_ascii [OF assms(1-3)]) (simp add: rune_at_ascii)

definition sample_dfa :: "lex_state list" where
  "sample_dfa =
     [\<lparr>AcceptToken = 0, AcceptPriority = 0, Skip = False, Default = - 1, onEOF = - 1,
       Transitions = [\<lparr>Lo = 32, Hi = 32, NextState = 0, trSkip = True\<rparr>,
         \<lparr>Lo = 105, Hi = 105, NextState = 1, trSkip = False\<rparr>]\<rparr>,
      \<lparr>AcceptToken = 0, AcceptPriority = 0, Skip = False, Default = - 1, onEOF = - 1,
       Transitions = [\<lparr>Lo = 102, Hi = 102, NextState = 2, trSkip = False\<rparr>]\<rparr>,
      \<lparr>AcceptToken = 7, AcceptPriority = 0, Skip = False, Default = - 1, onEOF = - 1,
       Transitions = []\<rparr>]"

lemma sample_dfa_ok: "lex_states_ok sample_dfa" "\<forall>st \<in> set sample_dfa. onEOF st < 0"
  by (simp_all add: sample_dfa_def lex_states_ok_def transitions_ok_def)

theorem ascii_table_equiv_witness:
  "next_transition (Some (buildLexAsciiTable sample_dfa)) 0 (sample_dfa ! 0) 32 32 = (0, True)"
  using ascii_table_equiv [OF sample_dfa_ok(1), of 0 "[32]"]
  by (simp add: rune_at_def sample_dfa_def next_transition_def lookup_transition_def go_int32_def)

text \<open>
  \<^bold>\<open>C20.\<close> The keyword prefilter blocks no keyword of a keyword DFA without transitions on end of
  input: when such a DFA recognises the bytes of a non-empty captured word, with or without a
  skipped prefix, \<open>keywordLexCouldMatch\<close> answers yes for that word. With such transitions it can
  block a keyword: see \<open>keyword_prefilter_eof_gap\<close> below.
\<close>

theorem keyword_prefilter_complete:
  assumes "lex_states_ok states" and "\<forall>st \<in> set states. onEOF st < 0"
    and "start < stop" and "stop \<le> length source"
    and "lexKeywordSource states (go_slice source start stop) = Some symbol"
  shows "keywordLexCouldMatch states source start stop"
  using assms by (rule lexKeywordSource_could_match)

lemma sample_keyword: "lexKeywordSource sample_dfa [105, 102] = Some 7"
  by code_simp

theorem keyword_prefilter_complete_witness:
  "keywordLexCouldMatch sample_dfa [120, 105, 102] 1 3"
  by (rule keyword_prefilter_complete [OF sample_dfa_ok, where symbol = 7])
    (simp_all add: go_slice_def sample_keyword)

text \<open>
  The condition on end-of-input transitions in the property above is needed:
  \<open>buildKeywordLexPrefilter\<close> does not follow them, while \<open>lexKeywordSource\<close> does. In this
  DFA the word \<open>a\<close> is a keyword through the end-of-input transition of state 1, and
  \<open>bc\<close> keeps the filter from giving up; the prefilter rejects \<open>a\<close>.
\<close>

definition eof_dfa :: "lex_state list" where
  "eof_dfa =
     [\<lparr>AcceptToken = 0, AcceptPriority = 0, Skip = False, Default = - 1, onEOF = - 1,
       Transitions = [\<lparr>Lo = 97, Hi = 97, NextState = 1, trSkip = False\<rparr>,
         \<lparr>Lo = 98, Hi = 98, NextState = 3, trSkip = False\<rparr>]\<rparr>,
      \<lparr>AcceptToken = 0, AcceptPriority = 0, Skip = False, Default = - 1, onEOF = 2, Transitions = []\<rparr>,
      \<lparr>AcceptToken = 7, AcceptPriority = 0, Skip = False, Default = - 1, onEOF = - 1, Transitions = []\<rparr>,
      \<lparr>AcceptToken = 0, AcceptPriority = 0, Skip = False, Default = - 1, onEOF = - 1,
       Transitions = [\<lparr>Lo = 99, Hi = 99, NextState = 4, trSkip = False\<rparr>]\<rparr>,
      \<lparr>AcceptToken = 8, AcceptPriority = 0, Skip = False, Default = - 1, onEOF = - 1, Transitions = []\<rparr>]"

lemma keyword_prefilter_eof_gap:
  "lexKeywordSource eof_dfa [97] = Some 7 \<and> \<not> keywordLexCouldMatch eof_dfa [97] 0 1"
  by code_simp

end
