(* ===== verification/Lexer.thy ===== *)
theory Lexer
  imports Source_Positions Lex_Tables
begin

text \<open>
  Tokens, the lexer's state and its walk over contiguous source, \<open>scanContiguous\<close>
  (\<open>lexer.go\<close>). The fields \<open>row\<close> and \<open>col\<close> of the code are one \<^typ>\<open>point\<close> here, and
  \<open>acceptPos = -1\<close> with its companions is an absent \<open>accept\<close>. The lemmas show that the
  walk ends, that tokens carry the bytes and positions they span, and that the token returned
  is the best match along the walk.
\<close>

record token =
  Symbol :: u16
  Text :: bytes
  tStartByte :: u32
  tEndByte :: u32
  tStartPoint :: point
  tEndPoint :: point
  Missing :: bool
  NoLookahead :: bool
  ExternalScannerToken :: bool
  ExternalScannerStartByte :: u32
  lexerSkippedPrefix :: bool
  lexerSkippedPrefixStart :: u32
  lexerErrorModeLexed :: bool
  lexerInternalDFALexed :: bool
  isKeyword :: bool

definition zero_token :: token where
  "zero_token =
     \<lparr>Symbol = 0, Text = [], tStartByte = 0, tEndByte = 0, tStartPoint = zero_point,
      tEndPoint = zero_point, Missing = False, NoLookahead = False, ExternalScannerToken = False,
      ExternalScannerStartByte = 0, lexerSkippedPrefix = False, lexerSkippedPrefixStart = 0,
      lexerErrorModeLexed = False, lexerInternalDFALexed = False, isKeyword = False\<rparr>"

definition errorSymbol :: u16 where
  "errorSymbol = 65535"

text \<open>A position with the index of the included range it lies in (always 0 for contiguous
  source).\<close>

record lex_cursor =
  cPos :: nat
  cPoint :: point
  cRangeIdx :: nat

record lexer =
  lStates :: "lex_state list"
  asciiTable :: "ascii_table option"
  lSource :: bytes
  lPos :: nat
  lPoint :: point
  includedRanges :: "range list"
  includedRangeIdx :: nat
  immediateTokens :: "bool list"
  zeroWidthTokens :: "bool list"
  failTokenStart :: lex_cursor
  errorRunLexState :: u32
  hasErrorRunLexState :: bool
  errorModeRetry :: bool

definition zero_cursor :: lex_cursor where
  "zero_cursor = \<lparr>cPos = 0, cPoint = zero_point, cRangeIdx = 0\<rparr>"

definition NewLexer :: "lex_state list \<Rightarrow> bytes \<Rightarrow> lexer" where
  "NewLexer states src =
     \<lparr>lStates = states, asciiTable = None, lSource = src, lPos = 0, lPoint = zero_point,
      includedRanges = [], includedRangeIdx = 0, immediateTokens = [], zeroWidthTokens = [],
      failTokenStart = zero_cursor, errorRunLexState = 0, hasErrorRunLexState = False,
      errorModeRetry = False\<rparr>"

definition allowsZeroWidthToken :: "lexer \<Rightarrow> u16 \<Rightarrow> bool" where
  "allowsZeroWidthToken l symbol =
     (if zeroWidthTokens l = [] then True
      else unat symbol < length (zeroWidthTokens l) \<and> zeroWidthTokens l ! unat symbol)"

subsection \<open>The variables of a scan\<close>

record lex_accept =
  aPos :: nat
  aPoint :: point
  aRangeIdx :: nat
  aProgressPos :: nat
  aStart :: lex_cursor
  aSymbol :: u16
  aSkip :: bool
  aPriority :: int

record lex_scan =
  sState :: int
  sCursor :: lex_cursor
  sTokenStart :: lex_cursor
  sSkippedPrefix :: bool
  sAccept :: "lex_accept option"
  eofHops :: nat

definition start_scan :: "int \<Rightarrow> lex_cursor \<Rightarrow> lex_scan" where
  "start_scan q cur =
     \<lparr>sState = q, sCursor = cur, sTokenStart = cur, sSkippedPrefix = False, sAccept = None, eofHops = 0\<rparr>"

text \<open>Whether the state may end a token here: immediate tokens do not follow skipped
  characters, and visible tokens are empty only where the grammar allows it.\<close>

definition can_accept :: "lexer \<Rightarrow> nat \<Rightarrow> lex_state \<Rightarrow> lex_cursor \<Rightarrow> lex_cursor \<Rightarrow> bool" where
  "can_accept l startPos st tokenStart cur \<longleftrightarrow>
     (AcceptToken st > 0 \<or> Skip st) \<and>
     (let isImmediate = AcceptToken st > 0 \<and> unat (AcceptToken st) < length (immediateTokens l) \<and>
            immediateTokens l ! unat (AcceptToken st);
          skippedWhitespace = cPos tokenStart > startPos;
          zeroWidthVisible = AcceptToken st > 0 \<and> cPos cur = cPos tokenStart \<and>
            \<not> allowsZeroWidthToken l (AcceptToken st)
      in \<not> (isImmediate \<and> skippedWhitespace) \<and> \<not> zeroWidthVisible)"

text \<open>The accept taken in state \<open>st\<close>; \<open>mark\<close> gives the end of the token at a cursor.\<close>

definition accept_at :: "(lex_cursor \<Rightarrow> nat \<times> point) \<Rightarrow> lex_state \<Rightarrow> lex_scan \<Rightarrow> lex_accept" where
  "accept_at mark st s =
     \<lparr>aPos = fst (mark (sCursor s)), aPoint = snd (mark (sCursor s)),
      aRangeIdx = cRangeIdx (sCursor s), aProgressPos = cPos (sCursor s), aStart = sTokenStart s,
      aSymbol = AcceptToken st, aSkip = Skip st, aPriority = AcceptPriority st\<rparr>"

definition scan_accept ::
  "(lex_cursor \<Rightarrow> nat \<times> point) \<Rightarrow> lexer \<Rightarrow> nat \<Rightarrow> lex_state \<Rightarrow> lex_scan \<Rightarrow> lex_scan" where
  "scan_accept mark l startPos st s =
     (if can_accept l startPos st (sTokenStart s) (sCursor s) \<and>
         better_accept (map_option (\<lambda>a. (aPriority a, aProgressPos a)) (sAccept s))
           (AcceptPriority st) (cPos (sCursor s))
      then s\<lparr>sAccept := Some (accept_at mark st s)\<rparr> else s)"

text \<open>The move to the next state after the cursor has advanced; a skip transition restarts
  the token.\<close>

definition scan_move :: "lex_scan \<Rightarrow> lex_cursor \<Rightarrow> int \<Rightarrow> bool \<Rightarrow> lex_scan" where
  "scan_move s cur nextState skipTransition =
     (let s1 = s\<lparr>sCursor := cur\<rparr>;
          s2 = (if skipTransition
                then s1\<lparr>sSkippedPrefix := True, sTokenStart := cur, sAccept := None\<rparr> else s1)
      in s2\<lparr>sState := nextState\<rparr>)"

text \<open>At the end of input: hop along the end-of-input transitions, at most once per state
  and one more; \<open>False\<close> means that the loop breaks.\<close>

definition eof_hop :: "lexer \<Rightarrow> lex_state \<Rightarrow> lex_scan \<Rightarrow> lex_scan \<times> bool" where
  "eof_hop l st s =
     (if onEOF st \<ge> 0 \<and> eofHops s \<le> length (lStates l)
      then (s\<lparr>sState := go_int32 (onEOF st), eofHops := eofHops s + 1\<rparr>, True)
      else (s, False))"

text \<open>A walk that ended on end-of-input transitions without a match absorbs what it skipped.\<close>

definition eof_accept :: "(lex_cursor \<Rightarrow> nat \<times> point) \<Rightarrow> lex_scan \<Rightarrow> lex_accept option" where
  "eof_accept mark s =
     (if sAccept s = None \<and> eofHops s > 0
      then Some \<lparr>aPos = fst (mark (sCursor s)), aPoint = snd (mark (sCursor s)),
                 aRangeIdx = cRangeIdx (sCursor s), aProgressPos = cPos (sCursor s),
                 aStart = sTokenStart s, aSymbol = 0, aSkip = True, aPriority = 32767\<rparr>
      else sAccept s)"

definition accept_token :: "(nat \<Rightarrow> nat \<Rightarrow> bytes) \<Rightarrow> nat \<Rightarrow> bool \<Rightarrow> lex_accept \<Rightarrow> token" where
  "accept_token text startPos skippedPrefix a =
     (let tok = zero_token\<lparr>tStartByte := u32_of (cPos (aStart a)), tEndByte := u32_of (aPos a),
            tStartPoint := cPoint (aStart a), tEndPoint := aPoint a,
            lexerSkippedPrefix := skippedPrefix, lexerSkippedPrefixStart := u32_of startPos\<rparr>
      in if aSkip a then tok
         else tok\<lparr>Symbol := aSymbol a, Text := text (cPos (aStart a)) (aPos a),
                  lexerInternalDFALexed := True\<rparr>)"

subsection \<open>Contiguous source\<close>

definition plain_mark :: "lex_cursor \<Rightarrow> nat \<times> point" where
  "plain_mark cur = (cPos cur, cPoint cur)"

definition advance_point :: "point \<Rightarrow> rune \<Rightarrow> nat \<Rightarrow> point" where
  "advance_point p r width =
     (if r = 10 then \<lparr>Row = Row p + 1, Column = 0\<rparr>
      else \<lparr>Row = Row p, Column = Column p + u32_of width\<rparr>)"

definition scan_step :: "lexer \<Rightarrow> nat \<Rightarrow> lex_scan \<Rightarrow> lex_scan \<times> bool" where
  "scan_step l startPos s =
     (if sState s < 0 \<or> sState s \<ge> int (length (lStates l)) then (s, False)
      else
        (let st = lStates l ! nat (sState s); s1 = scan_accept plain_mark l startPos st s in
         if cPos (sCursor s1) \<ge> length (lSource l) then eof_hop l st s1
         else
           (let s2 = s1\<lparr>eofHops := 0\<rparr>;
                cur = sCursor s2;
                (r, width) = rune_at (drop (cPos cur) (lSource l));
                (nextState, skipTransition) =
                  next_transition (asciiTable l) (sState s2) st (lSource l ! cPos cur) r
            in if nextState < 0 then (s2, False)
               else (scan_move s2
                       (cur\<lparr>cPos := cPos cur + width, cPoint := advance_point (cPoint cur) r width\<rparr>)
                       nextState skipTransition, True))))"

lemma scan_accept_same [simp]:
  "sState (scan_accept mark l p st s) = sState s" "sCursor (scan_accept mark l p st s) = sCursor s"
  "sTokenStart (scan_accept mark l p st s) = sTokenStart s" "eofHops (scan_accept mark l p st s) = eofHops s"
  "sSkippedPrefix (scan_accept mark l p st s) = sSkippedPrefix s"
  by (simp_all add: scan_accept_def)

lemma scan_move_same [simp]:
  "sState (scan_move s cur n sk) = n" "sCursor (scan_move s cur n sk) = cur"
  "eofHops (scan_move s cur n sk) = eofHops s"
  "sTokenStart (scan_move s cur n sk) = (if sk then cur else sTokenStart s)"
  "sSkippedPrefix (scan_move s cur n sk) = (sk \<or> sSkippedPrefix s)"
  "sAccept (scan_move s cur n sk) = (if sk then None else sAccept s)"
  by (simp_all add: scan_move_def Let_def)

lemma scan_step_progress:
  assumes "scan_step l p s = (s', True)"
  shows "cPos (sCursor s) < length (lSource l) \<and> cPos (sCursor s) < cPos (sCursor s') \<and>
      cPos (sCursor s') \<le> length (lSource l) \<or>
    length (lSource l) \<le> cPos (sCursor s) \<and> sCursor s' = sCursor s \<and>
      eofHops s' = Suc (eofHops s) \<and> eofHops s \<le> length (lStates l)"
  using assms rune_at_size [of "drop (cPos (sCursor s)) (lSource l)"]
  by (auto simp: scan_step_def eof_hop_def Let_def split: if_splits prod.splits)

function scan_loop :: "lexer \<Rightarrow> nat \<Rightarrow> lex_scan \<Rightarrow> lex_scan" where
  "scan_loop l startPos s =
     (case scan_step l startPos s of (s', continue) \<Rightarrow> if continue then scan_loop l startPos s' else s')"
  by pat_completeness auto

termination scan_loop
  by (relation "measures [\<lambda>(l, p, s). length (lSource l) - cPos (sCursor s),
      \<lambda>(l, p, s). length (lStates l) + 1 - eofHops s]")
    (auto dest!: scan_step_progress [OF sym])

declare scan_loop.simps [simp del]

text \<open>The result of \<open>scanContiguous\<close>: the lexer after the call, the token, and whether there
  was a match.\<close>

definition scanContiguous :: "lexer \<Rightarrow> u32 \<Rightarrow> nat \<Rightarrow> point \<Rightarrow> lexer \<times> token \<times> bool" where
  "scanContiguous l startState startPos startPoint =
     (let curState = sint startState in
      if curState < 0 \<or> curState \<ge> int (length (lStates l)) then (l, zero_token, False)
      else
        (let s = scan_loop l startPos
               (start_scan curState \<lparr>cPos = startPos, cPoint = startPoint, cRangeIdx = 0\<rparr>)
         in case eof_accept plain_mark s of
              None \<Rightarrow> (l\<lparr>failTokenStart := (sTokenStart s)\<lparr>cRangeIdx := 0\<rparr>\<rparr>, zero_token, False)
            | Some a \<Rightarrow>
                (l\<lparr>lPos := aPos a, lPoint := aPoint a\<rparr>,
                 accept_token (go_slice (lSource l)) startPos (sSkippedPrefix s) a, True)))"

subsection \<open>The walk as a transition system\<close>

text \<open>A configuration of the DFA without the bookkeeping of the best match: state, cursor,
  token start, and the number of end-of-input hops.\<close>

type_synonym lex_config = "int \<times> lex_cursor \<times> lex_cursor \<times> nat"

definition dfa_step :: "lexer \<Rightarrow> lex_config \<Rightarrow> lex_config option" where
  "dfa_step l = (\<lambda>(q, cur, start, hops).
     if q < 0 \<or> q \<ge> int (length (lStates l)) then None
     else if cPos cur \<ge> length (lSource l)
     then (if onEOF (lStates l ! nat q) \<ge> 0 \<and> hops \<le> length (lStates l)
           then Some (go_int32 (onEOF (lStates l ! nat q)), cur, start, hops + 1) else None)
     else
       (let (r, width) = rune_at (drop (cPos cur) (lSource l));
            (n, skip) = next_transition (asciiTable l) q (lStates l ! nat q) (lSource l ! cPos cur) r;
            cur' = cur\<lparr>cPos := cPos cur + width, cPoint := advance_point (cPoint cur) r width\<rparr>
        in if n < 0 then None else Some (n, cur', if skip then cur' else start, 0)))"

inductive dfa_trace :: "lexer \<Rightarrow> lex_config \<Rightarrow> lex_config list \<Rightarrow> bool" for l c0 where
  start: "dfa_trace l c0 [c0]"
| step: "dfa_trace l c0 cs \<Longrightarrow> dfa_step l (last cs) = Some c \<Longrightarrow> dfa_trace l c0 (cs @ [c])"

definition config_of :: "lex_scan \<Rightarrow> lex_config" where
  "config_of s = (sState s, sCursor s, sTokenStart s, eofHops s)"

definition config_start :: "lex_config \<Rightarrow> lex_cursor" where
  "config_start c = fst (snd (snd c))"

definition config_state :: "lexer \<Rightarrow> lex_config \<Rightarrow> lex_state" where
  "config_state l c = lStates l ! nat (fst c)"

text \<open>The configurations of a trace in which a token that begins at \<open>start\<close> may end, and
  the order in which the lexer prefers them: smaller priority, then longer.\<close>

definition accepting :: "lexer \<Rightarrow> nat \<Rightarrow> lex_cursor \<Rightarrow> lex_config list \<Rightarrow> lex_config set" where
  "accepting l p start cs =
     {c \<in> set cs. config_start c = start \<and> 0 \<le> fst c \<and> fst c < int (length (lStates l)) \<and>
        can_accept l p (config_state l c) start (fst (snd c))}"

definition preferred :: "lexer \<Rightarrow> lex_config \<Rightarrow> lex_config \<Rightarrow> bool" where
  "preferred l c d \<longleftrightarrow>
     AcceptPriority (config_state l c) < AcceptPriority (config_state l d) \<or>
     AcceptPriority (config_state l c) = AcceptPriority (config_state l d) \<and>
       cPos (fst (snd d)) \<le> cPos (fst (snd c))"

definition config_accept :: "lexer \<Rightarrow> lex_config \<Rightarrow> lex_accept" where
  "config_accept l = (\<lambda>(q, cur, start, hops).
     \<lparr>aPos = cPos cur, aPoint = cPoint cur, aRangeIdx = cRangeIdx cur, aProgressPos = cPos cur,
      aStart = start, aSymbol = AcceptToken (lStates l ! nat q), aSkip = Skip (lStates l ! nat q),
      aPriority = AcceptPriority (lStates l ! nat q)\<rparr>)"

definition best_match ::
  "lexer \<Rightarrow> nat \<Rightarrow> lex_cursor \<Rightarrow> lex_config list \<Rightarrow> lex_accept option \<Rightarrow> bool" where
  "best_match l p start cs acc \<longleftrightarrow>
     (case acc of
        None \<Rightarrow> accepting l p start cs = {}
      | Some a \<Rightarrow> \<exists>c \<in> accepting l p start cs. a = config_accept l c \<and>
                    (\<forall>d \<in> accepting l p start cs. preferred l c d))"

subsection \<open>Lemmas\<close>

lemma scan_loop_invariant:
  assumes "\<And>s s' c. I s \<Longrightarrow> scan_step l p s = (s', c) \<Longrightarrow> I s'" and "I s"
  shows "I (scan_loop l p s)"
  using assms
proof (induction l p s rule: scan_loop.induct)
  case (1 l p s)
  obtain s' c where step: "scan_step l p s = (s', c)" by fastforce
  show ?case
    using 1(1) [OF step [symmetric]] 1(2) [OF 1(3) step] 1(2) step by (subst scan_loop.simps) auto
qed

text \<open>Cursors whose point is the position of their byte.\<close>

definition cursor_ok :: "bytes \<Rightarrow> lex_cursor \<Rightarrow> bool" where
  "cursor_ok src cur \<longleftrightarrow> cPos cur \<le> length src \<and> cPoint cur = point_at src (cPos cur)"

lemma rune_at_newline: "bs \<noteq> [] \<Longrightarrow> fst (rune_at bs) = 10 \<longleftrightarrow> hd bs = 10"
  using decode_rune_newline [of "hd bs" "tl bs"] by (auto simp: rune_at_def word_uint_eq_iff)

lemma rune_at_tail:
  assumes "0 < k" "k < snd (rune_at bs)"
  shows "bs ! k \<noteq> 10"
proof -
  have "0x80 \<le> uint (bs ! k)"
    using assms decode_rune_conts [of k bs] by (auto simp: rune_at_def split: if_splits)
  then show ?thesis by auto
qed

lemma advance_point_at:
  assumes "n < length src" and "rune_at (drop n src) = (r, width)"
  shows "advance_point (point_at src n) r width = point_at src (n + width)" and "n + width \<le> length src"
    and "0 < width"
proof -
  let ?bs = "drop n src"
  have ne: "?bs \<noteq> []" using assms by simp
  have w: "1 \<le> width" "width \<le> length ?bs" using rune_at_size [OF ne] assms by auto
  then show "n + width \<le> length src" "0 < width" by auto
  have slice: "go_slice src n (n + width) = take width ?bs" by (simp add: go_slice_def take_drop)
  have tail: "10 \<notin> set (tl (take width ?bs))"
  proof
    assume "10 \<in> set (tl (take width ?bs))"
    then obtain k where "Suc k < width" "?bs ! Suc k = 10"
      using w by (auto simp: in_set_conv_nth nth_tl less_diff_conv)
    then show False using rune_at_tail [of "Suc k" ?bs] assms(2) by auto
  qed
  have split: "take width ?bs = hd ?bs # tl (take width ?bs)"
    using w ne by (metis hd_take list.exhaust_sel take_eq_Nil not_one_le_zero zero_less_iff_neq_zero)
  have "point_at src (n + width) = computeNewEndPoint (point_at src n) (take width ?bs)"
    using point_at_slice [of n "n + width" src] slice by simp
  also have "\<dots> = computeNewEndPoint (point_step (point_at src n) (hd ?bs)) (tl (take width ?bs))"
    by (subst split) (simp add: computeNewEndPoint_Cons)
  also have "\<dots> = advance_point (point_at src n) r width"
  proof (cases "hd ?bs = 10")
    case True
    then have "uint (hd ?bs) < 0x80" by simp
    then have "width = 1" "r = 10" using rune_at_ascii [of ?bs] assms(2) True by auto
    moreover have "tl (take 1 ?bs) = []" by (cases ?bs) auto
    ultimately show ?thesis using True by (simp add: advance_point_def point_step_def)
  next
    case False
    then have "r \<noteq> 10" using rune_at_newline [OF ne] assms(2) by simp
    moreover have "width = Suc (length (tl (take width ?bs)))" using w by simp
    then have "u32_of width = u32_of (length (tl (take width ?bs))) + 1" by (metis u32_of_Suc)
    ultimately show ?thesis
      using False by (simp add: no_newline_point [OF tail] point_step_def advance_point_def del: length_tl length_take)
  qed
  finally show "advance_point (point_at src n) r width = point_at src (n + width)" by simp
qed

definition scan_ok :: "lexer \<Rightarrow> nat \<Rightarrow> lex_scan \<Rightarrow> bool" where
  "scan_ok l p s \<longleftrightarrow> cursor_ok (lSource l) (sCursor s) \<and> cursor_ok (lSource l) (sTokenStart s) \<and>
     p \<le> cPos (sTokenStart s) \<and> cPos (sTokenStart s) \<le> cPos (sCursor s) \<and>
     (\<forall>a. sAccept s = Some a \<longrightarrow> aStart a = sTokenStart s \<and> cPos (aStart a) \<le> aPos a \<and>
        aPos a \<le> length (lSource l) \<and> aPoint a = point_at (lSource l) (aPos a) \<and>
        (aSkip a \<or> aSymbol a \<noteq> 0))"

lemma scan_accept_ok: "scan_ok l p s \<Longrightarrow> scan_ok l p (scan_accept plain_mark l p st s)"
  by (auto simp: scan_ok_def scan_accept_def accept_at_def plain_mark_def can_accept_def cursor_ok_def word_gt_0)

lemma eof_hop_ok: "scan_ok l p s \<Longrightarrow> eof_hop l st s = (s', c) \<Longrightarrow> scan_ok l p s'"
  by (auto simp: eof_hop_def scan_ok_def split: if_splits)

lemma scan_step_ok:
  assumes "scan_ok l p s" "scan_step l p s = (s', c)"
  shows "scan_ok l p s'"
proof (cases "sState s < 0 \<or> sState s \<ge> int (length (lStates l))")
  case True
  then show ?thesis using assms by (simp add: scan_step_def)
next
  case False
  let ?st = "lStates l ! nat (sState s)"
  define s1 where "s1 = scan_accept plain_mark l p ?st s"
  have s1: "scan_ok l p s1" using scan_accept_ok [OF assms(1)] by (simp add: s1_def)
  have cur [simp]: "sCursor s1 = sCursor s" "sState s1 = sState s" "eofHops s1 = eofHops s"
    by (simp_all add: s1_def)
  show ?thesis
  proof (cases "cPos (sCursor s) \<ge> length (lSource l)")
    case True
    then have "eof_hop l ?st s1 = (s', c)"
      using assms(2) False by (simp add: scan_step_def s1_def Let_def)
    then show ?thesis using s1 by (rule eof_hop_ok [rotated])
  next
    case lt: False
    obtain r width where ra: "rune_at (drop (cPos (sCursor s)) (lSource l)) = (r, width)" by fastforce
    obtain n sk where nt: "next_transition (asciiTable l) (sState s) ?st (lSource l ! cPos (sCursor s)) r = (n, sk)"
      by fastforce
    let ?cur = "(sCursor s)\<lparr>cPos := cPos (sCursor s) + width,
        cPoint := advance_point (cPoint (sCursor s)) r width\<rparr>"
    have s': "s' = (if n < 0 then s1\<lparr>eofHops := 0\<rparr> else scan_move (s1\<lparr>eofHops := 0\<rparr>) ?cur n sk)"
      using assms(2) False lt ra nt
      by (auto simp: scan_step_def s1_def [symmetric] Let_def split: if_splits)
    have "cursor_ok (lSource l) ?cur \<and> cPos (sCursor s) \<le> cPos ?cur"
      using advance_point_at [of "cPos (sCursor s)" "lSource l" r width] lt ra s1
      by (simp add: cursor_ok_def scan_ok_def)
    then show ?thesis using s1 unfolding s' by (auto simp: scan_ok_def)
  qed
qed

lemma scan_loop_ok: "scan_ok l p s \<Longrightarrow> scan_ok l p (scan_loop l p s)"
  by (rule scan_loop_invariant [where I = "scan_ok l p"]) (auto intro: scan_step_ok)

text \<open>The walk of \<open>scanContiguous\<close> follows the transition system, and its bookkeeping is
  the best match of the trace so far.\<close>

definition trace_ok :: "lexer \<Rightarrow> nat \<Rightarrow> lex_config \<Rightarrow> lex_config list \<Rightarrow> lex_scan \<Rightarrow> bool" where
  "trace_ok l p c0 cs s \<longleftrightarrow>
     dfa_trace l c0 (cs @ [config_of s]) \<and> best_match l p (sTokenStart s) cs (sAccept s) \<and>
     cPos (sTokenStart s) \<le> cPos (sCursor s) \<and>
     (\<forall>c \<in> set cs. cPos (config_start c) \<le> cPos (sCursor s)) \<and>
     (eofHops s > 0 \<longrightarrow> cPos (sCursor s) \<ge> length (lSource l))"

lemma accepting_snoc:
  "accepting l p start (cs @ [c]) =
     (if config_start c = start \<and> 0 \<le> fst c \<and> fst c < int (length (lStates l)) \<and>
         can_accept l p (config_state l c) start (fst (snd c))
      then insert c (accepting l p start cs) else accepting l p start cs)"
  by (auto simp: accepting_def)

lemma preferred_trans: "preferred l a b \<Longrightarrow> preferred l b c \<Longrightarrow> preferred l a c"
  by (auto simp: preferred_def)

lemma preferred_refl: "preferred l a a"
  by (simp add: preferred_def)

lemma scan_accept_best:
  assumes "best_match l p (sTokenStart s) cs (sAccept s)"
    and "0 \<le> sState s" "sState s < int (length (lStates l))"
  shows "best_match l p (sTokenStart s) (cs @ [config_of s])
    (sAccept (scan_accept plain_mark l p (lStates l ! nat (sState s)) s))"
proof -
  let ?st = "lStates l ! nat (sState s)" and ?start = "sTokenStart s"
  let ?c = "config_of s" and ?A = "accepting l p (sTokenStart s) cs"
  have c: "config_start ?c = ?start" "config_state l ?c = ?st" "fst ?c = sState s"
    "fst (snd ?c) = sCursor s"
    by (simp_all add: config_of_def config_start_def config_state_def)
  have new: "config_accept l ?c = accept_at plain_mark ?st s"
    by (simp add: config_of_def config_accept_def accept_at_def plain_mark_def)
  show ?thesis
  proof (cases "can_accept l p ?st ?start (sCursor s)")
    case False
    then show ?thesis using assms c by (simp add: accepting_snoc scan_accept_def best_match_def split: option.splits)
  next
    case True
    then have acc: "accepting l p ?start (cs @ [?c]) = insert ?c ?A" using assms(2,3) c by (simp add: accepting_snoc)
    show ?thesis
    proof (cases "sAccept s")
      case None
      then have "?A = {}" using assms(1) by (simp add: best_match_def)
      then show ?thesis using None True acc new by (simp add: best_match_def scan_accept_def preferred_refl)
    next
      case (Some a)
      then obtain b where b: "b \<in> ?A" "a = config_accept l b" "\<forall>d \<in> ?A. preferred l b d"
        using assms(1) by (auto simp: best_match_def)
      have prio: "aPriority a = AcceptPriority (config_state l b)" "aProgressPos a = cPos (fst (snd b))"
        using b(2) by (auto simp: config_accept_def config_state_def split: prod.splits)
      show ?thesis
      proof (cases "better_accept (Some (aPriority a, aProgressPos a)) (AcceptPriority ?st) (cPos (sCursor s))")
        case better: True
        then have "preferred l ?c b" using prio c by (auto simp: preferred_def)
        then have "\<forall>d \<in> insert ?c ?A. preferred l ?c d" using b(3) preferred_trans preferred_refl by blast
        then show ?thesis using True better Some acc new by (simp add: best_match_def scan_accept_def)
      next
        case worse: False
        then have "preferred l b ?c" using prio c by (auto simp: preferred_def)
        then show ?thesis using worse Some acc b by (auto simp: best_match_def scan_accept_def)
      qed
    qed
  qed
qed

lemma accepting_fresh:
  assumes "\<forall>c \<in> set cs. cPos (config_start c) < cPos start"
  shows "accepting l p start cs = {}"
  using assms by (auto simp: accepting_def)

text \<open>One round of the loop extends the trace, or stops where the transition system stops.\<close>

lemma scan_step_trace:
  assumes inv: "trace_ok l p c0 cs s" and step: "scan_step l p s = (s', continue)"
  shows "if continue then trace_ok l p c0 (cs @ [config_of s]) s'
    else config_of s' = config_of s \<and> dfa_step l (config_of s) = None \<and>
      best_match l p (sTokenStart s) (cs @ [config_of s]) (sAccept s')"
proof (cases "sState s < 0 \<or> sState s \<ge> int (length (lStates l))")
  case True
  then have stop: "s' = s" "\<not> continue" using step by (auto simp: scan_step_def)
  have acc: "accepting l p (sTokenStart s) (cs @ [config_of s]) = accepting l p (sTokenStart s) cs"
    using True by (auto simp: accepting_snoc config_of_def)
  have "best_match l p (sTokenStart s) (cs @ [config_of s]) (sAccept s)"
    using inv unfolding trace_ok_def best_match_def acc by blast
  moreover have "dfa_step l (config_of s) = None" using True by (auto simp: dfa_step_def config_of_def)
  ultimately show ?thesis using stop by simp
next
  case q: False
  let ?st = "lStates l ! nat (sState s)" and ?cur = "sCursor s"
  define s1 where "s1 = scan_accept plain_mark l p ?st s"
  have best: "best_match l p (sTokenStart s) (cs @ [config_of s]) (sAccept s1)"
    using scan_accept_best [of l p s cs] inv q by (simp add: s1_def trace_ok_def)
  have same: "sState s1 = sState s" "sCursor s1 = sCursor s" "sTokenStart s1 = sTokenStart s"
    "eofHops s1 = eofHops s" by (simp_all add: s1_def)
  have starts: "\<forall>c \<in> set (cs @ [config_of s]). cPos (config_start c) \<le> cPos ?cur"
    using inv by (auto simp: trace_ok_def config_start_def config_of_def)
  have tr: "dfa_trace l c0 (cs @ [config_of s])" using inv by (simp add: trace_ok_def)
  show ?thesis
  proof (cases "cPos ?cur \<ge> length (lSource l)")
    case eof: True
    then have hop: "eof_hop l ?st s1 = (s', continue)"
      using step q same by (simp add: scan_step_def s1_def Let_def)
    show ?thesis
    proof (cases "onEOF ?st \<ge> 0 \<and> eofHops s \<le> length (lStates l)")
      case True
      then have s': "continue" "s' = s1\<lparr>sState := go_int32 (onEOF ?st), eofHops := eofHops s + 1\<rparr>"
        using hop same by (auto simp: eof_hop_def)
      have "dfa_step l (config_of s) = Some (config_of s')"
        using True eof q same s' by (simp add: dfa_step_def config_of_def)
      then show ?thesis
        using dfa_trace.step [OF tr] best starts inv s' same eof by (auto simp: trace_ok_def)
    next
      case False
      then have s': "\<not> continue" "s' = s1" using hop same by (auto simp: eof_hop_def split: if_splits)
      then show ?thesis using False eof q same best by (auto simp: dfa_step_def config_of_def)
    qed
  next
    case lt: False
    obtain r width where ra: "rune_at (drop (cPos ?cur) (lSource l)) = (r, width)" by fastforce
    obtain n sk where nt: "next_transition (asciiTable l) (sState s) ?st (lSource l ! cPos ?cur) r = (n, sk)"
      by fastforce
    let ?cur' = "?cur\<lparr>cPos := cPos ?cur + width, cPoint := advance_point (cPoint ?cur) r width\<rparr>"
    have hops: "eofHops s = 0" using inv lt by (auto simp: trace_ok_def)
    show ?thesis
    proof (cases "n < 0")
      case True
      then have "\<not> continue" "s' = s1\<lparr>eofHops := 0\<rparr>"
        using step q lt ra nt same by (auto simp: scan_step_def s1_def [symmetric] Let_def)
      then show ?thesis
        using True q lt ra nt same hops best by (simp add: dfa_step_def config_of_def Let_def)
    next
      case False
      then have s': "continue" "s' = scan_move (s1\<lparr>eofHops := 0\<rparr>) ?cur' n sk"
        using step q lt ra nt same by (auto simp: scan_step_def s1_def [symmetric] Let_def)
      have w: "0 < width" using advance_point_at(3) [of "cPos ?cur" "lSource l" r width] lt ra by simp
      have "dfa_step l (config_of s) = Some (config_of s')"
        using False q lt ra nt same s' by (simp add: dfa_step_def config_of_def Let_def)
      moreover have "best_match l p (sTokenStart s') (cs @ [config_of s]) (sAccept s')"
      proof (cases sk)
        case True
        have "\<forall>c \<in> set (cs @ [config_of s]). cPos (config_start c) < cPos ?cur'"
          using starts w by fastforce
        then show ?thesis using True s' accepting_fresh by (simp add: best_match_def)
      next
        case False
        then show ?thesis using best s' same by simp
      qed
      ultimately show ?thesis
        using dfa_trace.step [OF tr] starts inv s' same w by (auto simp: trace_ok_def)
    qed
  qed
qed

lemma scan_loop_trace:
  assumes "trace_ok l p c0 cs s"
  shows "\<exists>cs'. dfa_trace l c0 (cs' @ [config_of (scan_loop l p s)]) \<and>
    dfa_step l (config_of (scan_loop l p s)) = None \<and>
    best_match l p (sTokenStart (scan_loop l p s)) (cs' @ [config_of (scan_loop l p s)])
      (sAccept (scan_loop l p s))"
  using assms
proof (induction l p s arbitrary: cs rule: scan_loop.induct)
  case (1 l p s)
  obtain s' continue where step: "scan_step l p s = (s', continue)" by fastforce
  note tr = scan_step_trace [OF 1(2) step]
  show ?case
  proof (cases continue)
    case True
    then show ?thesis using 1(1) [OF step [symmetric]] tr step by (subst (1 2 3 4 5) scan_loop.simps) auto
  next
    case False
    then have "scan_loop l p s = s'" using step by (subst scan_loop.simps) simp
    moreover have "sTokenStart s' = sTokenStart s" using False tr by (simp add: config_of_def)
    ultimately show ?thesis using False tr 1(2) by (auto simp: trace_ok_def)
  qed
qed

lemma scan_contiguous_ok:
  assumes "p \<le> length (lSource l)"
  shows "scan_ok l p (scan_loop l p (start_scan q \<lparr>cPos = p, cPoint = point_at (lSource l) p, cRangeIdx = 0\<rparr>))"
  by (rule scan_loop_ok) (simp add: scan_ok_def start_scan_def cursor_ok_def assms)

lemma eof_accept_ok:
  assumes "scan_ok l p s" and "eof_accept plain_mark s = Some a"
  shows "p \<le> cPos (aStart a) \<and> cPos (aStart a) \<le> aPos a \<and> aPos a \<le> length (lSource l) \<and>
    cPoint (aStart a) = point_at (lSource l) (cPos (aStart a)) \<and>
    aPoint a = point_at (lSource l) (aPos a) \<and> (aSkip a \<or> aSymbol a \<noteq> 0)"
  using assms
  by (auto simp: scan_ok_def eof_accept_def cursor_ok_def plain_mark_def split: if_splits)

lemma accept_token_simps [simp]:
  "tStartByte (accept_token text p sp a) = u32_of (cPos (aStart a))"
  "tEndByte (accept_token text p sp a) = u32_of (aPos a)"
  "tStartPoint (accept_token text p sp a) = cPoint (aStart a)"
  "tEndPoint (accept_token text p sp a) = aPoint a"
  "Symbol (accept_token text p sp a) = (if aSkip a then 0 else aSymbol a)"
  "Text (accept_token text p sp a) = (if aSkip a then [] else text (cPos (aStart a)) (aPos a))"
  "lexerInternalDFALexed (accept_token text p sp a) = (\<not> aSkip a)"
  by (simp_all add: accept_token_def zero_token_def Let_def)

lemma scanContiguous_spec:
  assumes "scanContiguous l q p (point_at (lSource l) p) = (l', tok, ok)" and "p \<le> length (lSource l)"
  shows "if ok then
      \<exists>m n. p \<le> m \<and> m \<le> n \<and> n \<le> length (lSource l) \<and> tStartByte tok = u32_of m \<and> tEndByte tok = u32_of n \<and>
        tStartPoint tok = point_at (lSource l) m \<and> tEndPoint tok = point_at (lSource l) n \<and>
        l' = l\<lparr>lPos := n, lPoint := point_at (lSource l) n\<rparr> \<and>
        Text tok = (if Symbol tok = 0 then [] else go_slice (lSource l) m n) \<and>
        lexerInternalDFALexed tok = (Symbol tok \<noteq> 0)
    else tok = zero_token \<and> (\<exists>c. l' = l\<lparr>failTokenStart := c\<rparr> \<and>
      (cursor_ok (lSource l) (failTokenStart l) \<longrightarrow> cursor_ok (lSource l) c))"
proof (cases "sint q < 0 \<or> sint q \<ge> int (length (lStates l))")
  case True
  then have "\<not> ok" "tok = zero_token" "l' = l" using assms(1) by (auto simp: scanContiguous_def Let_def)
  moreover have "\<exists>c. l = l\<lparr>failTokenStart := c\<rparr> \<and>
      (cursor_ok (lSource l) (failTokenStart l) \<longrightarrow> cursor_ok (lSource l) c)"
    by (rule exI [of _ "failTokenStart l"]) simp
  ultimately show ?thesis by simp
next
  case False
  define s where "s = scan_loop l p
    (start_scan (sint q) \<lparr>cPos = p, cPoint = point_at (lSource l) p, cRangeIdx = 0\<rparr>)"
  have s: "scan_ok l p s" using scan_contiguous_ok [OF assms(2)] by (simp add: s_def)
  show ?thesis
  proof (cases "eof_accept plain_mark s")
    case None
    then have "\<not> ok" "tok = zero_token" "l' = l\<lparr>failTokenStart := (sTokenStart s)\<lparr>cRangeIdx := 0\<rparr>\<rparr>"
      using assms(1) False by (auto simp: scanContiguous_def Let_def s_def [symmetric])
    moreover have "cursor_ok (lSource l) ((sTokenStart s)\<lparr>cRangeIdx := 0\<rparr>)"
      using s by (simp add: scan_ok_def cursor_ok_def)
    ultimately show ?thesis by auto
  next
    case (Some a)
    have res: "ok" "tok = accept_token (go_slice (lSource l)) p (sSkippedPrefix s) a"
      "l' = l\<lparr>lPos := aPos a, lPoint := aPoint a\<rparr>"
      using assms(1) False Some by (auto simp: scanContiguous_def Let_def s_def [symmetric])
    show ?thesis
      using eof_accept_ok [OF s Some]
      by (simp only: res if_True) (rule exI [of _ "cPos (aStart a)"], rule exI [of _ "aPos a"], auto)
  qed
qed

subsection \<open>Properties\<close>

text \<open>
  \<^bold>\<open>C24.\<close> A token returned by \<open>scanContiguous\<close> is a correct piece of the source: it begins
  at or after the position the scan started from, its bytes and its points agree with the
  source, its text is exactly the source between its bytes, and the lexer ends up right
  behind it. When the scan fails, position and row/column of the lexer are untouched.
\<close>

theorem scan_token_positions:
  assumes "scanContiguous l q p (point_at (lSource l) p) = (l', tok, ok)"
    and "p \<le> length (lSource l)" and "length (lSource l) < 2 ^ 32"
  shows "if ok then
      p \<le> unat (tStartByte tok) \<and> tStartByte tok \<le> tEndByte tok \<and>
      unat (tEndByte tok) \<le> length (lSource l) \<and>
      tStartPoint tok = point_at (lSource l) (unat (tStartByte tok)) \<and>
      tEndPoint tok = point_at (lSource l) (unat (tEndByte tok)) \<and>
      l' = l\<lparr>lPos := unat (tEndByte tok), lPoint := tEndPoint tok\<rparr> \<and>
      Text tok = (if Symbol tok = 0 then []
        else go_slice (lSource l) (unat (tStartByte tok)) (unat (tEndByte tok)))
    else tok = zero_token \<and> lPos l' = lPos l \<and> lPoint l' = lPoint l"
proof (cases ok)
  case True
  from scanContiguous_spec [OF assms(1,2)] True obtain m n where
    mn: "p \<le> m" "m \<le> n" "n \<le> length (lSource l)" "tStartByte tok = u32_of m" "tEndByte tok = u32_of n"
      "tStartPoint tok = point_at (lSource l) m" "tEndPoint tok = point_at (lSource l) n"
      "l' = l\<lparr>lPos := n, lPoint := point_at (lSource l) n\<rparr>"
      "Text tok = (if Symbol tok = 0 then [] else go_slice (lSource l) m n)" by auto
  then have "unat (u32_of m) = m" "unat (u32_of n) = n" "u32_of m \<le> u32_of n"
    using assms(3) by (simp_all add: unat_u32_of u32_of_le_iff)
  then show ?thesis using True mn by simp
next
  case False
  then show ?thesis using scanContiguous_spec [OF assms(1,2)] by auto
qed

text \<open>
  \<^bold>\<open>C2.\<close> \<open>scanContiguous\<close> returns the best match of the DFA walk. Following the transitions
  of the automaton from the start state until none applies, consider the configurations
  after the last skip transition in which a token may end. If there is one, the scan
  succeeds with one that no other beats: smallest priority value, and among those the
  longest. If there is none, the scan succeeds with a skipped stretch when the walk ended
  on end-of-input transitions, and fails otherwise.
\<close>

theorem scan_best_match:
  assumes "scanContiguous l q p pt = (l', tok, ok)"
    and "0 \<le> sint q" and "sint q < int (length (lStates l))"
  shows "\<exists>cs skipped. dfa_trace l (sint q, \<lparr>cPos = p, cPoint = pt, cRangeIdx = 0\<rparr>,
      \<lparr>cPos = p, cPoint = pt, cRangeIdx = 0\<rparr>, 0) cs \<and> dfa_step l (last cs) = None \<and>
    (let start = config_start (last cs); hops = snd (snd (snd (last cs))) in
     if accepting l p start cs \<noteq> {} then
       ok \<and> (\<exists>c \<in> accepting l p start cs. (\<forall>d \<in> accepting l p start cs. preferred l c d) \<and>
         tok = accept_token (go_slice (lSource l)) p skipped (config_accept l c))
     else if hops > 0 then ok \<and> Symbol tok = 0 \<and> tStartByte tok = u32_of (cPos start)
     else \<not> ok \<and> tok = zero_token)"
proof -
  let ?cur = "\<lparr>cPos = p, cPoint = pt, cRangeIdx = 0\<rparr>"
  define s where "s = scan_loop l p (start_scan (sint q) ?cur)"
  have "trace_ok l p (sint q, ?cur, ?cur, 0) [] (start_scan (sint q) ?cur)"
    using dfa_trace.start [of l "(sint q, ?cur, ?cur, 0)"]
    by (simp add: trace_ok_def start_scan_def config_of_def best_match_def accepting_def)
  from scan_loop_trace [OF this] obtain cs where
    tr: "dfa_trace l (sint q, ?cur, ?cur, 0) (cs @ [config_of s])" "dfa_step l (config_of s) = None"
      "best_match l p (sTokenStart s) (cs @ [config_of s]) (sAccept s)"
    by (auto simp: s_def [symmetric])
  have last: "config_start (config_of s) = sTokenStart s" "snd (snd (snd (config_of s))) = eofHops s"
    by (simp_all add: config_of_def config_start_def)
  have res: "case eof_accept plain_mark s of
      None \<Rightarrow> \<not> ok \<and> tok = zero_token
    | Some a \<Rightarrow> ok \<and> tok = accept_token (go_slice (lSource l)) p (sSkippedPrefix s) a"
    using assms by (auto simp: scanContiguous_def Let_def s_def [symmetric] split: option.splits)
  show ?thesis
  proof (intro exI [of _ "cs @ [config_of s]"] exI [of _ "sSkippedPrefix s"] conjI)
    show "let start = config_start (last (cs @ [config_of s]));
        hops = snd (snd (snd (last (cs @ [config_of s])))) in
      if accepting l p start (cs @ [config_of s]) \<noteq> {} then
        ok \<and> (\<exists>c \<in> accepting l p start (cs @ [config_of s]).
          (\<forall>d \<in> accepting l p start (cs @ [config_of s]). preferred l c d) \<and>
          tok = accept_token (go_slice (lSource l)) p (sSkippedPrefix s) (config_accept l c))
      else if hops > 0 then ok \<and> Symbol tok = 0 \<and> tStartByte tok = u32_of (cPos start)
      else \<not> ok \<and> tok = zero_token"
      using tr(3) res
      by (cases "sAccept s") (auto simp: Let_def last best_match_def eof_accept_def split: if_splits)
  qed (use tr in simp_all)
qed

definition sample_lexer :: lexer where
  "sample_lexer = (NewLexer sample_dfa [32, 105, 102])\<lparr>asciiTable := Some (buildLexAsciiTable sample_dfa)\<rparr>"

lemma sample_scan:
  "scanContiguous sample_lexer 0 0 (point_at (lSource sample_lexer) 0) =
     (sample_lexer\<lparr>lPos := 3, lPoint := \<lparr>Row = 0, Column = 3\<rparr>\<rparr>,
      zero_token\<lparr>Symbol := 7, Text := [105, 102], tStartByte := 1, tEndByte := 3,
        tStartPoint := \<lparr>Row = 0, Column = 1\<rparr>, tEndPoint := \<lparr>Row = 0, Column = 3\<rparr>,
        lexerSkippedPrefix := True, lexerInternalDFALexed := True\<rparr>, True)"
  by code_simp

theorem scan_token_positions_witness:
  "point_at [32, 105, 102] 3 = \<lparr>Row = 0, Column = 3\<rparr>"
  using scan_token_positions [OF sample_scan]
  by (simp add: sample_lexer_def NewLexer_def)

theorem scan_best_match_witness:
  "\<exists>cs. dfa_trace sample_lexer (0, zero_cursor, zero_cursor, 0) cs \<and> dfa_step sample_lexer (last cs) = None \<and>
     (\<exists>c \<in> accepting sample_lexer 0 (config_start (last cs)) cs. \<forall>d \<in> accepting sample_lexer 0 (config_start (last cs)) cs.
        preferred sample_lexer c d)"
proof -
  have "lSource sample_lexer = [32, 105, 102]" "length (lStates sample_lexer) = 3"
    by (simp_all add: sample_lexer_def NewLexer_def sample_dfa_def)
  then have q: "0 \<le> sint (0 :: u32)" "sint (0 :: u32) < int (length (lStates sample_lexer))" by simp_all
  have z: "\<lparr>cPos = 0, cPoint = point_at (lSource sample_lexer) 0, cRangeIdx = 0\<rparr> = zero_cursor" "sint (0 :: u32) = 0"
    by (simp_all add: zero_cursor_def)
  show ?thesis
    using scan_best_match [OF sample_scan q] unfolding Let_def z
  proof (elim exE conjE)
    fix cs skipped
    let ?A = "accepting sample_lexer 0 (config_start (last cs)) cs"
    let ?tok = "zero_token\<lparr>Symbol := 7, Text := [105, 102], tStartByte := 1, tEndByte := 3,
           tStartPoint := \<lparr>Row = 0, Column = 1\<rparr>, tEndPoint := \<lparr>Row = 0, Column = 3\<rparr>,
           lexerSkippedPrefix := True, lexerInternalDFALexed := True\<rparr>"
    assume cs: "dfa_trace sample_lexer (0, zero_cursor, zero_cursor, 0) cs" "dfa_step sample_lexer (last cs) = None"
      and res: "if ?A \<noteq> {} then True \<and> (\<exists>c \<in> ?A. (\<forall>d \<in> ?A. preferred sample_lexer c d) \<and>
          ?tok = accept_token (go_slice (lSource sample_lexer)) 0 skipped (config_accept sample_lexer c))
        else if 0 < snd (snd (snd (last cs)))
        then True \<and> Symbol ?tok = 0 \<and> tStartByte ?tok = u32_of (cPos (config_start (last cs)))
        else \<not> True \<and> ?tok = zero_token"
    have "?A \<noteq> {}" using res by (auto split: if_splits)
    then show ?thesis using res cs by auto
  qed
qed

end
