(* ===== verification/Included_Ranges.thy ===== *)
theory Included_Ranges
  imports Source_Positions
begin

text \<open>
  Sets of source ranges: \<open>normalizeIncludedRanges\<close> (\<open>included_ranges.go\<close>), which the parser
  runs on the ranges a caller selects, and \<open>coalesceRanges\<close> (\<open>tree.go\<close>), which merges
  changed ranges. The lemmas show that the result selects the same bytes, is sorted with a
  gap between any two ranges, is the only such list up to the points of equal ranges, and
  keeps positions that agree with the source.
\<close>

definition range_key :: "range \<Rightarrow> u32 \<times> u32" where
  "range_key r = (rStartByte r, rEndByte r)"

text \<open>The merging loop of \<open>normalizeIncludedRanges\<close>; \<open>cur\<close> is the range being extended.\<close>

fun merge_ranges :: "range \<Rightarrow> range list \<Rightarrow> range list" where
  "merge_ranges cur [] = [cur]"
| "merge_ranges cur (r # rs) =
     (if rStartByte r \<le> rEndByte cur
      then merge_ranges
             (if rEndByte r > rEndByte cur
              then cur\<lparr>rEndByte := rEndByte r, rEndPoint := rEndPoint r\<rparr> else cur) rs
      else cur # merge_ranges r rs)"

definition merge_sorted :: "range list \<Rightarrow> range list" where
  "merge_sorted rs = (case rs of [] \<Rightarrow> [] | r # rest \<Rightarrow> merge_ranges r rest)"

definition nonempty_ranges :: "range list \<Rightarrow> range list" where
  "nonempty_ranges rs = filter (\<lambda>r. \<not> rEndByte r \<le> rStartByte r) rs"

definition normalizeIncludedRanges :: "range list \<Rightarrow> range list" where
  "normalizeIncludedRanges rs = merge_sorted (go_sort_by range_key (nonempty_ranges rs))"

definition rangesOverlapOrTouch :: "range \<Rightarrow> range \<Rightarrow> bool" where
  "rangesOverlapOrTouch a b \<longleftrightarrow> \<not> (rEndByte a < rStartByte b \<or> rEndByte b < rStartByte a)"

fun coalesce_loop :: "range \<Rightarrow> range list \<Rightarrow> range list" where
  "coalesce_loop cur [] = [cur]"
| "coalesce_loop cur (r # rs) =
     (if rangesOverlapOrTouch cur r
      then
        (let c1 = (if rStartByte r < rStartByte cur
                   then cur\<lparr>rStartByte := rStartByte r, rStartPoint := rStartPoint r\<rparr> else cur);
             c2 = (if rEndByte r > rEndByte c1
                   then c1\<lparr>rEndByte := rEndByte r, rEndPoint := rEndPoint r\<rparr> else c1)
         in coalesce_loop c2 rs)
      else cur # coalesce_loop r rs)"

definition coalesceRanges :: "range list \<Rightarrow> range list" where
  "coalesceRanges rs =
     (if length rs \<le> 1 then rs
      else (case go_sort_by range_key rs of [] \<Rightarrow> [] | r # rest \<Rightarrow> coalesce_loop r rest))"

subsection \<open>What a list of ranges selects\<close>

definition covers :: "range list \<Rightarrow> u32 \<Rightarrow> bool" where
  "covers rs n \<longleftrightarrow> (\<exists>r \<in> set rs. rStartByte r \<le> n \<and> n < rEndByte r)"

text \<open>Non-empty ranges in increasing order, with at least one byte between neighbours.\<close>

fun separated :: "range list \<Rightarrow> bool" where
  "separated [] = True"
| "separated [r] = (rStartByte r < rEndByte r)"
| "separated (r1 # r2 # rs) =
     (rStartByte r1 < rEndByte r1 \<and> rEndByte r1 < rStartByte r2 \<and> separated (r2 # rs))"

definition range_points_ok :: "bytes \<Rightarrow> range \<Rightarrow> bool" where
  "range_points_ok src r \<longleftrightarrow>
     rStartPoint r = point_at src (unat (rStartByte r)) \<and>
     rEndPoint r = point_at src (unat (rEndByte r))"

subsection \<open>Lemmas\<close>

lemma covers_Nil [simp]: "\<not> covers [] n"
  by (simp add: covers_def)

lemma covers_Cons: "covers (r # rs) n \<longleftrightarrow> (rStartByte r \<le> n \<and> n < rEndByte r) \<or> covers rs n"
  by (auto simp: covers_def)

lemma covers_set: "set xs = set ys \<Longrightarrow> covers xs n = covers ys n"
  by (simp add: covers_def)

lemma covers_nonempty [simp]: "covers (nonempty_ranges rs) n = covers rs n"
  by (auto simp: covers_def nonempty_ranges_def dest: order.strict_trans1)

lemma separated_Cons:
  "separated (r # rs) \<longleftrightarrow>
     rStartByte r < rEndByte r \<and> (rs = [] \<or> rEndByte r < rStartByte (hd rs)) \<and> separated rs"
  by (cases rs) auto

lemma merge_ranges_covers:
  assumes "rStartByte cur < rEndByte cur"
    and "\<forall>r \<in> set rs. rStartByte cur \<le> rStartByte r \<and> rStartByte r < rEndByte r"
    and "sorted (map rStartByte rs)"
  shows "covers (merge_ranges cur rs) n \<longleftrightarrow> covers (cur # rs) n"
  using assms
proof (induction cur rs rule: merge_ranges.induct)
  case (1 cur)
  then show ?case by simp
next
  case (2 cur r rs)
  show ?case
  proof (cases "rStartByte r \<le> rEndByte cur")
    case True
    let ?cur = "if rEndByte r > rEndByte cur
      then cur\<lparr>rEndByte := rEndByte r, rEndPoint := rEndPoint r\<rparr> else cur"
    have "covers (merge_ranges ?cur rs) n \<longleftrightarrow> covers (?cur # rs) n"
      using True 2 by (intro "2.IH"(1)) auto
    moreover have "(rStartByte ?cur \<le> n \<and> n < rEndByte ?cur) \<longleftrightarrow>
        (rStartByte cur \<le> n \<and> n < rEndByte cur) \<or> (rStartByte r \<le> n \<and> n < rEndByte r)"
      using True "2.prems" by (auto simp: not_less)
    ultimately show ?thesis using True by (simp add: covers_Cons)
  next
    case False
    have "covers (merge_ranges r rs) n \<longleftrightarrow> covers (r # rs) n"
      using False 2 by (intro "2.IH"(2)) auto
    then show ?thesis using False by (simp add: covers_Cons)
  qed
qed

lemma merge_ranges_start: "rStartByte (hd (merge_ranges cur rs)) = rStartByte cur"
  by (induction cur rs rule: merge_ranges.induct) auto

lemma merge_ranges_nonempty: "merge_ranges cur rs \<noteq> []"
  by (induction cur rs rule: merge_ranges.induct) auto

lemma merge_ranges_separated:
  assumes "rStartByte cur < rEndByte cur" and "\<forall>r \<in> set rs. rStartByte r < rEndByte r"
  shows "separated (merge_ranges cur rs)"
  using assms
proof (induction cur rs rule: merge_ranges.induct)
  case (1 cur)
  then show ?case by simp
next
  case (2 cur r rs)
  then show ?case
    by (auto simp: separated_Cons merge_ranges_start not_le)
qed

lemma merge_ranges_points:
  assumes "range_points_ok src cur" and "\<forall>r \<in> set rs. range_points_ok src r"
    and "r \<in> set (merge_ranges cur rs)"
  shows "range_points_ok src r"
  using assms
  by (induction cur rs rule: merge_ranges.induct) (auto simp: range_points_ok_def split: if_splits)

text \<open>A separated list is already merged.\<close>

lemma merge_ranges_fixed: "separated (cur # rs) \<Longrightarrow> merge_ranges cur rs = cur # rs"
proof (induction rs arbitrary: cur)
  case Nil
  then show ?case by simp
next
  case (Cons r rs)
  then show ?case by (auto simp: not_le)
qed

lemma sorted_starts:
  "sorted (map range_key rs) \<Longrightarrow> sorted (map rStartByte rs)"
  by (induction rs) (auto simp: range_key_def less_eq_prod_def)

lemma separated_nonempty: "separated rs \<Longrightarrow> r \<in> set rs \<Longrightarrow> rStartByte r < rEndByte r"
  by (induction rs rule: separated.induct) auto

lemma separated_after:
  "separated (r # rs) \<Longrightarrow> q \<in> set rs \<Longrightarrow> rEndByte r < rStartByte q"
proof (induction rs arbitrary: r)
  case Nil
  then show ?case by simp
next
  case (Cons r2 rs)
  then show ?case
    by (auto dest: separated_nonempty) (meson order.strict_trans separated_nonempty list.set_intros(1))
qed

lemma separated_sorted: "separated rs \<Longrightarrow> sorted (map range_key rs)"
proof (induction rs)
  case Nil
  then show ?case by simp
next
  case (Cons r rs)
  have "range_key r \<le> range_key q" if "q \<in> set rs" for q
  proof -
    have "rStartByte r < rStartByte q"
      using separated_after [OF Cons.prems that] Cons.prems
      by (auto simp: separated_Cons)
    then show ?thesis by (simp add: range_key_def less_eq_prod_def)
  qed
  then show ?case using Cons by (auto simp: separated_Cons)
qed

lemma separated_sort_id: "separated rs \<Longrightarrow> go_sort_by range_key rs = rs"
  unfolding go_sort_by_def by (rule sort_key_id_if_sorted) (rule separated_sorted)

lemma separated_filter_id: "separated rs \<Longrightarrow> nonempty_ranges rs = rs"
  by (auto simp: nonempty_ranges_def filter_id_conv not_le dest: separated_nonempty)

text \<open>The merged list for any sorted permutation of non-empty ranges.\<close>

lemma merge_sorted_spec:
  assumes "sorted (map range_key rs)" and "\<forall>r \<in> set rs. rStartByte r < rEndByte r"
  shows "covers (merge_sorted rs) n \<longleftrightarrow> covers rs n" and "separated (merge_sorted rs)"
proof -
  show "covers (merge_sorted rs) n \<longleftrightarrow> covers rs n"
  proof (cases rs)
    case (Cons r rest)
    have "sorted (map rStartByte (r # rest))" using assms(1) sorted_starts Cons by blast
    then show ?thesis
      using assms(2) Cons by (simp add: merge_sorted_def merge_ranges_covers)
  qed (simp add: merge_sorted_def)
  show "separated (merge_sorted rs)"
    using assms(2) by (cases rs) (auto simp: merge_sorted_def intro!: merge_ranges_separated)
qed

lemma coalesce_loop_merge:
  assumes "\<forall>r \<in> set rs. rStartByte cur \<le> rStartByte r \<and> rStartByte r \<le> rEndByte r"
    and "sorted (map rStartByte rs)"
  shows "coalesce_loop cur rs = merge_ranges cur rs"
  using assms
proof (induction rs arbitrary: cur)
  case Nil
  then show ?case by simp
next
  case (Cons r rs)
  have "\<not> rStartByte r < rStartByte cur" "\<not> rEndByte r < rStartByte cur"
    using Cons.prems by (auto simp: not_less dest: order.trans)
  then show ?case
    using Cons by (auto simp: rangesOverlapOrTouch_def Let_def not_less)
qed

text \<open>A separated list is determined by the bytes it selects.\<close>

lemma separated_covers_start: "separated (r # rs) \<Longrightarrow> covers (r # rs) n \<Longrightarrow> rStartByte r \<le> n"
  by (auto simp: covers_def separated_Cons dest: separated_after)
    (meson order.strict_trans1 order.strict_implies_order order.trans separated_after
      separated_Cons)

lemma separated_tail:
  assumes "separated (r # rs)"
  shows "covers rs n \<longleftrightarrow> covers (r # rs) n \<and> rEndByte r \<le> n"
  using assms separated_after [OF assms]
  by (auto simp: covers_def dest: order.strict_trans2)
    (metis leD order.strict_trans2 order.strict_implies_order)

lemma separated_gap: "separated (r # rs) \<Longrightarrow> \<not> covers (r # rs) (rEndByte r)"
  by (auto simp: covers_def dest: separated_after)

lemma separated_unique:
  assumes "separated xs" and "separated ys" and "\<And>n. covers xs n = covers ys n"
  shows "map range_key xs = map range_key ys"
  using assms
proof (induction xs arbitrary: ys)
  case Nil
  then show ?case
    by (cases ys) (auto simp: covers_Cons separated_Cons)
next
  case (Cons x xs)
  have x: "rStartByte x < rEndByte x" using Cons.prems(1) by (simp add: separated_Cons)
  then have "covers ys (rStartByte x)" using Cons.prems(3) [of "rStartByte x"] by (simp add: covers_Cons)
  then obtain y ys' where ys: "ys = y # ys'" by (cases ys) auto
  have y: "rStartByte y < rEndByte y" using Cons.prems(2) ys by (simp add: separated_Cons)
  have start: "rStartByte x = rStartByte y"
  proof (rule order.antisym)
    show "rStartByte x \<le> rStartByte y"
      using separated_covers_start [OF Cons.prems(1)] Cons.prems(3) y ys by (simp add: covers_Cons)
    show "rStartByte y \<le> rStartByte x"
      using separated_covers_start Cons.prems(2) \<open>covers ys (rStartByte x)\<close> ys by blast
  qed
  have "\<not> rEndByte x < rEndByte y"
    using separated_gap [OF Cons.prems(1)] Cons.prems(3) x start ys
    by (metis covers_Cons order.strict_implies_order)
  moreover have "\<not> rEndByte y < rEndByte x"
    using separated_gap [of y ys'] Cons.prems(2,3) y start ys
    by (metis covers_Cons order.strict_implies_order)
  ultimately have stop: "rEndByte x = rEndByte y" by auto
  have "covers xs n = covers ys' n" for n
    using separated_tail [OF Cons.prems(1)] separated_tail [of y ys'] Cons.prems(2,3) ys stop by metis
  then have "map range_key xs = map range_key ys'"
    using Cons.IH Cons.prems(1,2) ys by (auto simp: separated_Cons)
  moreover have "range_key x = range_key y" using start stop by (simp add: range_key_def)
  ultimately show ?case using ys by simp
qed

lemma normalize_sorted:
  "sorted (map range_key (go_sort_by range_key (nonempty_ranges rs)))"
  "\<forall>r \<in> set (go_sort_by range_key (nonempty_ranges rs)). rStartByte r < rEndByte r"
  by (auto simp: sorted_go_sort_by nonempty_ranges_def)

lemma normalizeIncludedRanges_separated: "separated (normalizeIncludedRanges rs)"
  using merge_sorted_spec(2) [OF normalize_sorted] by (simp add: normalizeIncludedRanges_def)

lemma normalizeIncludedRanges_covers: "covers (normalizeIncludedRanges rs) n = covers rs n"
  using merge_sorted_spec(1) [OF normalize_sorted] covers_set [of "go_sort_by range_key (nonempty_ranges rs)" "nonempty_ranges rs"]
  by (simp add: normalizeIncludedRanges_def)

lemma normalizeIncludedRanges_points:
  assumes "\<forall>r \<in> set rs. range_points_ok src r" and "r \<in> set (normalizeIncludedRanges rs)"
  shows "range_points_ok src r"
proof -
  have "\<forall>q \<in> set (go_sort_by range_key (nonempty_ranges rs)). range_points_ok src q"
    using assms(1) by (simp add: nonempty_ranges_def)
  then show ?thesis
    using assms(2) merge_ranges_points
    by (cases "go_sort_by range_key (nonempty_ranges rs)")
      (auto simp: normalizeIncludedRanges_def merge_sorted_def)
qed

subsection \<open>Properties\<close>

text \<open>
  \<^bold>\<open>C16.\<close> \<open>normalizeIncludedRanges\<close> selects exactly the bytes the given ranges select, and its
  result is a list of non-empty, increasing ranges with a gap between any two of them. The
  byte ranges of the result are the only ones with these two properties, so they do not
  depend on the order of the input or on the tie-breaking of the sort; applied to its own
  result it changes nothing.
\<close>

theorem normalize_ranges_canonical:
  "(\<forall>n. covers (normalizeIncludedRanges rs) n = covers rs n) \<and>
   separated (normalizeIncludedRanges rs) \<and>
   (\<forall>ys. separated ys \<and> (\<forall>n. covers ys n = covers rs n) \<longrightarrow>
      map range_key ys = map range_key (normalizeIncludedRanges rs)) \<and>
   normalizeIncludedRanges (normalizeIncludedRanges rs) = normalizeIncludedRanges rs"
proof -
  have cov: "covers (normalizeIncludedRanges rs) n = covers rs n" for n
    by (rule normalizeIncludedRanges_covers)
  have sep: "separated (normalizeIncludedRanges rs)" by (rule normalizeIncludedRanges_separated)
  have "merge_sorted (normalizeIncludedRanges rs) = normalizeIncludedRanges rs"
    using sep by (cases "normalizeIncludedRanges rs") (simp_all add: merge_sorted_def merge_ranges_fixed)
  then have "normalizeIncludedRanges (normalizeIncludedRanges rs) = normalizeIncludedRanges rs"
    by (simp add: normalizeIncludedRanges_def [of "normalizeIncludedRanges rs"]
        separated_filter_id [OF sep] separated_sort_id [OF sep])
  then show ?thesis using cov sep separated_unique by blast
qed

theorem normalize_ranges_canonical_witness:
  "map range_key (normalizeIncludedRanges
     [\<lparr>rStartByte = 5, rEndByte = 9, rStartPoint = zero_point, rEndPoint = zero_point\<rparr>,
      \<lparr>rStartByte = 2, rEndByte = 2, rStartPoint = zero_point, rEndPoint = zero_point\<rparr>,
      \<lparr>rStartByte = 1, rEndByte = 5, rStartPoint = zero_point, rEndPoint = zero_point\<rparr>]) = [(1, 9)]"
proof -
  let ?rs = "[\<lparr>rStartByte = 5, rEndByte = 9, rStartPoint = zero_point, rEndPoint = zero_point\<rparr>,
      \<lparr>rStartByte = 2, rEndByte = 2, rStartPoint = zero_point, rEndPoint = zero_point\<rparr>,
      \<lparr>rStartByte = 1, rEndByte = 5, rStartPoint = zero_point, rEndPoint = zero_point\<rparr>]"
  let ?ys = "[\<lparr>rStartByte = 1, rEndByte = 9, rStartPoint = zero_point, rEndPoint = zero_point\<rparr>]"
  have "separated ?ys" by simp
  moreover have "covers ?ys n = covers ?rs n" for n
    by (auto simp: covers_def word_le_nat_alt word_less_nat_alt)
  ultimately have "map range_key ?ys = map range_key (normalizeIncludedRanges ?rs)"
    using normalize_ranges_canonical [of ?rs] by blast
  then show ?thesis by (simp add: range_key_def)
qed

text \<open>
  On well-formed ranges, \<open>coalesceRanges\<close> of \<open>tree.go\<close> and the merging loop of
  \<open>normalizeIncludedRanges\<close> agree: its extra branch for a range that starts earlier is never
  taken after sorting, and without empty ranges the two functions are the same.
\<close>

lemma coalesce_is_normalize:
  assumes "\<forall>r \<in> set rs. rStartByte r < rEndByte r"
  shows "coalesceRanges rs = normalizeIncludedRanges rs"
proof -
  let ?s = "go_sort_by range_key rs"
  have filt: "nonempty_ranges rs = rs" using assms by (auto simp: nonempty_ranges_def not_le filter_id_conv)
  have norm: "normalizeIncludedRanges rs = merge_sorted ?s" by (simp add: normalizeIncludedRanges_def filt)
  show ?thesis
  proof (cases "length rs \<le> 1")
    case True
    then have "merge_sorted ?s = rs" by (cases rs) (simp_all add: merge_sorted_def go_sort_by_def)
    then show ?thesis using True norm by (simp add: coalesceRanges_def)
  next
    case False
    show ?thesis
    proof (cases ?s)
      case Nil
      then have "rs = []" using length_go_sort_by [of range_key rs] by simp
      then show ?thesis using False by simp
    next
      case (Cons r rest)
      have "sorted (map rStartByte (r # rest))" using sorted_starts sorted_go_sort_by Cons by metis
      moreover have "\<forall>q \<in> set (r # rest). rStartByte q \<le> rEndByte q"
        using assms Cons by (metis order.strict_implies_order set_go_sort_by)
      ultimately have "coalesce_loop r rest = merge_ranges r rest"
        by (intro coalesce_loop_merge) auto
      then show ?thesis using False Cons by (simp add: coalesceRanges_def norm merge_sorted_def)
    qed
  qed
qed

end
