(* ===== verification/Lexer_Included.thy ===== *)
theory Lexer_Included
  imports Lexer Included_Ranges
begin

text \<open>
  Lexing inside selected ranges (\<open>lexer_included_ranges.go\<close>): the cursor that jumps over the
  gaps, the text of a token that spans a gap, and the walk \<open>scanIncluded\<close>. The lemmas show
  that the cursor always stands on a selected byte or at the logical end of input, that the
  walk ends for the ranges the parser installs, and that it finds the token that
  \<open>scanContiguous\<close> finds on the selected bytes put together.
\<close>

definition includedRangeBounds :: "lexer \<Rightarrow> nat \<Rightarrow> nat \<times> nat" where
  "includedRangeBounds l index =
     (if index \<ge> length (includedRanges l) then (0, 0)
      else
        (let r = includedRanges l ! index; n = length (lSource l)
         in (if unat (rStartByte r) < n then unat (rStartByte r) else n,
             if unat (rEndByte r) < n then unat (rEndByte r) else n)))"

definition source_end :: "lexer \<Rightarrow> nat \<times> point" where
  "source_end l = (length (lSource l), advancePointByBytes zero_point (lSource l))"

text \<open>The loop of \<open>includedEOFPosition\<close>, downwards over the ranges below \<open>i\<close>.\<close>

fun included_eof_loop :: "lexer \<Rightarrow> nat \<Rightarrow> nat \<times> point" where
  "included_eof_loop l 0 = source_end l"
| "included_eof_loop l (Suc i) =
     (let (start, stop) = includedRangeBounds l i; last = includedRanges l ! i in
      if stop \<le> start then included_eof_loop l i
      else if unat (rEndByte last) \<le> length (lSource l) then (stop, rEndPoint last)
      else source_end l)"

definition includedEOFPosition :: "lexer \<Rightarrow> nat \<times> point" where
  "includedEOFPosition l = included_eof_loop l (length (includedRanges l))"

function normalize_loop :: "lexer \<Rightarrow> lex_cursor \<Rightarrow> lex_cursor" where
  "normalize_loop l cur =
     (if cRangeIdx cur < length (includedRanges l)
      then
        (let (start, stop) = includedRangeBounds l (cRangeIdx cur) in
         if stop \<le> start then normalize_loop l (cur\<lparr>cRangeIdx := cRangeIdx cur + 1\<rparr>)
         else if cPos cur < start
         then cur\<lparr>cPos := start, cPoint := rStartPoint (includedRanges l ! cRangeIdx cur)\<rparr>
         else if cPos cur < stop then cur
         else normalize_loop l (cur\<lparr>cRangeIdx := cRangeIdx cur + 1\<rparr>))
      else
        (let (endPos, endPoint) = includedEOFPosition l
         in cur\<lparr>cPos := endPos, cPoint := endPoint\<rparr>))"
  by pat_completeness auto

termination normalize_loop
  by (relation "measure (\<lambda>(l, cur). length (includedRanges l) - cRangeIdx cur)") auto

declare normalize_loop.simps [simp del]

definition normalizeIncludedCursor :: "lexer \<Rightarrow> lex_cursor \<Rightarrow> lex_cursor" where
  "normalizeIncludedCursor l cur =
     (if includedRanges l = [] then cur
      else
        (let n = length (includedRanges l);
             c1 = (if cRangeIdx cur > n then cur\<lparr>cRangeIdx := 0\<rparr> else cur);
             c2 = (if cRangeIdx c1 > 0 \<and> cRangeIdx c1 \<le> n \<and>
                      cPos c1 < snd (includedRangeBounds l (cRangeIdx c1 - 1))
                   then c1\<lparr>cRangeIdx := 0\<rparr> else c1)
         in normalize_loop l c2))"

definition lexer_cursor :: "lexer \<Rightarrow> lex_cursor" where
  "lexer_cursor l = \<lparr>cPos = lPos l, cPoint = lPoint l, cRangeIdx = includedRangeIdx l\<rparr>"

definition set_cursor :: "lexer \<Rightarrow> lex_cursor \<Rightarrow> lexer" where
  "set_cursor l cur = l\<lparr>lPos := cPos cur, lPoint := cPoint cur, includedRangeIdx := cRangeIdx cur\<rparr>"

definition normalizeIncludedPosition :: "lexer \<Rightarrow> lexer" where
  "normalizeIncludedPosition l =
     (if includedRanges l = [] then l
      else set_cursor l (normalizeIncludedCursor l (lexer_cursor l)))"

definition setIncludedRanges :: "lexer \<Rightarrow> range list \<Rightarrow> lexer" where
  "setIncludedRanges l ranges =
     normalizeIncludedPosition (l\<lparr>includedRanges := ranges, includedRangeIdx := 0\<rparr>)"

fun range_index_loop :: "lexer \<Rightarrow> nat \<Rightarrow> nat list \<Rightarrow> nat" where
  "range_index_loop l pos [] = length (includedRanges l)"
| "range_index_loop l pos (i # is) =
     (if pos < snd (includedRangeBounds l i) then i else range_index_loop l pos is)"

definition includedRangeIndexForPosition :: "lexer \<Rightarrow> nat \<Rightarrow> nat" where
  "includedRangeIndexForPosition l pos =
     (if includedRanges l = [] then 0 else range_index_loop l pos [0..<length (includedRanges l)])"

definition atLogicalEOF :: "lexer \<Rightarrow> bool" where
  "atLogicalEOF l =
     (if includedRanges l = [] then lPos l \<ge> length (lSource l)
      else includedRangeIdx l \<ge> length (includedRanges l))"

text \<open>The cursor after the call, and the rune with its width if there was one.\<close>

definition advanceIncludedCursor :: "lexer \<Rightarrow> lex_cursor \<Rightarrow> lex_cursor \<times> (rune \<times> nat) option" where
  "advanceIncludedCursor l cur =
     (let c = normalizeIncludedCursor l cur in
      if cRangeIdx c \<ge> length (includedRanges l) then (c, None)
      else
        (let stop = snd (includedRangeBounds l (cRangeIdx c)) in
         if cPos c \<ge> stop then (c, None)
         else
           (let (r, width) = rune_at (go_slice (lSource l) (cPos c) stop);
                c1 = c\<lparr>cPos := cPos c + width, cPoint := advance_point (cPoint c) r width\<rparr>;
                c2 = (if cPos c1 \<ge> stop
                      then normalizeIncludedCursor l (c1\<lparr>cRangeIdx := cRangeIdx c1 + 1\<rparr>) else c1)
            in (c2, Some (r, width)))))"

definition skipOneIncludedRune :: "lexer \<Rightarrow> lexer" where
  "skipOneIncludedRune l =
     (case advanceIncludedCursor l (lexer_cursor l) of
        (c, None) \<Rightarrow> l
      | (c, Some _) \<Rightarrow> set_cursor l c)"

definition includedMarkEnd :: "lexer \<Rightarrow> lex_cursor \<Rightarrow> nat \<times> point" where
  "includedMarkEnd l cur =
     (if cRangeIdx cur > 0 \<and> cRangeIdx cur < length (includedRanges l) \<and>
         cPos cur = fst (includedRangeBounds l (cRangeIdx cur))
      then
        (let previous = includedRanges l ! (cRangeIdx cur - 1);
             previousEnd = snd (includedRangeBounds l (cRangeIdx cur - 1))
         in if unat (rEndByte previous) \<le> length (lSource l) then (previousEnd, rEndPoint previous)
            else (previousEnd, advancePointByBytes zero_point (take previousEnd (lSource l))))
      else (cPos cur, cPoint cur))"

definition token_segments :: "lexer \<Rightarrow> nat \<Rightarrow> nat \<Rightarrow> (nat \<times> nat) list" where
  "token_segments l start stop =
     filter (\<lambda>(s, e). \<not> e \<le> s)
       (map (\<lambda>i. (max start (fst (includedRangeBounds l i)), min stop (snd (includedRangeBounds l i))))
          [0..<length (includedRanges l)])"

definition tokenText :: "lexer \<Rightarrow> nat \<Rightarrow> nat \<Rightarrow> bytes" where
  "tokenText l start stop =
     (if start \<ge> stop then []
      else if includedRanges l = [] then go_slice (lSource l) start stop
      else
        (case token_segments l start stop of
           [] \<Rightarrow> []
         | [(s, e)] \<Rightarrow> go_slice (lSource l) s e
         | segments \<Rightarrow> concat (map (\<lambda>(s, e). go_slice (lSource l) s e) segments)))"

subsection \<open>The walk\<close>

definition included_step :: "lexer \<Rightarrow> nat \<Rightarrow> lex_scan \<Rightarrow> lex_scan \<times> bool" where
  "included_step l startPos s =
     (if sState s < 0 \<or> sState s \<ge> int (length (lStates l)) then (s, False)
      else
        (let st = lStates l ! nat (sState s); s1 = scan_accept (includedMarkEnd l) l startPos st s in
         if cRangeIdx (sCursor s1) \<ge> length (includedRanges l) then eof_hop l st s1
         else
           (let s2 = s1\<lparr>eofHops := 0\<rparr>;
                cur = sCursor s2;
                stop = snd (includedRangeBounds l (cRangeIdx cur));
                r = fst (rune_at (go_slice (lSource l) (cPos cur) stop));
                (nextState, skipTransition) =
                  next_transition (asciiTable l) (sState s2) st (lSource l ! cPos cur) r
            in if nextState < 0 then (s2, False)
               else
                 (case advanceIncludedCursor l cur of
                    (cur', None) \<Rightarrow> (s2\<lparr>sCursor := cur'\<rparr>, False)
                  | (cur', Some _) \<Rightarrow> (scan_move s2 cur' nextState skipTransition, True)))))"

text \<open>The loop is kept partial: \<open>None\<close> would be a walk that never ends.\<close>

partial_function (option) included_loop :: "lexer \<Rightarrow> nat \<Rightarrow> lex_scan \<Rightarrow> lex_scan option" where
  "included_loop l startPos s =
     (case included_step l startPos s of (s', continue) \<Rightarrow>
        if continue then included_loop l startPos s' else Some s')"

declare included_loop.simps [code]

definition scanIncluded :: "lexer \<Rightarrow> u32 \<Rightarrow> nat \<Rightarrow> point \<Rightarrow> (lexer \<times> token \<times> bool) option" where
  "scanIncluded l startState startPos startPoint =
     (let curState = sint startState in
      if curState < 0 \<or> curState \<ge> int (length (lStates l)) then Some (l, zero_token, False)
      else
        (let cur = normalizeIncludedCursor l
               \<lparr>cPos = startPos, cPoint = startPoint, cRangeIdx = includedRangeIdx l\<rparr>
         in case included_loop l (cPos cur) (start_scan curState cur) of
              None \<Rightarrow> None
            | Some s \<Rightarrow>
                (case eof_accept (includedMarkEnd l) s of
                   None \<Rightarrow> Some (l\<lparr>failTokenStart := sTokenStart s\<rparr>, zero_token, False)
                 | Some a \<Rightarrow>
                     Some (l\<lparr>lPos := aPos a, lPoint := aPoint a, includedRangeIdx := aRangeIdx a\<rparr>,
                           accept_token (tokenText l) (cPos cur) (sSkippedPrefix s) a, True))))"

subsection \<open>Selected bytes\<close>

abbreviation lo :: "lexer \<Rightarrow> nat \<Rightarrow> nat" where
  "lo l i \<equiv> fst (includedRangeBounds l i)"

abbreviation hi :: "lexer \<Rightarrow> nat \<Rightarrow> nat" where
  "hi l i \<equiv> snd (includedRangeBounds l i)"

abbreviation range_count :: "lexer \<Rightarrow> nat" where
  "range_count l \<equiv> length (includedRanges l)"

text \<open>The selected bytes of the first \<open>m\<close> ranges, and how many of them lie before \<open>k\<close>.\<close>

definition selected_upto :: "lexer \<Rightarrow> nat \<Rightarrow> bytes" where
  "selected_upto l m = concat (map (\<lambda>i. go_slice (lSource l) (lo l i) (hi l i)) [0..<m])"

definition selected_bytes :: "lexer \<Rightarrow> bytes" where
  "selected_bytes l = selected_upto l (range_count l)"

definition count_upto :: "lexer \<Rightarrow> nat \<Rightarrow> nat \<Rightarrow> nat" where
  "count_upto l m k = (\<Sum>i<m. min k (hi l i) - min k (lo l i))"

definition count_selected :: "lexer \<Rightarrow> nat \<Rightarrow> nat" where
  "count_selected l k = count_upto l (range_count l) k"

text \<open>A cursor on a selected byte of its range, or at the logical end of input.\<close>

definition normal :: "lexer \<Rightarrow> lex_cursor \<Rightarrow> bool" where
  "normal l cur \<longleftrightarrow>
     cRangeIdx cur < range_count l \<and> lo l (cRangeIdx cur) \<le> cPos cur \<and> cPos cur < hi l (cRangeIdx cur) \<or>
     cRangeIdx cur = range_count l \<and> (cPos cur, cPoint cur) = includedEOFPosition l"

subsection \<open>Lemmas: bounds\<close>

lemma bounds_le_length [simp]: "lo l i \<le> length (lSource l)" "hi l i \<le> length (lSource l)"
  by (auto simp: includedRangeBounds_def Let_def)

lemma separated_nth:
  assumes "separated rs"
  shows "j < length rs \<Longrightarrow> rStartByte (rs ! j) < rEndByte (rs ! j)"
    and "i < j \<Longrightarrow> j < length rs \<Longrightarrow> rEndByte (rs ! i) < rStartByte (rs ! j)"
proof -
  have "(\<forall>j < length rs. rStartByte (rs ! j) < rEndByte (rs ! j)) \<and>
      sorted_wrt (\<lambda>a b. rEndByte a < rStartByte b) rs"
    using assms
  proof (induction rs)
    case Nil
    then show ?case by simp
  next
    case (Cons r rs)
    then show ?case
      using separated_after [OF Cons.prems] by (auto simp: separated_Cons nth_Cons split: nat.splits)
  qed
  then show "j < length rs \<Longrightarrow> rStartByte (rs ! j) < rEndByte (rs ! j)"
    and "i < j \<Longrightarrow> j < length rs \<Longrightarrow> rEndByte (rs ! i) < rStartByte (rs ! j)"
    by (auto simp: sorted_wrt_iff_nth_less)
qed

lemma bounds_order:
  assumes "separated (includedRanges l)"
  shows "lo l i \<le> hi l i" and "i < j \<Longrightarrow> j < range_count l \<Longrightarrow> hi l i \<le> lo l j"
  using separated_nth [OF assms]
  by (auto simp: includedRangeBounds_def Let_def word_less_nat_alt split: if_splits)
    (meson le_trans less_imp_le_nat not_less)+

lemma normalize_loop_skip:
  "cRangeIdx cur < range_count l \<Longrightarrow> hi l (cRangeIdx cur) \<le> lo l (cRangeIdx cur) \<or> hi l (cRangeIdx cur) \<le> cPos cur \<Longrightarrow>
     normalize_loop l cur = normalize_loop l (cur\<lparr>cRangeIdx := cRangeIdx cur + 1\<rparr>)"
  by (subst normalize_loop.simps) (auto simp: Let_def split: prod.splits)

lemma normalize_loop_stop:
  "cRangeIdx cur < range_count l \<Longrightarrow> lo l (cRangeIdx cur) < hi l (cRangeIdx cur) \<Longrightarrow> cPos cur < hi l (cRangeIdx cur) \<Longrightarrow>
     normalize_loop l cur =
       (if cPos cur < lo l (cRangeIdx cur)
        then cur\<lparr>cPos := lo l (cRangeIdx cur), cPoint := rStartPoint (includedRanges l ! cRangeIdx cur)\<rparr> else cur)"
  by (subst normalize_loop.simps) (auto simp: Let_def split: prod.splits)

lemma normalize_loop_end:
  "\<not> cRangeIdx cur < range_count l \<Longrightarrow>
     normalize_loop l cur = cur\<lparr>cPos := fst (includedEOFPosition l), cPoint := snd (includedEOFPosition l)\<rparr>"
  by (subst normalize_loop.simps) (auto simp: Let_def split: prod.splits)

text \<open>Induction along the loop: it stops in a range, skips one, or has none left.\<close>

lemma normalize_loop_cases [case_names stop skip finish]:
  assumes "\<And>cur. cRangeIdx cur < range_count l \<Longrightarrow> lo l (cRangeIdx cur) < hi l (cRangeIdx cur) \<Longrightarrow>
      cPos cur < hi l (cRangeIdx cur) \<Longrightarrow> P cur"
    and "\<And>cur. cRangeIdx cur < range_count l \<Longrightarrow>
      hi l (cRangeIdx cur) \<le> lo l (cRangeIdx cur) \<or> hi l (cRangeIdx cur) \<le> cPos cur \<Longrightarrow>
      P (cur\<lparr>cRangeIdx := cRangeIdx cur + 1\<rparr>) \<Longrightarrow> P cur"
    and "\<And>cur. \<not> cRangeIdx cur < range_count l \<Longrightarrow> P cur"
  shows "P cur"
proof (induction "range_count l - cRangeIdx cur" arbitrary: cur rule: less_induct)
  case less
  show ?case
  proof (cases "cRangeIdx cur < range_count l")
    case True
    then have "P (cur\<lparr>cRangeIdx := cRangeIdx cur + 1\<rparr>)" by (intro less) auto
    then show ?thesis using True assms(1,2) [of cur] by (meson not_le)
  qed (rule assms(3))
qed

lemma normalize_loop_normal:
  "cRangeIdx cur \<le> range_count l \<Longrightarrow> normal l (normalize_loop l cur)"
proof (induction cur rule: normalize_loop_cases [of l])
  case (stop cur)
  then show ?case by (simp add: normalize_loop_stop normal_def)
next
  case (skip cur)
  then show ?case by (simp add: normalize_loop_skip)
next
  case (finish cur)
  then show ?case by (simp add: normalize_loop_end normal_def)
qed

lemma normalizeIncludedCursor_normal:
  "includedRanges l \<noteq> [] \<Longrightarrow> normal l (normalizeIncludedCursor l cur)"
  by (auto simp: normalizeIncludedCursor_def Let_def intro!: normalize_loop_normal)

lemma included_eof_loop_pos:
  assumes "separated (includedRanges l)" and "n \<le> range_count l"
  shows "fst (included_eof_loop l n) \<le> length (lSource l) \<and>
    (\<forall>j < n. lo l j < hi l j \<longrightarrow> hi l j \<le> fst (included_eof_loop l n)) \<and>
    (fst (included_eof_loop l n) = length (lSource l) \<or>
     (\<exists>j < n. lo l j < hi l j \<and> fst (included_eof_loop l n) = hi l j))"
  using assms(2)
proof (induction n)
  case 0
  then show ?case by (simp add: source_end_def)
next
  case (Suc n)
  have before: "hi l j \<le> hi l n" if "j < n" for j
    using bounds_order [OF assms(1)] that Suc.prems by (meson Suc_le_lessD order.trans)
  show ?case
  proof (cases "hi l n \<le> lo l n")
    case True
    then show ?thesis using Suc by (auto simp: less_Suc_eq split: prod.splits)
  next
    case False
    have full: "hi l n = length (lSource l)" if "\<not> unat (rEndByte (includedRanges l ! n)) \<le> length (lSource l)"
      using that Suc.prems by (simp add: includedRangeBounds_def Let_def)
    show ?thesis
      using False before full by (auto simp: source_end_def less_Suc_eq Let_def case_prod_beta)
  qed
qed

lemma eof_position:
  assumes "separated (includedRanges l)"
  shows "fst (includedEOFPosition l) \<le> length (lSource l)"
    and "j < range_count l \<Longrightarrow> lo l j < hi l j \<Longrightarrow> hi l j \<le> fst (includedEOFPosition l)"
  using included_eof_loop_pos [OF assms order.refl] by (auto simp: includedEOFPosition_def)

subsection \<open>Lemmas: counting selected bytes\<close>

lemma selected_upto_simps [simp]:
  "selected_upto l 0 = []"
  "selected_upto l (Suc m) = selected_upto l m @ go_slice (lSource l) (lo l m) (hi l m)"
  by (simp_all add: selected_upto_def)

lemma count_upto_simps [simp]:
  "count_upto l 0 k = 0"
  "count_upto l (Suc m) k = count_upto l m k + (min k (hi l m) - min k (lo l m))"
  by (simp_all add: count_upto_def)

lemma length_bounds_slice [simp]: "length (go_slice (lSource l) (lo l i) (hi l i)) = hi l i - lo l i"
  by (simp add: min_absorb1 diff_le_mono)

lemma length_selected_upto: "length (selected_upto l m) = (\<Sum>i<m. hi l i - lo l i)"
  by (induction m) (simp_all del: length_go_slice)

lemma count_upto_full:
  "(\<And>i. i < m \<Longrightarrow> lo l i < hi l i \<Longrightarrow> hi l i \<le> k) \<Longrightarrow> count_upto l m k = length (selected_upto l m)"
proof (induction m)
  case (Suc m)
  have "min k (hi l m) - min k (lo l m) = hi l m - lo l m"
    using Suc.prems [of m] by (cases "lo l m < hi l m") auto
  then show ?case using Suc by (simp del: length_go_slice)
qed simp

lemma count_upto_none:
  assumes "m \<le> n" and "\<And>i. m \<le> i \<Longrightarrow> i < n \<Longrightarrow> k \<le> lo l i \<or> hi l i \<le> lo l i"
  shows "count_upto l n k = count_upto l m k"
  using assms
proof (induction n rule: dec_induct)
  case (step n)
  have "min k (hi l n) - min k (lo l n) = 0" using step.prems [of n] step.hyps by auto
  then show ?case using step by simp
qed simp

lemma count_upto_mono:
  assumes "separated (includedRanges l)" "k \<le> k'"
  shows "count_upto l m k \<le> count_upto l m k'"
  using assms(2) bounds_order(1) [OF assms(1)]
  by (auto simp: count_upto_def intro!: sum_mono)

text \<open>The place of a selected byte among the selected bytes.\<close>

lemma count_in_range:
  assumes "separated (includedRanges l)" "i < range_count l" "lo l i \<le> k" "k \<le> hi l i"
  shows "count_selected l k = length (selected_upto l i) + (k - lo l i)"
proof -
  note ord = bounds_order [OF assms(1)]
  have "count_upto l (range_count l) k = count_upto l (Suc i) k"
  proof (rule count_upto_none)
    fix j assume "Suc i \<le> j" "j < range_count l"
    then have "hi l i \<le> lo l j" using ord(2) [of i j] by simp
    then show "k \<le> lo l j \<or> hi l j \<le> lo l j" using assms(4) by simp
  qed (use assms(2) in simp)
  moreover have "count_upto l i k = length (selected_upto l i)"
    by (rule count_upto_full) (use ord(2) assms(2,3) order.trans in blast)
  ultimately show ?thesis using assms(3,4) by (simp add: count_selected_def)
qed

lemma selected_split:
  assumes "i < range_count l"
  shows "\<exists>rest. selected_bytes l =
    selected_upto l i @ go_slice (lSource l) (lo l i) (hi l i) @ rest"
proof -
  have "\<exists>rest. selected_upto l n = selected_upto l (Suc i) @ rest" if "Suc i \<le> n" for n
    using that by (induction n rule: dec_induct) auto
  then show ?thesis using assms by (auto simp: selected_bytes_def Suc_le_eq)
qed

lemma selected_drop:
  assumes "separated (includedRanges l)" "i < range_count l" "lo l i \<le> k" "k < hi l i"
  shows "\<exists>rest. drop (count_selected l k) (selected_bytes l) = go_slice (lSource l) k (hi l i) @ rest"
    and "count_selected l k < length (selected_bytes l)"
    and "selected_bytes l ! count_selected l k = lSource l ! k"
proof -
  obtain rest where rest: "selected_bytes l = selected_upto l i @ go_slice (lSource l) (lo l i) (hi l i) @ rest"
    using selected_split [OF assms(2)] by blast
  have cnt: "count_selected l k = length (selected_upto l i) + (k - lo l i)"
    using count_in_range [OF assms(1-3)] assms(4) by simp
  have "drop (k - lo l i) (go_slice (lSource l) (lo l i) (hi l i)) = go_slice (lSource l) k (hi l i)"
    using assms(3) by (simp add: go_slice_def drop_take)
  moreover have "k - lo l i \<le> length (go_slice (lSource l) (lo l i) (hi l i))"
    using assms(3,4) by (simp del: length_go_slice)
  ultimately have drop: "drop (count_selected l k) (selected_bytes l) = go_slice (lSource l) k (hi l i) @ rest"
    by (simp add: rest cnt del: length_go_slice)
  then show "\<exists>rest. drop (count_selected l k) (selected_bytes l) = go_slice (lSource l) k (hi l i) @ rest" by blast
  have "k < length (lSource l)" using assms(4) bounds_le_length(2) by (rule order.strict_trans2)
  then have pos: "0 < length (go_slice (lSource l) k (hi l i))" using assms(4) by simp
  then have "go_slice (lSource l) k (hi l i) \<noteq> []" by (metis length_greater_0_conv)
  then have "drop (count_selected l k) (selected_bytes l) \<noteq> []" using drop by simp
  then show lt: "count_selected l k < length (selected_bytes l)" by simp
  have "selected_bytes l ! count_selected l k = drop (count_selected l k) (selected_bytes l) ! 0" using lt by simp
  also have "\<dots> = lSource l ! k"
    using drop pos nth_go_slice [of 0 "hi l i" k "lSource l"] by (simp add: nth_append)
  finally show "selected_bytes l ! count_selected l k = lSource l ! k" .
qed

text \<open>Moving a cursor to the next selected byte keeps its place among the selected bytes.\<close>

lemma count_at_eof:
  assumes "separated (includedRanges l)"
  shows "count_selected l (fst (includedEOFPosition l)) = length (selected_bytes l)"
  unfolding count_selected_def selected_bytes_def
  by (rule count_upto_full) (rule eof_position(2) [OF assms])

lemma normalize_loop_count:
  assumes "separated (includedRanges l)"
  shows "(\<And>j. j < cRangeIdx cur \<Longrightarrow> j < range_count l \<Longrightarrow> lo l j < hi l j \<Longrightarrow> hi l j \<le> cPos cur) \<Longrightarrow>
    count_selected l (cPos (normalize_loop l cur)) = count_selected l (cPos cur)"
proof (induction cur rule: normalize_loop_cases [of l])
  case (stop cur)
  let ?i = "cRangeIdx cur"
  show ?case
  proof (cases "cPos cur < lo l ?i")
    case True
    have "count_selected l (lo l ?i) = length (selected_upto l ?i)"
      using count_in_range [OF assms stop(1), of "lo l ?i"] stop(2) by simp
    moreover have "count_upto l (range_count l) (cPos cur) = count_upto l ?i (cPos cur)"
    proof (rule count_upto_none)
      fix j assume "?i \<le> j" "j < range_count l"
      then have "lo l ?i \<le> lo l j"
        using bounds_order [OF assms] by (metis le_neq_implies_less order.refl order.trans)
      then show "cPos cur \<le> lo l j \<or> hi l j \<le> lo l j" using True by simp
    qed (use stop(1) in simp)
    moreover have "count_upto l ?i (cPos cur) = length (selected_upto l ?i)"
      by (rule count_upto_full) (use stop in auto)
    ultimately show ?thesis using True stop by (simp add: normalize_loop_stop count_selected_def)
  qed (use stop in \<open>simp add: normalize_loop_stop\<close>)
next
  case (skip cur)
  then have "\<And>j. j < Suc (cRangeIdx cur) \<Longrightarrow> j < range_count l \<Longrightarrow> lo l j < hi l j \<Longrightarrow> hi l j \<le> cPos cur"
    by (auto simp: less_Suc_eq)
  then show ?case using skip by (simp add: normalize_loop_skip)
next
  case (finish cur)
  have "count_selected l (cPos cur) = length (selected_bytes l)"
    unfolding count_selected_def selected_bytes_def
    by (rule count_upto_full) (use finish in auto)
  then show ?case using finish(1) count_at_eof [OF assms] by (simp add: normalize_loop_end)
qed

lemma normalize_count:
  assumes "separated (includedRanges l)"
  shows "count_selected l (cPos (normalizeIncludedCursor l cur)) = count_selected l (cPos cur)"
proof (cases "includedRanges l = []")
  case True
  then show ?thesis by (simp add: normalizeIncludedCursor_def)
next
  case False
  let ?i = "cRangeIdx cur"
  show ?thesis
  proof (cases "?i > range_count l \<or> 0 < ?i \<and> cPos cur < hi l (?i - 1)")
    case True
    then have "normalizeIncludedCursor l cur = normalize_loop l (cur\<lparr>cRangeIdx := 0\<rparr>)"
      using False by (auto simp: normalizeIncludedCursor_def Let_def)
    then show ?thesis using normalize_loop_count [OF assms, of "cur\<lparr>cRangeIdx := 0\<rparr>"] by simp
  next
    case stay: False
    then have eq: "normalizeIncludedCursor l cur = normalize_loop l cur"
      using False by (auto simp: normalizeIncludedCursor_def Let_def)
    have "hi l j \<le> cPos cur" if "j < ?i" for j
    proof (cases "j = ?i - 1")
      case True
      then show ?thesis using stay that by auto
    next
      case ne: False
      then have "hi l j \<le> lo l (?i - 1)" using that stay by (intro bounds_order(2) [OF assms]) auto
      then have "hi l j \<le> hi l (?i - 1)" using bounds_order(1) [OF assms] by (rule order.trans)
      then show ?thesis using stay that by auto
    qed
    then show ?thesis unfolding eq using normalize_loop_count [OF assms, of cur] by blast
  qed
qed

text \<open>Normal cursors are ordered as their places among the selected bytes.\<close>

lemma count_selected_mono:
  "separated (includedRanges l) \<Longrightarrow> k \<le> k' \<Longrightarrow> count_selected l k \<le> count_selected l k'"
  unfolding count_selected_def by (rule count_upto_mono)

lemma normal_count_less:
  assumes "separated (includedRanges l)" "normal l c" "normal l d" "cPos c < cPos d"
  shows "count_selected l (cPos c) < count_selected l (cPos d)"
proof (cases "cRangeIdx c < range_count l")
  case True
  let ?i = "cRangeIdx c"
  have r: "lo l ?i \<le> cPos c" "cPos c < hi l ?i" using assms(2) True by (auto simp: normal_def)
  then have "count_selected l (cPos c) < count_selected l (cPos c + 1)"
    using count_in_range [OF assms(1) True, of "cPos c"] count_in_range [OF assms(1) True, of "cPos c + 1"] by simp
  also have "\<dots> \<le> count_selected l (cPos d)" using count_selected_mono [OF assms(1)] assms(4) by simp
  finally show ?thesis .
next
  case False
  then have c: "cPos c = fst (includedEOFPosition l)" using assms(2) by (auto simp: normal_def) (metis fst_conv)
  then have "cRangeIdx d < range_count l \<and> lo l (cRangeIdx d) \<le> cPos d \<and> cPos d < hi l (cRangeIdx d)"
    using assms(3,4) by (auto simp: normal_def) (metis fst_conv less_irrefl)+
  then show ?thesis using eof_position(2) [OF assms(1), of "cRangeIdx d"] c assms(4) by simp
qed

lemma normal_count_iff:
  assumes "separated (includedRanges l)" "normal l c" "normal l d"
  shows "count_selected l (cPos c) < count_selected l (cPos d) \<longleftrightarrow> cPos c < cPos d"
    and "count_selected l (cPos c) = count_selected l (cPos d) \<longleftrightarrow> cPos c = cPos d"
  using normal_count_less [OF assms] normal_count_less [OF assms(1,3,2)]
  by (metis linorder_less_linear order.asym, metis linorder_less_linear less_irrefl)

lemma normal_at_end:
  assumes "separated (includedRanges l)" "normal l c"
  shows "cRangeIdx c < range_count l \<longleftrightarrow> count_selected l (cPos c) < length (selected_bytes l)"
proof (cases "cRangeIdx c < range_count l")
  case True
  then show ?thesis using assms selected_drop(2) by (auto simp: normal_def)
next
  case False
  then have "cPos c = fst (includedEOFPosition l)" using assms(2) by (auto simp: normal_def) (metis fst_conv)
  then show ?thesis using False count_at_eof [OF assms(1)] by simp
qed

subsection \<open>Lemmas: moving the cursor\<close>

lemma normalize_loop_past:
  "(\<And>j. j < range_count l \<Longrightarrow> lo l j < hi l j \<Longrightarrow> hi l j \<le> cPos cur) \<Longrightarrow> cRangeIdx cur \<le> range_count l \<Longrightarrow>
     normalize_loop l cur = cur\<lparr>cRangeIdx := range_count l,
       cPos := fst (includedEOFPosition l), cPoint := snd (includedEOFPosition l)\<rparr>"
proof (induction cur rule: normalize_loop_cases [of l])
  case (stop cur)
  then show ?case by (meson not_le)
next
  case (skip cur)
  then show ?case by (simp add: normalize_loop_skip)
next
  case (finish cur)
  then show ?case by (simp add: normalize_loop_end)
qed

lemma normalize_id:
  assumes "separated (includedRanges l)" "includedRanges l \<noteq> []" "normal l cur"
  shows "normalizeIncludedCursor l cur = cur"
proof (cases "cRangeIdx cur < range_count l")
  case True
  let ?i = "cRangeIdx cur"
  have r: "lo l ?i \<le> cPos cur" "cPos cur < hi l ?i" using assms(3) True by (auto simp: normal_def)
  have "\<not> cPos cur < hi l (?i - 1)" if "0 < ?i"
    using bounds_order(2) [OF assms(1), of "?i - 1" ?i] that True r by simp
  then have "normalizeIncludedCursor l cur = normalize_loop l cur"
    using True assms(2) by (auto simp: normalizeIncludedCursor_def Let_def)
  then show ?thesis using True r by (simp add: normalize_loop_stop)
next
  case False
  then have eof: "cRangeIdx cur = range_count l" "cPos cur = fst (includedEOFPosition l)"
    "cPoint cur = snd (includedEOFPosition l)"
    using assms(3) by (auto simp: normal_def) (metis fst_conv, metis snd_conv)
  have past: "hi l j \<le> cPos cur" if "j < range_count l" "lo l j < hi l j" for j
    using eof_position(2) [OF assms(1) that] eof(2) by simp
  have "normalize_loop l c = cur" if "c = cur \<or> c = cur\<lparr>cRangeIdx := 0\<rparr>" for c
    using that normalize_loop_past [of l c] past eof by auto
  then show ?thesis using assms(2) eof(1) by (auto simp: normalizeIncludedCursor_def Let_def)
qed

lemma advance_normal:
  assumes sep: "separated (includedRanges l)" and ne: "includedRanges l \<noteq> []"
    and c: "normal l c" "cRangeIdx c < range_count l"
    and rune: "rune_at (go_slice (lSource l) (cPos c) (hi l (cRangeIdx c))) = (r, width)"
  shows "\<exists>c'. advanceIncludedCursor l c = (c', Some (r, width)) \<and> normal l c' \<and>
    count_selected l (cPos c') = count_selected l (cPos c) + width \<and> cPos c < cPos c'"
proof -
  let ?i = "cRangeIdx c" and ?slice = "go_slice (lSource l) (cPos c) (hi l (cRangeIdx c))"
  have r: "lo l ?i \<le> cPos c" "cPos c < hi l ?i" using c by (auto simp: normal_def)
  have "cPos c < length (lSource l)" using r(2) bounds_le_length(2) by (rule order.strict_trans2)
  then have len: "length ?slice = hi l ?i - cPos c"
    unfolding length_go_slice by (intro min_absorb1 diff_le_mono bounds_le_length(2))
  then have "?slice \<noteq> []" using r(2) by (metis length_greater_0_conv zero_less_diff)
  then have w: "0 < width" "cPos c + width \<le> hi l ?i" using rune_at_size [of ?slice] rune len r by auto
  let ?c1 = "c\<lparr>cPos := cPos c + width, cPoint := advance_point (cPoint c) r width\<rparr>"
  let ?c' = "if hi l ?i \<le> cPos c + width then normalizeIncludedCursor l (?c1\<lparr>cRangeIdx := ?i + 1\<rparr>) else ?c1"
  have adv: "advanceIncludedCursor l c = (?c', Some (r, width))"
    using c(2) r rune normalize_id [OF sep ne c(1)] by (simp add: advanceIncludedCursor_def Let_def)
  have norm: "normal l ?c'"
    using w c(2) r normalizeIncludedCursor_normal [OF ne] by (auto simp: normal_def)
  have "count_selected l (cPos ?c') = count_selected l (cPos c + width)"
    using normalize_count [OF sep, of "?c1\<lparr>cRangeIdx := ?i + 1\<rparr>"] by simp
  also have "\<dots> = count_selected l (cPos c) + width"
    using count_in_range [OF sep c(2), of "cPos c"] count_in_range [OF sep c(2), of "cPos c + width"] r w by simp
  finally have cnt: "count_selected l (cPos ?c') = count_selected l (cPos c) + width" .
  then have "cPos c < cPos ?c'" using normal_count_iff(1) [OF sep c(1) norm] w(1) by simp
  then show ?thesis using adv norm cnt by blast
qed

lemma mark_end_count:
  assumes sep: "separated (includedRanges l)" and c: "normal l c"
  shows "count_selected l (fst (includedMarkEnd l c)) = count_selected l (cPos c)"
    and "fst (includedMarkEnd l c) \<le> cPos c"
proof -
  let ?i = "cRangeIdx c"
  have "count_selected l (hi l (?i - 1)) = count_selected l (lo l ?i) \<and> hi l (?i - 1) \<le> lo l ?i"
    if "0 < ?i" "?i < range_count l"
  proof -
    have "selected_upto l ?i = selected_upto l (?i - 1) @ go_slice (lSource l) (lo l (?i - 1)) (hi l (?i - 1))"
      using that selected_upto_simps(2) [of l "?i - 1"] by simp
    then show ?thesis
      using count_in_range [OF sep, of "?i - 1" "hi l (?i - 1)"] count_in_range [OF sep that(2), of "lo l ?i"]
        bounds_order [OF sep] that by (simp del: length_go_slice)
  qed
  then show "count_selected l (fst (includedMarkEnd l c)) = count_selected l (cPos c)"
    and "fst (includedMarkEnd l c) \<le> cPos c"
    by (auto simp: includedMarkEnd_def Let_def)
qed

subsection \<open>Lemmas: the text of a token\<close>

lemma tokenText_concat:
  assumes "includedRanges l \<noteq> []" "start < stop"
  shows "tokenText l start stop =
    concat (map (\<lambda>i. go_slice (lSource l) (max start (lo l i)) (min stop (hi l i))) [0..<range_count l])"
proof -
  have "tokenText l start stop = concat (map (\<lambda>(s, e). go_slice (lSource l) s e) (token_segments l start stop))"
    using assms by (auto simp: tokenText_def split: list.splits prod.splits)
  also have "\<dots> = concat (map (\<lambda>(s, e). go_slice (lSource l) s e)
      (map (\<lambda>i. (max start (lo l i), min stop (hi l i))) [0..<range_count l]))"
  proof -
    have "concat (map (\<lambda>(s, e). go_slice (lSource l) s e) (filter (\<lambda>(s, e). \<not> e \<le> s) segs)) =
        concat (map (\<lambda>(s, e). go_slice (lSource l) s e) segs)" for segs
      by (induction segs) auto
    then show ?thesis by (simp add: token_segments_def)
  qed
  finally show ?thesis by (simp add: comp_def)
qed

lemma go_slice_append_both:
  "go_slice (xs @ ys) i j = go_slice xs i j @ go_slice ys (i - length xs) (j - length xs)"
proof -
  have "i + (length xs - i) = length xs + (i - length xs)" by simp
  then show ?thesis by (simp add: go_slice_def)
qed

lemma go_slice_go_slice: "go_slice (go_slice xs s e) i j = go_slice xs (s + i) (min (s + j) e)"
  by (simp add: go_slice_def drop_take take_take min_def add.commute)

text \<open>Counting up to a range: every earlier range is complete once the range has begun.\<close>

lemma count_before_range:
  assumes "separated (includedRanges l)" "m < range_count l" "lo l m \<le> k"
  shows "count_upto l m k = length (selected_upto l m)"
  by (rule count_upto_full) (use bounds_order(2) [OF assms(1)] assms(2,3) order.trans in blast)

lemma count_upto_le: "count_upto l m k \<le> length (selected_upto l m)"
  by (induction m) (auto simp del: length_go_slice intro!: add_mono)

lemma selected_slice:
  assumes sep: "separated (includedRanges l)" and "m \<le> range_count l" and "a \<le> b"
  shows "go_slice (selected_upto l m) (count_upto l m a) (count_upto l m b) =
    concat (map (\<lambda>i. go_slice (lSource l) (max a (lo l i)) (min b (hi l i))) [0..<m])"
  using assms(2)
proof (induction m)
  case 0
  then show ?case by simp
next
  case (Suc m)
  let ?P = "selected_upto l m" and ?s = "lo l m" and ?e = "hi l m"
  let ?da = "min a ?e - min a ?s" and ?db = "min b ?e - min b ?s"
  have m: "m < range_count l" using Suc.prems by simp
  have se: "?s \<le> ?e" by (rule bounds_order(1) [OF sep])
  have full: "?s \<le> k \<Longrightarrow> count_upto l m k = length ?P" for k using count_before_range [OF sep m] .
  have "go_slice (selected_upto l (Suc m)) (count_upto l (Suc m) a) (count_upto l (Suc m) b) =
      go_slice ?P (count_upto l m a + ?da) (count_upto l m b + ?db) @
      go_slice (lSource l) (?s + (count_upto l m a + ?da - length ?P))
        (min (?s + (count_upto l m b + ?db - length ?P)) ?e)"
    by (simp add: go_slice_append_both go_slice_go_slice)
  also have "go_slice ?P (count_upto l m a + ?da) (count_upto l m b + ?db) =
      go_slice ?P (count_upto l m a) (count_upto l m b)"
  proof (cases "?s \<le> a")
    case True
    then show ?thesis using full [OF True] full [of b] assms(3) by (simp add: go_slice_def)
  next
    case a: False
    then have "?da = 0" using se by simp
    then show ?thesis
    proof (cases "?s \<le> b")
      case True
      then show ?thesis using full [OF True] \<open>?da = 0\<close> by (simp add: go_slice_def)
    next
      case False
      then have "?db = 0" using se by simp
      then show ?thesis using \<open>?da = 0\<close> by simp
    qed
  qed
  also have "go_slice (lSource l) (?s + (count_upto l m a + ?da - length ?P))
        (min (?s + (count_upto l m b + ?db - length ?P)) ?e) = go_slice (lSource l) (max a ?s) (min b ?e)"
  proof (cases "?s \<le> b")
    case True
    show ?thesis
    proof (cases "?s \<le> a")
      case sa: True
      then show ?thesis
        using full [OF True] full [OF sa] se True assms(3)
        by (cases "a \<le> ?e") (auto simp: min_def max_def)
    next
      case False
      then show ?thesis
        using full [OF True] se True count_upto_le [of l m a] by (auto simp: min_def max_def)
    qed
  next
    case False
    then have "count_upto l m b + ?db - length ?P = 0" using se count_upto_le [of l m b] by simp
    then show ?thesis using False se by (auto simp: min_def max_def)
  qed
  finally show ?case using Suc by simp
qed

lemma tokenText_selected:
  assumes "separated (includedRanges l)" "includedRanges l \<noteq> []"
  shows "tokenText l a b = go_slice (selected_bytes l) (count_selected l a) (count_selected l b)"
proof (cases "a < b")
  case True
  then show ?thesis
    using selected_slice [OF assms(1) order.refl, of a b] tokenText_concat [OF assms(2) True]
    by (simp add: selected_bytes_def count_selected_def)
next
  case False
  then show ?thesis using count_selected_mono [OF assms(1), of b a] by (simp add: tokenText_def)
qed

subsection \<open>Lemmas: the walk ends\<close>

lemma included_step_progress:
  assumes sep: "separated (includedRanges l)" and ne: "includedRanges l \<noteq> []"
    and s: "normal l (sCursor s)" and step: "included_step l p s = (s', True)"
  shows "normal l (sCursor s') \<and>
    (cPos (sCursor s) < cPos (sCursor s') \<or>
     sCursor s' = sCursor s \<and> eofHops s' = Suc (eofHops s) \<and> eofHops s \<le> length (lStates l))"
proof (cases "cRangeIdx (sCursor s) \<ge> range_count l")
  case True
  then show ?thesis
    using step s by (auto simp: included_step_def Let_def eof_hop_def split: if_splits)
next
  case False
  obtain r width where ra: "rune_at (go_slice (lSource l) (cPos (sCursor s)) (hi l (cRangeIdx (sCursor s)))) = (r, width)"
    by fastforce
  obtain c' where "advanceIncludedCursor l (sCursor s) = (c', Some (r, width))" "normal l c'"
    "cPos (sCursor s) < cPos c'"
    using advance_normal [OF sep ne s _ ra] False by auto
  then show ?thesis
    using step False by (auto simp: included_step_def Let_def split: if_splits prod.splits)
qed

lemma normal_pos_le: "separated (includedRanges l) \<Longrightarrow> normal l c \<Longrightarrow> cPos c \<le> length (lSource l)"
  by (auto simp: normal_def) (metis bounds_le_length(2) less_imp_le_nat order.trans, metis eof_position(1) fst_conv)

lemma included_loop_returns:
  assumes "separated (includedRanges l)" "includedRanges l \<noteq> []"
  shows "normal l (sCursor s) \<Longrightarrow> \<exists>s'. included_loop l p s = Some s'"
proof (induction s rule: wf_induct_rule [OF wf_measures [of "[\<lambda>s. length (lSource l) - cPos (sCursor s),
      \<lambda>s. length (lStates l) + 1 - eofHops s]"]])
  case (1 s)
  obtain s' continue where step: "included_step l p s = (s', continue)" by fastforce
  show ?case
  proof (cases continue)
    case True
    from included_step_progress [OF assms 1(2)] step True
    have pr: "normal l (sCursor s')" "cPos (sCursor s) < cPos (sCursor s') \<or>
        sCursor s' = sCursor s \<and> eofHops s' = Suc (eofHops s) \<and> eofHops s \<le> length (lStates l)" by auto
    then have "(s', s) \<in> measures [\<lambda>s. length (lSource l) - cPos (sCursor s), \<lambda>s. length (lStates l) + 1 - eofHops s]"
      using normal_pos_le [OF assms(1) pr(1)] by auto
    from 1(1) [OF this pr(1)] show ?thesis
      using step True by (subst included_loop.simps) simp
  next
    case False
    then show ?thesis using step by (subst included_loop.simps) simp
  qed
qed

lemma scanIncluded_returns:
  assumes "separated (includedRanges l)" "includedRanges l \<noteq> []"
  shows "\<exists>l' tok ok. scanIncluded l q p pt = Some (l', tok, ok)"
proof -
  let ?cur = "normalizeIncludedCursor l \<lparr>cPos = p, cPoint = pt, cRangeIdx = includedRangeIdx l\<rparr>"
  obtain s where "included_loop l (cPos ?cur) (start_scan (sint q) ?cur) = Some s"
    using included_loop_returns [OF assms, of "start_scan (sint q) ?cur"]
      normalizeIncludedCursor_normal [OF assms(2)] by (auto simp: start_scan_def)
  then show ?thesis by (auto simp: scanIncluded_def Let_def split: option.splits)
qed

subsection \<open>Lemmas: the walk on the selected bytes\<close>

text \<open>The contiguous lexer over the selected bytes put together.\<close>

definition joined :: "lexer \<Rightarrow> lexer" where
  "joined l = l\<lparr>lSource := selected_bytes l, includedRanges := []\<rparr>"

text \<open>No range ends inside a rune, so that the joined bytes decode as the ranges do.\<close>

definition runes_whole :: "lexer \<Rightarrow> bool" where
  "runes_whole l \<longleftrightarrow>
     (\<forall>i < range_count l. \<forall>k. lo l i \<le> k \<and> k < hi l i \<longrightarrow>
        rune_at (go_slice (lSource l) k (hi l i)) = rune_at (drop (count_selected l k) (selected_bytes l)))"

definition same_place :: "lexer \<Rightarrow> lex_cursor \<Rightarrow> lex_cursor \<Rightarrow> bool" where
  "same_place l c d \<longleftrightarrow> normal l c \<and> cPos d = count_selected l (cPos c)"

definition same_accept :: "lexer \<Rightarrow> lex_accept \<Rightarrow> lex_accept \<Rightarrow> bool" where
  "same_accept l a b \<longleftrightarrow>
     aSymbol b = aSymbol a \<and> aSkip b = aSkip a \<and> aPriority b = aPriority a \<and>
     aPos b = count_selected l (aPos a) \<and> aPos a \<le> length (lSource l) \<and> same_place l (aStart a) (aStart b) \<and>
     (\<exists>c. normal l c \<and> aProgressPos a = cPos c \<and> aProgressPos b = count_selected l (cPos c))"

definition same_scan :: "lexer \<Rightarrow> lex_scan \<Rightarrow> lex_scan \<Rightarrow> bool" where
  "same_scan l s t \<longleftrightarrow>
     sState t = sState s \<and> same_place l (sCursor s) (sCursor t) \<and>
     same_place l (sTokenStart s) (sTokenStart t) \<and> sSkippedPrefix t = sSkippedPrefix s \<and>
     eofHops t = eofHops s \<and> rel_option (same_accept l) (sAccept s) (sAccept t)"

lemma same_place_less:
  assumes "separated (includedRanges l)" "same_place l c c'" "same_place l d d'"
  shows "cPos c' < cPos d' \<longleftrightarrow> cPos c < cPos d" and "cPos c' = cPos d' \<longleftrightarrow> cPos c = cPos d"
  using normal_count_iff [OF assms(1)] assms(2,3) by (auto simp: same_place_def)

lemma same_scan_accept:
  assumes sep: "separated (includedRanges l)" and s: "same_scan l s t" and p: "same_place l c c'"
  shows "same_scan l (scan_accept (includedMarkEnd l) l (cPos c) st s)
    (scan_accept plain_mark (joined l) (cPos c') st t)"
proof -
  have cur: "same_place l (sCursor s) (sCursor t)" "same_place l (sTokenStart s) (sTokenStart t)"
    using s by (simp_all add: same_scan_def)
  have can: "can_accept (joined l) (cPos c') st (sTokenStart t) (sCursor t) =
      can_accept l (cPos c) st (sTokenStart s) (sCursor s)"
    using same_place_less [OF sep p cur(2)] same_place_less [OF sep cur]
    by (simp add: can_accept_def joined_def allowsZeroWidthToken_def)
  have better: "better_accept (map_option (\<lambda>a. (aPriority a, aProgressPos a)) (sAccept t)) prio (cPos (sCursor t)) =
      better_accept (map_option (\<lambda>a. (aPriority a, aProgressPos a)) (sAccept s)) prio (cPos (sCursor s))" for prio
  proof (cases "sAccept s")
    case None
    then show ?thesis using s by (auto simp: same_scan_def)
  next
    case (Some a)
    then obtain b where b: "sAccept t = Some b" "same_accept l a b"
      using s by (auto simp: same_scan_def option_rel_Some1)
    then obtain d where "normal l d" "aProgressPos a = cPos d" "aProgressPos b = count_selected l (cPos d)"
      by (auto simp: same_accept_def)
    then show ?thesis
      using Some b cur(1) normal_count_iff(1) [OF sep, of d "sCursor s"]
      by (simp add: same_accept_def same_place_def)
  qed
  have "same_accept l (accept_at (includedMarkEnd l) st s) (accept_at plain_mark st t)"
    using cur mark_end_count [OF sep, of "sCursor s"] normal_pos_le [OF sep, of "sCursor s"]
    by (auto simp: same_accept_def accept_at_def plain_mark_def same_place_def)
  then show ?thesis using s can better by (auto simp: scan_accept_def same_scan_def)
qed

lemma same_step:
  assumes sep: "separated (includedRanges l)" and ne: "includedRanges l \<noteq> []" and whole: "runes_whole l"
    and s: "same_scan l s t" and p: "same_place l c c'"
    and step: "included_step l (cPos c) s = (s', continue)"
  shows "\<exists>t'. scan_step (joined l) (cPos c') t = (t', continue) \<and> same_scan l s' t'"
proof (cases "sState s < 0 \<or> sState s \<ge> int (length (lStates l))")
  case True
  then show ?thesis using step s by (auto simp: included_step_def scan_step_def joined_def same_scan_def)
next
  case q: False
  let ?st = "lStates l ! nat (sState s)" and ?cur = "sCursor s" and ?cur' = "sCursor t"
  define s1 where "s1 = scan_accept (includedMarkEnd l) l (cPos c) ?st s"
  define t1 where "t1 = scan_accept plain_mark (joined l) (cPos c') ?st t"
  have same: "same_scan l s1 t1" unfolding s1_def t1_def by (rule same_scan_accept [OF sep s p])
  have cur: "same_place l ?cur ?cur'" "sState t = sState s" "eofHops t = eofHops s"
    using s by (simp_all add: same_scan_def)
  have nc: "normal l ?cur" "cPos ?cur' = count_selected l (cPos ?cur)" using cur(1) by (simp_all add: same_place_def)
  have j: "lStates (joined l) = lStates l" "lSource (joined l) = selected_bytes l" "asciiTable (joined l) = asciiTable l"
    by (simp_all add: joined_def)
  show ?thesis
  proof (cases "cRangeIdx ?cur \<ge> range_count l")
    case True
    then have "\<not> cPos ?cur' < length (selected_bytes l)" using normal_at_end [OF sep nc(1)] nc(2) by simp
    then have "scan_step (joined l) (cPos c') t = eof_hop (joined l) ?st t1"
      using q cur by (simp add: scan_step_def j t1_def Let_def)
    moreover have "included_step l (cPos c) s = eof_hop l ?st s1"
      using q True by (simp add: included_step_def s1_def Let_def)
    ultimately show ?thesis
      using step same by (auto simp: eof_hop_def same_scan_def j split: if_splits)
  next
    case False
    then have r: "lo l (cRangeIdx ?cur) \<le> cPos ?cur" "cPos ?cur < hi l (cRangeIdx ?cur)" "cRangeIdx ?cur < range_count l"
      using nc(1) by (auto simp: normal_def)
    obtain rn width where ra: "rune_at (go_slice (lSource l) (cPos ?cur) (hi l (cRangeIdx ?cur))) = (rn, width)"
      by fastforce
    have ra': "rune_at (drop (cPos ?cur') (selected_bytes l)) = (rn, width)"
      using whole r ra nc(2) by (simp add: runes_whole_def)
    have b: "selected_bytes l ! cPos ?cur' = lSource l ! cPos ?cur" "cPos ?cur' < length (selected_bytes l)"
      using selected_drop(2,3) [OF sep r(3,1,2)] nc(2) by simp_all
    obtain d where d: "advanceIncludedCursor l ?cur = (d, Some (rn, width))" "normal l d"
      "count_selected l (cPos d) = cPos ?cur' + width"
      using advance_normal [OF sep ne nc(1) r(3) ra] nc(2) by auto
    obtain n sk where nt: "next_transition (asciiTable l) (sState s) ?st (lSource l ! cPos ?cur) rn = (n, sk)"
      by fastforce
    have s': "included_step l (cPos c) s = (if n < 0 then (s1\<lparr>eofHops := 0\<rparr>, False)
        else (scan_move (s1\<lparr>eofHops := 0\<rparr>) d n sk, True))"
      using q False ra nt d(1) by (simp add: included_step_def s1_def [symmetric] Let_def) (simp add: s1_def)
    let ?d' = "?cur'\<lparr>cPos := cPos ?cur' + width, cPoint := advance_point (cPoint ?cur') rn width\<rparr>"
    have t': "scan_step (joined l) (cPos c') t = (if n < 0 then (t1\<lparr>eofHops := 0\<rparr>, False)
        else (scan_move (t1\<lparr>eofHops := 0\<rparr>) ?d' n sk, True))"
      using q b ra' nt cur(2) by (simp add: scan_step_def j t1_def [symmetric] Let_def) (simp add: t1_def)
    have "same_place l d ?d'" using d(2,3) by (simp add: same_place_def)
    then show ?thesis using step same unfolding s' t' by (auto simp: same_scan_def)
  qed
qed

lemma same_loop:
  assumes "separated (includedRanges l)" "includedRanges l \<noteq> []" "runes_whole l" "same_place l c c'"
  shows "same_scan l s t \<Longrightarrow>
    \<exists>s'. included_loop l (cPos c) s = Some s' \<and> same_scan l s' (scan_loop (joined l) (cPos c') t)"
proof (induction "joined l" "cPos c'" t arbitrary: s rule: scan_loop.induct)
  case (1 t)
  obtain s' continue where step: "included_step l (cPos c) s = (s', continue)" by fastforce
  obtain t' where t': "scan_step (joined l) (cPos c') t = (t', continue)" "same_scan l s' t'"
    using same_step [OF assms(1-3) 1(2) assms(4) step] by blast
  show ?case
  proof (cases continue)
    case True
    have "included_loop l (cPos c) s = included_loop l (cPos c) s'"
      using step True by (subst included_loop.simps) simp
    moreover have "scan_loop (joined l) (cPos c') t = scan_loop (joined l) (cPos c') t'"
      using t'(1) True by (subst scan_loop.simps) simp
    ultimately show ?thesis using 1(1) [OF t'(1) [symmetric] True t'(2)] by simp
  next
    case False
    have "included_loop l (cPos c) s = Some s'" using step False by (subst included_loop.simps) simp
    moreover have "scan_loop (joined l) (cPos c') t = t'" using t'(1) False by (subst scan_loop.simps) simp
    ultimately show ?thesis using t'(2) by simp
  qed
qed

lemma same_eof_accept:
  assumes sep: "separated (includedRanges l)" and s: "same_scan l s t"
  shows "rel_option (same_accept l) (eof_accept (includedMarkEnd l) s) (eof_accept plain_mark t)"
proof -
  have "same_place l (sCursor s) (sCursor t)" using s by (simp add: same_scan_def)
  then show ?thesis
    using s mark_end_count [OF sep, of "sCursor s"] normal_pos_le [OF sep, of "sCursor s"]
    by (cases "sAccept s"; cases "sAccept t")
      (auto simp: eof_accept_def same_scan_def same_accept_def plain_mark_def same_place_def)
qed

subsection \<open>Properties\<close>

text \<open>
  Lexing inside included ranges always comes back: for the ranges the parser installs
  (the result of \<open>normalizeIncludedRanges\<close> on any list), \<open>scanIncluded\<close> returns from every
  start state and position, even when ranges reach beyond the source.
\<close>

lemma included_scan_returns:
  assumes "includedRanges l = normalizeIncludedRanges rs" and "includedRanges l \<noteq> []"
  shows "\<exists>l' tok ok. scanIncluded l q p pt = Some (l', tok, ok)"
proof -
  have "separated (includedRanges l)"
    using assms(1) normalizeIncludedRanges_separated by simp
  then show ?thesis using assms(2) by (rule scanIncluded_returns)
qed

definition sample_ranges :: "range list" where
  "sample_ranges =
     [\<lparr>rStartByte = 4, rEndByte = 9, rStartPoint = \<lparr>Row = 0, Column = 4\<rparr>, rEndPoint = \<lparr>Row = 0, Column = 9\<rparr>\<rparr>,
      \<lparr>rStartByte = 0, rEndByte = 2, rStartPoint = zero_point, rEndPoint = \<lparr>Row = 0, Column = 2\<rparr>\<rparr>]"

text \<open>The source \<open> i--f \<close> with the ranges around the two dashes.\<close>

definition sample_included :: lexer where
  "sample_included = setIncludedRanges (NewLexer sample_dfa [32, 105, 45, 45, 102, 32])
     (normalizeIncludedRanges sample_ranges)"

lemma sample_included_fields:
  "includedRanges sample_included = normalizeIncludedRanges sample_ranges"
  "normalizeIncludedRanges sample_ranges \<noteq> []"
  "lSource sample_included = [32, 105, 45, 45, 102, 32]"
  by code_simp+

text \<open>
  \<^bold>\<open>C5.\<close> Lexing inside included ranges is lexing the selected bytes put together: when no
  range cuts a rune, \<open>scanIncluded\<close> succeeds exactly when \<open>scanContiguous\<close> succeeds on the
  concatenation of the selected bytes, with the same symbol and the same text, and start
  and end of the token are at the same place among the selected bytes.
\<close>

theorem included_scan_joined:
  assumes "separated (includedRanges l)" and "includedRanges l \<noteq> []" and "runes_whole l"
    and "length (lSource l) < 2 ^ 32"
    and "scanIncluded l q p pt = Some (l1, tok1, ok1)"
    and "scanContiguous (joined l) q (count_selected l p) pt' = (l2, tok2, ok2)"
  shows "ok1 = ok2 \<and> Symbol tok1 = Symbol tok2 \<and> Text tok1 = Text tok2 \<and>
    (ok1 \<longrightarrow> tStartByte tok2 = u32_of (count_selected l (unat (tStartByte tok1))) \<and>
       tEndByte tok2 = u32_of (count_selected l (unat (tEndByte tok1))) \<and>
       lPos l2 = count_selected l (lPos l1))"
proof (cases "sint q < 0 \<or> sint q \<ge> int (length (lStates l))")
  case True
  then show ?thesis using assms(5,6) by (auto simp: scanIncluded_def scanContiguous_def Let_def joined_def)
next
  case False
  define c where "c = normalizeIncludedCursor l \<lparr>cPos = p, cPoint = pt, cRangeIdx = includedRangeIdx l\<rparr>"
  define c' where "c' = \<lparr>cPos = count_selected l p, cPoint = pt', cRangeIdx = 0\<rparr>"
  have place: "same_place l c c'"
    using normalizeIncludedCursor_normal [OF assms(2)] normalize_count [OF assms(1)]
    by (simp add: c_def c'_def same_place_def)
  then have "same_scan l (start_scan (sint q) c) (start_scan (sint q) c')"
    by (simp add: same_scan_def start_scan_def)
  from same_loop [OF assms(1-3) place this] obtain s where
    s: "included_loop l (cPos c) (start_scan (sint q) c) = Some s"
      "same_scan l s (scan_loop (joined l) (cPos c') (start_scan (sint q) c'))" by blast
  define t where "t = scan_loop (joined l) (cPos c') (start_scan (sint q) c')"
  note rel = same_eof_accept [OF assms(1) s(2)]
  have j: "lStates (joined l) = lStates l" "lSource (joined l) = selected_bytes l" by (simp_all add: joined_def)
  show ?thesis
  proof (cases "eof_accept (includedMarkEnd l) s")
    case None
    then have "eof_accept plain_mark t = None" using rel by (simp add: t_def)
    then show ?thesis
      using None False s assms(5,6) by (auto simp: scanIncluded_def scanContiguous_def Let_def j c_def c'_def t_def)
  next
    case (Some a)
    then obtain b where b: "eof_accept plain_mark t = Some b" "same_accept l a b"
      using rel by (auto simp: option_rel_Some1 t_def)
    have res: "ok1" "tok1 = accept_token (tokenText l) (cPos c) (sSkippedPrefix s) a" "lPos l1 = aPos a"
      using Some False s(1) assms(5) by (auto simp: scanIncluded_def Let_def c_def)
    have res': "ok2" "tok2 = accept_token (go_slice (selected_bytes l)) (cPos c') (sSkippedPrefix t) b" "lPos l2 = aPos b"
      using b(1) False assms(6) by (auto simp: scanContiguous_def Let_def j c'_def t_def)
    have "aPos a \<le> length (lSource l) \<and> cPos (aStart a) \<le> length (lSource l)"
      using b(2) normal_pos_le [OF assms(1), of "aStart a"] by (simp add: same_accept_def same_place_def)
    then have "unat (u32_of (aPos a)) = aPos a" "unat (u32_of (cPos (aStart a))) = cPos (aStart a)"
      using assms(4) by (simp_all add: unat_u32_of)
    then show ?thesis
      using b(2) tokenText_selected [OF assms(1,2)]
      by (auto simp: res res' same_accept_def same_place_def)
  qed
qed

lemma ascii_runes_whole:
  assumes "separated (includedRanges l)" "\<forall>b \<in> set (lSource l). uint b < 0x80"
  shows "runes_whole l"
  unfolding runes_whole_def
proof (intro allI impI)
  fix i k assume i: "i < range_count l" and k: "lo l i \<le> k \<and> k < hi l i"
  have len: "k < length (lSource l)" using k bounds_le_length(2) order.strict_trans2 by blast
  have "go_slice (lSource l) k (hi l i) \<noteq> []" using k len by (simp add: go_slice_def)
  moreover from this have "hd (go_slice (lSource l) k (hi l i)) = lSource l ! k"
    using nth_go_slice [of 0 "hi l i" k "lSource l"] k len by (simp add: hd_conv_nth)
  moreover obtain rest where
    "drop (count_selected l k) (selected_bytes l) = go_slice (lSource l) k (hi l i) @ rest"
    using selected_drop(1) [OF assms(1) i] k by blast
  ultimately show "rune_at (go_slice (lSource l) k (hi l i)) = rune_at (drop (count_selected l k) (selected_bytes l))"
    using assms(2) len by (simp add: rune_at_def)
qed

lemma sample_included_scan:
  "map_option snd (scanIncluded sample_included 0 0 zero_point) = Some (
     zero_token\<lparr>Symbol := 7, Text := [105, 102], tStartByte := 1, tEndByte := 5,
       tStartPoint := \<lparr>Row = 0, Column = 1\<rparr>, tEndPoint := \<lparr>Row = 0, Column = 5\<rparr>,
       lexerSkippedPrefix := True, lexerInternalDFALexed := True\<rparr>, True)"
  by code_simp

theorem included_scan_joined_witness:
  "\<exists>l2 tok2. scanContiguous (joined sample_included) 0 (count_selected sample_included 0) zero_point =
      (l2, tok2, True) \<and> Symbol tok2 = 7 \<and> Text tok2 = [105, 102] \<and> tEndByte tok2 = 3"
proof -
  let ?l = sample_included
  obtain l1 tok1 where 1: "scanIncluded ?l 0 0 zero_point = Some (l1, tok1, True)"
    and tok1: "Symbol tok1 = 7" "Text tok1 = [105, 102]" "tEndByte tok1 = 5"
    using sample_included_scan by (auto simp: zero_token_def)
  obtain l2 tok2 ok2 where 2: "scanContiguous (joined ?l) 0 (count_selected ?l 0) zero_point = (l2, tok2, ok2)"
    by (metis prod_cases3)
  have sep: "separated (includedRanges ?l)"
    by (simp add: sample_included_fields normalizeIncludedRanges_separated)
  have whole: "runes_whole ?l" by (rule ascii_runes_whole [OF sep]) (simp add: sample_included_fields)
  have ne: "includedRanges ?l \<noteq> []" by (simp add: sample_included_fields)
  have len: "length (lSource ?l) < 2 ^ 32" by (simp add: sample_included_fields)
  have "count_selected ?l 5 = 3" by code_simp
  then show ?thesis
    using included_scan_joined [OF sep ne whole len 1 2] tok1 2 by (auto simp: u32_of_def)
qed

end
