(* ===== verification/Lexer_Next.thy ===== *)
theory Lexer_Next
  imports Lexer_Included
begin

text \<open>
  The lexer's entry points (\<open>lexer.go\<close>): \<open>Next\<close> and \<open>NextWithErrorRuns\<close> with the loop they
  share, the byte order mark, and \<open>errorRunToken\<close>, which turns an unlexable stretch into one
  token. Loops that the code does not bound are partial functions; the lemmas show when they
  return, what the tokens say about the source, and that an error run is maximal.
\<close>

definition utf8BOM :: bytes where
  "utf8BOM = [0xef, 0xbb, 0xbf]"

definition scan :: "lexer \<Rightarrow> u32 \<Rightarrow> nat \<Rightarrow> point \<Rightarrow> (lexer \<times> token \<times> bool) option" where
  "scan l startState startPos startPoint =
     (if includedRanges l \<noteq> [] then scanIncluded l startState startPos startPoint
      else Some (scanContiguous l startState startPos startPoint))"

definition skipOneRune :: "lexer \<Rightarrow> lexer" where
  "skipOneRune l =
     (if includedRanges l \<noteq> [] then skipOneIncludedRune l
      else if lPos l \<ge> length (lSource l) then l
      else
        (let (r, width) = decode_rune (drop (lPos l) (lSource l))
         in l\<lparr>lPos := lPos l + width, lPoint := advance_point (lPoint l) r width\<rparr>))"

definition skipLeadingBOM :: "lexer \<Rightarrow> lexer" where
  "skipLeadingBOM l =
     (if lPos l \<noteq> 0 \<or> take 3 (lSource l) \<noteq> utf8BOM then l
      else l\<lparr>lPos := length utf8BOM, lPoint := (lPoint l)\<lparr>Column := u32_of (length utf8BOM)\<rparr>\<rparr>)"

text \<open>The lexer after the call (only \<open>failTokenStart\<close> may differ) and the answer.\<close>

definition canLexAt :: "lexer \<Rightarrow> u32 \<Rightarrow> nat \<Rightarrow> point \<Rightarrow> (lexer \<times> bool) option" where
  "canLexAt l q pos p =
     (case scan l q pos p of
        None \<Rightarrow> None
      | Some (l', _, ok) \<Rightarrow>
          Some (l'\<lparr>lPos := lPos l, lPoint := lPoint l, includedRangeIdx := includedRangeIdx l\<rparr>, ok))"

definition eof_token :: "lexer \<Rightarrow> token" where
  "eof_token l =
     zero_token\<lparr>tStartByte := u32_of (lPos l), tEndByte := u32_of (lPos l),
       tStartPoint := lPoint l, tEndPoint := lPoint l\<rparr>"

partial_function (option) error_run_loop :: "lexer \<Rightarrow> lexer option" where
  "error_run_loop l =
     (if atLogicalEOF l then Some l
      else
        (case canLexAt l (errorRunLexState l) (lPos l) (lPoint l) of
           None \<Rightarrow> None
         | Some (l', ok) \<Rightarrow> if ok then Some l' else error_run_loop (skipOneRune l')))"

declare error_run_loop.simps [code]

definition error_run_start :: "lexer \<Rightarrow> lexer" where
  "error_run_start l =
     normalizeIncludedPosition
       (if cPos (failTokenStart l) > lPos l \<and> cPos (failTokenStart l) \<le> length (lSource l)
        then set_cursor l (failTokenStart l) else l)"

definition errorRunToken :: "lexer \<Rightarrow> (lexer \<times> token) option" where
  "errorRunToken l =
     (let l1 = error_run_start l in
      if atLogicalEOF l1 then Some (l1, eof_token l1)
      else
        (case error_run_loop (skipOneRune l1) of
           None \<Rightarrow> None
         | Some l2 \<Rightarrow>
             Some (l2, zero_token\<lparr>Symbol := errorSymbol, Text := tokenText l2 (lPos l1) (lPos l2),
               tStartByte := u32_of (lPos l1), tEndByte := u32_of (lPos l2),
               tStartPoint := lPoint l1, tEndPoint := lPoint l2\<rparr>)))"

definition next_start :: "lexer \<Rightarrow> lexer" where
  "next_start l = skipLeadingBOM (normalizeIncludedPosition l)"

text \<open>The loop of \<open>next\<close>; \<open>call\<close> is the position the call started from. The recursive call of
  the error-mode retry starts the loop again from there.\<close>

partial_function (option) next_loop ::
  "lexer \<Rightarrow> u32 \<Rightarrow> bool \<Rightarrow> lex_cursor \<Rightarrow> bool \<Rightarrow> (lexer \<times> token) option" where
  "next_loop l startState emitErrorRuns call skippedPrefix =
     (if atLogicalEOF l then Some (l, eof_token l)
      else
        (case scan l startState (lPos l) (lPoint l) of
           None \<Rightarrow> None
         | Some (l1, tok, ok) \<Rightarrow>
             if ok
             then (if Symbol tok = 0
                   then (if lPos l1 \<le> lPos l
                         then next_loop (skipOneRune l1) startState emitErrorRuns call False
                         else next_loop l1 startState emitErrorRuns call True)
                   else Some (l1, if skippedPrefix
                                  then tok\<lparr>lexerSkippedPrefix := True,
                                           lexerSkippedPrefixStart := u32_of (cPos call)\<rparr>
                                  else tok))
             else if emitErrorRuns \<and> hasErrorRunLexState l1 \<and> errorModeRetry l1 \<and>
                     startState \<noteq> errorRunLexState l1
             then (let l2 = next_start (set_cursor l1 call)
                   in next_loop l2 (errorRunLexState l1) True (lexer_cursor l2) False)
             else if emitErrorRuns \<and> hasErrorRunLexState l1
             then (case canLexAt l1 (errorRunLexState l1) (lPos l) (lPoint l) of
                     None \<Rightarrow> None
                   | Some (l2, can) \<Rightarrow>
                       if \<not> can then errorRunToken l2
                       else next_loop (skipOneRune l2) startState emitErrorRuns call False)
             else next_loop (skipOneRune l1) startState emitErrorRuns call False))"

declare next_loop.simps [code]

definition lexer_next :: "lexer \<Rightarrow> u32 \<Rightarrow> bool \<Rightarrow> (lexer \<times> token) option" where
  "lexer_next l startState emitErrorRuns =
     (let l1 = next_start l in next_loop l1 startState emitErrorRuns (lexer_cursor l1) False)"

definition Next :: "lexer \<Rightarrow> u32 \<Rightarrow> (lexer \<times> token) option" where
  "Next l startState = lexer_next l startState False"

definition NextWithErrorRuns :: "lexer \<Rightarrow> u32 \<Rightarrow> (lexer \<times> token) option" where
  "NextWithErrorRuns l startState = lexer_next l startState True"

subsection \<open>Progress\<close>

text \<open>Two lexers that differ at most in their position and the place of the last failure.\<close>

definition same_setup :: "lexer \<Rightarrow> lexer \<Rightarrow> bool" where
  "same_setup l l' \<longleftrightarrow>
     l' = l\<lparr>lPos := lPos l', lPoint := lPoint l', includedRangeIdx := includedRangeIdx l',
       failTokenStart := failTokenStart l'\<rparr>"

lemma same_setup_refl [simp]: "same_setup l l"
  by (simp add: same_setup_def)

lemma same_setup_trans: "same_setup a b \<Longrightarrow> same_setup b c \<Longrightarrow> same_setup a c"
  unfolding same_setup_def by (cases a; cases b; cases c) auto

lemma same_setup_fields:
  assumes "same_setup l l'"
  shows "lStates l' = lStates l" "lSource l' = lSource l" "includedRanges l' = includedRanges l"
    "errorRunLexState l' = errorRunLexState l" "hasErrorRunLexState l' = hasErrorRunLexState l"
    "errorModeRetry l' = errorModeRetry l" "asciiTable l' = asciiTable l"
    "immediateTokens l' = immediateTokens l" "zeroWidthTokens l' = zeroWidthTokens l"
  using assms unfolding same_setup_def by (cases l; cases l'; simp)+

lemma same_setup_update [simp]:
  "same_setup l (l\<lparr>lPos := a, lPoint := b\<rparr>)" "same_setup l (l\<lparr>failTokenStart := c\<rparr>)"
  "same_setup l (l\<lparr>lPos := a, lPoint := b, includedRangeIdx := i\<rparr>)" "same_setup l (set_cursor l c)"
  by (simp_all add: same_setup_def set_cursor_def)

lemma same_setup_BOM: "same_setup l (skipLeadingBOM l)"
  by (simp add: skipLeadingBOM_def)

text \<open>
  What the loops of \<open>next\<close> and \<open>errorRunToken\<close> need from scanning and skipping: an invariant
  of the lexer and a number that shrinks whenever the position moves forward.
\<close>

locale lexer_progress =
  fixes inv :: "lexer \<Rightarrow> bool" and left :: "lexer \<Rightarrow> nat"
  assumes scan_total: "inv l \<Longrightarrow> \<not> atLogicalEOF l \<Longrightarrow> \<exists>l' tok ok. scan l q (lPos l) (lPoint l) = Some (l', tok, ok)"
    and scan_accepts: "inv l \<Longrightarrow> \<not> atLogicalEOF l \<Longrightarrow> scan l q (lPos l) (lPoint l) = Some (l', tok, True) \<Longrightarrow>
      same_setup l l' \<and> inv l' \<and> left l' \<le> left l \<and> (lPos l < lPos l' \<longrightarrow> left l' < left l)"
    and scan_fails: "inv l \<Longrightarrow> \<not> atLogicalEOF l \<Longrightarrow> scan l q (lPos l) (lPoint l) = Some (l', tok, False) \<Longrightarrow>
      \<exists>c. l' = l\<lparr>failTokenStart := c\<rparr>"
    and skip_progress: "inv l \<Longrightarrow> \<not> atLogicalEOF l \<Longrightarrow>
      same_setup l (skipOneRune l) \<and> inv (skipOneRune l) \<and> left (skipOneRune l) < left l"
    and skip_at_end: "inv l \<Longrightarrow> atLogicalEOF l \<Longrightarrow>
      same_setup l (skipOneRune l) \<and> inv (skipOneRune l) \<and> atLogicalEOF (skipOneRune l)"
    and fail_irrelevant: "inv (l\<lparr>failTokenStart := c\<rparr>) = inv l" "left (l\<lparr>failTokenStart := c\<rparr>) = left l"
    and restart_error_run: "inv l \<Longrightarrow> inv (normalizeIncludedPosition (set_cursor l c))"
    and restart_next: "inv l \<Longrightarrow> inv (next_start (set_cursor l c)) \<and> same_setup l (next_start (set_cursor l c))"
begin

lemma can_lex_returns:
  assumes "inv l" "\<not> atLogicalEOF l"
  shows "\<exists>c ok. canLexAt l q (lPos l) (lPoint l) = Some (l\<lparr>failTokenStart := c\<rparr>, ok)"
proof -
  obtain l' tok ok where sc: "scan l q (lPos l) (lPoint l) = Some (l', tok, ok)" using scan_total [OF assms] by blast
  have "same_setup l l'"
  proof (cases ok)
    case False
    then have "scan l q (lPos l) (lPoint l) = Some (l', tok, False)" using sc by simp
    from scan_fails [OF assms this] obtain c where "l' = l\<lparr>failTokenStart := c\<rparr>" by blast
    then show ?thesis by simp
  next
    case True
    then have "scan l q (lPos l) (lPoint l) = Some (l', tok, True)" using sc by simp
    from scan_accepts [OF assms this] show ?thesis by simp
  qed
  then have "l'\<lparr>lPos := lPos l, lPoint := lPoint l, includedRangeIdx := includedRangeIdx l\<rparr> =
      l\<lparr>failTokenStart := failTokenStart l'\<rparr>"
    unfolding same_setup_def by (cases l; cases l') auto
  then show ?thesis using sc by (auto simp: canLexAt_def)
qed

lemma at_eof_fail: "atLogicalEOF (l\<lparr>failTokenStart := c\<rparr>) = atLogicalEOF l"
  by (simp add: atLogicalEOF_def)

lemma error_run_loop_returns: "inv l \<Longrightarrow> \<exists>l'. error_run_loop l = Some l'"
proof (induction "left l" arbitrary: l rule: less_induct)
  case less
  show ?case
  proof (cases "atLogicalEOF l")
    case True
    then show ?thesis by (subst error_run_loop.simps) simp
  next
    case False
    obtain c ok where can: "canLexAt l (errorRunLexState l) (lPos l) (lPoint l) = Some (l\<lparr>failTokenStart := c\<rparr>, ok)"
      using can_lex_returns [OF less(2) False] by blast
    let ?l = "l\<lparr>failTokenStart := c\<rparr>"
    have "inv (skipOneRune ?l)" "left (skipOneRune ?l) < left l"
      using skip_progress [of ?l] less(2) False by (simp_all add: at_eof_fail fail_irrelevant)
    then have "\<exists>l'. error_run_loop (skipOneRune ?l) = Some l'" using less(1) by blast
    then show ?thesis using can False by (subst error_run_loop.simps) auto
  qed
qed

lemma error_run_token_returns: "inv l \<Longrightarrow> \<exists>l' tok. errorRunToken l = Some (l', tok)"
proof -
  assume inv: "inv l"
  have "inv (error_run_start l)"
    using restart_error_run [OF inv, of "failTokenStart l"] restart_error_run [OF inv, of "lexer_cursor l"]
    by (simp add: error_run_start_def set_cursor_def lexer_cursor_def)
  then show ?thesis
    using error_run_loop_returns [of "skipOneRune (error_run_start l)"] skip_progress [of "error_run_start l"]
    by (auto simp: errorRunToken_def Let_def)
qed

lemma next_loop_returns: "inv l \<Longrightarrow> \<exists>l' tok. next_loop l q emit call sp = Some (l', tok)"
proof (induction "(if q = errorRunLexState l then 0 else 1 :: nat, left l)" arbitrary: l q emit call sp
    rule: wf_induct_rule [OF wf_lex_prod [OF wf_less_than wf_less_than]])
  case 1
  have IH: "\<exists>l'' tok. next_loop l' q emit call sp' = Some (l'', tok)"
    if "inv l'" "left l' < left l" "same_setup l l'" for l' sp'
    using that 1(1) [of q l' emit call sp'] by (auto simp: same_setup_fields(4))
  show ?case
  proof (cases "atLogicalEOF l")
    case True
    then show ?thesis by (subst next_loop.simps) simp
  next
    case False
    obtain l1 tok ok where sc: "scan l q (lPos l) (lPoint l) = Some (l1, tok, ok)"
      using scan_total [OF 1(2) False] by blast
    have skip: "\<exists>l'' tok. next_loop (skipOneRune (l\<lparr>failTokenStart := c\<rparr>)) q emit call sp' = Some (l'', tok)" for c sp'
      using skip_progress [of "l\<lparr>failTokenStart := c\<rparr>"] 1(2) False
      by (intro IH) (auto simp: fail_irrelevant at_eof_fail intro: same_setup_trans [OF same_setup_update(2)])
    show ?thesis
    proof (cases ok)
      case True
      then have "scan l q (lPos l) (lPoint l) = Some (l1, tok, True)" using sc by simp
      note ac = scan_accepts [OF 1(2) False this]
      have "\<exists>l'' tok. next_loop l1 q emit call True = Some (l'', tok)" if "lPos l < lPos l1"
        using ac that by (intro IH) auto
      moreover have "\<exists>l'' tok. next_loop (skipOneRune l1) q emit call False = Some (l'', tok)"
      proof (cases "atLogicalEOF l1")
        case True
        then show ?thesis using skip_at_end [of l1] ac by (subst next_loop.simps) simp
      next
        case ne: False
        then show ?thesis
          using skip_progress [of l1] ac by (intro IH) (auto intro: same_setup_trans order.strict_trans2)
      qed
      ultimately show ?thesis using sc True False by (subst next_loop.simps) (auto simp: not_le)
    next
      case fail: False
      then have "scan l q (lPos l) (lPoint l) = Some (l1, tok, False)" using sc by simp
      from scan_fails [OF 1(2) False this] obtain c where l1: "l1 = l\<lparr>failTokenStart := c\<rparr>" by blast
      have inv1: "inv l1" "\<not> atLogicalEOF l1" "lPos l1 = lPos l" "lPoint l1 = lPoint l"
        using 1(2) False by (simp_all add: l1 fail_irrelevant at_eof_fail)
      define l2 where "l2 = next_start (set_cursor l1 call)"
      have l2: "inv l2" "same_setup l1 l2" using restart_next [OF inv1(1)] by (simp_all add: l2_def)
      have "\<exists>l'' tok. next_loop l2 (errorRunLexState l1) True (lexer_cursor l2) False = Some (l'', tok)"
        if "q \<noteq> errorRunLexState l1"
        using that l2 by (intro 1(1)) (auto simp: same_setup_fields(4) l1)
      moreover obtain d can where
        "canLexAt l1 (errorRunLexState l1) (lPos l) (lPoint l) = Some (l1\<lparr>failTokenStart := d\<rparr>, can)"
        using can_lex_returns [OF inv1(1,2)] inv1(3,4) by metis
      moreover have "\<exists>l' tok. errorRunToken (l1\<lparr>failTokenStart := d\<rparr>) = Some (l', tok)" for d
        using inv1(1) by (intro error_run_token_returns) (simp add: fail_irrelevant)
      ultimately show ?thesis
        using sc fail False skip [of c False] skip [of d False]
        by (subst next_loop.simps) (auto simp: Let_def l1 l2_def)
    qed
  qed
qed

lemma lexer_next_returns: "inv l \<Longrightarrow> \<exists>l' tok. lexer_next l q emit = Some (l', tok)"
  using restart_next [of l "lexer_cursor l"] next_loop_returns [of "next_start l"]
  by (simp add: lexer_next_def Let_def set_cursor_def lexer_cursor_def)

end

subsection \<open>Contiguous source makes progress\<close>

lemma scanContiguous_moves:
  assumes "scanContiguous l q p pt = (l', tok, ok)"
  shows "if ok then \<exists>n x. p \<le> n \<and> l' = l\<lparr>lPos := n, lPoint := x\<rparr>
    else \<exists>c. l' = l\<lparr>failTokenStart := c\<rparr>"
proof -
  let ?s = "scan_loop l p (start_scan (sint q) \<lparr>cPos = p, cPoint = pt, cRangeIdx = 0\<rparr>)"
  let ?I = "\<lambda>s. p \<le> cPos (sCursor s) \<and> (\<forall>a. sAccept s = Some a \<longrightarrow> p \<le> aPos a)"
  have "?I s'" if "?I s" "scan_step l p s = (s', c)" for s s' c
    using that
    by (auto simp: scan_step_def Let_def eof_hop_def scan_accept_def accept_at_def plain_mark_def scan_move_def
        split: if_splits prod.splits)
  then have "?I ?s" by (rule scan_loop_invariant) (auto simp: start_scan_def)
  then have "p \<le> aPos a" if "eof_accept plain_mark ?s = Some a" for a
    using that by (auto simp: eof_accept_def plain_mark_def split: if_splits)
  moreover have "\<exists>c. l = l\<lparr>failTokenStart := c\<rparr>" by (rule exI [of _ "failTokenStart l"]) simp
  ultimately show ?thesis
    using assms by (auto simp: scanContiguous_def Let_def split: if_splits option.splits)
qed

definition contiguous :: "lexer \<Rightarrow> bool" where
  "contiguous l \<longleftrightarrow> includedRanges l = []"

definition bytes_left :: "lexer \<Rightarrow> nat" where
  "bytes_left l = length (lSource l) - lPos l"

interpretation contiguous_lexer: lexer_progress contiguous bytes_left
proof unfold_locales
  fix l q l' tok
  assume l: "contiguous l" "\<not> atLogicalEOF l"
  have scan: "scan l q (lPos l) (lPoint l) = Some (scanContiguous l q (lPos l) (lPoint l))" for q
    using l by (simp add: scan_def contiguous_def)
  show "\<exists>l' tok ok. scan l q (lPos l) (lPoint l) = Some (l', tok, ok)"
    unfolding scan by (metis prod_cases3)
  have lt: "lPos l < length (lSource l)" using l by (simp add: atLogicalEOF_def contiguous_def)
  show "same_setup l l' \<and> contiguous l' \<and> bytes_left l' \<le> bytes_left l \<and>
      (lPos l < lPos l' \<longrightarrow> bytes_left l' < bytes_left l)"
    if "scan l q (lPos l) (lPoint l) = Some (l', tok, True)"
  proof -
    have "scanContiguous l q (lPos l) (lPoint l) = (l', tok, True)" using that by (simp add: scan)
    from scanContiguous_moves [OF this] obtain n x where "lPos l \<le> n" "l' = l\<lparr>lPos := n, lPoint := x\<rparr>" by auto
    then show ?thesis using l(1) lt by (auto simp: contiguous_def bytes_left_def)
  qed
  show "\<exists>c. l' = l\<lparr>failTokenStart := c\<rparr>" if "scan l q (lPos l) (lPoint l) = Some (l', tok, False)"
  proof -
    have "scanContiguous l q (lPos l) (lPoint l) = (l', tok, False)" using that by (simp add: scan)
    from scanContiguous_moves [OF this] show ?thesis by simp
  qed
  have "1 \<le> snd (decode_rune (drop (lPos l) (lSource l)))" using decode_rune_size lt by simp
  then show "same_setup l (skipOneRune l) \<and> contiguous (skipOneRune l) \<and> bytes_left (skipOneRune l) < bytes_left l"
    using l lt by (auto simp: skipOneRune_def contiguous_def bytes_left_def split: prod.splits)
next
  fix l c
  assume l: "contiguous l"
  show "atLogicalEOF l \<Longrightarrow> same_setup l (skipOneRune l) \<and> contiguous (skipOneRune l) \<and> atLogicalEOF (skipOneRune l)"
    using l by (simp add: skipOneRune_def contiguous_def atLogicalEOF_def)
  show "contiguous (normalizeIncludedPosition (set_cursor l c))"
    using l by (simp add: contiguous_def normalizeIncludedPosition_def set_cursor_def)
  show "contiguous (next_start (set_cursor l c)) \<and> same_setup l (next_start (set_cursor l c))"
  proof -
    have "next_start (set_cursor l c) = skipLeadingBOM (set_cursor l c)"
      using l by (simp add: next_start_def normalizeIncludedPosition_def contiguous_def set_cursor_def)
    moreover have "contiguous (skipLeadingBOM (set_cursor l c))"
      using l by (simp add: skipLeadingBOM_def contiguous_def set_cursor_def)
    ultimately show ?thesis using same_setup_trans [OF same_setup_update(4) same_setup_BOM] by simp
  qed
qed (simp_all add: contiguous_def bytes_left_def)

subsection \<open>Included ranges make progress\<close>

lemma included_loop_invariant:
  assumes "included_loop l p s = Some t" and "\<And>s s' c. I s \<Longrightarrow> included_step l p s = (s', c) \<Longrightarrow> I s'"
    and "I s"
  shows "I t"
proof -
  let ?P = "\<lambda>l p s t. (\<forall>s s' c. I s \<longrightarrow> included_step l p s = (s', c) \<longrightarrow> I s') \<longrightarrow> I s \<longrightarrow> I t"
  have "?P l p s t"
  proof (rule included_loop.raw_induct [of ?P, OF _ assms(1)])
    fix rec l p s t
    assume IH: "\<And>l p s t. rec l p s = Some t \<Longrightarrow> ?P l p s t"
      and body: "(case included_step l p s of (s', continue) \<Rightarrow> if continue then rec l p s' else Some s') = Some t"
    obtain s' continue where step: "included_step l p s = (s', continue)" by fastforce
    show "?P l p s t"
    proof (intro impI)
      assume pres: "\<forall>s s' c. I s \<longrightarrow> included_step l p s = (s', c) \<longrightarrow> I s'" and "I s"
      then have "I s'" using step by blast
      then show "I t" using body step IH [of l p s' t] pres by (cases continue) auto
    qed
  qed
  then show ?thesis using assms(2,3) by blast
qed

text \<open>Where the lexer may stand between two tokens: on a normal cursor, or at the end of the
  range before it when the last token ended there.\<close>

definition lexer_place :: "lexer \<Rightarrow> lex_cursor \<Rightarrow> bool" where
  "lexer_place l c \<longleftrightarrow> normal l c \<and> includedRangeIdx l = cRangeIdx c \<and>
     (lPos l = cPos c \<or> lPos l = fst (includedMarkEnd l c))"

text \<open>A leading byte order mark is not the end of a range: no range from byte 0 ends in it.\<close>

definition bom_clear :: "lexer \<Rightarrow> bool" where
  "bom_clear l \<longleftrightarrow> take 3 (lSource l) = utf8BOM \<longrightarrow>
     (\<forall>r \<in> set (includedRanges l). rStartByte r = 0 \<longrightarrow> 3 < rEndByte r \<and> 3 < length (lSource l))"

definition in_ranges :: "lexer \<Rightarrow> bool" where
  "in_ranges l \<longleftrightarrow> separated (includedRanges l) \<and> includedRanges l \<noteq> [] \<and>
     bom_clear l \<and> (\<exists>c. lexer_place l c)"

definition selected_left :: "lexer \<Rightarrow> nat" where
  "selected_left l = length (selected_bytes l) - count_selected l (lPos l)"

text \<open>The functions on ranges depend on the ranges and the source only.\<close>

definition same_text :: "lexer \<Rightarrow> lexer \<Rightarrow> bool" where
  "same_text l l' \<longleftrightarrow> includedRanges l' = includedRanges l \<and> lSource l' = lSource l"

lemma same_text_bounds:
  assumes "same_text l l'"
  shows "includedRangeBounds l' = includedRangeBounds l"
  using assms by (intro ext) (simp add: includedRangeBounds_def same_text_def)

lemma same_text_eof:
  assumes "same_text l l'"
  shows "includedEOFPosition l' = includedEOFPosition l"
proof -
  have "included_eof_loop l' n = included_eof_loop l n" for n
    using assms same_text_bounds [OF assms]
    by (induction n) (simp_all add: source_end_def same_text_def Let_def case_prod_beta)
  then show ?thesis using assms by (simp add: includedEOFPosition_def same_text_def)
qed

lemma same_text_ops:
  assumes "same_text l l'"
  shows "normal l' c = normal l c" "includedMarkEnd l' c = includedMarkEnd l c"
    "count_selected l' k = count_selected l k" "selected_bytes l' = selected_bytes l"
  using assms same_text_bounds [OF assms] same_text_eof [OF assms]
  by (simp_all add: normal_def includedMarkEnd_def count_selected_def count_upto_def selected_bytes_def
      selected_upto_def same_text_def Let_def)

lemma same_setup_text: "same_setup l l' \<Longrightarrow> same_text l l'"
  by (simp add: same_text_def same_setup_fields)

lemma in_ranges_cursor:
  assumes "in_ranges l"
  shows "\<exists>c. lexer_place l c \<and> cPos (normalizeIncludedCursor l (lexer_cursor l)) = cPos c \<and>
    count_selected l (lPos l) = count_selected l (cPos c)"
proof -
  obtain c where c: "lexer_place l c" using assms by (auto simp: in_ranges_def)
  have sep: "separated (includedRanges l)" "includedRanges l \<noteq> []" using assms by (auto simp: in_ranges_def)
  have cnt: "count_selected l (lPos l) = count_selected l (cPos c)"
    using c mark_end_count(1) [OF sep(1), of c] by (auto simp: lexer_place_def)
  have "count_selected l (cPos (normalizeIncludedCursor l (lexer_cursor l))) = count_selected l (cPos c)"
    using normalize_count [OF sep(1), of "lexer_cursor l"] cnt by (simp add: lexer_cursor_def)
  then have "cPos (normalizeIncludedCursor l (lexer_cursor l)) = cPos c"
    using normal_count_iff(2) [OF sep(1) normalizeIncludedCursor_normal [OF sep(2)]] c
    by (simp add: lexer_place_def)
  then show ?thesis using c cnt by blast
qed

lemma normal_same_index:
  assumes "separated (includedRanges l)" "normal l c" "normal l d" "cPos c = cPos d"
  shows "cRangeIdx c = cRangeIdx d"
proof -
  have end': "cRangeIdx c < range_count l \<longleftrightarrow> cRangeIdx d < range_count l"
    using normal_at_end [OF assms(1,2)] normal_at_end [OF assms(1,3)] assms(4) by simp
  show ?thesis
  proof (cases "cRangeIdx c < range_count l")
    case True
    then have "lo l (cRangeIdx c) \<le> cPos c \<and> cPos c < hi l (cRangeIdx c)"
      "lo l (cRangeIdx d) \<le> cPos c \<and> cPos c < hi l (cRangeIdx d)"
      using assms(2-4) end' by (auto simp: normal_def)
    then show ?thesis
      using bounds_order(2) [OF assms(1), of "cRangeIdx c" "cRangeIdx d"]
        bounds_order(2) [OF assms(1), of "cRangeIdx d" "cRangeIdx c"] True end'
      by (meson leD le_less_trans linorder_neqE_nat)
  next
    case False
    then show ?thesis using assms(2,3) end' by (auto simp: normal_def)
  qed
qed

text \<open>The walk stays at or behind its start, and so do its accepts.\<close>

definition walk_behind :: "lexer \<Rightarrow> nat \<Rightarrow> lex_scan \<Rightarrow> bool" where
  "walk_behind l k s \<longleftrightarrow> normal l (sCursor s) \<and> k \<le> cPos (sCursor s) \<and>
     (\<forall>a. sAccept s = Some a \<longrightarrow> (\<exists>c. normal l c \<and> k \<le> cPos c \<and>
        aPos a = fst (includedMarkEnd l c) \<and> aRangeIdx a = cRangeIdx c))"

lemma included_step_behind:
  assumes sep: "separated (includedRanges l)" "includedRanges l \<noteq> []"
    and s: "walk_behind l k s" and step: "included_step l p s = (s', continue)"
  shows "walk_behind l k s'"
proof (cases "sState s < 0 \<or> sState s \<ge> int (length (lStates l))")
  case True
  then show ?thesis using s step by (simp add: included_step_def)
next
  case q: False
  let ?st = "lStates l ! nat (sState s)" and ?cur = "sCursor s"
  define s1 where "s1 = scan_accept (includedMarkEnd l) l p ?st s"
  have s1: "walk_behind l k s1"
    using s by (auto simp: walk_behind_def s1_def scan_accept_def accept_at_def)
  have same: "sCursor s1 = ?cur" "sState s1 = sState s" by (simp_all add: s1_def)
  show ?thesis
  proof (cases "cRangeIdx ?cur \<ge> range_count l")
    case True
    then have "eof_hop l ?st s1 = (s', continue)" using step q by (simp add: included_step_def s1_def Let_def)
    then have "sCursor s' = sCursor s1" "sAccept s' = sAccept s1" by (auto simp: eof_hop_def split: if_splits)
    then show ?thesis using s1 by (simp add: walk_behind_def)
  next
    case False
    obtain r width where ra: "rune_at (go_slice (lSource l) (cPos ?cur) (hi l (cRangeIdx ?cur))) = (r, width)"
      by fastforce
    obtain d where d: "advanceIncludedCursor l ?cur = (d, Some (r, width))" "normal l d" "cPos ?cur < cPos d"
      using advance_normal [OF sep _ _ ra] s False by (auto simp: walk_behind_def)
    obtain n sk where nt: "next_transition (asciiTable l) (sState s) ?st (lSource l ! cPos ?cur) r = (n, sk)"
      by fastforce
    have "s' = (if n < 0 then s1\<lparr>eofHops := 0\<rparr> else scan_move (s1\<lparr>eofHops := 0\<rparr>) d n sk)"
      using step q False ra nt d(1) same by (simp add: included_step_def s1_def [symmetric] Let_def split: if_splits)
    then show ?thesis using s1 d same by (auto simp: walk_behind_def)
  qed
qed

lemma included_scan_result:
  assumes sep: "separated (includedRanges l)" "includedRanges l \<noteq> []"
    and "scanIncluded l q p pt = Some (l', tok, True)"
  shows "\<exists>c x. normal l c \<and>
    cPos (normalizeIncludedCursor l \<lparr>cPos = p, cPoint = pt, cRangeIdx = includedRangeIdx l\<rparr>) \<le> cPos c \<and>
    l' = l\<lparr>lPos := fst (includedMarkEnd l c), lPoint := x, includedRangeIdx := cRangeIdx c\<rparr>"
proof -
  let ?c0 = "normalizeIncludedCursor l \<lparr>cPos = p, cPoint = pt, cRangeIdx = includedRangeIdx l\<rparr>"
  obtain s a where s: "included_loop l (cPos ?c0) (start_scan (sint q) ?c0) = Some s"
    and a: "eof_accept (includedMarkEnd l) s = Some a"
    and l': "l' = l\<lparr>lPos := aPos a, lPoint := aPoint a, includedRangeIdx := aRangeIdx a\<rparr>"
    using assms(3) by (auto simp: scanIncluded_def Let_def split: if_splits option.splits)
  have "walk_behind l (cPos ?c0) s"
    using s
  proof (rule included_loop_invariant)
    show "walk_behind l (cPos ?c0) (start_scan (sint q) ?c0)"
      using normalizeIncludedCursor_normal [OF sep(2)] by (simp add: start_scan_def walk_behind_def)
  qed (rule included_step_behind [OF sep])
  then obtain c where "normal l c" "cPos ?c0 \<le> cPos c" "aPos a = fst (includedMarkEnd l c)" "aRangeIdx a = cRangeIdx c"
    using a by (auto simp: walk_behind_def eof_accept_def split: if_splits)
  then show ?thesis using l' by (intro exI [of _ c] exI [of _ "aPoint a"]) simp
qed

lemma normalized_in_ranges:
  assumes "separated (includedRanges l)" "includedRanges l \<noteq> []" "bom_clear l"
  shows "in_ranges (normalizeIncludedPosition l)" and "same_setup l (normalizeIncludedPosition l)"
proof -
  let ?c = "normalizeIncludedCursor l (lexer_cursor l)"
  have eq: "normalizeIncludedPosition l = set_cursor l ?c" using assms(2) by (simp add: normalizeIncludedPosition_def)
  then show "same_setup l (normalizeIncludedPosition l)" by simp
  have st: "same_text l (set_cursor l ?c)" by (rule same_setup_text) simp
  have "normal (set_cursor l ?c) ?c" using normalizeIncludedCursor_normal [OF assms(2)] same_text_ops(1) [OF st] by simp
  then have "lexer_place (set_cursor l ?c) ?c" by (simp add: lexer_place_def set_cursor_def)
  then show "in_ranges (normalizeIncludedPosition l)"
    using assms unfolding eq in_ranges_def by (auto simp: set_cursor_def bom_clear_def)
qed

lemma in_ranges_setup:
  assumes "in_ranges l"
  shows "separated (includedRanges l)" "includedRanges l \<noteq> []" "bom_clear l"
  using assms by (auto simp: in_ranges_def)

lemma in_ranges_move:
  assumes "in_ranges l" "normal l c" "k = cPos c \<or> k = fst (includedMarkEnd l c)"
  shows "in_ranges (l\<lparr>lPos := k, lPoint := x, includedRangeIdx := cRangeIdx c\<rparr>)"
proof -
  let ?l = "l\<lparr>lPos := k, lPoint := x, includedRangeIdx := cRangeIdx c\<rparr>"
  have st: "same_text l ?l" by (simp add: same_text_def)
  have "lexer_place ?l c" using assms(2,3) same_text_ops(1,2) [OF st] by (simp add: lexer_place_def)
  then show ?thesis using in_ranges_setup [OF assms(1)] unfolding in_ranges_def by (auto simp: bom_clear_def)
qed

lemma bom_clear_normal:
  assumes "bom_clear l" "take 3 (lSource l) = utf8BOM" "normal l c" "cPos c = 0"
  shows "normal l (c\<lparr>cPos := 3, cPoint := x\<rparr>)"
proof -
  have len: "3 \<le> length (lSource l)" using arg_cong [OF assms(2), of length] by (simp add: utf8BOM_def min_def split: if_splits)
  have pos: "0 < fst (included_eof_loop l n)" for n
    using len by (induction n) (auto simp: source_end_def Let_def split: prod.splits)
  from assms(3) consider "cRangeIdx c < range_count l" "lo l (cRangeIdx c) = 0"
    | "(0, cPoint c) = includedEOFPosition l" using assms(4) by (auto simp: normal_def)
  then show ?thesis
  proof cases
    case 1
    let ?r = "includedRanges l ! cRangeIdx c"
    have "rStartByte ?r = 0" using 1 len by (auto simp: includedRangeBounds_def Let_def unat_eq_0 split: if_splits)
    then have "3 < rEndByte ?r \<and> 3 < length (lSource l)" using assms(1,2) 1(1) nth_mem [OF 1(1)] unfolding bom_clear_def by blast
    then have "3 < hi l (cRangeIdx c)" using 1(1) by (simp add: includedRangeBounds_def Let_def word_less_nat_alt)
    then show ?thesis using 1 by (simp add: normal_def)
  next
    case 2
    then show ?thesis using pos [of "range_count l"] by (metis includedEOFPosition_def fst_conv less_irrefl)
  qed
qed

lemma next_start_in_ranges:
  assumes "separated (includedRanges l)" "includedRanges l \<noteq> []" "bom_clear l"
  shows "in_ranges (next_start l)" and "same_setup l (next_start l)"
proof -
  let ?c = "normalizeIncludedCursor l (lexer_cursor l)" and ?l = "normalizeIncludedPosition l"
  note n = normalized_in_ranges [OF assms]
  have eq: "?l = set_cursor l ?c" using assms(2) by (simp add: normalizeIncludedPosition_def)
  have src: "lSource ?l = lSource l" by (simp add: same_setup_fields(2) [OF n(2)])
  have "in_ranges (next_start l) \<and> same_setup l (next_start l)"
  proof (cases "lPos ?l \<noteq> 0 \<or> take 3 (lSource l) \<noteq> utf8BOM")
    case True
    then have "next_start l = ?l" using src by (auto simp: next_start_def skipLeadingBOM_def)
    then show ?thesis using n by simp
  next
    case False
    let ?d = "?c\<lparr>cPos := 3, cPoint := zero_point\<rparr>"
    have st: "same_text l ?l" by (rule same_setup_text [OF n(2)])
    have "normal l ?d"
      using bom_clear_normal [OF assms(3) _ normalizeIncludedCursor_normal [OF assms(2)]] False
      by (simp add: eq set_cursor_def)
    then have "in_ranges (?l\<lparr>lPos := 3, lPoint := (lPoint ?l)\<lparr>Column := 3\<rparr>, includedRangeIdx := cRangeIdx ?d\<rparr>)"
      using same_text_ops(1) [OF st] by (intro in_ranges_move [OF n(1)]) simp_all
    moreover have "next_start l = ?l\<lparr>lPos := 3, lPoint := (lPoint ?l)\<lparr>Column := 3\<rparr>, includedRangeIdx := cRangeIdx ?d\<rparr>"
      using False src by (simp add: next_start_def skipLeadingBOM_def utf8BOM_def u32_of_def eq set_cursor_def)
    moreover have "same_setup ?l (?l\<lparr>lPos := 3, lPoint := (lPoint ?l)\<lparr>Column := 3\<rparr>, includedRangeIdx := cRangeIdx ?d\<rparr>)"
      by (simp add: same_setup_def)
    ultimately show ?thesis using same_setup_trans [OF n(2)] by metis
  qed
  then show "in_ranges (next_start l)" and "same_setup l (next_start l)" by auto
qed

lemma in_ranges_fail: "in_ranges (l\<lparr>failTokenStart := c\<rparr>) = in_ranges l"
proof -
  have st: "same_text l (l\<lparr>failTokenStart := c\<rparr>)" by (simp add: same_text_def)
  show ?thesis using same_text_ops(1,2) [OF st] by (simp add: in_ranges_def lexer_place_def bom_clear_def)
qed

lemma skip_included:
  assumes "in_ranges l"
  shows "\<not> atLogicalEOF l \<Longrightarrow> same_setup l (skipOneRune l) \<and> in_ranges (skipOneRune l) \<and>
      selected_left (skipOneRune l) < selected_left l"
    and "atLogicalEOF l \<Longrightarrow> skipOneRune l = l"
proof -
  note sep = in_ranges_setup [OF assms]
  let ?c = "normalizeIncludedCursor l (lexer_cursor l)"
  obtain c where c: "lexer_place l c" "cPos ?c = cPos c" "count_selected l (lPos l) = count_selected l (cPos c)"
    using in_ranges_cursor [OF assms] by blast
  have n: "normal l ?c" "normal l c" using normalizeIncludedCursor_normal [OF sep(2)] c(1) by (simp_all add: lexer_place_def)
  have idx: "cRangeIdx ?c = includedRangeIdx l"
    using normal_same_index [OF sep(1) n c(2)] c(1) by (simp add: lexer_place_def)
  have adv: "advanceIncludedCursor l (lexer_cursor l) = advanceIncludedCursor l ?c"
    using normalize_id [OF sep(1,2) n(1)] by (simp add: advanceIncludedCursor_def)
  have skip: "skipOneRune l = skipOneIncludedRune l" using sep(2) by (simp add: skipOneRune_def)
  show "skipOneRune l = l" if "atLogicalEOF l"
    using that sep(2) idx normalize_id [OF sep(1,2) n(1)]
    by (simp add: skip skipOneIncludedRune_def adv) (simp add: advanceIncludedCursor_def atLogicalEOF_def)
  show "same_setup l (skipOneRune l) \<and> in_ranges (skipOneRune l) \<and> selected_left (skipOneRune l) < selected_left l"
    if "\<not> atLogicalEOF l"
  proof -
    have lt: "cRangeIdx ?c < range_count l" using that sep(2) idx by (simp add: atLogicalEOF_def)
    obtain r width where ra: "rune_at (go_slice (lSource l) (cPos ?c) (hi l (cRangeIdx ?c))) = (r, width)" by fastforce
    obtain d where d: "advanceIncludedCursor l ?c = (d, Some (r, width))" "normal l d" "cPos ?c < cPos d"
      using advance_normal [OF sep(1,2) n(1) lt ra] by blast
    have eq: "skipOneRune l = set_cursor l d" by (simp add: skip skipOneIncludedRune_def adv d(1))
    have st: "same_text l (set_cursor l d)" by (rule same_setup_text) simp
    have "count_selected l (lPos l) < count_selected l (cPos d)"
      using normal_count_less [OF sep(1) n(1) d(2,3)] c(2,3) by simp
    moreover have "count_selected l (lPos l) < length (selected_bytes l)"
      using normal_at_end [OF sep(1) n(1)] lt c(2,3) by simp
    ultimately have "selected_left (set_cursor l d) < selected_left l"
      by (simp add: selected_left_def same_text_ops [OF st]) (simp add: set_cursor_def)
    then show ?thesis using in_ranges_move [OF assms d(2), of "cPos d"] unfolding eq by (simp add: set_cursor_def same_setup_def)
  qed
qed

lemma scan_included_accepts:
  assumes "in_ranges l" "\<not> atLogicalEOF l" "scan l q (lPos l) (lPoint l) = Some (l', tok, True)"
  shows "same_setup l l' \<and> in_ranges l' \<and> selected_left l' \<le> selected_left l \<and>
    (lPos l < lPos l' \<longrightarrow> selected_left l' < selected_left l)"
proof -
  note sep = in_ranges_setup [OF assms(1)]
  let ?c = "normalizeIncludedCursor l (lexer_cursor l)"
  obtain c where c: "lexer_place l c" "cPos ?c = cPos c" "count_selected l (lPos l) = count_selected l (cPos c)"
    using in_ranges_cursor [OF assms(1)] by blast
  have n: "normal l ?c" "normal l c" using normalizeIncludedCursor_normal [OF sep(2)] c(1) by (simp_all add: lexer_place_def)
  have "scanIncluded l q (lPos l) (lPoint l) = Some (l', tok, True)" using assms(3) sep(2) by (simp add: scan_def)
  from included_scan_result [OF sep(1,2) this] obtain d x where
    d: "normal l d" "cPos ?c \<le> cPos d"
      and l': "l' = l\<lparr>lPos := fst (includedMarkEnd l d), lPoint := x, includedRangeIdx := cRangeIdx d\<rparr>"
    by (auto simp: lexer_cursor_def)
  have st: "same_text l l'" by (simp add: l' same_text_def)
  have cd: "count_selected l (lPos l') = count_selected l (cPos d)" by (simp add: l' mark_end_count(1) [OF sep(1) d(1)])
  have left': "selected_left l' = length (selected_bytes l) - count_selected l (cPos d)"
    using cd by (simp add: selected_left_def same_text_ops [OF st])
  have le: "selected_left l' \<le> selected_left l"
    using count_selected_mono [OF sep(1) d(2)] c(2,3) unfolding left' by (simp add: selected_left_def)
  have "selected_left l' < selected_left l" if "lPos l < lPos l'"
  proof -
    have "cPos ?c \<noteq> cPos d"
    proof
      assume "cPos ?c = cPos d"
      then have "cRangeIdx c = cRangeIdx d" "cPos c = cPos d" using normal_same_index [OF sep(1) n(2) d(1)] c(2) by simp_all
      then have "fst (includedMarkEnd l d) = fst (includedMarkEnd l c)" by (auto simp: includedMarkEnd_def Let_def)
      then show False
        using that c(1) mark_end_count(2) [OF sep(1) n(2)] by (auto simp: l' lexer_place_def)
    qed
    then have "count_selected l (cPos c) < count_selected l (cPos d)"
      using normal_count_less [OF sep(1) n(2) d(1)] d(2) c(2) by simp
    moreover have "count_selected l (cPos c) < length (selected_bytes l)"
      using normal_at_end [OF sep(1) n(2)] c(1) assms(2) sep(2) by (simp add: atLogicalEOF_def lexer_place_def)
    ultimately show ?thesis using c(3) unfolding left' by (simp add: selected_left_def)
  qed
  moreover have "in_ranges l'" unfolding l' by (rule in_ranges_move [OF assms(1) d(1)]) simp
  ultimately show ?thesis using le l' by simp
qed

interpretation included_lexer: lexer_progress in_ranges selected_left
proof unfold_locales
  fix l q l' tok
  assume l: "in_ranges l" "\<not> atLogicalEOF l"
  note sep = in_ranges_setup [OF l(1)]
  have scan: "scan l q (lPos l) (lPoint l) = scanIncluded l q (lPos l) (lPoint l)" for q
    using sep(2) by (simp add: scan_def)
  show "\<exists>l' tok ok. scan l q (lPos l) (lPoint l) = Some (l', tok, ok)"
    unfolding scan using scanIncluded_returns [OF sep(1,2)] .
  show "\<exists>c. l' = l\<lparr>failTokenStart := c\<rparr>" if "scan l q (lPos l) (lPoint l) = Some (l', tok, False)"
  proof -
    have "\<exists>c. l = l\<lparr>failTokenStart := c\<rparr>" by (rule exI [of _ "failTokenStart l"]) simp
    then show ?thesis using that by (auto simp: scan scanIncluded_def Let_def split: if_splits option.splits)
  qed
next
  fix l :: lexer and c
  assume l: "in_ranges l"
  note sep = in_ranges_setup [OF l]
  have s: "separated (includedRanges (set_cursor l c))" "includedRanges (set_cursor l c) \<noteq> []"
    "bom_clear (set_cursor l c)"
    using sep by (simp_all add: set_cursor_def bom_clear_def)
  show "in_ranges (normalizeIncludedPosition (set_cursor l c))" by (rule normalized_in_ranges(1) [OF s])
  show "in_ranges (next_start (set_cursor l c)) \<and> same_setup l (next_start (set_cursor l c))"
    using next_start_in_ranges [OF s] same_setup_trans [OF same_setup_update(4)] by blast
next
  show "selected_left (l\<lparr>failTokenStart := c\<rparr>) = selected_left l" for c l
    using same_text_ops(3,4) [of l "l\<lparr>failTokenStart := c\<rparr>"] by (simp add: selected_left_def same_text_def)
qed (use skip_included scan_included_accepts in_ranges_fail in \<open>auto\<close>)

subsection \<open>Positions of the tokens\<close>

definition place_ok :: "lexer \<Rightarrow> bool" where
  "place_ok l \<longleftrightarrow> includedRanges l = [] \<and> cursor_ok (lSource l) (lexer_cursor l) \<and>
     cursor_ok (lSource l) (failTokenStart l)"

lemma decode_is_rune_at: "bs \<noteq> [] \<Longrightarrow> decode_rune bs = rune_at bs"
  by (cases bs) (auto simp: rune_at_def decode_rune_ascii)

lemma skipOneRune_place:
  assumes "place_ok l"
  shows "place_ok (skipOneRune l)" and "lPos l \<le> lPos (skipOneRune l)" and "same_setup l (skipOneRune l)"
proof -
  have "place_ok (skipOneRune l) \<and> lPos l \<le> lPos (skipOneRune l) \<and> same_setup l (skipOneRune l)"
  proof (cases "lPos l < length (lSource l)")
    case True
    obtain r width where ra: "rune_at (drop (lPos l) (lSource l)) = (r, width)" by fastforce
    have eq: "skipOneRune l = l\<lparr>lPos := lPos l + width, lPoint := advance_point (lPoint l) r width\<rparr>"
      using assms True ra by (simp add: skipOneRune_def place_ok_def decode_is_rune_at)
    show ?thesis
      using advance_point_at [OF True ra] assms
      by (auto simp: eq place_ok_def cursor_ok_def lexer_cursor_def)
  next
    case False
    then show ?thesis using assms by (simp add: skipOneRune_def place_ok_def)
  qed
  then show "place_ok (skipOneRune l)" and "lPos l \<le> lPos (skipOneRune l)" and "same_setup l (skipOneRune l)" by auto
qed

text \<open>The answer of a scan at the lexer's own position.\<close>

lemma scan_place:
  assumes "place_ok l" "scan l q (lPos l) (lPoint l) = Some (l', tok, ok)"
  shows "if ok then
      \<exists>m. lPos l \<le> m \<and> m \<le> lPos l' \<and> place_ok l' \<and> same_setup l l' \<and>
        tStartByte tok = u32_of m \<and> tEndByte tok = u32_of (lPos l') \<and>
        tStartPoint tok = point_at (lSource l) m \<and> tEndPoint tok = lPoint l' \<and>
        Text tok = (if Symbol tok = 0 then [] else go_slice (lSource l) m (lPos l'))
    else \<exists>c. l' = l\<lparr>failTokenStart := c\<rparr> \<and> place_ok l'"
proof -
  have pos: "lPos l \<le> length (lSource l)" "lPoint l = point_at (lSource l) (lPos l)" "includedRanges l = []"
    using assms(1) by (auto simp: place_ok_def cursor_ok_def lexer_cursor_def)
  have "scanContiguous l q (lPos l) (point_at (lSource l) (lPos l)) = (l', tok, ok)"
    using assms(2) pos by (simp add: scan_def)
  from scanContiguous_spec [OF this pos(1)] show ?thesis
    using assms(1) pos by (auto simp: place_ok_def cursor_ok_def lexer_cursor_def split: if_splits)
qed

lemma can_lex_place:
  assumes "place_ok l" "canLexAt l q (lPos l) (lPoint l) = Some (l', ok)"
  shows "\<exists>c. l' = l\<lparr>failTokenStart := c\<rparr> \<and> place_ok l'"
proof -
  obtain l1 tok where sc: "scan l q (lPos l) (lPoint l) = Some (l1, tok, ok)"
    and l': "l' = l1\<lparr>lPos := lPos l, lPoint := lPoint l, includedRangeIdx := includedRangeIdx l\<rparr>"
    using assms(2) by (auto simp: canLexAt_def split: option.splits)
  have l1: "same_setup l l1" "place_ok l1" using scan_place [OF assms(1) sc] by (auto split: if_splits)
  have eq: "l' = l\<lparr>failTokenStart := failTokenStart l1\<rparr>"
    using l1(1) unfolding l' same_setup_def by (cases l; cases l1) auto
  then have "place_ok l'"
    using assms(1) l1 same_setup_fields(2) [OF l1(1)] by (simp add: place_ok_def lexer_cursor_def)
  then show ?thesis using eq by blast
qed

lemma error_run_loop_place:
  assumes "error_run_loop l = Some l'" "place_ok l"
  shows "place_ok l' \<and> lPos l \<le> lPos l' \<and> same_setup l l'"
proof -
  let ?P = "\<lambda>l l'. place_ok l \<longrightarrow> place_ok l' \<and> lPos l \<le> lPos l' \<and> same_setup l l'"
  have "?P l l'"
  proof (rule error_run_loop.raw_induct [of ?P, OF _ assms(1)], goal_cases)
    case (1 rec l l')
    show ?case
    proof
      assume ok: "place_ok l"
      show "place_ok l' \<and> lPos l \<le> lPos l' \<and> same_setup l l'"
      proof (cases "atLogicalEOF l")
        case True
        then show ?thesis using 1(2) ok by simp
      next
        case False
        then obtain l1 can where can: "canLexAt l (errorRunLexState l) (lPos l) (lPoint l) = Some (l1, can)"
          using 1(2) by (auto split: option.splits)
        obtain c where l1: "l1 = l\<lparr>failTokenStart := c\<rparr>" "place_ok l1" using can_lex_place [OF ok can] by blast
        have s1: "same_setup l l1" "lPos l1 = lPos l" by (simp_all add: l1)
        show ?thesis
        proof (cases can)
          case True
          then show ?thesis using 1(2) False can s1 l1(2) by simp
        next
          case no: False
          then have "rec (skipOneRune l1) = Some l'" using 1(2) False can by simp
          from 1(1) [OF this] skipOneRune_place [OF l1(2)] s1 show ?thesis
            by (auto intro: same_setup_trans)
        qed
      qed
    qed
  qed
  then show ?thesis using assms(2) by simp
qed

text \<open>A token of the source, beginning at \<open>b\<close> or later and ending where the lexer is.\<close>

definition token_sound :: "nat \<Rightarrow> lexer \<Rightarrow> token \<Rightarrow> bool" where
  "token_sound b l tok \<longleftrightarrow>
     (\<exists>m. b \<le> m \<and> m \<le> lPos l \<and> tStartByte tok = u32_of m \<and> tEndByte tok = u32_of (lPos l) \<and>
        tStartPoint tok = point_at (lSource l) m \<and> tEndPoint tok = lPoint l \<and>
        Text tok = (if Symbol tok = 0 then [] else go_slice (lSource l) m (lPos l)) \<and>
        (Symbol tok = 0 \<longrightarrow> lPos l = length (lSource l)))"

lemma place_point: "place_ok l \<Longrightarrow> lPoint l = point_at (lSource l) (lPos l) \<and> lPos l \<le> length (lSource l)"
  by (simp add: place_ok_def cursor_ok_def lexer_cursor_def)

lemma eof_token_sound:
  assumes "place_ok l" "atLogicalEOF l" "b \<le> lPos l"
  shows "token_sound b l (eof_token l)"
proof -
  have "includedRanges l = []" using assms(1) by (simp add: place_ok_def)
  then show ?thesis
    using assms place_point [OF assms(1)]
    by (auto simp: token_sound_def eof_token_def zero_token_def atLogicalEOF_def intro!: exI [of _ "lPos l"])
qed

lemma error_run_start_place:
  assumes "place_ok l"
  shows "place_ok (error_run_start l) \<and> lPos l \<le> lPos (error_run_start l) \<and> same_setup l (error_run_start l)"
  using assms
  by (auto simp: error_run_start_def place_ok_def normalizeIncludedPosition_def set_cursor_def lexer_cursor_def
      cursor_ok_def same_setup_def)

lemma error_run_token_place:
  assumes "place_ok l" "errorRunToken l = Some (l', tok)" "b \<le> lPos l"
  shows "place_ok l' \<and> same_setup l l' \<and> token_sound b l' tok"
proof -
  let ?l1 = "error_run_start l"
  have l1: "place_ok ?l1" "lPos l \<le> lPos ?l1" "same_setup l ?l1" using error_run_start_place [OF assms(1)] by auto
  show ?thesis
  proof (cases "atLogicalEOF ?l1")
    case True
    then have "l' = ?l1" "tok = eof_token ?l1" using assms(2) by (auto simp: errorRunToken_def Let_def)
    then show ?thesis using assms(3) l1 eof_token_sound [OF l1(1) True] by simp
  next
    case False
    then have run: "error_run_loop (skipOneRune ?l1) = Some l'" and
      tok: "tok = zero_token\<lparr>Symbol := errorSymbol, Text := tokenText l' (lPos ?l1) (lPos l'),
        tStartByte := u32_of (lPos ?l1), tEndByte := u32_of (lPos l'),
        tStartPoint := lPoint ?l1, tEndPoint := lPoint l'\<rparr>"
      using assms(2) by (auto simp: errorRunToken_def Let_def split: option.splits)
    note skip = skipOneRune_place [OF l1(1)]
    have l': "place_ok l'" "lPos ?l1 \<le> lPos l'" "same_setup l l'"
      using error_run_loop_place [OF run skip(1)] skip l1(3) by (auto intro: same_setup_trans)
    have "tokenText l' (lPos ?l1) (lPos l') = go_slice (lSource l') (lPos ?l1) (lPos l')"
      using l'(1) by (simp add: tokenText_def place_ok_def)
    moreover have "lSource ?l1 = lSource l'" using same_setup_fields(2) l1(3) l'(3) by metis
    ultimately have "token_sound b l' tok"
      using assms(3) l1(2) l'(2) place_point [OF l1(1)]
      by (auto simp: token_sound_def tok zero_token_def errorSymbol_def intro!: exI [of _ "lPos ?l1"])
    then show ?thesis using l' by simp
  qed
qed

lemma next_start_place:
  assumes "place_ok l"
  shows "place_ok (next_start l) \<and> lPos l \<le> lPos (next_start l) \<and> same_setup l (next_start l)"
proof -
  have none: "next_start l = skipLeadingBOM l"
    using assms by (simp add: next_start_def normalizeIncludedPosition_def place_ok_def)
  show ?thesis
  proof (cases "lPos l \<noteq> 0 \<or> take 3 (lSource l) \<noteq> utf8BOM")
    case True
    then show ?thesis using assms none by (auto simp: skipLeadingBOM_def)
  next
    case False
    then have eq: "next_start l = l\<lparr>lPos := 3, lPoint := (lPoint l)\<lparr>Column := 3\<rparr>\<rparr>"
      using none by (simp add: skipLeadingBOM_def utf8BOM_def u32_of_def)
    have "length (take 3 (lSource l)) = 3" using False by (simp add: utf8BOM_def)
    moreover have "lPoint l = zero_point" using False place_point [OF assms] by simp
    moreover have "point_at (lSource l) 3 = \<lparr>Row = 0, Column = 3\<rparr>"
      using False by (simp add: point_at_def utf8BOM_def computeNewEndPoint_def point_step_def)
    ultimately show ?thesis
      using False assms by (auto simp: eq place_ok_def cursor_ok_def lexer_cursor_def)
  qed
qed

lemma place_ok_set_cursor:
  assumes "place_ok l" "cursor_ok (lSource l) c"
  shows "place_ok (set_cursor l c)"
  using assms by (simp add: place_ok_def set_cursor_def lexer_cursor_def cursor_ok_def)

lemma set_cursor_simps: "lPos (set_cursor l c) = cPos c" "lSource (set_cursor l c) = lSource l"
  by (simp_all add: set_cursor_def)

lemma next_loop_place:
  assumes "next_loop l q emit call sp = Some r" "place_ok l" "cursor_ok (lSource l) call"
    "b \<le> lPos l" "b \<le> cPos call"
  shows "place_ok (fst r) \<and> same_setup l (fst r) \<and> token_sound b (fst r) (snd r)"
proof -
  let ?R = "\<lambda>l (r :: lexer \<times> token). place_ok (fst r) \<and> same_setup l (fst r) \<and> token_sound b (fst r) (snd r)"
  let ?P = "\<lambda>l (q :: u32) (emit :: bool) call (sp :: bool) r. place_ok l \<longrightarrow> cursor_ok (lSource l) call \<longrightarrow>
    b \<le> lPos l \<longrightarrow> b \<le> cPos call \<longrightarrow> ?R l r"
  have "?P l q emit call sp r"
  proof (rule next_loop.raw_induct [of ?P, OF _ assms(1)], goal_cases)
    case (1 rec l q emit call sp r)
    show ?case
    proof (intro impI)
      assume ok: "place_ok l" and call: "cursor_ok (lSource l) call" and b: "b \<le> lPos l" "b \<le> cPos call"
      have again: "?R l r" if "rec l' q emit call sp' = Some r" "place_ok l'" "same_setup l l'" "b \<le> lPos l'" for l' sp'
        using 1(1) [OF that(1)] that(2-4) call b(2) same_setup_fields(2) [OF that(3)]
        by (auto intro: same_setup_trans)
      have skip: "?R l r" if "rec (skipOneRune l') q emit call sp' = Some r" "place_ok l'" "same_setup l l'" "b \<le> lPos l'" for l' sp'
        using that(1)
        by (rule again) (use skipOneRune_place [OF that(2)] that(3,4) in \<open>auto intro: same_setup_trans\<close>)
      show "?R l r"
      proof (cases "atLogicalEOF l")
        case True
        then show ?thesis using 1(2) ok b eof_token_sound [OF ok True] by auto
      next
        case False
        obtain l1 tok found where sc: "scan l q (lPos l) (lPoint l) = Some (l1, tok, found)"
          using 1(2) False by (auto split: option.splits)
        note sp = scan_place [OF ok sc]
        show ?thesis
        proof (cases found)
          case True
          then obtain m where m: "lPos l \<le> m" "m \<le> lPos l1" "place_ok l1" "same_setup l l1"
            "tStartByte tok = u32_of m" "tEndByte tok = u32_of (lPos l1)"
            "tStartPoint tok = point_at (lSource l) m" "tEndPoint tok = lPoint l1"
            "Text tok = (if Symbol tok = 0 then [] else go_slice (lSource l) m (lPos l1))"
            using sp by auto
          have src: "lSource l1 = lSource l" using same_setup_fields(2) [OF m(4)] .
          show ?thesis
          proof (cases "Symbol tok = 0")
            case sym: True
            then have "rec (skipOneRune l1) q emit call False = Some r \<or> rec l1 q emit call True = Some r"
              using 1(2) False sc True by (auto split: if_splits)
            then show ?thesis using skip again m b by fastforce
          next
            case sym: False
            then have "r = (l1, if sp then tok\<lparr>lexerSkippedPrefix := True, lexerSkippedPrefixStart := u32_of (cPos call)\<rparr> else tok)"
              using 1(2) False sc True by auto
            then show ?thesis
              using m b sym src by (auto simp: token_sound_def intro!: exI [of _ m])
          qed
        next
          case fail: False
          then obtain c where l1: "l1 = l\<lparr>failTokenStart := c\<rparr>" "place_ok l1" using sp by auto
          have s1: "same_setup l l1" "lPos l1 = lPos l" "lPoint l1 = lPoint l" "lSource l1 = lSource l" by (simp_all add: l1)
          let ?l2 = "next_start (set_cursor l1 call)"
          have l2: "place_ok ?l2" "b \<le> lPos ?l2" "same_setup l ?l2" "lSource ?l2 = lSource l"
            using next_start_place [OF place_ok_set_cursor [OF l1(2)], of call] call b(2) s1
              same_setup_fields(2) [of "set_cursor l1 call" ?l2]
            by (auto simp: set_cursor_simps
                intro: same_setup_trans [OF same_setup_trans [OF s1(1) same_setup_update(4)]])
          have retry: "?R l r" if "rec ?l2 q' True (lexer_cursor ?l2) False = Some r" for q'
            using 1(1) [OF that] l2 by (auto simp: place_ok_def lexer_cursor_def intro: same_setup_trans)
          have can: "\<exists>d. l3 = l1\<lparr>failTokenStart := d\<rparr> \<and> place_ok l3"
            if "canLexAt l1 q' (lPos l) (lPoint l) = Some (l3, can)" for q' l3 can
            by (rule can_lex_place [OF l1(2)]) (use that s1 in simp)
          have run: "?R l r" if "canLexAt l1 q' (lPos l) (lPoint l) = Some (l3, can)" "errorRunToken l3 = Some r" for q' l3 can
          proof -
            from can [OF that(1)] obtain d where l3: "l3 = l1\<lparr>failTokenStart := d\<rparr>" "place_ok l3" by blast
            have "lPos l3 = lPos l" using l3(1) s1 by simp
            moreover have "same_setup l l3" unfolding l3(1) by (rule same_setup_trans [OF s1(1)]) simp
            ultimately show ?thesis
              using error_run_token_place [OF l3(2), of "fst r" "snd r" b] that(2) b(1)
                same_setup_trans [of l l3 "fst r"] by simp
          qed
          have go: "?R l r" if "canLexAt l1 q' (lPos l) (lPoint l) = Some (l3, can)" "rec (skipOneRune l3) q emit call False = Some r" for q' l3 can
          proof -
            from can [OF that(1)] obtain d where l3: "l3 = l1\<lparr>failTokenStart := d\<rparr>" "place_ok l3" by blast
            have "same_setup l l3" unfolding l3(1) by (rule same_setup_trans [OF s1(1)]) simp
            then show ?thesis using l3(1) s1 b(1) by (intro skip [OF that(2) l3(2)]) simp_all
          qed
          have go1: "?R l r" if "rec (skipOneRune l1) q emit call False = Some r"
            using that l1(2) s1(1) by (rule skip) (use s1 b(1) in simp)
          have "rec ?l2 (errorRunLexState l1) True (lexer_cursor ?l2) False = Some r \<or>
              (\<exists>l3 can. canLexAt l1 (errorRunLexState l1) (lPos l) (lPoint l) = Some (l3, can) \<and>
                 (errorRunToken l3 = Some r \<or> rec (skipOneRune l3) q emit call False = Some r)) \<or>
              rec (skipOneRune l1) q emit call False = Some r"
            using 1(2) False sc fail by (simp add: Let_def split: if_splits option.splits prod.splits)
          then show ?thesis using retry run go go1 by metis
        qed
      qed
    qed
  qed
  then show ?thesis using assms(2-5) by simp
qed

subsection \<open>Error runs\<close>

text \<open>Whether the error lex state matches at byte \<open>k\<close>, and the start of the next rune.\<close>

definition lexable :: "lexer \<Rightarrow> nat \<Rightarrow> bool" where
  "lexable l k = snd (snd (scanContiguous l (errorRunLexState l) k (point_at (lSource l) k)))"

definition rune_next :: "bytes \<Rightarrow> nat \<Rightarrow> nat" where
  "rune_next src k = (if k < length src then k + snd (decode_rune (drop k src)) else k)"

lemma scan_loop_setup: "same_setup l l' \<Longrightarrow> scan_loop l' p s = scan_loop l p s"
proof (induction l p s rule: scan_loop.induct)
  case (1 l p s)
  have step: "scan_step l' p s = scan_step l p s"
    unfolding scan_step_def scan_accept_def can_accept_def allowsZeroWidthToken_def eof_hop_def
      same_setup_fields [OF 1(2)] ..
  obtain s' continue where s': "scan_step l p s = (s', continue)" by fastforce
  show ?case
    using 1(1) [OF s' [symmetric] _ 1(2)] step s' by (subst (1 2) scan_loop.simps) simp
qed

lemma lexable_setup: "same_setup l l' \<Longrightarrow> lexable l' k = lexable l k"
  by (simp add: lexable_def scanContiguous_def same_setup_fields scan_loop_setup Let_def split: option.splits)

lemma skipOneRune_next: "includedRanges l = [] \<Longrightarrow> lPos (skipOneRune l) = rune_next (lSource l) (lPos l)"
  by (simp add: skipOneRune_def rune_next_def split: prod.splits)

lemma can_lex_lexable:
  assumes "place_ok l" "canLexAt l (errorRunLexState l) (lPos l) (lPoint l) = Some (l', can)"
  shows "can = lexable l (lPos l)"
  using assms place_point [OF assms(1)]
  by (auto simp: canLexAt_def scan_def lexable_def place_ok_def split: prod.splits)

lemma error_run_loop_maximal:
  assumes "error_run_loop l = Some l'" "place_ok l"
  shows "\<exists>m. lPos l' = (rune_next (lSource l) ^^ m) (lPos l) \<and>
    (\<forall>i < m. \<not> lexable l ((rune_next (lSource l) ^^ i) (lPos l))) \<and>
    (lPos l' = length (lSource l) \<or> lexable l (lPos l'))"
proof -
  let ?P = "\<lambda>l l'. place_ok l \<longrightarrow> (\<exists>m. lPos l' = (rune_next (lSource l) ^^ m) (lPos l) \<and>
    (\<forall>i < m. \<not> lexable l ((rune_next (lSource l) ^^ i) (lPos l))) \<and>
    (lPos l' = length (lSource l) \<or> lexable l (lPos l')))"
  have "?P l l'"
  proof (rule error_run_loop.raw_induct [of ?P, OF _ assms(1)], goal_cases)
    case (1 rec l l')
    show ?case
    proof
      assume ok: "place_ok l"
      let ?N = "rune_next (lSource l)"
      show "\<exists>m. lPos l' = (?N ^^ m) (lPos l) \<and> (\<forall>i < m. \<not> lexable l ((?N ^^ i) (lPos l))) \<and>
        (lPos l' = length (lSource l) \<or> lexable l (lPos l'))"
      proof (cases "atLogicalEOF l")
        case True
        then have "l' = l" "lPos l = length (lSource l)"
          using 1(2) ok place_point [OF ok] by (auto simp: atLogicalEOF_def place_ok_def)
        then show ?thesis by (intro exI [of _ 0]) simp
      next
        case False
        then obtain l1 can where can: "canLexAt l (errorRunLexState l) (lPos l) (lPoint l) = Some (l1, can)"
          using 1(2) by (auto split: option.splits)
        obtain c where l1: "l1 = l\<lparr>failTokenStart := c\<rparr>" "place_ok l1" using can_lex_place [OF ok can] by blast
        have lx: "can = lexable l (lPos l)" by (rule can_lex_lexable [OF ok can])
        show ?thesis
        proof (cases can)
          case True
          then have "l' = l1" using 1(2) False can by simp
          then show ?thesis using True lx l1(1) by (intro exI [of _ 0]) simp
        next
          case no: False
          then have rc: "rec (skipOneRune l1) = Some l'" using 1(2) False can by simp
          note sk = skipOneRune_place [OF l1(2)]
          have su: "same_setup l (skipOneRune l1)" by (rule same_setup_trans [OF _ sk(3)]) (simp add: l1(1))
          have pos: "lPos (skipOneRune l1) = ?N (lPos l)"
            using skipOneRune_next [of l1] l1 by (simp add: place_ok_def)
          obtain m where m: "lPos l' = (?N ^^ m) (?N (lPos l))"
            "\<forall>i < m. \<not> lexable l ((?N ^^ i) (?N (lPos l)))" "lPos l' = length (lSource l) \<or> lexable l (lPos l')"
            using 1(1) [OF rc] sk(1) same_setup_fields(2) [OF su] pos lexable_setup [OF su] by auto
          have "\<forall>i < Suc m. \<not> lexable l ((?N ^^ i) (lPos l))"
            using m(2) no lx by (auto simp: less_Suc_eq_0_disj funpow_swap1)
          then show ?thesis using m(1,3) by (intro exI [of _ "Suc m"]) (simp add: funpow_swap1)
        qed
      qed
    qed
  qed
  then show ?thesis using assms(2) by simp
qed

subsection \<open>Properties\<close>

text \<open>
  \<^bold>\<open>C11.\<close> When the lexer answers. \<open>Next\<close> and \<open>NextWithErrorRuns\<close> return from every lexer
  over contiguous source, in every start state, at every position and for every DFA; and from
  every lexer with included ranges as the parser installs them, except when the source begins
  with a byte order mark and a range from byte 0 ends no later than the mark (or the source is
  the mark alone). Under these conditions the error-mode retry, zero-width matches of whitespace and
  unlexable bytes never make them loop; \<open>bom_next_diverges\<close> below shows that they can hang
  in the excluded case.
\<close>

theorem lexer_next_total:
  assumes "includedRanges l = [] \<or> includedRanges l = normalizeIncludedRanges rs \<and> bom_clear l"
  shows "\<exists>l' tok. lexer_next l q emitErrorRuns = Some (l', tok)"
proof (cases "includedRanges l = []")
  case True
  then show ?thesis by (intro contiguous_lexer.lexer_next_returns) (simp add: contiguous_def)
next
  case False
  then have sep: "separated (includedRanges l)" "bom_clear l"
    using assms normalizeIncludedRanges_separated by auto
  show ?thesis
    using included_lexer.next_loop_returns [OF next_start_in_ranges(1) [OF sep(1) False sep(2)]]
    by (simp add: lexer_next_def Let_def)
qed

theorem lexer_next_total_witness:
  "\<exists>l' tok. lexer_next sample_included 0 True = Some (l', tok)"
  by (rule lexer_next_total [of _ sample_ranges]) (simp add: sample_included_fields utf8BOM_def bom_clear_def)

text \<open>
  \<^bold>\<open>C12.\<close> Over contiguous source (a lexer without included ranges, standing at a byte of the
  source with the row and column of that byte) the tokens of \<open>Next\<close> and \<open>NextWithErrorRuns\<close>
  describe the source: a token starts at or after the lexer's position, ends where the lexer then
  stands, has the text between its bytes (error runs included) and the row/column of its
  bytes; a token with symbol 0 is returned only at the end of the source. The lexer keeps
  agreeing with the source, so this holds again for the next call. Included ranges are the
  subject of C5: there the text of a token leaves out the gaps.
\<close>

theorem next_token_sound:
  assumes "lexer_next l q emitErrorRuns = Some (l', tok)" and "place_ok l" and "length (lSource l) < 2 ^ 32"
  shows "place_ok l' \<and> same_setup l l' \<and>
    lPos l \<le> unat (tStartByte tok) \<and> tStartByte tok \<le> tEndByte tok \<and> unat (tEndByte tok) = lPos l' \<and>
    tStartPoint tok = point_at (lSource l) (unat (tStartByte tok)) \<and> tEndPoint tok = lPoint l' \<and>
    Text tok = (if Symbol tok = 0 then []
      else go_slice (lSource l) (unat (tStartByte tok)) (unat (tEndByte tok))) \<and>
    (Symbol tok = 0 \<longrightarrow> lPos l' = length (lSource l))"
proof -
  note start = next_start_place [OF assms(2)]
  let ?l = "next_start l"
  have "next_loop ?l q emitErrorRuns (lexer_cursor ?l) False = Some (l', tok)"
    using assms(1) by (simp add: lexer_next_def Let_def)
  from next_loop_place [OF this, of "lPos l"] start
  have r: "place_ok l'" "same_setup ?l l'" "token_sound (lPos l) l' tok"
    by (auto simp: place_ok_def lexer_cursor_def)
  have su: "same_setup l l'" using start r(2) by (auto intro: same_setup_trans)
  then have src: "lSource l' = lSource l" by (rule same_setup_fields)
  obtain m where m: "lPos l \<le> m" "m \<le> lPos l'" "tStartByte tok = u32_of m" "tEndByte tok = u32_of (lPos l')"
    "tStartPoint tok = point_at (lSource l) m" "tEndPoint tok = lPoint l'"
    "Text tok = (if Symbol tok = 0 then [] else go_slice (lSource l) m (lPos l'))"
    "Symbol tok = 0 \<longrightarrow> lPos l' = length (lSource l)"
    using r(3) src by (auto simp: token_sound_def)
  have "lPos l' < 2 ^ 32" using place_point [OF r(1)] src assms(3) by simp
  then have "unat (u32_of m) = m" "unat (u32_of (lPos l')) = lPos l'" "u32_of m \<le> u32_of (lPos l')"
    using m(2) by (simp_all add: unat_u32_of u32_of_le_iff)
  then show ?thesis using m r(1) su by simp
qed

lemma sample_next:
  "map_option snd (Next sample_lexer 0) = Some (
     zero_token\<lparr>Symbol := 7, Text := [105, 102], tStartByte := 1, tEndByte := 3,
       tStartPoint := \<lparr>Row = 0, Column = 1\<rparr>, tEndPoint := \<lparr>Row = 0, Column = 3\<rparr>,
       lexerSkippedPrefix := True, lexerInternalDFALexed := True\<rparr>)"
  by code_simp

lemma sample_lexer_place: "place_ok sample_lexer" "lSource sample_lexer = [32, 105, 102]"
  by (simp_all add: place_ok_def sample_lexer_def NewLexer_def cursor_ok_def lexer_cursor_def zero_cursor_def)

theorem next_token_sound_witness:
  "\<exists>l' tok. lexer_next sample_lexer 0 False = Some (l', tok) \<and> Text tok = go_slice [32, 105, 102] 1 3 \<and> lPos l' = 3"
proof -
  obtain l' tok where n: "lexer_next sample_lexer 0 False = Some (l', tok)"
    and tok: "Symbol tok = 7" "tStartByte tok = 1" "tEndByte tok = 3"
    using sample_next by (auto simp: Next_def zero_token_def)
  then show ?thesis
    using next_token_sound [OF n sample_lexer_place(1)] by (auto simp: sample_lexer_place)
qed

text \<open>
  \<^bold>\<open>C25.\<close> Over contiguous source an error run ends as early as it may and no earlier. The token
  of \<open>errorRunToken\<close> with the error symbol starts at the later of the failed token attempt and
  the lexer's position and covers at least one rune. The first rune is taken without a test, as
  in the code; from the second rune on, the error lex state matches at no rune of the run, and
  the run ends at the first such place where it does match or at the end of the source.
\<close>

theorem error_run_maximal:
  assumes "errorRunToken l = Some (l', tok)" and "place_ok l" and "Symbol tok \<noteq> 0"
    and "length (lSource l) < 2 ^ 32"
  shows "Symbol tok = errorSymbol \<and>
    unat (tStartByte tok) = max (lPos l) (cPos (failTokenStart l)) \<and> unat (tEndByte tok) = lPos l' \<and>
    (\<exists>m \<ge> 1. lPos l' = (rune_next (lSource l) ^^ m) (unat (tStartByte tok)) \<and>
      (\<forall>i. 1 \<le> i \<and> i < m \<longrightarrow> \<not> lexable l ((rune_next (lSource l) ^^ i) (unat (tStartByte tok)))) \<and>
      (lPos l' = length (lSource l) \<or> lexable l (lPos l')))"
proof -
  let ?l1 = "error_run_start l" and ?N = "rune_next (lSource l)"
  have l1: "place_ok ?l1" "same_setup l ?l1" using error_run_start_place [OF assms(2)] by auto
  have start: "lPos ?l1 = max (lPos l) (cPos (failTokenStart l))"
    using assms(2) by (auto simp: error_run_start_def normalizeIncludedPosition_def set_cursor_def place_ok_def cursor_ok_def)
  have ne: "\<not> atLogicalEOF ?l1"
    using assms(1,3) by (auto simp: errorRunToken_def Let_def eof_token_def zero_token_def)
  then have run: "error_run_loop (skipOneRune ?l1) = Some l'" and
    tok: "Symbol tok = errorSymbol" "tStartByte tok = u32_of (lPos ?l1)" "tEndByte tok = u32_of (lPos l')"
    using assms(1) by (auto simp: errorRunToken_def Let_def split: option.splits)
  note sk = skipOneRune_place [OF l1(1)]
  have su: "same_setup l (skipOneRune ?l1)" using same_setup_trans [OF l1(2) sk(3)] .
  have src: "lSource (skipOneRune ?l1) = lSource l" "lSource ?l1 = lSource l"
    using same_setup_fields(2) su l1(2) by auto
  have pos: "lPos (skipOneRune ?l1) = ?N (lPos ?l1)"
    using skipOneRune_next [of ?l1] l1 src by (simp add: place_ok_def)
  obtain m where m: "lPos l' = (?N ^^ m) (?N (lPos ?l1))" "\<forall>i < m. \<not> lexable l ((?N ^^ i) (?N (lPos ?l1)))"
    "lPos l' = length (lSource l) \<or> lexable l (lPos l')"
    using error_run_loop_maximal [OF run sk(1)] src pos lexable_setup [OF su] by auto
  have "place_ok l'" "same_setup (skipOneRune ?l1) l'" using error_run_loop_place [OF run sk(1)] by auto
  then have "lPos l' \<le> length (lSource l)" using place_point same_setup_fields(2) src by metis
  moreover have "lPos ?l1 \<le> length (lSource l)" using place_point [OF l1(1)] src by simp
  ultimately have un: "unat (tStartByte tok) = lPos ?l1" "unat (tEndByte tok) = lPos l'"
    using assms(4) tok by (simp_all add: unat_u32_of)
  have "\<forall>i. 1 \<le> i \<and> i < Suc m \<longrightarrow> \<not> lexable l ((?N ^^ i) (lPos ?l1))"
  proof (intro allI impI)
    fix i assume i: "1 \<le> i \<and> i < Suc m"
    then obtain j where "i = Suc j" "j < m" by (cases i) auto
    then show "\<not> lexable l ((?N ^^ i) (lPos ?l1))" using m(2) by (simp add: funpow_swap1)
  qed
  then show ?thesis
    using tok(1) un start m(1,3) by (auto simp: funpow_swap1 intro!: exI [of _ "Suc m"])
qed

definition error_lexer :: lexer where
  "error_lexer = (NewLexer sample_dfa [35, 35, 105, 102])\<lparr>hasErrorRunLexState := True\<rparr>"

lemma error_lexer_place: "place_ok error_lexer" "lSource error_lexer = [35, 35, 105, 102]"
  "lPos error_lexer = 0" "failTokenStart error_lexer = zero_cursor"
  by (simp_all add: place_ok_def error_lexer_def NewLexer_def cursor_ok_def lexer_cursor_def zero_cursor_def)

lemma error_lexer_run:
  "map_option (\<lambda>(l, tok). (lPos l, Symbol tok, Text tok, tStartByte tok)) (errorRunToken error_lexer) =
     Some (2, 65535, [35, 35], 0)"
  by code_simp

theorem error_run_maximal_witness: "lexable error_lexer 2"
proof -
  obtain l' tok where run: "errorRunToken error_lexer = Some (l', tok)" and
    tok: "Symbol tok = 65535" "lPos l' = 2"
    using error_lexer_run by auto
  then show ?thesis
    using error_run_maximal [OF run error_lexer_place(1)] by (auto simp: error_lexer_place)
qed

text \<open>
  The exception of C11 is real. \<open>next\<close> skips a byte order mark after it has moved the cursor into the
  ranges and does not move it again: when the mark reaches past the last range, the lexer is
  behind its last selected byte but not at its logical end of input, and a DFA without
  end-of-input transitions fails there for ever, as \<open>skipOneRune\<close> no longer moves.
\<close>

definition bom_lexer :: lexer where
  "bom_lexer = (NewLexer sample_dfa utf8BOM)\<lparr>includedRanges :=
     [\<lparr>rStartByte = 0, rEndByte = 3, rStartPoint = zero_point, rEndPoint = \<lparr>Row = 0, Column = 3\<rparr>\<rparr>]\<rparr>"

definition bom_stuck :: "lex_cursor \<Rightarrow> lexer" where
  "bom_stuck c = bom_lexer\<lparr>lPos := 3, lPoint := \<lparr>Row = 0, Column = 3\<rparr>, failTokenStart := c\<rparr>"

lemma bom_stuck_step:
  "\<not> atLogicalEOF (bom_stuck c)"
  "lPos (bom_stuck c) = 3" "lPoint (bom_stuck c) = \<lparr>Row = 0, Column = 3\<rparr>"
  "scan (bom_stuck c) 0 3 \<lparr>Row = 0, Column = 3\<rparr> =
     Some (bom_stuck \<lparr>cPos = 3, cPoint = \<lparr>Row = 0, Column = 3\<rparr>, cRangeIdx = 1\<rparr>, zero_token, False)"
  "skipOneRune (bom_stuck c) = bom_stuck c"
  "next_start bom_lexer = bom_stuck zero_cursor"
  by code_simp+

lemma bom_next_diverges: "Next bom_lexer 0 = None"
proof (rule ccontr)
  let ?P = "\<lambda>l (q :: u32) emit (call :: lex_cursor) (sp :: bool) (r :: lexer \<times> token). \<not> (\<exists>c. l = bom_stuck c \<and> q = 0 \<and> \<not> emit)"
  assume "Next bom_lexer 0 \<noteq> None"
  then obtain r where
    r: "next_loop (bom_stuck zero_cursor) 0 False (lexer_cursor (bom_stuck zero_cursor)) False = Some r"
    by (auto simp: Next_def lexer_next_def bom_stuck_step(6) Let_def)
  have "?P (bom_stuck zero_cursor) 0 False (lexer_cursor (bom_stuck zero_cursor)) False r"
  proof (rule next_loop.raw_induct [of ?P, OF _ r], goal_cases)
    case (1 rec l q emit call sp r)
    show ?case
    proof
      assume "\<exists>c. l = bom_stuck c \<and> q = 0 \<and> \<not> emit"
      then obtain c where "l = bom_stuck c" "q = 0" "\<not> emit" by blast
      then have "\<exists>d. rec (bom_stuck d) 0 False call False = Some r" using 1(2) by (auto simp: bom_stuck_step)
      then show False using 1(1) by blast
    qed
  qed
  then show False by blast
qed

end
