(* ===== verification/Utf16.thy ===== *)
theory Utf16
  imports Included_Ranges "HOL-Library.Monad_Syntax"
begin

text \<open>
  UTF-16 sources (\<open>utf16.go\<close> and \<open>InputEditForUTF16\<close> of \<open>tree.go\<close>): decoding of code
  units, the UTF-8 text handed to the parser together with the map between code units and
  bytes, row/column positions by binary search over the line starts, included ranges and
  edits given in code units. The lemmas show that the map is a bijection between the
  character boundaries of both encodings, that the searches find the positions a scan from
  the start finds, and that a converted edit describes the change of the UTF-8 text.
\<close>

unbundle bit_operations_syntax

datatype utf16_byte_order = UTF16LittleEndian | UTF16BigEndian | UTF16OtherOrder

datatype utf16_error = ErrInvalidUTF16ByteLength | ErrInvalidUTF16ByteOrder | ErrInvalidUTF16Range

text \<open>\<open>binary.LittleEndian.Uint16\<close> and \<open>binary.BigEndian.Uint16\<close>.\<close>

definition uint16_le :: "u8 \<Rightarrow> u8 \<Rightarrow> u16" where
  "uint16_le b0 b1 = word_of_int (uint b0 + 256 * uint b1)"

fun decode_units :: "(u8 \<Rightarrow> u8 \<Rightarrow> u16) \<Rightarrow> bytes \<Rightarrow> u16 list" where
  "decode_units f (b0 # b1 # rest) = f b0 b1 # decode_units f rest"
| "decode_units f _ = []"

definition DecodeUTF16Bytes :: "bytes \<Rightarrow> utf16_byte_order \<Rightarrow> utf16_error + u16 list" where
  "DecodeUTF16Bytes source order =
     (if length source mod 2 \<noteq> 0 then Inl ErrInvalidUTF16ByteLength
      else
        (case order of
           UTF16LittleEndian \<Rightarrow> Inr (decode_units uint16_le source)
         | UTF16BigEndian \<Rightarrow> Inr (decode_units (\<lambda>b0 b1. uint16_le b1 b0) source)
         | UTF16OtherOrder \<Rightarrow> Inl ErrInvalidUTF16ByteOrder))"

record utf16_range =
  StartCodeUnit :: u32
  EndCodeUnit :: u32
  uStartPoint :: point
  uEndPoint :: point

record utf16_edit =
  editStartCodeUnit :: u32
  editOldEndCodeUnit :: u32
  editNewEndCodeUnit :: u32

record utf16_map =
  uSource :: "u16 list"
  uUtf8 :: bytes
  byteToUnit :: "u32 list"
  byteBoundary :: "bool list"
  unitToByte :: "u32 list"
  unitBoundary :: "bool list"
  lineStartUnits :: "u32 list"
  lineStartBytes :: "u32 list"

definition decodeUTF16Rune :: "u16 list \<Rightarrow> nat \<Rightarrow> rune \<times> nat" where
  "decodeUTF16Rune source pos =
     (let r = uint (source ! pos) in
      if is_surrogate r
      then (if pos + 1 < length source \<and> utf16_decode_rune r (uint (source ! (pos + 1))) \<noteq> RuneError
            then (utf16_decode_rune r (uint (source ! (pos + 1))), 2)
            else (RuneError, 1))
      else (r, 1))"

text \<open>One round of the encoding loop: the rune at \<open>unitStart\<close> is written.\<close>

definition put_rune :: "utf16_map \<Rightarrow> nat \<Rightarrow> rune \<Rightarrow> nat \<Rightarrow> utf16_map" where
  "put_rune m unitStart r unitSize =
     (let encoded = encode_rune r; byteSize = length encoded; byteStart = length (uUtf8 m);
          unitEnd = unitStart + unitSize; byteEnd = byteStart + byteSize
      in m\<lparr>uUtf8 := uUtf8 m @ encoded,
           unitToByte := (fold (\<lambda>u xs. xs[u := u32_of byteStart]) [unitStart..<unitEnd] (unitToByte m))
             [unitEnd := u32_of byteEnd],
           unitBoundary := (unitBoundary m)[unitStart := True, unitEnd := True],
           byteToUnit := byteToUnit m @
             map (\<lambda>i. u32_of (if i = byteSize then unitEnd else unitStart)) [1..<Suc byteSize],
           byteBoundary := byteBoundary m @ map (\<lambda>i. i = byteSize) [1..<Suc byteSize],
           lineStartUnits := lineStartUnits m @ (if r = 10 then [u32_of unitEnd] else []),
           lineStartBytes := lineStartBytes m @ (if r = 10 then [u32_of byteEnd] else [])\<rparr>)"

lemma decodeUTF16Rune_size: "snd (decodeUTF16Rune source pos) = 1 \<or>
    snd (decodeUTF16Rune source pos) = 2 \<and> pos + 1 < length source"
  by (simp add: decodeUTF16Rune_def Let_def)

function encode_loop :: "u16 list \<Rightarrow> nat \<Rightarrow> utf16_map \<Rightarrow> utf16_map" where
  "encode_loop source unitPos m =
     (if unitPos < length source
      then (case decodeUTF16Rune source unitPos of (r, unitSize) \<Rightarrow>
              encode_loop source (unitPos + unitSize) (put_rune m unitPos r unitSize))
      else m)"
  by pat_completeness auto

lemma decodeUTF16Rune_pos: "(r, unitSize) = decodeUTF16Rune source pos \<Longrightarrow> 0 < unitSize"
  using decodeUTF16Rune_size [of source pos] by (metis snd_conv zero_less_numeral zero_less_one)

termination encode_loop
  by (relation "measure (\<lambda>(source, unitPos, m). length source - unitPos)") (auto dest!: decodeUTF16Rune_pos)

declare encode_loop.simps [simp del]

definition empty_map :: "u16 list \<Rightarrow> utf16_map" where
  "empty_map source =
     \<lparr>uSource = source, uUtf8 = [], byteToUnit = [0], byteBoundary = [True],
      unitToByte = replicate (length source + 1) 0,
      unitBoundary = (replicate (length source + 1) False)[0 := True],
      lineStartUnits = [0], lineStartBytes = [0]\<rparr>"

definition encodeUTF16ToUTF8WithMap :: "u16 list \<Rightarrow> utf16_map" where
  "encodeUTF16ToUTF8WithMap source = encode_loop source 0 (empty_map source)"

definition byteToUTF16Unit :: "utf16_map \<Rightarrow> u32 \<Rightarrow> u32 option" where
  "byteToUTF16Unit m offset =
     (if offset > u32_of (length (byteToUnit m) - 1) then None
      else if unat offset \<ge> length (byteBoundary m) \<or> \<not> byteBoundary m ! unat offset then None
      else Some (byteToUnit m ! unat offset))"

definition utf16UnitToByte :: "utf16_map \<Rightarrow> u32 \<Rightarrow> u32 option" where
  "utf16UnitToByte m offset =
     (if offset > u32_of (length (unitToByte m) - 1) then None
      else if unat offset \<ge> length (unitBoundary m) \<or> \<not> unitBoundary m ! unat offset then None
      else Some (unitToByte m ! unat offset))"

text \<open>The row of an offset among the line starts, and its column.\<close>

definition after_start :: "u32 list \<times> u32 \<Rightarrow> nat \<Rightarrow> bool" where
  "after_start c i \<longleftrightarrow> fst c ! i > snd c"

definition line_point :: "u32 list \<Rightarrow> u32 \<Rightarrow> point" where
  "line_point starts offset =
     (let row = nat (int (go_search (length starts) (after_start (starts, offset))) - 1)
      in \<lparr>Row = u32_of row, Column = offset - starts ! row\<rparr>)"

definition pointForUnit :: "utf16_map \<Rightarrow> u32 \<Rightarrow> point option" where
  "pointForUnit m offset =
     (if offset > u32_of (length (uSource m)) then None else Some (line_point (lineStartUnits m) offset))"

definition pointForUTF8Byte :: "utf16_map \<Rightarrow> u32 \<Rightarrow> point option" where
  "pointForUTF8Byte m offset =
     (if offset > u32_of (length (uUtf8 m)) then None else Some (line_point (lineStartBytes m) offset))"

definition pointForByte :: "utf16_map \<Rightarrow> u32 \<Rightarrow> point option" where
  "pointForByte m offset =
     (case byteToUTF16Unit m offset of None \<Rightarrow> None | Some unit \<Rightarrow> pointForUnit m unit)"

definition rangeForByteRange :: "utf16_map \<Rightarrow> u32 \<Rightarrow> u32 \<Rightarrow> utf16_range option" where
  "rangeForByteRange m startB endB =
     (if endB < startB then None
      else do {
        startUnit \<leftarrow> byteToUTF16Unit m startB;
        endUnit \<leftarrow> byteToUTF16Unit m endB;
        startPoint \<leftarrow> pointForUnit m startUnit;
        endPoint \<leftarrow> pointForUnit m endUnit;
        Some \<lparr>StartCodeUnit = startUnit, EndCodeUnit = endUnit, uStartPoint = startPoint, uEndPoint = endPoint\<rparr>
      })"

definition byte_range :: "utf16_map \<Rightarrow> utf16_range \<Rightarrow> range option" where
  "byte_range m r =
     (if EndCodeUnit r < StartCodeUnit r then None
      else do {
        startB \<leftarrow> utf16UnitToByte m (StartCodeUnit r);
        endB \<leftarrow> utf16UnitToByte m (EndCodeUnit r);
        startPoint \<leftarrow> pointForUTF8Byte m startB;
        endPoint \<leftarrow> pointForUTF8Byte m endB;
        Some \<lparr>rStartByte = startB, rEndByte = endB, rStartPoint = startPoint, rEndPoint = endPoint\<rparr>
      })"

fun byte_ranges :: "utf16_map \<Rightarrow> utf16_range list \<Rightarrow> range list option" where
  "byte_ranges m [] = Some []"
| "byte_ranges m (r # rs) = do { x \<leftarrow> byte_range m r; xs \<leftarrow> byte_ranges m rs; Some (x # xs) }"

definition includedRangesForUTF16 :: "utf16_map \<Rightarrow> utf16_range list \<Rightarrow> range list option" where
  "includedRangesForUTF16 m ranges =
     (if ranges = [] then Some []
      else (case byte_ranges m ranges of None \<Rightarrow> None | Some out \<Rightarrow> Some (normalizeIncludedRanges out)))"

definition IncludedRangesForUTF16 :: "u16 list \<Rightarrow> utf16_range list \<Rightarrow> range list option" where
  "IncludedRangesForUTF16 source ranges = includedRangesForUTF16 (encodeUTF16ToUTF8WithMap source) ranges"

definition IncludedRangesForUTF16Bytes ::
  "bytes \<Rightarrow> utf16_byte_order \<Rightarrow> utf16_range list \<Rightarrow> utf16_error + range list" where
  "IncludedRangesForUTF16Bytes source order ranges =
     (case DecodeUTF16Bytes source order of
        Inl e \<Rightarrow> Inl e
      | Inr units \<Rightarrow>
          (case IncludedRangesForUTF16 units ranges of
             None \<Rightarrow> Inl ErrInvalidUTF16Range
           | Some out \<Rightarrow> Inr out))"

definition isUTF16LeadSurrogate :: "u16 \<Rightarrow> bool" where
  "isUTF16LeadSurrogate u \<longleftrightarrow> 0xD800 \<le> u \<and> u \<le> 0xDBFF"

definition isUTF16TrailSurrogate :: "u16 \<Rightarrow> bool" where
  "isUTF16TrailSurrogate u \<longleftrightarrow> 0xDC00 \<le> u \<and> u \<le> 0xDFFF"

definition utf16Boundary :: "u16 list \<Rightarrow> u32 \<Rightarrow> bool" where
  "utf16Boundary source offset =
     (if offset > u32_of (length source) then False
      else if offset = 0 \<or> offset = u32_of (length source) then True
      else \<not> isUTF16LeadSurrogate (source ! (unat offset - 1)) \<or>
           \<not> isUTF16TrailSurrogate (source ! unat offset))"

function measure_loop :: "u16 list \<Rightarrow> nat \<Rightarrow> u32 \<times> point \<Rightarrow> u32 \<times> point" where
  "measure_loop source unitPos acc =
     (if unitPos < length source
      then (case decodeUTF16Rune source unitPos of (r, unitSize) \<Rightarrow>
              (let byteSize = word_of_int (rune_len r);
                   (byteLen, p) = acc
               in measure_loop source (unitPos + unitSize)
                    (byteLen + byteSize,
                     if r = 10 then \<lparr>Row = Row p + 1, Column = 0\<rparr>
                     else \<lparr>Row = Row p, Column = Column p + byteSize\<rparr>)))
      else acc)"
  by pat_completeness auto

termination measure_loop
  by (relation "measure (\<lambda>(source, unitPos, acc). length source - unitPos)") (auto dest!: decodeUTF16Rune_pos)

declare measure_loop.simps [simp del]

definition measureUTF16AsUTF8 :: "u16 list \<Rightarrow> u32 \<times> point" where
  "measureUTF16AsUTF8 source = measure_loop source 0 (0, zero_point)"

text \<open>\<open>InputEditForUTF16\<close> of a tree with the map \<open>m\<close>.\<close>

definition InputEditForUTF16 :: "utf16_map \<Rightarrow> utf16_edit \<Rightarrow> u16 list \<Rightarrow> input_edit option" where
  "InputEditForUTF16 m edit newSource =
     (if editOldEndCodeUnit edit < editStartCodeUnit edit \<or> editNewEndCodeUnit edit < editStartCodeUnit edit
      then None
      else if \<not> utf16Boundary newSource (editStartCodeUnit edit) \<or>
              \<not> utf16Boundary newSource (editNewEndCodeUnit edit)
      then None
      else do {
        startB \<leftarrow> utf16UnitToByte m (editStartCodeUnit edit);
        oldEndB \<leftarrow> utf16UnitToByte m (editOldEndCodeUnit edit);
        let (replacementByteLen, replacementPoint) = measureUTF16AsUTF8
              (go_slice newSource (unat (editStartCodeUnit edit)) (unat (editNewEndCodeUnit edit)));
        if replacementByteLen > NOT 0 - startB then None
        else do {
          startPoint \<leftarrow> pointForUTF8Byte m startB;
          oldEndPoint \<leftarrow> pointForUTF8Byte m oldEndB;
          Some \<lparr>eStartByte = startB, eOldEndByte = oldEndB, eNewEndByte = startB + replacementByteLen,
                eStartPoint = startPoint, eOldEndPoint = oldEndPoint,
                eNewEndPoint = addPointDelta startPoint replacementPoint\<rparr>
        }
      })"

subsection \<open>Lemmas: characters\<close>

text \<open>The encoding of a whole list of code units, and where its characters begin.\<close>

function enc :: "u16 list \<Rightarrow> bytes" where
  "enc src =
     (if src = [] then []
      else (case decodeUTF16Rune src 0 of (r, n) \<Rightarrow> encode_rune r @ enc (drop n src)))"
  by pat_completeness auto

termination enc
  by (relation "measure length") (auto dest!: decodeUTF16Rune_pos)

declare enc.simps [simp del]

fun bound :: "u16 list \<Rightarrow> nat \<Rightarrow> nat \<times> nat" where
  "bound src 0 = (0, 0)"
| "bound src (Suc k) =
     (let (u, b) = bound src k; (r, n) = decodeUTF16Rune src u
      in if u < length src then (u + n, b + length (encode_rune r)) else (u, b))"

definition char_boundary :: "u16 list \<Rightarrow> nat \<Rightarrow> nat \<Rightarrow> bool" where
  "char_boundary src u b \<longleftrightarrow> (\<exists>k. bound src k = (u, b))"

definition splits :: "u16 list \<Rightarrow> u16 list \<Rightarrow> bool" where
  "splits xs ys \<longleftrightarrow>
     xs = [] \<or> ys = [] \<or> \<not> isUTF16LeadSurrogate (last xs) \<or> \<not> isUTF16TrailSurrogate (hd ys)"

lemma decode_drop: "pos < length src \<Longrightarrow> decodeUTF16Rune (drop pos src) 0 = decodeUTF16Rune src pos"
  by (simp add: decodeUTF16Rune_def Let_def less_diff_conv add.commute)

lemma surrogate_cases:
  "is_surrogate (uint u) \<longleftrightarrow> isUTF16LeadSurrogate u \<or> isUTF16TrailSurrogate u"
  "utf16_decode_rune (uint u) (uint v) \<noteq> RuneError \<longleftrightarrow> isUTF16LeadSurrogate u \<and> isUTF16TrailSurrogate v"
  by (auto simp: is_surrogate_def isUTF16LeadSurrogate_def isUTF16TrailSurrogate_def utf16_decode_rune_def
      RuneError_def word_le_def)

text \<open>A rune takes two units exactly when they are a surrogate pair.\<close>

lemma decodeUTF16Rune_cases:
  assumes "pos < length src"
  shows "decodeUTF16Rune src pos =
    (if pos + 1 < length src \<and> isUTF16LeadSurrogate (src ! pos) \<and> isUTF16TrailSurrogate (src ! (pos + 1))
     then (utf16_decode_rune (uint (src ! pos)) (uint (src ! (pos + 1))), 2)
     else (if is_surrogate (uint (src ! pos)) then RuneError else uint (src ! pos), 1))"
  using surrogate_cases [of "src ! pos"] by (auto simp: decodeUTF16Rune_def Let_def)

lemma decodeUTF16Rune_width:
  assumes "pos < length src" "decodeUTF16Rune src pos = (r, n)"
  shows "n = 1 \<or> n = 2 \<and> pos + 1 < length src"
  using decodeUTF16Rune_cases [OF assms(1)] assms(2) by (simp split: if_splits)

lemma decodeUTF16Rune_valid:
  assumes "pos < length src"
  shows "valid_rune (fst (decodeUTF16Rune src pos))"
proof -
  have u: "uint (u :: u16) \<le> 0xFFFF" for u using uint_bounded [of u] by auto
  have "uint (src ! pos) \<le> 0x10FFFF" using u [of "src ! pos"] by linarith
  then show ?thesis
    using u [of "src ! pos"] u [of "src ! (pos + 1)"] surrogate_cases [of "src ! pos"]
    by (auto simp: decodeUTF16Rune_cases [OF assms] valid_rune_def RuneError_def is_surrogate_def
        utf16_decode_rune_def isUTF16LeadSurrogate_def isUTF16TrailSurrogate_def word_le_def)
qed

text \<open>Encoding distributes over a cut that does not separate a surrogate pair.\<close>

lemma enc_Nil [simp]: "enc [] = []"
  by (simp add: enc.simps)

lemma enc_append: "splits xs ys \<Longrightarrow> enc (xs @ ys) = enc xs @ enc ys"
proof (induction xs rule: enc.induct)
  case (1 xs)
  show ?case
  proof (cases "xs = []")
    case False
    obtain r n where d: "decodeUTF16Rune xs 0 = (r, n)" by fastforce
    have same: "decodeUTF16Rune (xs @ ys) 0 = (r, n)"
    proof (cases "length xs = 1")
      case True
      then obtain x where x: "xs = [x]" by (cases xs) auto
      have "\<not> (ys \<noteq> [] \<and> isUTF16LeadSurrogate x \<and> isUTF16TrailSurrogate (ys ! 0))"
        using 1(2) by (auto simp: splits_def x hd_conv_nth)
      then show ?thesis
        using d x decodeUTF16Rune_cases [of 0 xs] decodeUTF16Rune_cases [of 0 "xs @ ys"] by auto
    next
      case len: False
      then have gt: "1 < length xs" using False by (cases xs) auto
      have "(xs @ ys) ! 0 = xs ! 0" "(xs @ ys) ! (0 + 1) = xs ! (0 + 1)" using gt by (auto simp: nth_append)
      moreover have "0 < length xs" "0 < length (xs @ ys)" "0 + 1 < length xs" "0 + 1 < length (xs @ ys)"
        using gt by auto
      ultimately have "decodeUTF16Rune (xs @ ys) 0 = decodeUTF16Rune xs 0"
        by (simp only: decodeUTF16Rune_cases)
      then show ?thesis using d by simp
    qed
    have n: "n \<le> length xs" using decodeUTF16Rune_width [OF _ d] False length_greater_0_conv [of xs] by linarith
    have "splits (drop n xs) ys" using 1(2) n by (auto simp: splits_def last_drop)
    then have "enc (drop n xs @ ys) = enc (drop n xs) @ enc ys" using 1(1) [OF False d [symmetric]] by simp
    then show ?thesis
      using False same n d by (subst (1 2) enc.simps) simp
  qed simp
qed

lemma enc_one:
  assumes "u < length src" "decodeUTF16Rune src u = (r, n)"
  shows "enc (take n (drop u src)) = encode_rune r"
proof -
  have len: "n = 1 \<or> n = 2 \<and> u + 1 < length src" using decodeUTF16Rune_width [OF assms] by simp
  let ?xs = "take n (drop u src)"
  have "decodeUTF16Rune ?xs 0 = (r, n)"
    using decodeUTF16Rune_cases [OF assms(1)] decodeUTF16Rune_cases [of 0 ?xs] len assms
    by (auto simp: split: if_splits)
  moreover have "?xs \<noteq> []" "drop n ?xs = []" using len assms(1) by auto
  ultimately show ?thesis by (subst enc.simps) simp
qed

subsection \<open>Lemmas: boundaries\<close>

lemma bound_step:
  assumes "bound src k = (u, b)" "bound src (Suc k) = (u', b')"
  shows "u \<le> u' \<and> b \<le> b' \<and> (u < u' \<longleftrightarrow> b < b') \<and> (u < u' \<longleftrightarrow> u < length src) \<and> (u \<le> length src \<longrightarrow> u' \<le> length src)"
proof (cases "u < length src")
  case True
  obtain r n where d: "decodeUTF16Rune src u = (r, n)" by fastforce
  have "u' = u + n" "b' = b + length (encode_rune r)" using assms True d by (auto simp: Let_def)
  moreover have "0 < length (encode_rune r)"
    using length_encode_rune [OF decodeUTF16Rune_valid [OF True]] decodeUTF16Rune_valid [OF True] d
    by (auto simp: rune_len_def valid_rune_def split: if_splits)
  ultimately show ?thesis using True decodeUTF16Rune_width [OF True d] by auto
next
  case False
  then show ?thesis using assms by (auto simp: Let_def split: prod.splits)
qed

lemma bound_mono:
  assumes "k \<le> l" "bound src k = (u, b)" "bound src l = (u', b')"
  shows "u \<le> u' \<and> b \<le> b' \<and> (u < u' \<longleftrightarrow> b < b')"
  using assms(1,3)
proof (induction l arbitrary: u' b' rule: dec_induct)
  case base
  then show ?case using assms(2) by simp
next
  case (step l)
  obtain v c where v: "bound src l = (v, c)" by fastforce
  show ?case using step.IH [OF v] bound_step [OF v step.prems] by auto
qed

lemma char_boundary_order:
  assumes "char_boundary src u b" "char_boundary src u' b'"
  shows "u < u' \<longleftrightarrow> b < b'" and "u = u' \<longleftrightarrow> b = b'"
proof -
  obtain k l where "bound src k = (u, b)" "bound src l = (u', b')"
    using assms by (auto simp: char_boundary_def)
  then have "(u < u' \<longleftrightarrow> b < b') \<and> (u = u' \<longleftrightarrow> b = b')"
    using bound_mono [of k l src u b u' b'] bound_mono [of l k src u' b' u b]
    by (cases "k \<le> l") (auto simp: order.order_iff_strict)
  then show "u < u' \<longleftrightarrow> b < b'" and "u = u' \<longleftrightarrow> b = b'" by auto
qed

lemma bound_le: "fst (bound src k) \<le> length src"
proof (induction k)
  case (Suc k)
  show ?case using bound_step [OF surjective_pairing surjective_pairing, of src k] Suc by simp
qed simp

lemma char_boundary_le: "char_boundary src u b \<Longrightarrow> u \<le> length src"
  using bound_le by (auto simp: char_boundary_def) (metis fst_conv)

lemma char_boundary_0 [simp]: "char_boundary src 0 0"
  by (auto simp: char_boundary_def intro: exI [of _ 0])

lemma char_boundary_next:
  assumes "char_boundary src u b" "u < length src" "decodeUTF16Rune src u = (r, n)"
  shows "char_boundary src (u + n) (b + length (encode_rune r))"
proof -
  obtain k where "bound src k = (u, b)" using assms(1) by (auto simp: char_boundary_def)
  then have "bound src (Suc k) = (u + n, b + length (encode_rune r))" using assms by simp
  then show ?thesis by (auto simp: char_boundary_def simp del: bound.simps)
qed

text \<open>There is no boundary inside a character.\<close>

lemma char_boundary_gap:
  assumes "char_boundary src u b" "u < length src" "decodeUTF16Rune src u = (r, n)" "char_boundary src v c"
  shows "v \<le> u \<or> u + n \<le> v"
proof -
  obtain k l where k: "bound src k = (u, b)" and l: "bound src l = (v, c)"
    using assms(1,4) by (auto simp: char_boundary_def)
  have Suc: "bound src (Suc k) = (u + n, b + length (encode_rune r))" using k assms by simp
  show ?thesis
    using bound_mono [OF _ l k] bound_mono [OF _ Suc l] by (cases "l \<le> k") auto
qed

lemma char_boundary_splits:
  assumes "char_boundary src u b"
  shows "splits (take u src) (drop u src)" and "length (enc (take u src)) = b"
    and "enc src = enc (take u src) @ enc (drop u src)"
proof -
  obtain k where k: "bound src k = (u, b)" using assms by (auto simp: char_boundary_def)
  have "splits (take u src) (drop u src) \<and> length (enc (take u src)) = b"
    using k
  proof (induction k arbitrary: u b)
    case 0
    then show ?case by (simp add: splits_def)
  next
    case (Suc k)
    obtain v c where v: "bound src k = (v, c)" by fastforce
    note IH = Suc.IH [OF v]
    show ?case
    proof (cases "v < length src")
      case False
      then show ?thesis using Suc.prems v IH by (auto simp: Let_def split: prod.splits)
    next
      case True
      obtain r n where d: "decodeUTF16Rune src v = (r, n)" by fastforce
      have ub: "u = v + n" "b = c + length (encode_rune r)" using Suc.prems v True d by auto
      have len: "n = 1 \<or> n = 2 \<and> v + 1 < length src" using decodeUTF16Rune_width [OF True d] by simp
      have "splits (take v src) (take n (drop v src))"
        using IH len by (auto simp: splits_def hd_take)
      then have "enc (take u src) = enc (take v src) @ encode_rune r"
        using enc_append [of "take v src" "take n (drop v src)"] enc_one [OF True d]
        by (simp add: ub take_add)
      moreover have "splits (take u src) (drop u src)"
      proof (cases "u < length src")
        case lt: True
        have "last (take u src) = src ! (u - 1)" "hd (drop u src) = src ! u"
          using lt len ub by (auto simp: take_Suc_conv_app_nth hd_drop_conv_nth)
        moreover have "\<not> isUTF16LeadSurrogate (src ! (u - 1)) \<or> \<not> isUTF16TrailSurrogate (src ! u)"
          using len ub d decodeUTF16Rune_cases [OF True] lt
          by (auto simp: isUTF16LeadSurrogate_def isUTF16TrailSurrogate_def word_le_nat_alt split: if_splits)
        ultimately show ?thesis by (simp add: splits_def)
      qed (simp add: splits_def)
      ultimately show ?thesis using IH ub by simp
    qed
  qed
  then show "splits (take u src) (drop u src)" and "length (enc (take u src)) = b" by auto
  then show "enc src = enc (take u src) @ enc (drop u src)"
    using enc_append [of "take u src" "drop u src"] by simp
qed

subsection \<open>Lemmas: the encoding loop\<close>

text \<open>The starts of the lines: 0 and every offset behind a line feed.\<close>

definition feeds :: "'a::{numeral} list \<Rightarrow> nat list" where
  "feeds xs = map Suc (filter (\<lambda>i. xs ! i = 10) [0..<length xs])"

definition starts :: "'a::{numeral} list \<Rightarrow> nat list" where
  "starts xs = 0 # feeds xs"

lemma feeds_Nil: "feeds [] = []"
  by (simp add: feeds_def)

lemma feeds_snoc: "feeds (xs @ [x]) = feeds xs @ (if x = 10 then [Suc (length xs)] else [])"
proof -
  have "filter (\<lambda>i. (xs @ [x]) ! i = 10) [0..<length xs] = filter (\<lambda>i. xs ! i = 10) [0..<length xs]"
    by (rule filter_cong) (auto simp: nth_append)
  then show ?thesis by (simp add: feeds_def)
qed

lemma feeds_append: "feeds (xs @ ys) = feeds xs @ map ((+) (length xs)) (feeds ys)"
proof (induction ys rule: rev_induct)
  case Nil
  then show ?case by (simp add: feeds_def)
next
  case (snoc y ys)
  then show ?case using feeds_snoc [of "xs @ ys" y] by (simp add: feeds_snoc)
qed

lemma feeds_le: "i \<in> set (feeds xs) \<Longrightarrow> 0 < i \<and> i \<le> length xs"
  by (auto simp: feeds_def)

lemma feeds_empty: "10 \<notin> set xs \<Longrightarrow> feeds xs = []"
  by (auto simp: feeds_def filter_empty_conv in_set_conv_nth)

lemma sorted_line_starts: "sorted (starts xs)"
  by (simp add: starts_def feeds_def sorted_map sorted_wrt_filter)

text \<open>The state of the loop when the character at unit \<open>u\<close> is next.\<close>

definition map_ok :: "u16 list \<Rightarrow> nat \<Rightarrow> utf16_map \<Rightarrow> bool" where
  "map_ok src u m \<longleftrightarrow>
     uSource m = src \<and> char_boundary src u (length (uUtf8 m)) \<and> uUtf8 m = enc (take u src) \<and>
     length (unitToByte m) = length src + 1 \<and> length (unitBoundary m) = length src + 1 \<and>
     length (byteToUnit m) = length (uUtf8 m) + 1 \<and> length (byteBoundary m) = length (uUtf8 m) + 1 \<and>
     (\<forall>v \<le> length src. unitBoundary m ! v \<longleftrightarrow> v \<le> u \<and> (\<exists>c. char_boundary src v c)) \<and>
     (\<forall>v c. v \<le> u \<and> char_boundary src v c \<longrightarrow> unitToByte m ! v = u32_of c) \<and>
     (\<forall>c \<le> length (uUtf8 m). byteBoundary m ! c \<longleftrightarrow> (\<exists>v. char_boundary src v c)) \<and>
     (\<forall>v c. c \<le> length (uUtf8 m) \<and> char_boundary src v c \<longrightarrow> byteToUnit m ! c = u32_of v) \<and>
     lineStartUnits m = map u32_of (starts (take u src)) \<and>
     lineStartBytes m = map u32_of (starts (enc (take u src)))"

lemma map_okD:
  assumes "map_ok src u m"
  shows "uSource m = src" and "char_boundary src u (length (uUtf8 m))" and "uUtf8 m = enc (take u src)"
    and "length (unitToByte m) = length src + 1" and "length (unitBoundary m) = length src + 1"
    and "length (byteToUnit m) = length (uUtf8 m) + 1" and "length (byteBoundary m) = length (uUtf8 m) + 1"
    and "v \<le> length src \<Longrightarrow> unitBoundary m ! v \<longleftrightarrow> v \<le> u \<and> (\<exists>c. char_boundary src v c)"
    and "v \<le> u \<Longrightarrow> char_boundary src v c \<Longrightarrow> unitToByte m ! v = u32_of c"
    and "c \<le> length (uUtf8 m) \<Longrightarrow> byteBoundary m ! c \<longleftrightarrow> (\<exists>v. char_boundary src v c)"
    and "c \<le> length (uUtf8 m) \<Longrightarrow> char_boundary src v c \<Longrightarrow> byteToUnit m ! c = u32_of v"
    and "lineStartUnits m = map u32_of (starts (take u src))"
    and "lineStartBytes m = map u32_of (starts (enc (take u src)))"
  using assms unfolding map_ok_def by blast+

lemma map_ok_empty: "map_ok src 0 (empty_map src)"
proof -
  have "c = 0" if "char_boundary src 0 c" for c
    using char_boundary_order(2) [OF that char_boundary_0] by simp
  moreover have "v = 0" if "char_boundary src v 0" for v
    using char_boundary_order(2) [OF that char_boundary_0] by simp
  ultimately have "char_boundary src 0 c \<Longrightarrow> u32_of c = 0" "char_boundary src v 0 \<Longrightarrow> u32_of v = 0" for c v
    using u32_of_0 by metis+
  then show ?thesis
    by (auto simp: map_ok_def empty_map_def starts_def feeds_def nth_list_update nth_Cons' intro: exI [of _ 0])
qed

text \<open>The only character with a line feed among its units or its bytes is the line feed.\<close>

lemma encode_rune_newline:
  assumes "valid_rune r"
  shows "r = 10 \<and> encode_rune r = [10] \<or> r \<noteq> 10 \<and> 10 \<notin> set (encode_rune r)"
proof (cases "r \<le> 0x7F")
  case True
  then have e: "encode_rune r = [word_of_int r]" using assms by (simp add: encode_rune_def encode_valid_def)
  have "(word_of_int r :: u8) = 10 \<longleftrightarrow> r = 10"
    using uint_word8 [of r] True assms by (auto simp: valid_rune_def word_uint_eq_iff)
  then show ?thesis using e by auto
next
  case False
  have "\<forall>b \<in> set (encode_valid r). 128 \<le> uint b"
  proof -
    have "r \<le> 0x10FFFF" "0 \<le> r" using assms by (auto simp: valid_rune_def)
    then have "128 \<le> uint (word_of_int (0xC0 + r div 64) :: u8)" if "r \<le> 0x7FF"
      using that by (subst uint_word8) auto
    moreover have "128 \<le> uint (word_of_int (0xE0 + r div 4096) :: u8)" if "r \<le> 0xFFFF"
      using that \<open>0 \<le> r\<close> by (subst uint_word8) auto
    moreover have "128 \<le> uint (word_of_int (0xF0 + r div 262144) :: u8)"
      using \<open>0 \<le> r\<close> \<open>r \<le> 0x10FFFF\<close> by (subst uint_word8) auto
    moreover have "128 \<le> uint (word_of_int (0x80 + x mod 64) :: u8)" for x
      by (subst uint_word8) auto
    ultimately show ?thesis using False by (auto simp: encode_valid_def)
  qed
  then have "10 \<notin> set (encode_rune r)" using assms by (auto simp: encode_rune_def)
  then show ?thesis using False by simp
qed

lemma units_newline:
  assumes "u < length src" "decodeUTF16Rune src u = (r, n)"
  shows "r = 10 \<and> n = 1 \<and> src ! u = 10 \<or> r \<noteq> 10 \<and> 10 \<notin> set (take n (drop u src))"
proof -
  have ten: "uint x = 10 \<longleftrightarrow> x = 10" for x :: u16 by (simp add: word_uint_eq_iff)
  have dec: "decodeUTF16Rune src u =
    (if u + 1 < length src \<and> isUTF16LeadSurrogate (src ! u) \<and> isUTF16TrailSurrogate (src ! (u + 1))
     then (utf16_decode_rune (uint (src ! u)) (uint (src ! (u + 1))), 2)
     else (if is_surrogate (uint (src ! u)) then RuneError else uint (src ! u), 1))"
    using decodeUTF16Rune_cases [OF assms(1)] .
  show ?thesis
  proof (cases "u + 1 < length src \<and> isUTF16LeadSurrogate (src ! u) \<and> isUTF16TrailSurrogate (src ! (u + 1))")
    case True
    then have n: "n = 2" "r = utf16_decode_rune (uint (src ! u)) (uint (src ! (u + 1)))"
      using dec assms(2) by auto
    have "take n (drop u src) = [src ! u, src ! (u + 1)]"
      using True by (simp add: n numeral_2_eq_2 take_Suc hd_drop_conv_nth tl_drop drop_Suc [symmetric])
    moreover have "src ! u \<noteq> 10" "src ! (u + 1) \<noteq> 10"
      using True by (auto simp: isUTF16LeadSurrogate_def isUTF16TrailSurrogate_def word_le_nat_alt)
    moreover have "r \<noteq> 10"
      using True unfolding n
      by (auto simp: utf16_decode_rune_def RuneError_def isUTF16LeadSurrogate_def isUTF16TrailSurrogate_def
          word_le_def)
    ultimately show ?thesis by auto
  next
    case False
    then have n: "n = 1" "r = (if is_surrogate (uint (src ! u)) then RuneError else uint (src ! u))"
      using dec assms(2) by auto
    have "take n (drop u src) = [src ! u]"
      using assms(1) by (simp add: n take_Suc_conv_app_nth)
    then show ?thesis
      using ten [of "src ! u"] n by (auto simp: RuneError_def is_surrogate_def)
  qed
qed

lemma fold_update:
  "length (fold (\<lambda>u xs. xs[u := x]) us xs) = length xs"
  "v < length xs \<Longrightarrow> fold (\<lambda>u xs. xs[u := x]) us xs ! v = (if v \<in> set us then x else xs ! v)"
  by (induction us arbitrary: xs) (auto simp: nth_list_update)

text \<open>What a boundary before the end of the next character is.\<close>

lemma char_boundary_upto:
  assumes "char_boundary src u b" "u < length src" "decodeUTF16Rune src u = (r, n)" "char_boundary src v c"
  shows "v \<le> u + n \<longleftrightarrow> c \<le> b + length (encode_rune r)"
    and "v \<le> u + n \<Longrightarrow> v \<le> u \<and> c \<le> b \<or> v = u + n \<and> c = b + length (encode_rune r)"
proof -
  note bnd = char_boundary_next [OF assms(1-3)]
  show "v \<le> u + n \<longleftrightarrow> c \<le> b + length (encode_rune r)"
    using char_boundary_order(1) [OF bnd assms(4)] by linarith
  show "v \<le> u + n \<Longrightarrow> v \<le> u \<and> c \<le> b \<or> v = u + n \<and> c = b + length (encode_rune r)"
    using char_boundary_gap [OF assms] char_boundary_order [OF assms(4) bnd]
      char_boundary_order(1) [OF assms(1,4)] by linarith
qed

lemma encode_rune_pos:
  assumes "u < length src" "decodeUTF16Rune src u = (r, n)"
  shows "0 < length (encode_rune r)"
  using length_encode_rune [OF decodeUTF16Rune_valid [OF assms(1)]] decodeUTF16Rune_valid [OF assms(1)] assms(2)
  by (auto simp: rune_len_def valid_rune_def split: if_splits)

lemma map_ok_put_units:
  assumes ok: "map_ok src u m" and u: "u < length src" and d: "decodeUTF16Rune src u = (r, n)"
  defines "m' \<equiv> put_rune m u r n"
  shows "v \<le> length src \<Longrightarrow> unitBoundary m' ! v \<longleftrightarrow> v \<le> u + n \<and> (\<exists>c. char_boundary src v c)"
    and "v \<le> u + n \<Longrightarrow> char_boundary src v c \<Longrightarrow> unitToByte m' ! v = u32_of c"
proof -
  let ?b = "length (uUtf8 m)"
  note b = map_okD(2) [OF ok]
  note bnd = char_boundary_next [OF b u d] and upto = char_boundary_upto [OF b u d]
  have n: "0 < n" "u + n \<le> length src" using decodeUTF16Rune_width [OF u d] u by auto
  have len: "length (unitToByte m) = length src + 1" "length (unitBoundary m) = length src + 1"
    using ok by (simp_all add: map_ok_def)
  show "unitBoundary m' ! v \<longleftrightarrow> v \<le> u + n \<and> (\<exists>c. char_boundary src v c)" if v: "v \<le> length src"
  proof -
    have "unitBoundary m ! v \<longleftrightarrow> v \<le> u \<and> (\<exists>c. char_boundary src v c)"
      using ok v by (simp add: map_ok_def)
    then show ?thesis
      using v len n b bnd upto(2) [of v] by (auto simp: m'_def put_rune_def Let_def nth_list_update)
  qed
  show "unitToByte m' ! v = u32_of c" if v: "v \<le> u + n" "char_boundary src v c"
  proof (cases "v = u + n")
    case True
    then show ?thesis using char_boundary_order(2) [OF bnd v(2)] n len by (simp add: m'_def put_rune_def Let_def fold_update)
  next
    case False
    then have "v \<le> u" using upto(2) [OF v(2,1)] by simp
    have "v < u \<Longrightarrow> unitToByte m ! v = u32_of c" "v = u \<Longrightarrow> c = ?b"
      using ok v(2) char_boundary_order(2) [OF b v(2)] by (auto simp: map_ok_def)
    then show ?thesis
      using \<open>v \<le> u\<close> n len u by (auto simp: m'_def put_rune_def Let_def fold_update)
  qed
qed

lemma map_ok_put_bytes:
  assumes ok: "map_ok src u m" and u: "u < length src" and d: "decodeUTF16Rune src u = (r, n)"
  defines "m' \<equiv> put_rune m u r n"
  shows "c \<le> length (uUtf8 m') \<Longrightarrow> byteBoundary m' ! c \<longleftrightarrow> (\<exists>v. char_boundary src v c)"
    and "c \<le> length (uUtf8 m') \<Longrightarrow> char_boundary src v c \<Longrightarrow> byteToUnit m' ! c = u32_of v"
proof -
  let ?b = "length (uUtf8 m)" and ?e = "length (encode_rune r)"
  note b = map_okD(2) [OF ok]
  note bnd = char_boundary_next [OF b u d] and upto = char_boundary_upto [OF b u d]
  note e = encode_rune_pos [OF u d]
  have len: "length (byteToUnit m) = ?b + 1" "length (byteBoundary m) = ?b + 1"
    using ok by (simp_all add: map_ok_def)
  have utf8: "length (uUtf8 m') = ?b + ?e" by (simp add: m'_def put_rune_def Let_def)
  have nth: "byteBoundary m' ! c = (if c \<le> ?b then byteBoundary m ! c else c = ?b + ?e)"
    "byteToUnit m' ! c = (if c \<le> ?b then byteToUnit m ! c else u32_of (if c = ?b + ?e then u + n else u))"
    if "c \<le> ?b + ?e" for c
    using that len e by (auto simp: m'_def put_rune_def Let_def nth_append simp del: upt_Suc)
  show "byteBoundary m' ! c \<longleftrightarrow> (\<exists>v. char_boundary src v c)" if c: "c \<le> length (uUtf8 m')"
  proof (cases "c \<le> ?b")
    case True
    then show ?thesis using ok nth(1) [of c] c utf8 by (simp add: map_ok_def)
  next
    case False
    have "(\<exists>v. char_boundary src v c) \<longleftrightarrow> c = ?b + ?e"
      using False bnd upto c utf8 by (metis not_less_iff_gr_or_eq order.strict_trans1)
    then show ?thesis using False nth(1) [of c] c utf8 by simp
  qed
  show "byteToUnit m' ! c = u32_of v" if c: "c \<le> length (uUtf8 m')" "char_boundary src v c"
  proof (cases "c \<le> ?b")
    case True
    then show ?thesis using ok nth(2) [of c] c utf8 by (simp add: map_ok_def)
  next
    case False
    then have "v = u + n" "c = ?b + ?e" using upto [OF c(2)] c(1) utf8 by auto
    then show ?thesis using False nth(2) [of c] c utf8 by simp
  qed
qed

lemma map_ok_put_lines:
  assumes ok: "map_ok src u m" and u: "u < length src" and d: "decodeUTF16Rune src u = (r, n)"
  defines "m' \<equiv> put_rune m u r n"
  shows "uUtf8 m' = enc (take (u + n) src)"
    and "lineStartUnits m' = map u32_of (starts (take (u + n) src))"
    and "lineStartBytes m' = map u32_of (starts (enc (take (u + n) src)))"
proof -
  let ?x = "take n (drop u src)"
  note b = map_okD(2) [OF ok]
  have n: "0 < n" "u + n \<le> length src" using decodeUTF16Rune_width [OF u d] u by auto
  have tk: "take (u + n) src = take u src @ ?x" by (simp add: take_add)
  have "splits (take u src) ?x"
    using char_boundary_splits(1) [OF b] n by (auto simp: splits_def hd_take)
  then have enc: "enc (take (u + n) src) = uUtf8 m @ encode_rune r"
    using enc_append enc_one [OF u d] ok by (simp add: tk map_ok_def)
  then show "uUtf8 m' = enc (take (u + n) src)" by (simp add: m'_def put_rune_def Let_def)
  have utf8: "uUtf8 m = enc (take u src)" using ok by (simp add: map_ok_def)
  have one: "?x = [src ! u]" if "n = 1" using that u by (simp add: take_Suc hd_drop_conv_nth)
  have fu: "feeds ?x = (if r = 10 then [n] else [])"
    using units_newline [OF u d] one feeds_snoc [of "[]" "src ! u"] feeds_empty [of ?x] feeds_Nil
    by auto
  show "lineStartUnits m' = map u32_of (starts (take (u + n) src))"
    using ok fu u by (simp add: m'_def put_rune_def Let_def map_ok_def starts_def tk feeds_append)
  have fb: "feeds (encode_rune r) = (if r = 10 then [length (encode_rune r)] else [])"
    using encode_rune_newline [OF decodeUTF16Rune_valid [OF u]] d feeds_snoc [of "[]" "10 :: u8"]
      feeds_empty [of "encode_rune r"] feeds_Nil
    by auto
  show "lineStartBytes m' = map u32_of (starts (enc (take (u + n) src)))"
    using ok fb unfolding enc utf8
    by (simp add: m'_def put_rune_def Let_def map_ok_def starts_def feeds_append)
qed

lemma map_ok_put:
  assumes ok: "map_ok src u m" and u: "u < length src" and d: "decodeUTF16Rune src u = (r, n)"
  shows "map_ok src (u + n) (put_rune m u r n)"
proof -
  note b = map_okD(2) [OF ok]
  have "length (uUtf8 (put_rune m u r n)) = length (uUtf8 m) + length (encode_rune r)"
    by (simp add: put_rune_def Let_def)
  moreover have "uSource (put_rune m u r n) = src" "length (unitToByte (put_rune m u r n)) = length src + 1"
    "length (unitBoundary (put_rune m u r n)) = length src + 1"
    "length (byteToUnit (put_rune m u r n)) = length (uUtf8 (put_rune m u r n)) + 1"
    "length (byteBoundary (put_rune m u r n)) = length (uUtf8 (put_rune m u r n)) + 1"
    using map_okD [OF ok] encode_rune_pos [OF u d]
    by (simp_all add: put_rune_def Let_def fold_update Suc_le_eq del: upt_Suc)
  ultimately show ?thesis
    unfolding map_ok_def
    using char_boundary_next [OF b u d] map_ok_put_units [OF assms] map_ok_put_bytes [OF assms]
      map_ok_put_lines [OF assms] by simp
qed

lemma encode_loop_ok: "map_ok src u m \<Longrightarrow> map_ok src (length src) (encode_loop src u m)"
proof (induction src u m rule: encode_loop.induct)
  case (1 src u m)
  note b = map_okD(2) [OF 1(2)]
  show ?case
  proof (cases "u < length src")
    case True
    obtain r n where d: "decodeUTF16Rune src u = (r, n)" by fastforce
    show ?thesis
      using 1(1) [OF True d [symmetric] map_ok_put [OF 1(2) True d]] True d by (simp add: encode_loop.simps [of src u])
  next
    case False
    then have "u = length src" using char_boundary_le [OF b] by simp
    then show ?thesis using 1(2) by (simp add: encode_loop.simps)
  qed
qed

lemma map_ok_encode: "map_ok src (length src) (encodeUTF16ToUTF8WithMap src)"
  unfolding encodeUTF16ToUTF8WithMap_def by (rule encode_loop_ok [OF map_ok_empty])

subsection \<open>Lemmas: positions by binary search\<close>

interpretation line_search: monotone_search after_start "\<lambda>c. length (fst c)" "\<lambda>c. sorted (fst c)"
proof
  fix c :: "u32 list \<times> u32" and k l
  assume "sorted (fst c)" "k \<le> l" "l < length (fst c)" "after_start c k"
  then show "after_start c l"
    using sorted_nth_mono [of "fst c" k l] by (auto simp: after_start_def)
qed

text \<open>Positions in a text of code units, moved over it unit by unit.\<close>

definition unit_step :: "point \<Rightarrow> u16 \<Rightarrow> point" where
  "unit_step p u = (if u = 10 then \<lparr>Row = Row p + 1, Column = 0\<rparr> else \<lparr>Row = Row p, Column = Column p + 1\<rparr>)"

definition unit_point :: "u16 list \<Rightarrow> nat \<Rightarrow> point" where
  "unit_point src n = foldl unit_step zero_point (take n src)"

definition start_point :: "'a::{numeral} list \<Rightarrow> point" where
  "start_point xs = \<lparr>Row = u32_of (length (feeds xs)), Column = u32_of (length xs - last (starts xs))\<rparr>"

lemma last_starts_le: "last (starts xs) \<le> length xs"
  using feeds_le [of "last (feeds xs)" xs] by (auto simp: starts_def)

lemma start_point_snoc:
  "start_point (xs @ [x]) =
     (if x = 10 then \<lparr>Row = Row (start_point xs) + 1, Column = 0\<rparr>
      else \<lparr>Row = Row (start_point xs), Column = Column (start_point xs) + 1\<rparr>)"
proof -
  have "u32_of (Suc (length xs) - last (starts xs)) = u32_of (length xs - last (starts xs)) + 1"
    using last_starts_le [of xs] by (simp add: u32_of_Suc Suc_diff_le)
  then show ?thesis
    by (cases "feeds xs = []") (simp_all add: start_point_def starts_def feeds_snoc u32_of_Suc)
qed

lemma start_point_Nil: "start_point [] = zero_point"
  by (simp add: start_point_def starts_def feeds_def)

lemma start_point_bytes: "start_point xs = computeNewEndPoint zero_point xs"
proof (induction xs rule: rev_induct)
  case (snoc x xs)
  then show ?case by (simp add: start_point_snoc computeNewEndPoint_def point_step_def)
qed (simp add: start_point_Nil)

lemma start_point_units: "start_point xs = foldl unit_step zero_point xs"
proof (induction xs rule: rev_induct)
  case (snoc x xs)
  then show ?case by (simp add: start_point_snoc unit_step_def)
qed (simp add: start_point_Nil)

lemma line_point_starts:
  assumes "n \<le> length xs" "length xs < 2 ^ 32"
  shows "line_point (map u32_of (starts xs)) (u32_of n) = start_point (take n xs)"
proof -
  let ?s = "starts (take n xs)" and ?c = "(map u32_of (starts xs), u32_of n)"
  have split: "starts xs = ?s @ map ((+) n) (feeds (drop n xs))"
    using feeds_append [of "take n xs" "drop n xs"] assms(1) by (simp add: starts_def min_def)
  have le: "i \<le> length xs" if "i \<in> set (starts xs)" for i
    using that feeds_le [of i xs] by (auto simp: starts_def)
  have small: "starts xs ! k \<le> length xs" if "k < length (starts xs)" for k
    using le nth_mem [OF that] by blast
  have sorted: "sorted (fst ?c)"
  proof -
    have "u32_of i \<le> u32_of j" if "i \<in> set (starts xs)" "j \<in> set (starts xs)" "i \<le> j" for i j
      using le [OF that(1)] le [OF that(2)] that(3) assms(2) by (simp add: u32_of_le_iff)
    then have "mono_on (set (starts xs)) u32_of" by (auto simp: mono_on_def)
    then show ?thesis using sorted_line_starts [of xs] by (simp add: sorted_map_mono)
  qed
  have len: "length ?s \<le> length (starts xs)" using split by simp
  have before: "\<not> after_start ?c k" if "k < length ?s" for k
  proof -
    have "starts xs ! k = ?s ! k" using that by (subst split) (simp add: nth_append)
    moreover have "?s ! k \<le> n" using that nth_mem [OF that] feeds_le [of "?s ! k" "take n xs"]
      by (auto simp: starts_def)
    ultimately show ?thesis
      using that len assms by (simp add: after_start_def not_less u32_of_le_iff)
  qed
  have after: "after_start ?c (length ?s)" if "length ?s < length (starts xs)"
  proof -
    have "starts xs ! length ?s = n + feeds (drop n xs) ! 0"
      using that split by (subst split) (simp add: nth_append)
    moreover have "0 < feeds (drop n xs) ! 0"
      using that split feeds_le [of "feeds (drop n xs) ! 0" "drop n xs"] by (simp add: starts_def)
    ultimately show ?thesis
      using that assms small [OF that] by (simp add: after_start_def u32_of_less_iff)
  qed
  have search: "go_search (length (map u32_of (starts xs))) (after_start ?c) = length ?s"
    using line_search.search_eqI [of ?c "length ?s"] sorted len before after by simp
  have row: "nat (int (length ?s) - 1) = length (feeds (take n xs))" by (simp add: starts_def)
  have "starts xs ! length (feeds (take n xs)) = last ?s"
    by (subst split) (simp add: nth_append starts_def last_conv_nth)
  moreover have "length (feeds (take n xs)) < length (starts xs)" using len by (simp add: starts_def)
  moreover have "u32_of n - u32_of (last ?s) = u32_of (n - last ?s)"
  proof -
    have "last ?s \<le> n" using last_starts_le [of "take n xs"] by simp
    then show ?thesis using u32_of_add [of "n - last ?s" "last ?s"] by simp
  qed
  ultimately show ?thesis
    using assms(1) by (simp add: line_point_def Let_def search row start_point_def min_def del: length_map)
qed

subsection \<open>Lemmas: the finished map\<close>

lemma u32_of_less_word: "n < 2 ^ 32 \<Longrightarrow> u32_of n < w \<longleftrightarrow> n < unat w"
  using u32_of_less_iff [of n "unat w"] unat_u32_less [of w] by (simp del: unat_u32_less)

lemma encode_rune_le:
  assumes "u < length src" "decodeUTF16Rune src u = (r, n)"
  shows "length (encode_rune r) \<le> 3 * n"
proof -
  have v: "valid_rune r" using decodeUTF16Rune_valid [OF assms(1)] assms(2) by simp
  have "uint (src ! u) \<le> 0xFFFF" using uint_bounded [of "src ! u"] by auto
  then have "n = 1 \<Longrightarrow> r \<le> 0xFFFF"
    using decodeUTF16Rune_cases [OF assms(1)] assms(2) by (auto simp: RuneError_def split: if_splits)
  then show ?thesis
    using length_encode_rune [OF v] decodeUTF16Rune_width [OF assms] by (auto simp: rune_len_def split: if_splits)
qed

lemma length_enc: "length (enc src) \<le> 3 * length src"
proof (induction src rule: enc.induct)
  case (1 src)
  show ?case
  proof (cases "src = []")
    case False
    obtain r n where d: "decodeUTF16Rune src 0 = (r, n)" by fastforce
    have pos: "0 < length src" using False by simp
    have "length (enc (drop n src)) \<le> 3 * (length src - n)" using 1 [OF False d [symmetric]] by simp
    moreover have "enc src = encode_rune r @ enc (drop n src)" using False d by (subst enc.simps) simp
    moreover have "n \<le> length src" using decodeUTF16Rune_width [OF pos d] pos by linarith
    ultimately show ?thesis using encode_rune_le [OF pos d] by simp
  qed simp
qed

lemma char_boundary_end: "char_boundary src (length src) (length (enc src))"
  using map_okD(2,3) [OF map_ok_encode [of src]] by simp

lemma char_boundary_bytes_le: "char_boundary src u b \<Longrightarrow> b \<le> length (enc src)"
  using char_boundary_order(1) [OF char_boundary_end] char_boundary_le by (metis not_le)

lemma uUtf8_encode: "uUtf8 (encodeUTF16ToUTF8WithMap src) = enc src"
  using map_okD(3) [OF map_ok_encode] by simp

lemma utf16UnitToByte_iff:
  assumes "3 * length src < 2 ^ 32"
  shows "utf16UnitToByte (encodeUTF16ToUTF8WithMap src) u = Some b \<longleftrightarrow> char_boundary src (unat u) (unat b)"
proof (cases "unat u \<le> length src")
  case True
  note ok = map_ok_encode [of src]
  have "\<not> u > u32_of (length src)"
    using True u32_of_le_iff [of "unat u" "length src"] assms by (simp add: not_less)
  then have eq: "utf16UnitToByte (encodeUTF16ToUTF8WithMap src) u =
      (if \<exists>c. char_boundary src (unat u) c then Some (unitToByte (encodeUTF16ToUTF8WithMap src) ! unat u) else None)"
    using True map_okD(4,5) [OF ok] map_okD(8) [OF ok True] by (simp add: utf16UnitToByte_def)
  have "unitToByte (encodeUTF16ToUTF8WithMap src) ! unat u = b \<longleftrightarrow> char_boundary src (unat u) (unat b)"
    if c: "char_boundary src (unat u) c" for c
  proof -
    have "c < 2 ^ 32" using char_boundary_bytes_le [OF c] length_enc [of src] assms by linarith
    then have "u32_of c = b \<longleftrightarrow> c = unat b" by (metis u32_of_unat unat_u32_of)
    then show ?thesis
      using map_okD(9) [OF ok True c] char_boundary_order(2) [OF c] c by auto
  qed
  then show ?thesis using eq by auto
next
  case False
  then have "u > u32_of (length src)"
    using False assms by (simp add: u32_of_less_word)
  then show ?thesis
    using False char_boundary_le map_okD(4) [OF map_ok_encode [of src]] by (auto simp: utf16UnitToByte_def)
qed

lemma byteToUTF16Unit_iff:
  assumes "3 * length src < 2 ^ 32"
  shows "byteToUTF16Unit (encodeUTF16ToUTF8WithMap src) b = Some u \<longleftrightarrow> char_boundary src (unat u) (unat b)"
proof (cases "unat b \<le> length (enc src)")
  case True
  note ok = map_ok_encode [of src]
  have le: "unat b \<le> length (uUtf8 (encodeUTF16ToUTF8WithMap src))" using True by (simp add: uUtf8_encode)
  have small: "length (enc src) < 2 ^ 32" using length_enc [of src] assms by linarith
  then have "\<not> b > u32_of (length (enc src))"
    using True u32_of_le_iff [of "unat b" "length (enc src)"] by (simp add: not_less)
  then have eq: "byteToUTF16Unit (encodeUTF16ToUTF8WithMap src) b =
      (if \<exists>v. char_boundary src v (unat b) then Some (byteToUnit (encodeUTF16ToUTF8WithMap src) ! unat b) else None)"
    using True map_okD(6,7) [OF ok] map_okD(10) [OF ok le] by (simp add: byteToUTF16Unit_def uUtf8_encode)
  have "byteToUnit (encodeUTF16ToUTF8WithMap src) ! unat b = u \<longleftrightarrow> char_boundary src (unat u) (unat b)"
    if v: "char_boundary src v (unat b)" for v
  proof -
    have "v < 2 ^ 32" using char_boundary_le [OF v] assms by linarith
    then have "u32_of v = u \<longleftrightarrow> v = unat u" by (metis u32_of_unat unat_u32_of)
    then show ?thesis
      using map_okD(11) [OF ok le v] char_boundary_order(2) [OF v] v by auto
  qed
  then show ?thesis using eq by auto
next
  case False
  have "length (enc src) < 2 ^ 32" using length_enc [of src] assms by linarith
  then have "b > u32_of (length (enc src))"
    using False by (simp add: u32_of_less_word)
  then show ?thesis
    using False char_boundary_bytes_le map_okD(6) [OF map_ok_encode [of src]]
    by (auto simp: byteToUTF16Unit_def uUtf8_encode)
qed

lemma pointForUTF8Byte_eq:
  assumes "3 * length src < 2 ^ 32"
  shows "pointForUTF8Byte (encodeUTF16ToUTF8WithMap src) b =
    (if unat b \<le> length (enc src) then Some (point_at (enc src) (unat b)) else None)"
proof -
  have small: "length (enc src) < 2 ^ 32" using length_enc [of src] assms by linarith
  have "lineStartBytes (encodeUTF16ToUTF8WithMap src) = map u32_of (starts (enc src))"
    using map_okD(13) [OF map_ok_encode [of src]] by simp
  moreover have "b > u32_of (length (enc src)) \<longleftrightarrow> length (enc src) < unat b"
    using small by (rule u32_of_less_word)
  ultimately show ?thesis
    using line_point_starts [of "unat b" "enc src"] small
    by (simp add: pointForUTF8Byte_def uUtf8_encode start_point_bytes point_at_def not_less)
qed

lemma pointForUnit_eq:
  assumes "3 * length src < 2 ^ 32"
  shows "pointForUnit (encodeUTF16ToUTF8WithMap src) u =
    (if unat u \<le> length src then Some (unit_point src (unat u)) else None)"
proof -
  have small: "length src < 2 ^ 32" using assms by linarith
  have "lineStartUnits (encodeUTF16ToUTF8WithMap src) = map u32_of (starts src)"
    using map_okD(12) [OF map_ok_encode [of src]] by simp
  moreover have "u > u32_of (length src) \<longleftrightarrow> length src < unat u"
    using small by (rule u32_of_less_word)
  moreover have "uSource (encodeUTF16ToUTF8WithMap src) = src"
    using map_okD(1) [OF map_ok_encode [of src]] by simp
  ultimately show ?thesis
    using line_point_starts [of "unat u" src] small
    by (simp add: pointForUnit_def start_point_units unit_point_def not_less)
qed

text \<open>The local test for a boundary is right: only a surrogate pair makes a unit no boundary.\<close>

lemma boundary_before:
  "u \<le> length src \<Longrightarrow> \<exists>v b. char_boundary src v b \<and> v \<le> u \<and> (v = u \<or> v < length src \<and> u < v + snd (decodeUTF16Rune src v))"
proof (induction u)
  case 0
  then show ?case using char_boundary_0 by blast
next
  case (Suc u)
  then obtain v b where v: "char_boundary src v b" "v \<le> u" "v = u \<or> v < length src \<and> u < v + snd (decodeUTF16Rune src v)"
    by auto
  have lt: "v < length src" using v Suc.prems by auto
  obtain r n where d: "decodeUTF16Rune src v = (r, n)" by fastforce
  show ?case
  proof (cases "Suc u < v + n")
    case True
    then show ?thesis using v lt d by (intro exI [of _ v] exI [of _ b]) simp
  next
    case False
    then have "Suc u = v + n" using v(3) d decodeUTF16Rune_width [OF lt d] by auto
    then show ?thesis using char_boundary_next [OF v(1) lt d] by auto
  qed
qed

lemma utf16Boundary_iff:
  assumes "length src < 2 ^ 32"
  shows "utf16Boundary src u \<longleftrightarrow> (\<exists>b. char_boundary src (unat u) b)"
proof (cases "unat u \<le> length src")
  case True
  let ?u = "unat u"
  have bnd: "utf16Boundary src u \<longleftrightarrow> splits (take ?u src) (drop ?u src)"
  proof (cases "?u = 0 \<or> ?u = length src")
    case edge: True
    have "u = 0 \<or> u = u32_of (length src)" using edge by (metis u32_of_unat u32_of_0)
    moreover have "\<not> u > u32_of (length src)"
      using True u32_of_le_iff [of ?u "length src"] assms by (simp add: not_less)
    ultimately show ?thesis using edge by (auto simp: utf16Boundary_def splits_def)
  next
    case False
    have "u \<noteq> 0" using False by auto
    moreover have "u < u32_of (length src)"
      using True False u32_of_less_iff [of ?u "length src"] assms by simp
    moreover have "last (take ?u src) = src ! (?u - 1)"
      using True False by (subst last_conv_nth) auto
    moreover have "hd (drop ?u src) = src ! ?u"
      using True False by (simp add: hd_drop_conv_nth)
    ultimately show ?thesis using True False by (auto simp: utf16Boundary_def splits_def)
  qed
  show ?thesis
  proof
    assume "utf16Boundary src u"
    then have sp: "splits (take ?u src) (drop ?u src)" using bnd by simp
    obtain v b where v: "char_boundary src v b" "v \<le> ?u" "v = ?u \<or> v < length src \<and> ?u < v + snd (decodeUTF16Rune src v)"
      using boundary_before [OF True] by blast
    have "v = ?u"
    proof (rule ccontr)
      assume "v \<noteq> ?u"
      then have lt: "v < length src" "v < ?u" "?u < v + snd (decodeUTF16Rune src v)" using v by auto
      obtain r n where d: "decodeUTF16Rune src v = (r, n)" by fastforce
      have n: "n = 2" "?u = v + 1" "v + 1 < length src" using decodeUTF16Rune_width [OF lt(1) d] lt d by auto
      then have "isUTF16LeadSurrogate (src ! v)" "isUTF16TrailSurrogate (src ! (v + 1))"
        using decodeUTF16Rune_cases [OF lt(1)] d by (auto split: if_splits)
      then show False
        using sp n by (auto simp: splits_def hd_drop_conv_nth take_Suc_conv_app_nth)
    qed
    then show "\<exists>b. char_boundary src ?u b" using v by blast
  next
    assume "\<exists>b. char_boundary src ?u b"
    then show "utf16Boundary src u" using bnd char_boundary_splits(1) by blast
  qed
next
  case False
  then have "u > u32_of (length src)" using False assms by (simp add: u32_of_less_word)
  then show ?thesis using False char_boundary_le by (auto simp: utf16Boundary_def)
qed

subsection \<open>Lemmas: edits\<close>

lemma measure_loop_eq:
  "pos \<le> length src \<Longrightarrow> measure_loop src pos (l, p) =
     (l + u32_of (length (enc (drop pos src))), computeNewEndPoint p (enc (drop pos src)))"
proof (induction "length src - pos" arbitrary: pos l p rule: less_induct)
  case less
  show ?case
  proof (cases "pos < length src")
    case True
    obtain r n where d: "decodeUTF16Rune src pos = (r, n)" by fastforce
    have v: "valid_rune r" using decodeUTF16Rune_valid [OF True] d by simp
    have n: "pos + n \<le> length src" using decodeUTF16Rune_width [OF True d] True by auto
    have "drop pos src \<noteq> []" using True by simp
    then have e: "enc (drop pos src) = encode_rune r @ enc (drop (pos + n) src)"
      using decode_drop [OF True] d by (subst enc.simps) (simp add: add.commute)
    have w: "word_of_int (rune_len r) = u32_of (length (encode_rune r))"
      using length_encode_rune [OF v] by (metis u32_of_def of_int_of_nat_eq)
    have "(if r = 10 then \<lparr>Row = Row p + 1, Column = 0\<rparr>
        else \<lparr>Row = Row p, Column = Column p + word_of_int (rune_len r)\<rparr>) = computeNewEndPoint p (encode_rune r)"
      using encode_rune_newline [OF v]
      by (auto simp: w no_newline_point computeNewEndPoint_Cons point_step_def)
    then have "measure_loop src pos (l, p) =
        measure_loop src (pos + n) (l + u32_of (length (encode_rune r)), computeNewEndPoint p (encode_rune r))"
      using True d w by (subst measure_loop.simps) (simp add: Let_def)
    also have "\<dots> = (l + u32_of (length (enc (drop pos src))), computeNewEndPoint p (enc (drop pos src)))"
      using less(1) [OF _ n, of "l + u32_of (length (encode_rune r))" "computeNewEndPoint p (encode_rune r)"]
        decodeUTF16Rune_width [OF True d] True e
      by (auto simp: u32_of_add computeNewEndPoint_append add.assoc)
    finally show ?thesis .
  next
    case False
    then show ?thesis using less(2) by (simp add: measure_loop.simps)
  qed
qed

lemma measureUTF16AsUTF8_eq:
  "measureUTF16AsUTF8 src = (u32_of (length (enc src)), computeNewEndPoint zero_point (enc src))"
  unfolding measureUTF16AsUTF8_def by (subst measure_loop_eq) simp_all

lemma enc_slices:
  assumes "char_boundary src u b" "char_boundary src v c" "u \<le> v"
  shows "enc src = enc (take u src) @ enc (go_slice src u v) @ enc (drop v src)"
    and "length (enc (take u src)) = b" and "c = b + length (enc (go_slice src u v))"
proof -
  have t: "take v src = take u src @ go_slice src u v" using take_go_slice_append [OF assms(3)] by metis
  have "hd (go_slice src u v) = hd (drop u src)" if "go_slice src u v \<noteq> []"
    using that by (simp add: go_slice_def hd_take)
  moreover have "drop u src \<noteq> []" if "go_slice src u v \<noteq> []" using that by (auto simp: go_slice_def)
  ultimately have "splits (take u src) (go_slice src u v)"
    using char_boundary_splits(1) [OF assms(1)] by (auto simp: splits_def)
  then have e: "enc (take v src) = enc (take u src) @ enc (go_slice src u v)"
    by (simp add: t enc_append)
  then show "enc src = enc (take u src) @ enc (go_slice src u v) @ enc (drop v src)"
    using char_boundary_splits(3) [OF assms(2)] by simp
  show "length (enc (take u src)) = b" by (rule char_boundary_splits(2) [OF assms(1)])
  then show "c = b + length (enc (go_slice src u v))"
    using e char_boundary_splits(2) [OF assms(2)] by simp
qed

lemma unit_byte_None_iff:
  assumes "3 * length src < 2 ^ 32"
  shows "utf16UnitToByte (encodeUTF16ToUTF8WithMap src) u = None \<longleftrightarrow> \<not> utf16Boundary src u"
proof -
  have "(\<exists>b. char_boundary src (unat u) b) \<longleftrightarrow> (\<exists>b :: u32. char_boundary src (unat u) (unat b))"
  proof
    assume "\<exists>b. char_boundary src (unat u) b"
    then obtain b where b: "char_boundary src (unat u) b" by blast
    then have "unat (u32_of b) = b"
      using char_boundary_bytes_le [OF b] length_enc [of src] assms by (simp add: unat_u32_of)
    then show "\<exists>b :: u32. char_boundary src (unat u) (unat b)" using b by metis
  qed blast
  then show ?thesis
    using utf16UnitToByte_iff [OF assms, of u] utf16Boundary_iff [of src u] assms
    by (cases "utf16UnitToByte (encodeUTF16ToUTF8WithMap src) u") auto
qed

text \<open>An edit between boundaries, on texts that agree outside it.\<close>

lemma edit_bytes:
  fixes S N :: "u16 list"
  assumes S: "3 * length S < 2 ^ 32" and N: "3 * length N < 2 ^ 32"
    and s: "char_boundary S s bs" and oe: "char_boundary S oe bo" "s \<le> oe"
    and ns: "char_boundary N s bn" and ne: "char_boundary N ne be" "s \<le> ne"
    and agree: "take s N = take s S" "drop ne N = drop oe S"
  defines "R \<equiv> go_slice N s ne"
  shows "bn = bs" and "bs + length (enc R) = be" and "be < 2 ^ 32"
    and "enc N = take bs (enc S) @ enc R @ drop bo (enc S)"
    and "bs \<le> bo" and "bo \<le> length (enc S)"
proof -
  show bn: "bn = bs"
    using char_boundary_splits(2) [OF s] char_boundary_splits(2) [OF ns] agree(1) by simp
  show "bs + length (enc R) = be" using enc_slices(3) [OF ns ne] bn by (simp add: R_def)
  show "be < 2 ^ 32" using char_boundary_bytes_le [OF ne(1)] length_enc [of N] N by linarith
  have "take bs (enc S) = enc (take s S)"
    using char_boundary_splits(2,3) [OF s] by (metis append_eq_conv_conj)
  moreover have "drop bo (enc S) = enc (drop oe S)"
    using char_boundary_splits(2,3) [OF oe(1)] by (metis append_eq_conv_conj)
  ultimately show "enc N = take bs (enc S) @ enc R @ drop bo (enc S)"
    using enc_slices(1) [OF ns ne] agree by (simp add: R_def)
  show "bs \<le> bo" using char_boundary_order(1) [OF oe(1) s] oe(2) by (metis not_le)
  show "bo \<le> length (enc S)" by (rule char_boundary_bytes_le [OF oe(1)])
qed

lemma InputEditForUTF16_Some:
  fixes S N :: "u16 list" and bs bo :: u32
  assumes S: "3 * length S < 2 ^ 32" and N: "3 * length N < 2 ^ 32"
    and s: "char_boundary S (unat (editStartCodeUnit e)) (unat bs)"
    and oe: "char_boundary S (unat (editOldEndCodeUnit e)) (unat bo)" "editStartCodeUnit e \<le> editOldEndCodeUnit e"
    and ns: "char_boundary N (unat (editStartCodeUnit e)) bn"
    and ne: "char_boundary N (unat (editNewEndCodeUnit e)) be" "editStartCodeUnit e \<le> editNewEndCodeUnit e"
    and agree: "take (unat (editStartCodeUnit e)) N = take (unat (editStartCodeUnit e)) S"
      "drop (unat (editNewEndCodeUnit e)) N = drop (unat (editOldEndCodeUnit e)) S"
  defines "R \<equiv> go_slice N (unat (editStartCodeUnit e)) (unat (editNewEndCodeUnit e))"
  shows "\<exists>ie. InputEditForUTF16 (encodeUTF16ToUTF8WithMap S) e N = Some ie \<and>
    run_edit (enc S) ie (enc R) = enc N \<and> edit_ok (enc S) ie (enc R)"
proof -
  have le: "unat (editStartCodeUnit e) \<le> unat (editOldEndCodeUnit e)"
    "unat (editStartCodeUnit e) \<le> unat (editNewEndCodeUnit e)"
    using oe(2) ne(2) by (simp_all add: word_le_nat_alt)
  note eb = edit_bytes [OF S N s oe(1) le(1) ns ne(1) le(2) agree, folded R_def]
  have lenR: "length (enc R) < 2 ^ 32" using eb(2,3) by linarith
  have bnds: "utf16Boundary N (editStartCodeUnit e)" "utf16Boundary N (editNewEndCodeUnit e)"
    using ns ne(1) utf16Boundary_iff [of N] N by auto
  have start: "utf16UnitToByte (encodeUTF16ToUTF8WithMap S) (editStartCodeUnit e) = Some bs"
    "utf16UnitToByte (encodeUTF16ToUTF8WithMap S) (editOldEndCodeUnit e) = Some bo"
    using s oe(1) utf16UnitToByte_iff [OF S] by auto
  have pts: "pointForUTF8Byte (encodeUTF16ToUTF8WithMap S) bs = Some (point_at (enc S) (unat bs))"
    "pointForUTF8Byte (encodeUTF16ToUTF8WithMap S) bo = Some (point_at (enc S) (unat bo))"
    using eb(5,6) by (simp_all add: pointForUTF8Byte_eq [OF S])
  have fits: "\<not> u32_of (length (enc R)) > NOT 0 - bs"
  proof -
    have "NOT 0 - bs = u32_of (2 ^ 32 - 1 - unat bs)"
    proof -
      have "unat bs \<le> 2 ^ 32 - 1" using unat_u32_less [of bs] by linarith
      then have "u32_of (2 ^ 32 - 1 - unat bs) + u32_of (unat bs) = u32_of (2 ^ 32 - 1)"
        using u32_of_add [of "2 ^ 32 - 1 - unat bs" "unat bs"] by simp
      moreover have "u32_of (2 ^ 32 - 1) = NOT 0" by (simp add: u32_of_def)
      ultimately show ?thesis by (metis add_diff_cancel_right' u32_of_unat)
    qed
    then show ?thesis using eb(2,3) lenR by (simp add: not_less u32_of_le_iff)
  qed
  let ?ie = "\<lparr>eStartByte = bs, eOldEndByte = bo, eNewEndByte = bs + u32_of (length (enc R)),
    eStartPoint = point_at (enc S) (unat bs), eOldEndPoint = point_at (enc S) (unat bo),
    eNewEndPoint = addPointDelta (point_at (enc S) (unat bs)) (computeNewEndPoint zero_point (enc R))\<rparr>"
  have "InputEditForUTF16 (encodeUTF16ToUTF8WithMap S) e N = Some ?ie"
    using oe(2) ne(2) bnds start pts fits
    by (simp add: InputEditForUTF16_def not_less measureUTF16AsUTF8_eq R_def [symmetric])
  moreover have run: "run_edit (enc S) ?ie (enc R) = enc N" using eb(4) by (simp add: run_edit_def)
  moreover have new: "unat (bs + u32_of (length (enc R))) = unat bs + length (enc R)"
    using eb(2,3) by (metis u32_of_add u32_of_unat unat_u32_of)
  moreover have "edit_ok (enc S) ?ie (enc R)"
  proof -
    have "point_at (enc N) (unat bs + length (enc R)) = computeNewEndPoint (point_at (enc S) (unat bs)) (enc R)"
      using eb(4-6) by (simp add: point_at_def computeNewEndPoint_append [symmetric])
    then show ?thesis
      using eb(5,6) new run computeNewEndPoint_from [OF lenR, of "point_at (enc S) (unat bs)", symmetric]
      by (simp add: edit_ok_def word_le_nat_alt)
  qed
  ultimately show ?thesis by blast
qed

lemma InputEditForUTF16_guards:
  assumes S: "3 * length S < 2 ^ 32"
    and "InputEditForUTF16 (encodeUTF16ToUTF8WithMap S) e N = Some ie"
  shows "editStartCodeUnit e \<le> editOldEndCodeUnit e \<and> editStartCodeUnit e \<le> editNewEndCodeUnit e \<and>
    utf16Boundary S (editStartCodeUnit e) \<and> utf16Boundary S (editOldEndCodeUnit e) \<and>
    utf16Boundary N (editStartCodeUnit e) \<and> utf16Boundary N (editNewEndCodeUnit e)"
  using assms(2) unit_byte_None_iff [OF S, of "editStartCodeUnit e"] unit_byte_None_iff [OF S, of "editOldEndCodeUnit e"]
  by (auto simp: InputEditForUTF16_def not_less split: if_splits Option.bind_splits)

subsection \<open>Lemmas: included ranges\<close>

definition unit_range_ok :: "u16 list \<Rightarrow> utf16_range \<Rightarrow> bool" where
  "unit_range_ok src r \<longleftrightarrow> StartCodeUnit r \<le> EndCodeUnit r \<and>
     utf16Boundary src (StartCodeUnit r) \<and> utf16Boundary src (EndCodeUnit r)"

text \<open>The bytes of the characters that a range in code units selects.\<close>

definition unit_range_covers :: "u16 list \<Rightarrow> utf16_range \<Rightarrow> nat \<Rightarrow> bool" where
  "unit_range_covers src r n \<longleftrightarrow>
     (\<exists>s e. char_boundary src (unat (StartCodeUnit r)) s \<and> char_boundary src (unat (EndCodeUnit r)) e \<and>
        s \<le> n \<and> n < e)"

lemma byte_range_spec:
  assumes "3 * length src < 2 ^ 32"
  shows "byte_range (encodeUTF16ToUTF8WithMap src) r = None \<longleftrightarrow> \<not> unit_range_ok src r"
    and "byte_range (encodeUTF16ToUTF8WithMap src) r = Some b \<Longrightarrow>
      range_points_ok (enc src) b \<and> (rStartByte b \<le> n \<and> n < rEndByte b \<longleftrightarrow> unit_range_covers src r (unat n))"
proof -
  let ?m = "encodeUTF16ToUTF8WithMap src"
  have pt: "\<exists>p. pointForUTF8Byte ?m b = Some p \<and> p = point_at (enc src) (unat b)"
    if "utf16UnitToByte ?m u = Some b" for u b
    using that char_boundary_bytes_le [of src "unat u" "unat b"]
    by (simp add: utf16UnitToByte_iff [OF assms] pointForUTF8Byte_eq [OF assms])
  then show "byte_range ?m r = None \<longleftrightarrow> \<not> unit_range_ok src r"
    using unit_byte_None_iff [OF assms, of "StartCodeUnit r"] unit_byte_None_iff [OF assms, of "EndCodeUnit r"]
    by (fastforce simp: byte_range_def unit_range_ok_def not_less split: if_splits Option.bind_splits)
  assume b: "byte_range ?m r = Some b"
  then have bs: "utf16UnitToByte ?m (StartCodeUnit r) = Some (rStartByte b)"
    "utf16UnitToByte ?m (EndCodeUnit r) = Some (rEndByte b)" and p: "range_points_ok (enc src) b"
    using pt by (fastforce simp: byte_range_def range_points_ok_def split: if_splits Option.bind_splits)+
  have "rStartByte b \<le> n \<and> n < rEndByte b \<longleftrightarrow> unit_range_covers src r (unat n)"
    using bs char_boundary_order(2) unfolding utf16UnitToByte_iff [OF assms] unit_range_covers_def
      word_le_nat_alt word_less_nat_alt by (metis (no_types, lifting))
  then show "range_points_ok (enc src) b \<and> (rStartByte b \<le> n \<and> n < rEndByte b \<longleftrightarrow> unit_range_covers src r (unat n))"
    using p by blast
qed

lemma byte_ranges_spec:
  assumes "3 * length src < 2 ^ 32"
  shows "byte_ranges (encodeUTF16ToUTF8WithMap src) rs = None \<longleftrightarrow> \<not> (\<forall>r \<in> set rs. unit_range_ok src r)"
    and "byte_ranges (encodeUTF16ToUTF8WithMap src) rs = Some bs \<Longrightarrow>
      (\<forall>b \<in> set bs. range_points_ok (enc src) b) \<and>
      (covers bs n \<longleftrightarrow> (\<exists>r \<in> set rs. unit_range_covers src r (unat n)))"
proof (induction rs arbitrary: bs)
  case (Cons r rs)
  {
    case 1
    show ?case using Cons.IH(1) byte_range_spec(1) [OF assms, of r]
      by (auto split: Option.bind_splits)
  next
    case 2
    then obtain b bs' where b: "byte_range (encodeUTF16ToUTF8WithMap src) r = Some b"
      and bs': "byte_ranges (encodeUTF16ToUTF8WithMap src) rs = Some bs'" "bs = b # bs'"
      by (auto split: Option.bind_splits)
    show ?case using byte_range_spec(2) [OF assms b, of n] Cons.IH(2) [OF bs'(1)] bs'(2)
      by (simp add: covers_Cons)
  }
qed simp_all

subsection \<open>Lemmas: byte order\<close>

definition unit_bytes :: "u16 \<Rightarrow> bytes" where
  "unit_bytes u = [word_of_int (uint u mod 256), word_of_int (uint u div 256)]"

lemma uint16_le_bytes: "uint16_le (word_of_int (uint u mod 256)) (word_of_int (uint u div 256)) = u"
proof -
  have "uint u div 256 < 256" "0 \<le> uint u div 256" using uint_bounded [of u] by (auto simp: pos_imp_zdiv_nonneg_iff)
  then show ?thesis by (simp add: uint16_le_def uint_word8)
qed

lemma decode_units_bytes:
  "decode_units uint16_le (concat (map unit_bytes us)) = us"
  "decode_units (\<lambda>b0 b1. uint16_le b1 b0) (concat (map (rev \<circ> unit_bytes) us)) = us"
  by (induction us) (simp_all add: unit_bytes_def uint16_le_bytes)

lemma length_unit_bytes:
  "length (concat (map unit_bytes us)) mod 2 = 0" "length (concat (map (rev \<circ> unit_bytes) us)) mod 2 = 0"
  by (induction us) (simp_all add: unit_bytes_def)

subsection \<open>Properties\<close>

text \<open>
  UTF-16 input as bytes: \<open>DecodeUTF16Bytes\<close> gives back the code units that were
  written in either byte order, and rejects exactly an odd number of bytes and, for an even
  number, a byte order that is neither of the two.
\<close>

lemma utf16_bytes_roundtrip:
  "DecodeUTF16Bytes (concat (map unit_bytes us)) UTF16LittleEndian = Inr us \<and>
   DecodeUTF16Bytes (concat (map (rev \<circ> unit_bytes) us)) UTF16BigEndian = Inr us \<and>
   (DecodeUTF16Bytes source order = Inl ErrInvalidUTF16ByteLength \<longleftrightarrow> odd (length source)) \<and>
   (DecodeUTF16Bytes source order = Inl ErrInvalidUTF16ByteOrder \<longleftrightarrow>
      even (length source) \<and> order = UTF16OtherOrder)"
  using decode_units_bytes [of us] length_unit_bytes [of us]
  by (auto simp: DecodeUTF16Bytes_def odd_iff_mod_2_eq_one split: utf16_byte_order.splits)

text \<open>
  \<^bold>\<open>C27.\<close> The offset map of a UTF-16 source is a bijection between the character boundaries
  of both encodings: \<open>utf16UnitToByte\<close> and \<open>byteToUTF16Unit\<close> are inverse to each other, a
  unit is mapped exactly when it does not cut a surrogate pair, and it is mapped to the number
  of bytes that the characters before it take in the UTF-8 text handed to the parser.
\<close>

theorem utf16_map_roundtrip:
  assumes "3 * length src < 2 ^ 32"
  defines "m \<equiv> encodeUTF16ToUTF8WithMap src"
  shows "(utf16UnitToByte m u = Some b \<longleftrightarrow> byteToUTF16Unit m b = Some u) \<and>
    (utf16UnitToByte m u = None \<longleftrightarrow> \<not> utf16Boundary src u) \<and>
    (utf16UnitToByte m u = Some b \<longrightarrow> length (enc (take (unat u) src)) = unat b) \<and> uUtf8 m = enc src"
  unfolding m_def
  using utf16UnitToByte_iff [OF assms(1)] byteToUTF16Unit_iff [OF assms(1)] unit_byte_None_iff [OF assms(1)]
    char_boundary_splits(2) uUtf8_encode by blast

theorem utf16_map_roundtrip_witness:
  "utf16UnitToByte (encodeUTF16ToUTF8WithMap [0x61, 0xD83D, 0xDE00, 0x62]) 3 = Some 5 \<and>
   byteToUTF16Unit (encodeUTF16ToUTF8WithMap [0x61, 0xD83D, 0xDE00, 0x62]) 5 = Some 3"
proof -
  have "utf16UnitToByte (encodeUTF16ToUTF8WithMap [0x61, 0xD83D, 0xDE00, 0x62]) 3 = Some 5" by code_simp
  then show ?thesis using utf16_map_roundtrip [of "[0x61, 0xD83D, 0xDE00, 0x62]" 3 5] by simp
qed

text \<open>
  The binary searches over the line starts find the positions that a scan from the
  start finds: \<open>pointForUTF8Byte\<close> the row and byte column in the UTF-8 text, \<open>pointForUnit\<close>
  and \<open>pointForByte\<close> the row and the code-unit column in the UTF-16 source; offsets past the
  end have no position.
\<close>

lemma utf16_points_correct:
  assumes "3 * length src < 2 ^ 32"
  defines "m \<equiv> encodeUTF16ToUTF8WithMap src"
  shows "pointForUTF8Byte m b = (if unat b \<le> length (enc src) then Some (point_at (enc src) (unat b)) else None) \<and>
    pointForUnit m u = (if unat u \<le> length src then Some (unit_point src (unat u)) else None) \<and>
    (utf16UnitToByte m u = Some b \<longrightarrow> pointForByte m b = Some (unit_point src (unat u)))"
proof -
  have "pointForByte m b = Some (unit_point src (unat u))" if "utf16UnitToByte m u = Some b"
    using that char_boundary_le [of src "unat u" "unat b"] byteToUTF16Unit_iff [OF assms(1), of b u]
    by (simp add: m_def pointForByte_def utf16UnitToByte_iff [OF assms(1)] pointForUnit_eq [OF assms(1)])
  then show ?thesis
    unfolding m_def using pointForUTF8Byte_eq [OF assms(1)] pointForUnit_eq [OF assms(1)] by blast
qed

text \<open>An edit in code units that is well placed: its ends are not before its start, and its offsets
  are character boundaries of the source they belong to.\<close>

definition edit_placed :: "u16 list \<Rightarrow> utf16_edit \<Rightarrow> u16 list \<Rightarrow> bool" where
  "edit_placed S e N \<longleftrightarrow> editStartCodeUnit e \<le> editOldEndCodeUnit e \<and> editStartCodeUnit e \<le> editNewEndCodeUnit e \<and>
     utf16Boundary S (editStartCodeUnit e) \<and> utf16Boundary S (editOldEndCodeUnit e) \<and>
     utf16Boundary N (editStartCodeUnit e) \<and> utf16Boundary N (editNewEndCodeUnit e)"

lemma utf16_input_edit:
  assumes "3 * length S < 2 ^ 32" and "3 * length N < 2 ^ 32"
    and "take (unat (editStartCodeUnit e)) N = take (unat (editStartCodeUnit e)) S"
    and "drop (unat (editNewEndCodeUnit e)) N = drop (unat (editOldEndCodeUnit e)) S"
    and R_def: "R = go_slice N (unat (editStartCodeUnit e)) (unat (editNewEndCodeUnit e))"
  shows "case InputEditForUTF16 (encodeUTF16ToUTF8WithMap S) e N of
      None \<Rightarrow> \<not> edit_placed S e N
    | Some ie \<Rightarrow> edit_placed S e N \<and> run_edit (enc S) ie (enc R) = enc N \<and> edit_ok (enc S) ie (enc R)"
proof (cases "edit_placed S e N")
  case True
  then have bnds: "utf16Boundary S (editStartCodeUnit e)" "utf16Boundary S (editOldEndCodeUnit e)"
    "utf16Boundary N (editStartCodeUnit e)" "utf16Boundary N (editNewEndCodeUnit e)"
    and order: "editStartCodeUnit e \<le> editOldEndCodeUnit e" "editStartCodeUnit e \<le> editNewEndCodeUnit e"
    by (simp_all add: edit_placed_def)
  obtain bs bo where b: "utf16UnitToByte (encodeUTF16ToUTF8WithMap S) (editStartCodeUnit e) = Some bs"
    "utf16UnitToByte (encodeUTF16ToUTF8WithMap S) (editOldEndCodeUnit e) = Some bo"
    using unit_byte_None_iff [OF assms(1)] bnds(1,2) by (metis not_None_eq)
  have "length N < 2 ^ 32" using assms(2) by linarith
  then obtain bn be where n: "char_boundary N (unat (editStartCodeUnit e)) bn"
    "char_boundary N (unat (editNewEndCodeUnit e)) be"
    using bnds(3,4) utf16Boundary_iff by blast
  have "\<exists>ie. InputEditForUTF16 (encodeUTF16ToUTF8WithMap S) e N = Some ie \<and>
      run_edit (enc S) ie (enc R) = enc N \<and> edit_ok (enc S) ie (enc R)"
    unfolding R_def using order
    by (intro InputEditForUTF16_Some [OF assms(1,2) b [unfolded utf16UnitToByte_iff [OF assms(1)]] _ n _ assms(3,4)])
      simp_all
  then show ?thesis using True by auto
next
  case False
  then have "InputEditForUTF16 (encodeUTF16ToUTF8WithMap S) e N = None"
    using InputEditForUTF16_guards [OF assms(1), of e N]
    by (cases "InputEditForUTF16 (encodeUTF16ToUTF8WithMap S) e N") (auto simp: edit_placed_def)
  then show ?thesis using False by simp
qed

text \<open>
  \<^bold>\<open>C26.\<close> An edit in code units becomes an edit of the UTF-8 text: for a new source that
  agrees with the old one outside the edited units, \<open>InputEditForUTF16\<close> succeeds exactly when no
  end lies before the start and no offset cuts a surrogate pair or lies past the end of its
  source; then replacing the bytes that the edit names by the encoded replacement gives the
  encoding of the new source, and all three positions of the edit are right.
\<close>

theorem utf16_edit_correct:
  assumes "3 * length S < 2 ^ 32" and "3 * length N < 2 ^ 32"
    and "take (unat (editStartCodeUnit e)) N = take (unat (editStartCodeUnit e)) S"
    and "drop (unat (editNewEndCodeUnit e)) N = drop (unat (editOldEndCodeUnit e)) S"
  defines "R \<equiv> go_slice N (unat (editStartCodeUnit e)) (unat (editNewEndCodeUnit e))"
  shows "case InputEditForUTF16 (encodeUTF16ToUTF8WithMap S) e N of
      None \<Rightarrow> \<not> edit_placed S e N
    | Some ie \<Rightarrow> edit_placed S e N \<and> run_edit (enc S) ie (enc R) = enc N \<and> edit_ok (enc S) ie (enc R)"
  using utf16_input_edit [OF assms(1-4) refl] unfolding R_def .

theorem utf16_edit_correct_witness:
  "InputEditForUTF16 (encodeUTF16ToUTF8WithMap [0xE9, 0x61, 0x62])
     \<lparr>editStartCodeUnit = 1, editOldEndCodeUnit = 2, editNewEndCodeUnit = 3\<rparr> [0xE9, 0xD83D, 0xDE00, 0x62] =
     Some \<lparr>eStartByte = 2, eOldEndByte = 3, eNewEndByte = 6, eStartPoint = \<lparr>Row = 0, Column = 2\<rparr>,
       eOldEndPoint = \<lparr>Row = 0, Column = 3\<rparr>, eNewEndPoint = \<lparr>Row = 0, Column = 6\<rparr>\<rparr> \<and>
   edit_ok (enc [0xE9, 0x61, 0x62])
     \<lparr>eStartByte = 2, eOldEndByte = 3, eNewEndByte = 6, eStartPoint = \<lparr>Row = 0, Column = 2\<rparr>,
       eOldEndPoint = \<lparr>Row = 0, Column = 3\<rparr>, eNewEndPoint = \<lparr>Row = 0, Column = 6\<rparr>\<rparr>
     (enc [0xD83D, 0xDE00])"
proof -
  have "InputEditForUTF16 (encodeUTF16ToUTF8WithMap [0xE9, 0x61, 0x62])
     \<lparr>editStartCodeUnit = 1, editOldEndCodeUnit = 2, editNewEndCodeUnit = 3\<rparr> [0xE9, 0xD83D, 0xDE00, 0x62] =
     Some \<lparr>eStartByte = 2, eOldEndByte = 3, eNewEndByte = 6, eStartPoint = \<lparr>Row = 0, Column = 2\<rparr>,
       eOldEndPoint = \<lparr>Row = 0, Column = 3\<rparr>, eNewEndPoint = \<lparr>Row = 0, Column = 6\<rparr>\<rparr>"
    by code_simp
  then show ?thesis
    using utf16_edit_correct [of "[0xE9, 0x61, 0x62]" "[0xE9, 0xD83D, 0xDE00, 0x62]"
        "\<lparr>editStartCodeUnit = 1, editOldEndCodeUnit = 2, editNewEndCodeUnit = 3\<rparr>"]
    by (simp add: go_slice_def)
qed

text \<open>
  \<^bold>\<open>C28.\<close> Included ranges in code units: \<open>IncludedRangesForUTF16\<close> fails exactly when a range
  ends before it starts or has an end that is no character boundary; otherwise the byte ranges
  are separated, carry the right positions, and cover exactly the bytes of the selected
  characters.
\<close>

theorem utf16_ranges_correct:
  assumes "3 * length src < 2 ^ 32"
  shows "case IncludedRangesForUTF16 src rs of
      None \<Rightarrow> \<not> (\<forall>r \<in> set rs. unit_range_ok src r)
    | Some out \<Rightarrow> (\<forall>r \<in> set rs. unit_range_ok src r) \<and> separated out \<and>
        (\<forall>r \<in> set out. range_points_ok (enc src) r) \<and>
        (\<forall>n. covers out n \<longleftrightarrow> (\<exists>r \<in> set rs. unit_range_covers src r (unat n)))"
proof (cases "rs = []")
  case True
  then show ?thesis by (simp add: IncludedRangesForUTF16_def includedRangesForUTF16_def)
next
  case False
  note spec = byte_ranges_spec [OF assms, of rs]
  show ?thesis
  proof (cases "byte_ranges (encodeUTF16ToUTF8WithMap src) rs")
    case None
    then show ?thesis using False spec(1) by (simp add: IncludedRangesForUTF16_def includedRangesForUTF16_def)
  next
    case (Some bs)
    have "IncludedRangesForUTF16 src rs = Some (normalizeIncludedRanges bs)"
      using False Some by (simp add: IncludedRangesForUTF16_def includedRangesForUTF16_def)
    then show ?thesis
      using spec(1) spec(2) [OF Some] Some normalizeIncludedRanges_separated [of bs]
        normalizeIncludedRanges_points [of bs "enc src"]
      by (simp add: normalizeIncludedRanges_covers)
  qed
qed

theorem utf16_ranges_correct_witness:
  "IncludedRangesForUTF16 [0xE9, 0x61, 0xD83D, 0xDE00]
     [\<lparr>StartCodeUnit = 1, EndCodeUnit = 3, uStartPoint = zero_point, uEndPoint = zero_point\<rparr>] = None \<and>
   \<not> unit_range_ok [0xE9, 0x61, 0xD83D, 0xDE00]
     \<lparr>StartCodeUnit = 1, EndCodeUnit = 3, uStartPoint = zero_point, uEndPoint = zero_point\<rparr>"
proof -
  have "IncludedRangesForUTF16 [0xE9, 0x61, 0xD83D, 0xDE00]
     [\<lparr>StartCodeUnit = 1, EndCodeUnit = 3, uStartPoint = zero_point, uEndPoint = zero_point\<rparr>] = None"
    by code_simp
  then show ?thesis
    using utf16_ranges_correct [of "[0xE9, 0x61, 0xD83D, 0xDE00]"
        "[\<lparr>StartCodeUnit = 1, EndCodeUnit = 3, uStartPoint = zero_point, uEndPoint = zero_point\<rparr>]"]
    by simp
qed

end
