(* ===== verification/Tree_Edit.thy ===== *)
theory Tree_Edit
  imports Included_Ranges
begin

text \<open>
  Editing syntax trees (\<open>tree.go\<close>): \<open>Tree.Edit\<close>, which moves the nodes of a tree to their
  places in an edited text and marks those that overlap the edit, its shortcut for the
  replacement of one byte, and the comparison of two trees. A node has its children directly or
  as references to compact payloads, which are full nodes, nodes without points, leaves, or
  pending parents; parent links and the parse states of nodes take no part in an edit. The
  compatibility pass that \<open>Tree.Edit\<close> runs once on a finished tree has been run.
\<close>

subsection \<open>Nodes\<close>

record no_tree_node =
  nStartByte :: u32
  nEndByte :: u32
  nSymbol :: u16
  nDirty :: bool

record node = no_tree_node +
  nStartPoint :: point
  nEndPoint :: point

text \<open>What can have children: a node with its child slice, a node with final child references,
  and a pending parent.\<close>

datatype branch_kind = FullNode | RefsNode | PendingParent

datatype tree_node =
  Branch branch_kind node "tree_node list"
| NoTreeEntry no_tree_node
| LeafEntry node
| NoEntry

fun stackEntryNodeStartByte :: "tree_node \<Rightarrow> u32" where
  "stackEntryNodeStartByte (Branch _ d _) = nStartByte d"
| "stackEntryNodeStartByte (NoTreeEntry d) = nStartByte d"
| "stackEntryNodeStartByte (LeafEntry d) = nStartByte d"
| "stackEntryNodeStartByte NoEntry = 0"

fun stackEntryNodeEndByte :: "tree_node \<Rightarrow> u32" where
  "stackEntryNodeEndByte (Branch _ d _) = nEndByte d"
| "stackEntryNodeEndByte (NoTreeEntry d) = nEndByte d"
| "stackEntryNodeEndByte (LeafEntry d) = nEndByte d"
| "stackEntryNodeEndByte NoEntry = 0"

subsection \<open>Moving positions\<close>

definition addUint32Delta :: "u32 \<Rightarrow> int \<Rightarrow> u32" where
  "addUint32Delta v delta =
     (let moved = uint v + delta in
      if moved < 0 then 0 else if moved > 2 ^ 32 - 1 then - 1 else word_of_int moved)"

definition shiftPointAfterEdit :: "point \<Rightarrow> input_edit \<Rightarrow> int \<Rightarrow> point" where
  "shiftPointAfterEdit p ed rowDelta =
     (if Row p < Row (eOldEndPoint ed) then p
      else if Row p > Row (eOldEndPoint ed) then p\<lparr>Row := addUint32Delta (Row p) rowDelta\<rparr>
      else
        (let columnDelta =
           (if Column p \<ge> Column (eOldEndPoint ed) then Column p - Column (eOldEndPoint ed) else 0)
         in \<lparr>Row = addUint32Delta (Row p) rowDelta,
             Column = addUint32Delta (Column (eNewEndPoint ed)) (uint columnDelta)\<rparr>))"

definition shiftNoTreeNodeAfterEdit :: "int \<Rightarrow> 'a no_tree_node_scheme \<Rightarrow> 'a no_tree_node_scheme" where
  "shiftNoTreeNodeAfterEdit byteDelta n =
     n\<lparr>nStartByte := addUint32Delta (nStartByte n) byteDelta, nEndByte := addUint32Delta (nEndByte n) byteDelta\<rparr>"

definition shiftCompactFullLeafAfterEdit :: "input_edit \<Rightarrow> int \<Rightarrow> int \<Rightarrow> node \<Rightarrow> node" where
  "shiftCompactFullLeafAfterEdit ed byteDelta rowDelta n =
     (shiftNoTreeNodeAfterEdit byteDelta n)
       \<lparr>nStartPoint := shiftPointAfterEdit (nStartPoint n) ed rowDelta,
        nEndPoint := shiftPointAfterEdit (nEndPoint n) ed rowDelta\<rparr>"

text \<open>The work list of the code visits every node of the subtree once.\<close>

fun shiftStackEntrySubtreeAfterEdit :: "input_edit \<Rightarrow> int \<Rightarrow> int \<Rightarrow> tree_node \<Rightarrow> tree_node" where
  "shiftStackEntrySubtreeAfterEdit ed bd rd (Branch k d cs) =
     Branch k (shiftCompactFullLeafAfterEdit ed bd rd d) (map (shiftStackEntrySubtreeAfterEdit ed bd rd) cs)"
| "shiftStackEntrySubtreeAfterEdit ed bd rd (NoTreeEntry d) = NoTreeEntry (shiftNoTreeNodeAfterEdit bd d)"
| "shiftStackEntrySubtreeAfterEdit ed bd rd (LeafEntry d) = LeafEntry (shiftCompactFullLeafAfterEdit ed bd rd d)"
| "shiftStackEntrySubtreeAfterEdit ed bd rd NoEntry = NoEntry"

subsection \<open>Editing\<close>

text \<open>A node that overlaps the edit, without and with points.\<close>

definition mark_edited :: "input_edit \<Rightarrow> int \<Rightarrow> 'a no_tree_node_scheme \<Rightarrow> 'a no_tree_node_scheme" where
  "mark_edited ed bd n =
     n\<lparr>nDirty := True,
       nStartByte := if nStartByte n > eStartByte ed then eNewEndByte ed else nStartByte n,
       nEndByte := if nEndByte n \<le> eOldEndByte ed then eNewEndByte ed else addUint32Delta (nEndByte n) bd\<rparr>"

definition edit_span :: "input_edit \<Rightarrow> int \<Rightarrow> int \<Rightarrow> node \<Rightarrow> node" where
  "edit_span ed bd rd n =
     (mark_edited ed bd n)
       \<lparr>nStartPoint := if nStartByte n > eStartByte ed then eNewEndPoint ed else nStartPoint n,
        nEndPoint := if nEndByte n \<le> eOldEndByte ed then eNewEndPoint ed else shiftPointAfterEdit (nEndPoint n) ed rd\<rparr>"

text \<open>The last leaf that the edit reached, as the edit leaves it. \<open>editNodeWithDelta\<close> is the case of
  a node, full or with references; the three loops over children are the same loop, in which an
  absent payload is passed over.\<close>

type_synonym leaf_hint = "node option"

fun editStackEntryWithDelta ::
  "input_edit \<Rightarrow> int \<Rightarrow> int \<Rightarrow> bool \<Rightarrow> tree_node \<Rightarrow> leaf_hint \<Rightarrow> tree_node \<times> leaf_hint"
  and edit_children ::
  "input_edit \<Rightarrow> int \<Rightarrow> int \<Rightarrow> bool \<Rightarrow> tree_node list \<Rightarrow> leaf_hint \<Rightarrow> tree_node list \<times> bool \<times> leaf_hint" where
  "editStackEntryWithDelta ed bd rd tail (Branch k d cs) hint =
     (if nEndByte d \<le> eStartByte ed then (Branch k d cs, hint)
      else if nStartByte d \<ge> eOldEndByte ed then
        (if \<not> tail then Branch k d cs else shiftStackEntrySubtreeAfterEdit ed bd rd (Branch k d cs), hint)
      else
        (let d' = edit_span ed bd rd d; (cs', descended, hint') = edit_children ed bd rd tail cs hint
         in (Branch k d' cs', if k \<noteq> PendingParent \<and> \<not> descended \<and> cs = [] then Some d' else hint')))"
| "editStackEntryWithDelta ed bd rd tail (NoTreeEntry d) hint =
     (if nEndByte d \<le> eStartByte ed then (NoTreeEntry d, hint)
      else if nStartByte d \<ge> eOldEndByte ed then
        (if \<not> tail then NoTreeEntry d else shiftStackEntrySubtreeAfterEdit ed bd rd (NoTreeEntry d), hint)
      else (NoTreeEntry (mark_edited ed bd d), hint))"
| "editStackEntryWithDelta ed bd rd tail (LeafEntry d) hint =
     (if nEndByte d \<le> eStartByte ed then (LeafEntry d, hint)
      else if nStartByte d \<ge> eOldEndByte ed then
        (if \<not> tail then LeafEntry d else shiftStackEntrySubtreeAfterEdit ed bd rd (LeafEntry d), hint)
      else (LeafEntry (edit_span ed bd rd d), hint))"
| "editStackEntryWithDelta ed bd rd tail NoEntry hint = (NoEntry, hint)"
| "edit_children ed bd rd tail [] hint = ([], False, hint)"
| "edit_children ed bd rd tail (c # cs) hint =
     (if c = NoEntry \<or> stackEntryNodeEndByte c \<le> eStartByte ed then
        (let (cs', descended, hint') = edit_children ed bd rd tail cs hint in (c # cs', descended, hint'))
      else if stackEntryNodeStartByte c \<ge> eOldEndByte ed then
        (if \<not> tail then (c # cs, False, hint)
         else
           (let (cs', descended, hint') = edit_children ed bd rd tail cs hint
            in (shiftStackEntrySubtreeAfterEdit ed bd rd c # cs', descended, hint')))
      else
        (let (c', hint1) = editStackEntryWithDelta ed bd rd tail c hint;
             (cs', _, hint2) = edit_children ed bd rd tail cs hint1
         in (c' # cs', True, hint2)))"

fun editNodeSingleByteReplacement :: "input_edit \<Rightarrow> tree_node \<Rightarrow> leaf_hint \<Rightarrow> tree_node \<times> leaf_hint"
  and replace_children :: "input_edit \<Rightarrow> tree_node list \<Rightarrow> leaf_hint \<Rightarrow> tree_node list \<times> bool \<times> leaf_hint" where
  "editNodeSingleByteReplacement ed (Branch k d cs) hint =
     (if nEndByte d \<le> eStartByte ed \<or> nStartByte d \<ge> eOldEndByte ed then (Branch k d cs, hint)
      else if k \<noteq> FullNode then editStackEntryWithDelta ed 0 0 False (Branch k d cs) hint
      else
        (let d' = d\<lparr>nDirty := True\<rparr>; (cs', descended, hint') = replace_children ed cs hint
         in (Branch k d' cs', if \<not> descended \<and> cs = [] then Some d' else hint')))"
| "editNodeSingleByteReplacement ed n hint = (n, hint)"
| "replace_children ed [] hint = ([], False, hint)"
| "replace_children ed (c # cs) hint =
     (if stackEntryNodeEndByte c \<le> eStartByte ed then
        (let (cs', descended, hint') = replace_children ed cs hint in (c # cs', descended, hint'))
      else if stackEntryNodeStartByte c \<ge> eOldEndByte ed then (c # cs, False, hint)
      else
        (let (c', hint1) = editNodeSingleByteReplacement ed c hint; (cs', _, hint2) = replace_children ed cs hint1
         in (c' # cs', True, hint2)))"

definition inputEditIsNoop :: "input_edit \<Rightarrow> bool" where
  "inputEditIsNoop ed \<longleftrightarrow>
     eStartByte ed = eOldEndByte ed \<and> eOldEndByte ed = eNewEndByte ed \<and>
     eStartPoint ed = eOldEndPoint ed \<and> eOldEndPoint ed = eNewEndPoint ed"

definition inputEditIsSingleByteReplacement :: "input_edit \<Rightarrow> bool" where
  "inputEditIsSingleByteReplacement ed \<longleftrightarrow>
     eNewEndByte ed = eOldEndByte ed \<and> eOldEndByte ed > eStartByte ed \<and>
     eOldEndByte ed - eStartByte ed = 1 \<and> eNewEndPoint ed = eOldEndPoint ed"

definition byte_delta :: "input_edit \<Rightarrow> int" where
  "byte_delta ed = uint (eNewEndByte ed) - uint (eOldEndByte ed)"

definition row_delta :: "input_edit \<Rightarrow> int" where
  "row_delta ed = uint (Row (eNewEndPoint ed)) - uint (Row (eOldEndPoint ed))"

definition has_tail_shift :: "input_edit \<Rightarrow> bool" where
  "has_tail_shift ed \<longleftrightarrow> byte_delta ed \<noteq> 0 \<or> eNewEndPoint ed \<noteq> eOldEndPoint ed"

text \<open>The call from the top, with the deltas of the edit.\<close>

definition edit_with_deltas :: "input_edit \<Rightarrow> tree_node \<Rightarrow> leaf_hint \<Rightarrow> tree_node \<times> leaf_hint" where
  "edit_with_deltas ed n hint =
     editStackEntryWithDelta ed (byte_delta ed) (row_delta ed) (has_tail_shift ed) n hint"

definition editNode :: "tree_node \<Rightarrow> input_edit \<Rightarrow> tree_node" where
  "editNode n ed = fst (edit_with_deltas ed n None)"

text \<open>\<open>Node.Edit\<close> on the root of the node's tree.\<close>

definition node_Edit :: "tree_node \<Rightarrow> input_edit \<Rightarrow> tree_node" where
  "node_Edit root ed = (if inputEditIsNoop ed then root else editNode root ed)"

record tree =
  tRoot :: "tree_node option"
  tEdits :: "input_edit list"
  lastEditedLeaf :: leaf_hint

definition tree_Edit :: "tree \<Rightarrow> input_edit \<Rightarrow> tree" where
  "tree_Edit t ed =
     (let t' = t\<lparr>tEdits := tEdits t @ [ed], lastEditedLeaf := None\<rparr> in
      case tRoot t of
        None \<Rightarrow> t'
      | Some root \<Rightarrow>
          (let (root', hint) =
             (if inputEditIsSingleByteReplacement ed then editNodeSingleByteReplacement ed root None
              else edit_with_deltas ed root None)
           in t'\<lparr>tRoot := Some root', lastEditedLeaf := hint\<rparr>))"

definition ChangedRanges :: "tree \<Rightarrow> range list" where
  "ChangedRanges t =
     (if tEdits t = [] then []
      else coalesceRanges (map (\<lambda>e. \<lparr>rStartByte = eStartByte e, rEndByte = eNewEndByte e,
        rStartPoint = eStartPoint e, rEndPoint = eNewEndPoint e\<rparr>) (tEdits t)))"

subsection \<open>Trees of a source\<close>

text \<open>The spans lie in the source with the right points, and children lie in their parent one
  after the other.\<close>

definition bytes_ok :: "bytes \<Rightarrow> 'a no_tree_node_scheme \<Rightarrow> bool" where
  "bytes_ok src d \<longleftrightarrow> nStartByte d \<le> nEndByte d \<and> unat (nEndByte d) \<le> length src"

definition span_ok :: "bytes \<Rightarrow> node \<Rightarrow> bool" where
  "span_ok src d \<longleftrightarrow>
     bytes_ok src d \<and> nStartPoint d = point_at src (unat (nStartByte d)) \<and> nEndPoint d = point_at src (unat (nEndByte d))"

fun in_order :: "u32 \<Rightarrow> u32 \<Rightarrow> tree_node list \<Rightarrow> bool" where
  "in_order lo hi [] \<longleftrightarrow> lo \<le> hi"
| "in_order lo hi (c # cs) \<longleftrightarrow>
     (if c = NoEntry then in_order lo hi cs
      else lo \<le> stackEntryNodeStartByte c \<and> in_order (stackEntryNodeEndByte c) hi cs)"

fun is_node :: "tree_node \<Rightarrow> bool" where
  "is_node (Branch k _ _) \<longleftrightarrow> k \<noteq> PendingParent"
| "is_node _ \<longleftrightarrow> False"

fun tree_ok :: "bytes \<Rightarrow> tree_node \<Rightarrow> bool" where
  "tree_ok src (Branch k d cs) \<longleftrightarrow>
     span_ok src d \<and> in_order (nStartByte d) (nEndByte d) cs \<and> (\<forall>c \<in> set cs. tree_ok src c) \<and>
     (k = FullNode \<longrightarrow> (\<forall>c \<in> set cs. is_node c))"
| "tree_ok src (NoTreeEntry d) \<longleftrightarrow> bytes_ok src d"
| "tree_ok src (LeafEntry d) \<longleftrightarrow> span_ok src d"
| "tree_ok src NoEntry \<longleftrightarrow> True"

definition good_edit :: "bytes \<Rightarrow> input_edit \<Rightarrow> bytes \<Rightarrow> bool" where
  "good_edit src ed t \<longleftrightarrow> edit_ok src ed t \<and> length src < 2 ^ 32 \<and> length (run_edit src ed t) < 2 ^ 32"

text \<open>The nodes of a tree from the root down, without their points.\<close>

fun cells :: "tree_node \<Rightarrow> no_tree_node list" where
  "cells (Branch _ d cs) = no_tree_node.truncate d # concat (map cells cs)"
| "cells (NoTreeEntry d) = [d]"
| "cells (LeafEntry d) = [no_tree_node.truncate d]"
| "cells NoEntry = []"

definition overlaps :: "input_edit \<Rightarrow> no_tree_node \<Rightarrow> bool" where
  "overlaps ed d \<longleftrightarrow> eStartByte ed < nEndByte d \<and> nStartByte d < eOldEndByte ed"

subsection \<open>Lemmas: positions under an edit\<close>

lemma addUint32Delta_eq:
  assumes "0 \<le> uint v + delta" and "uint v + delta < 2 ^ 32"
  shows "addUint32Delta v delta = v + word_of_int delta" "uint (addUint32Delta v delta) = uint v + delta"
proof -
  have "\<not> uint v + delta > 2 ^ 32 - 1" using assms(2) by linarith
  then have eq: "addUint32Delta v delta = word_of_int (uint v + delta)"
    using assms(1) by (simp add: addUint32Delta_def Let_def)
  then show "addUint32Delta v delta = v + word_of_int delta" by (simp add: wi_hom_syms)
  show "uint (addUint32Delta v delta) = uint v + delta"
    unfolding eq uint_word_of_int using assms by simp
qed

lemma point_bound:
  "length bs < 2 ^ 32 \<Longrightarrow>
     unat (Row (computeNewEndPoint zero_point bs)) + unat (Column (computeNewEndPoint zero_point bs)) \<le> length bs"
proof (induction bs rule: rev_induct)
  case (snoc b bs)
  let ?p = "computeNewEndPoint zero_point bs"
  have IH: "unat (Row ?p) + unat (Column ?p) \<le> length bs" using snoc by simp
  have "unat (x + 1) \<le> unat x + 1" for x :: u32
    using mod_less_eq_dividend [of "unat x + 1" "2 ^ 32"] by (simp only: unat_word_ariths unat_1 len_num1 len_bit0 flip: len_bit1) simp
  then have "unat (Row ?p + 1) \<le> unat (Row ?p) + 1" "unat (Column ?p + 1) \<le> unat (Column ?p) + 1" by blast+
  then show ?case using IH by (simp add: computeNewEndPoint_append computeNewEndPoint_Cons point_step_def)
qed simp

lemma run_edit_take:
  assumes "edit_ok src ed t"
  shows "n \<le> unat (eStartByte ed) \<Longrightarrow> take n (run_edit src ed t) = take n src"
    and "take (unat (eNewEndByte ed) + m) (run_edit src ed t) =
      take (unat (eNewEndByte ed)) (run_edit src ed t) @ take m (drop (unat (eOldEndByte ed)) src)"
    and "drop (unat (eNewEndByte ed) + m) (run_edit src ed t) = drop (unat (eOldEndByte ed) + m) src"
    and "length (run_edit src ed t) + unat (eOldEndByte ed) = length src + unat (eNewEndByte ed)"
proof -
  define pre where "pre = take (unat (eStartByte ed)) src"
  have le: "unat (eStartByte ed) \<le> unat (eOldEndByte ed)" "unat (eOldEndByte ed) \<le> length src"
    using assms by (simp_all add: edit_ok_def word_le_nat_alt)
  then have len: "length pre = unat (eStartByte ed)" by (simp add: pre_def)
  have out: "run_edit src ed t = pre @ t @ drop (unat (eOldEndByte ed)) src" by (simp add: run_edit_def pre_def)
  have new: "unat (eNewEndByte ed) = length pre + length t" using assms by (simp add: edit_ok_def len)
  show "take n (run_edit src ed t) = take n src" if "n \<le> unat (eStartByte ed)"
    using that le by (simp add: run_edit_def min_def)
  show "take (unat (eNewEndByte ed) + m) (run_edit src ed t) =
      take (unat (eNewEndByte ed)) (run_edit src ed t) @ take m (drop (unat (eOldEndByte ed)) src)"
    by (simp add: out new)
  show "drop (unat (eNewEndByte ed) + m) (run_edit src ed t) = drop (unat (eOldEndByte ed) + m) src"
    by (simp add: out new add.commute)
  show "length (run_edit src ed t) + unat (eOldEndByte ed) = length src + unat (eNewEndByte ed)"
    using le by (simp add: out new)
qed

lemma point_at_prefix:
  "edit_ok src ed t \<Longrightarrow> n \<le> unat (eStartByte ed) \<Longrightarrow> point_at (run_edit src ed t) n = point_at src n"
  by (simp add: point_at_def run_edit_take(1))

lemma point_at_tail:
  assumes "edit_ok src ed t"
  shows "point_at src (unat (eOldEndByte ed) + m) = computeNewEndPoint (eOldEndPoint ed) (take m (drop (unat (eOldEndByte ed)) src))"
    and "point_at (run_edit src ed t) (unat (eNewEndByte ed) + m) =
      computeNewEndPoint (eNewEndPoint ed) (take m (drop (unat (eOldEndByte ed)) src))"
proof -
  have ends: "eOldEndPoint ed = point_at src (unat (eOldEndByte ed))"
    "eNewEndPoint ed = point_at (run_edit src ed t) (unat (eNewEndByte ed))" using assms by (simp_all add: edit_ok_def)
  show "point_at src (unat (eOldEndByte ed) + m) = computeNewEndPoint (eOldEndPoint ed) (take m (drop (unat (eOldEndByte ed)) src))"
    unfolding ends by (simp add: point_at_def take_add computeNewEndPoint_append)
  show "point_at (run_edit src ed t) (unat (eNewEndByte ed) + m) =
      computeNewEndPoint (eNewEndPoint ed) (take m (drop (unat (eOldEndByte ed)) src))"
    unfolding ends by (simp add: point_at_def run_edit_take(2) [OF assms] computeNewEndPoint_append)
qed

lemma point_at_bound:
  "n \<le> length src \<Longrightarrow> length src < 2 ^ 32 \<Longrightarrow> unat (Row (point_at src n)) + unat (Column (point_at src n)) \<le> n"
  using point_bound [of "take n src"] by (simp add: point_at_def)

text \<open>Moving the point \<open>p\<close> after the old end over \<open>bs\<close> to the same place after the new end \<open>q\<close>.\<close>

lemma shift_point_over:
  assumes p: "unat (Row p) + unat (Column p) + length bs < 2 ^ 32" and q: "unat (Row q) + unat (Column q) + length bs < 2 ^ 32"
    and ed: "eOldEndPoint ed = p" "eNewEndPoint ed = q"
  shows "shiftPointAfterEdit (computeNewEndPoint p bs) ed (row_delta ed) = computeNewEndPoint q bs"
proof -
  have uadd: "uint (x + u32_of k) = uint x + int k" if "unat x + k < 2 ^ 32" for x :: u32 and k
  proof -
    have k: "unat (u32_of k) = k" using that by (intro unat_u32_of) linarith
    have "unat (x + u32_of k) = unat x + k" using unat_add_lem [of x "u32_of k"] that unfolding k by simp
    then have "int (unat (x + u32_of k)) = int (unat x) + int k" by (simp only: of_nat_add)
    then show ?thesis by (simp only: uint_nat)
  qed
  have rd: "row_delta ed = uint (Row q) - uint (Row p)" by (simp add: row_delta_def ed)
  show ?thesis
  proof (cases "10 \<in> set bs")
    case True
    let ?k = "count_list bs 10"
    have k: "?k \<le> length bs" "0 < ?k" using count_le_length [of bs 10] count_list_0_iff [of bs 10] True by auto
    note P = newline_point [OF True]
    have row: "uint (Row p + u32_of ?k) = uint (Row p) + int ?k" "uint (Row q + u32_of ?k) = uint (Row q) + int ?k"
      using p q k by (intro uadd; linarith)+
    have less: "Row p < Row p + u32_of ?k" using row(1) k(2) by (simp add: word_less_def)
    have "uint (Row q + u32_of ?k) < 2 ^ 32" by (simp add: uint_lt2p [where 'a = 32, simplified])
    then have "uint (addUint32Delta (Row p + u32_of ?k) (row_delta ed)) = uint (Row q + u32_of ?k)"
      using addUint32Delta_eq(2) [of "Row p + u32_of ?k" "row_delta ed"] row rd by simp
    then have "addUint32Delta (Row p + u32_of ?k) (row_delta ed) = Row q + u32_of ?k" by (simp only: word_uint_eq_iff)
    then show ?thesis using less less_not_sym [OF less] by (simp add: P shiftPointAfterEdit_def ed Let_def)
  next
    case False
    let ?m = "length bs"
    have P: "computeNewEndPoint p bs = \<lparr>Row = Row p, Column = Column p + u32_of ?m\<rparr>"
      "computeNewEndPoint q bs = \<lparr>Row = Row q, Column = Column q + u32_of ?m\<rparr>"
      by (simp_all add: no_newline_point [OF False])
    have col: "uint (Column p + u32_of ?m) = uint (Column p) + int ?m" "uint (Column q + u32_of ?m) = uint (Column q) + int ?m"
      using p q by (intro uadd; linarith)+
    have m: "uint (u32_of ?m) = int ?m" using uadd [of 0 ?m] p by simp
    have "uint (Column q + u32_of ?m) < 2 ^ 32" by (simp add: uint_lt2p [where 'a = 32, simplified])
    then have c: "addUint32Delta (Column q) (uint (u32_of ?m)) = Column q + u32_of ?m"
      using addUint32Delta_eq(1) [of "Column q" "int ?m"] col(2) m by (simp add: u32_of_def)
    have r: "addUint32Delta (Row p) (row_delta ed) = Row q"
      using addUint32Delta_eq(1) [of "Row p" "row_delta ed"] rd uint_lt2p [of "Row q"] by simp
    have "Column p \<le> Column p + u32_of ?m" using col(1) by (simp add: word_le_def)
    then show ?thesis unfolding P by (simp add: shiftPointAfterEdit_def ed Let_def r c)
  qed
qed

lemma edit_numbers:
  assumes "good_edit src ed t"
  defines "S \<equiv> unat (eStartByte ed)" and "O' \<equiv> unat (eOldEndByte ed)" and "N \<equiv> unat (eNewEndByte ed)"
  shows "S \<le> O'" "O' \<le> length src" "S \<le> N" "N \<le> length (run_edit src ed t)"
    "length (run_edit src ed t) + O' = length src + N" "length src < 2 ^ 32" "length (run_edit src ed t) < 2 ^ 32"
    "byte_delta ed = int N - int O'"
proof -
  have ok: "edit_ok src ed t" using assms(1) by (simp add: good_edit_def)
  then show "S \<le> O'" "O' \<le> length src" "S \<le> N" by (simp_all add: edit_ok_def word_le_nat_alt assms(2-4))
  then show "N \<le> length (run_edit src ed t)" using run_edit_take(4) [OF ok] unfolding assms(2-4) by linarith
  show "length (run_edit src ed t) + O' = length src + N" using run_edit_take(4) [OF ok] by (simp add: assms(2-4))
  show "length src < 2 ^ 32" "length (run_edit src ed t) < 2 ^ 32" using assms(1) by (simp_all add: good_edit_def)
  show "byte_delta ed = int N - int O'" by (simp only: byte_delta_def assms(2-4) uint_nat)
qed

lemma shift_point:
  assumes "good_edit src ed t" and "unat (eOldEndByte ed) \<le> n" and "n \<le> length src"
  shows "shiftPointAfterEdit (point_at src n) ed (row_delta ed) =
      point_at (run_edit src ed t) (n - unat (eOldEndByte ed) + unat (eNewEndByte ed))"
    and "eNewEndPoint ed = eOldEndPoint ed \<Longrightarrow> shiftPointAfterEdit (point_at src n) ed (row_delta ed) = point_at src n"
proof -
  define m where "m = n - unat (eOldEndByte ed)"
  have n: "n = unat (eOldEndByte ed) + m" using assms(2) by (simp add: m_def)
  have ok: "edit_ok src ed t" using assms(1) by (simp add: good_edit_def)
  let ?bs = "take m (drop (unat (eOldEndByte ed)) src)"
  note num = edit_numbers [OF assms(1)]
  have "unat (Row (eOldEndPoint ed)) + unat (Column (eOldEndPoint ed)) \<le> unat (eOldEndByte ed)"
    "unat (Row (eNewEndPoint ed)) + unat (Column (eNewEndPoint ed)) \<le> unat (eNewEndByte ed)"
    using ok point_at_bound [OF num(2,6)] point_at_bound [OF num(4,7)] by (simp_all add: edit_ok_def)
  moreover have "length ?bs = m" using assms(3) n by simp
  moreover have "unat (eOldEndByte ed) + m < 2 ^ 32" "unat (eNewEndByte ed) + m < 2 ^ 32"
    using num(5-7) assms(3) n by linarith+
  ultimately have over: "shiftPointAfterEdit (point_at src n) ed (row_delta ed) = computeNewEndPoint (eNewEndPoint ed) ?bs"
    unfolding n point_at_tail(1) [OF ok] by (intro shift_point_over refl) linarith+
  then show "shiftPointAfterEdit (point_at src n) ed (row_delta ed) =
      point_at (run_edit src ed t) (n - unat (eOldEndByte ed) + unat (eNewEndByte ed))"
    using point_at_tail(2) [OF ok, of m] by (simp add: n add.commute)
  show "shiftPointAfterEdit (point_at src n) ed (row_delta ed) = point_at src n" if "eNewEndPoint ed = eOldEndPoint ed"
    unfolding over unfolding that by (simp add: n point_at_tail(1) [OF ok])
qed

lemma shift_byte:
  assumes "good_edit src ed t" and "unat (eOldEndByte ed) \<le> unat v" and "unat v \<le> length src"
  shows "unat (addUint32Delta v (byte_delta ed)) = unat v - unat (eOldEndByte ed) + unat (eNewEndByte ed)"
proof -
  note num = edit_numbers [OF assms(1)]
  have "uint v + byte_delta ed = int (unat v - unat (eOldEndByte ed) + unat (eNewEndByte ed))"
    using num(8) assms(2) by (simp only: uint_nat)
  moreover have "unat v - unat (eOldEndByte ed) + unat (eNewEndByte ed) < 2 ^ 32" using num(5,7) assms(2,3) by linarith
  then have "int (unat v - unat (eOldEndByte ed) + unat (eNewEndByte ed)) < int (2 ^ 32)" by (simp only: of_nat_less_iff)
  ultimately have "uint (addUint32Delta v (byte_delta ed)) = int (unat v - unat (eOldEndByte ed) + unat (eNewEndByte ed))"
    using addUint32Delta_eq(2) [of v "byte_delta ed"] by simp
  then show ?thesis by (simp only: uint_nat of_nat_eq_iff)
qed

subsection \<open>Lemmas: the traversal\<close>

lemma shift_entry_simps [simp]:
  "shiftStackEntrySubtreeAfterEdit ed bd rd c = NoEntry \<longleftrightarrow> c = NoEntry"
  "is_node (shiftStackEntrySubtreeAfterEdit ed bd rd c) = is_node c"
  "c \<noteq> NoEntry \<Longrightarrow> stackEntryNodeStartByte (shiftStackEntrySubtreeAfterEdit ed bd rd c) = addUint32Delta (stackEntryNodeStartByte c) bd"
  "c \<noteq> NoEntry \<Longrightarrow> stackEntryNodeEndByte (shiftStackEntrySubtreeAfterEdit ed bd rd c) = addUint32Delta (stackEntryNodeEndByte c) bd"
  by (cases c; simp add: shiftCompactFullLeafAfterEdit_def shiftNoTreeNodeAfterEdit_def)+

lemma tree_ok_bytes:
  "tree_ok src c \<Longrightarrow> c \<noteq> NoEntry \<Longrightarrow>
     stackEntryNodeStartByte c \<le> stackEntryNodeEndByte c \<and> unat (stackEntryNodeEndByte c) \<le> length src"
  by (cases c) (auto simp: span_ok_def bytes_ok_def)

lemma in_order_bounds:
  assumes "in_order lo hi cs" and "\<forall>c \<in> set cs. tree_ok src c"
  shows "lo \<le> hi \<and> (\<forall>c \<in> set cs. c \<noteq> NoEntry \<longrightarrow> lo \<le> stackEntryNodeStartByte c \<and> stackEntryNodeEndByte c \<le> hi)"
  using assms
proof (induction cs arbitrary: lo)
  case (Cons c cs)
  show ?case
  proof (cases "c = NoEntry")
    case True
    then show ?thesis using Cons by simp
  next
    case False
    then have c: "stackEntryNodeStartByte c \<le> stackEntryNodeEndByte c" using tree_ok_bytes [of src c] Cons.prems by simp
    have "lo \<le> stackEntryNodeStartByte c" "in_order (stackEntryNodeEndByte c) hi cs" using Cons.prems False by simp_all
    then show ?thesis using Cons.IH [of "stackEntryNodeEndByte c"] c Cons.prems(2) by force
  qed
qed simp

text \<open>What the edit makes of a tree when nothing is skipped for lack of a shift.\<close>

fun edited :: "input_edit \<Rightarrow> tree_node \<Rightarrow> tree_node" where
  "edited ed (Branch k d cs) =
     (if nEndByte d \<le> eStartByte ed then Branch k d cs
      else if nStartByte d \<ge> eOldEndByte ed then shiftStackEntrySubtreeAfterEdit ed (byte_delta ed) (row_delta ed) (Branch k d cs)
      else Branch k (edit_span ed (byte_delta ed) (row_delta ed) d) (map (edited ed) cs))"
| "edited ed (NoTreeEntry d) =
     (if nEndByte d \<le> eStartByte ed then NoTreeEntry d
      else if nStartByte d \<ge> eOldEndByte ed then shiftStackEntrySubtreeAfterEdit ed (byte_delta ed) (row_delta ed) (NoTreeEntry d)
      else NoTreeEntry (mark_edited ed (byte_delta ed) d))"
| "edited ed (LeafEntry d) =
     (if nEndByte d \<le> eStartByte ed then LeafEntry d
      else if nStartByte d \<ge> eOldEndByte ed then shiftStackEntrySubtreeAfterEdit ed (byte_delta ed) (row_delta ed) (LeafEntry d)
      else LeafEntry (edit_span ed (byte_delta ed) (row_delta ed) d))"
| "edited ed NoEntry = NoEntry"

lemma edited_skip: "c = NoEntry \<or> stackEntryNodeEndByte c \<le> eStartByte ed \<Longrightarrow> edited ed c = c"
  by (cases c) auto

lemma edited_shift:
  "c \<noteq> NoEntry \<Longrightarrow> \<not> stackEntryNodeEndByte c \<le> eStartByte ed \<Longrightarrow> stackEntryNodeStartByte c \<ge> eOldEndByte ed \<Longrightarrow>
     edited ed c = shiftStackEntrySubtreeAfterEdit ed (byte_delta ed) (row_delta ed) c"
  by (cases c) auto

lemma edit_edited:
  "fst (editStackEntryWithDelta ed (byte_delta ed) (row_delta ed) True c hint) = edited ed c"
  "fst (edit_children ed (byte_delta ed) (row_delta ed) True cs hint) = map (edited ed) cs"
proof (induction ed "byte_delta ed" "row_delta ed" True c hint and ed "byte_delta ed" "row_delta ed" True cs hint
    rule: editStackEntryWithDelta_edit_children.induct)
  case (6 ed c cs hint)
  obtain c' hint' where "editStackEntryWithDelta ed (byte_delta ed) (row_delta ed) True c hint = (c', hint')" by fastforce
  with 6 show ?case
    by (cases "c = NoEntry \<or> stackEntryNodeEndByte c \<le> eStartByte ed"; cases "stackEntryNodeStartByte c \<ge> eOldEndByte ed")
       (auto simp: edited_skip edited_shift split_beta Let_def)
qed (auto simp: split_beta Let_def)

text \<open>A subtree behind the edit lies behind it as a whole.\<close>

lemma children_behind:
  assumes "in_order lo hi cs" and "\<forall>c \<in> set cs. tree_ok src c" and "b \<le> lo" and "c \<in> set cs" and "c \<noteq> NoEntry"
  shows "b \<le> stackEntryNodeStartByte c"
  using in_order_bounds [OF assms(1,2)] assms(3-5) by auto

lemma children_before:
  assumes "in_order lo hi cs" and "\<forall>c \<in> set cs. tree_ok src c" and "hi \<le> b" and "c \<in> set cs" and "c \<noteq> NoEntry"
  shows "stackEntryNodeEndByte c \<le> b"
  using in_order_bounds [OF assms(1,2)] assms(3-5) by auto

lemma shift_bytes_id:
  assumes "\<not> has_tail_shift ed"
  shows "addUint32Delta v (byte_delta ed) = v" "shiftNoTreeNodeAfterEdit (byte_delta ed) e = e"
proof -
  show id: "addUint32Delta v (byte_delta ed) = v" for v
    using addUint32Delta_eq(1) [of v 0] uint_lt2p [of v] assms by (simp add: has_tail_shift_def)
  show "shiftNoTreeNodeAfterEdit (byte_delta ed) e = e" by (simp add: shiftNoTreeNodeAfterEdit_def id)
qed

lemma shift_span_id:
  assumes "good_edit src ed t" and "\<not> has_tail_shift ed" and "eOldEndByte ed \<le> nStartByte d" and "span_ok src d"
  shows "shiftCompactFullLeafAfterEdit ed (byte_delta ed) (row_delta ed) d = d"
proof -
  have "eNewEndPoint ed = eOldEndPoint ed" using assms(2) by (simp add: has_tail_shift_def)
  moreover have "unat (eOldEndByte ed) \<le> unat (nStartByte d)" "unat (nStartByte d) \<le> unat (nEndByte d)" "unat (nEndByte d) \<le> length src"
    using assms(3,4) by (simp_all add: span_ok_def bytes_ok_def word_le_nat_alt)
  ultimately show ?thesis
    using assms(4) shift_point(2) [OF assms(1)] shift_bytes_id(2) [OF assms(2), of d]
    by (simp add: shiftCompactFullLeafAfterEdit_def span_ok_def)
qed

lemma shift_id:
  assumes "good_edit src ed t" and "\<not> has_tail_shift ed"
  shows "tree_ok src c \<Longrightarrow> c = NoEntry \<or> eOldEndByte ed \<le> stackEntryNodeStartByte c \<Longrightarrow>
    shiftStackEntrySubtreeAfterEdit ed (byte_delta ed) (row_delta ed) c = c"
proof (induction c)
  case (Branch k d cs)
  then have "\<forall>c \<in> set cs. shiftStackEntrySubtreeAfterEdit ed (byte_delta ed) (row_delta ed) c = c"
    using children_behind [of "nStartByte d" "nEndByte d" cs src "eOldEndByte ed"] by auto
  then show ?case using Branch.prems shift_span_id [OF assms] by (simp add: map_idI)
qed (use shift_span_id [OF assms] shift_bytes_id [OF assms(2)] in auto)

text \<open>Stopping at the first child behind an edit that shifts nothing changes nothing.\<close>

lemma behind_unchanged:
  assumes "good_edit src ed t" and "\<not> has_tail_shift ed"
    and "\<forall>c \<in> set cs. tree_ok src c \<and> (c = NoEntry \<or> eOldEndByte ed \<le> stackEntryNodeStartByte c)"
  shows "edit_children ed (byte_delta ed) (row_delta ed) True cs hint = (cs, False, hint)"
  using assms(3) by (induction cs) (auto simp: shift_id [OF assms(1,2)])

lemma edit_children_tail:
  assumes "good_edit src ed t" and "in_order lo hi cs" and "\<forall>c \<in> set cs. tree_ok src c"
    and "\<forall>c \<in> set cs. \<forall>hint. editStackEntryWithDelta ed (byte_delta ed) (row_delta ed) (has_tail_shift ed) c hint =
      editStackEntryWithDelta ed (byte_delta ed) (row_delta ed) True c hint"
  shows "edit_children ed (byte_delta ed) (row_delta ed) (has_tail_shift ed) cs hint =
    edit_children ed (byte_delta ed) (row_delta ed) True cs hint"
  using assms(2-4)
proof (induction cs arbitrary: lo hint)
  case (Cons c cs)
  have IH: "edit_children ed (byte_delta ed) (row_delta ed) (has_tail_shift ed) cs hint =
      edit_children ed (byte_delta ed) (row_delta ed) True cs hint" for hint
    using Cons.IH [of "if c = NoEntry then lo else stackEntryNodeEndByte c"] Cons.prems by (auto split: if_splits)
  show ?case
  proof (cases "c \<noteq> NoEntry \<and> \<not> stackEntryNodeEndByte c \<le> eStartByte ed \<and> stackEntryNodeStartByte c \<ge> eOldEndByte ed \<and> \<not> has_tail_shift ed")
    case True
    then have "stackEntryNodeStartByte c \<le> stackEntryNodeEndByte c" "in_order (stackEntryNodeEndByte c) hi cs"
      using tree_ok_bytes [of src c] Cons.prems by simp_all
    moreover from this(1) have "eOldEndByte ed \<le> stackEntryNodeEndByte c" using True by (meson order_trans)
    ultimately have "\<forall>x \<in> set (c # cs). tree_ok src x \<and> (x = NoEntry \<or> eOldEndByte ed \<le> stackEntryNodeStartByte x)"
      using children_behind [of "stackEntryNodeEndByte c" hi cs src "eOldEndByte ed"] True Cons.prems(2) by auto
    from behind_unchanged [OF assms(1) _ this] show ?thesis using True by simp
  next
    case False
    then show ?thesis using IH Cons.prems(3) by (auto simp: split_beta Let_def)
  qed
qed simp

lemma edit_tail:
  assumes "good_edit src ed t"
  shows "tree_ok src c \<Longrightarrow> editStackEntryWithDelta ed (byte_delta ed) (row_delta ed) (has_tail_shift ed) c hint =
      editStackEntryWithDelta ed (byte_delta ed) (row_delta ed) True c hint"
proof (induction c arbitrary: hint)
  case (Branch k d cs)
  have "edit_children ed (byte_delta ed) (row_delta ed) (has_tail_shift ed) cs hint =
      edit_children ed (byte_delta ed) (row_delta ed) True cs hint"
    using Branch edit_children_tail [OF assms, of "nStartByte d" "nEndByte d" cs] by simp
  moreover have "shiftStackEntrySubtreeAfterEdit ed (byte_delta ed) (row_delta ed) (Branch k d cs) = Branch k d cs"
    if "\<not> has_tail_shift ed" "nStartByte d \<ge> eOldEndByte ed"
    using shift_id [OF assms that(1) Branch.prems] that(2) by simp
  ultimately show ?case by (simp del: shiftStackEntrySubtreeAfterEdit.simps add: split_beta Let_def)
next
  case (NoTreeEntry d)
  then show ?case using shift_bytes_id(2) [of ed d] by simp
next
  case (LeafEntry d)
  then show ?case using shift_span_id [OF assms, of d] by simp
qed simp

lemma edit_node_edited:
  "good_edit src ed t \<Longrightarrow> tree_ok src c \<Longrightarrow> fst (edit_with_deltas ed c hint) = edited ed c"
  by (simp add: edit_with_deltas_def edit_tail edit_edited)

subsection \<open>Lemmas: one byte\<close>

lemma single_byte_edit:
  assumes "inputEditIsSingleByteReplacement ed"
  shows "eNewEndByte ed = eOldEndByte ed" "eNewEndPoint ed = eOldEndPoint ed" "byte_delta ed = 0" "row_delta ed = 0"
    "\<not> has_tail_shift ed" "unat (eOldEndByte ed) = unat (eStartByte ed) + 1"
proof -
  show "eNewEndByte ed = eOldEndByte ed" "eNewEndPoint ed = eOldEndPoint ed" "byte_delta ed = 0" "row_delta ed = 0" "\<not> has_tail_shift ed"
    using assms by (simp_all add: inputEditIsSingleByteReplacement_def byte_delta_def row_delta_def has_tail_shift_def)
  have o: "eOldEndByte ed = 1 + eStartByte ed" using assms by (simp add: inputEditIsSingleByteReplacement_def diff_eq_eq)
  have "eOldEndByte ed \<noteq> 0" using assms by (auto simp: inputEditIsSingleByteReplacement_def)
  then show "unat (eOldEndByte ed) = unat (eStartByte ed) + 1" using unatSuc [of "eStartByte ed"] o by simp
qed

lemma single_byte_span:
  assumes "good_edit src ed t" and single: "inputEditIsSingleByteReplacement ed" and "span_ok src d"
    and "\<not> nEndByte d \<le> eStartByte ed" and "\<not> nStartByte d \<ge> eOldEndByte ed"
  shows "edit_span ed 0 0 d = d\<lparr>nDirty := True\<rparr>"
proof -
  note ed = single_byte_edit [OF single]
  have start: "\<not> nStartByte d > eStartByte ed" using assms(5) ed(6) by (simp add: word_less_nat_alt word_le_nat_alt)
  have len: "unat (nEndByte d) \<le> length src" and pt: "nEndPoint d = point_at src (unat (nEndByte d))"
    using assms(3) by (simp_all add: span_ok_def bytes_ok_def)
  show ?thesis
  proof (cases "nEndByte d \<le> eOldEndByte ed")
    case True
    then have "unat (nEndByte d) = unat (eOldEndByte ed)" using assms(4) ed(6) by (simp add: word_le_nat_alt)
    then have e: "nEndByte d = eOldEndByte ed" by (simp add: word_unat_eq_iff)
    then have "nEndPoint d = eOldEndPoint ed" using assms(1) pt by (simp add: good_edit_def edit_ok_def)
    then show ?thesis using start e ed by (simp add: edit_span_def mark_edited_def)
  next
    case False
    then have "unat (eOldEndByte ed) \<le> unat (nEndByte d)" by (simp add: word_le_nat_alt)
    then have "shiftPointAfterEdit (nEndPoint d) ed 0 = nEndPoint d"
      using shift_point(2) [OF assms(1) _ len ed(2)] ed(4) pt by simp
    then show ?thesis
      using start False shift_bytes_id(1) [OF ed(5)] ed(3) by (simp add: edit_span_def mark_edited_def)
  qed
qed

lemma replace_children_edit:
  assumes "\<forall>c \<in> set cs. is_node c"
    and "\<forall>c \<in> set cs. \<forall>hint. editNodeSingleByteReplacement ed c hint = editStackEntryWithDelta ed 0 0 False c hint"
  shows "replace_children ed cs hint = edit_children ed 0 0 False cs hint"
  using assms
proof (induction cs arbitrary: hint)
  case (Cons c cs)
  then have "c \<noteq> NoEntry" by auto
  then show ?case using Cons by (simp add: split_beta Let_def)
qed simp

lemma single_byte_edit_node:
  assumes "good_edit src ed t" and single: "inputEditIsSingleByteReplacement ed"
  shows "tree_ok src c \<Longrightarrow> is_node c \<Longrightarrow> editNodeSingleByteReplacement ed c hint = editStackEntryWithDelta ed 0 0 False c hint"
proof (induction c arbitrary: hint)
  case (Branch k d cs)
  show ?case
  proof (cases "nEndByte d \<le> eStartByte ed \<or> nStartByte d \<ge> eOldEndByte ed \<or> k \<noteq> FullNode")
    case True
    then show ?thesis by auto
  next
    case False
    then have "replace_children ed cs hint = edit_children ed 0 0 False cs hint"
      using Branch by (intro replace_children_edit) auto
    moreover have "edit_span ed 0 0 d = d\<lparr>nDirty := True\<rparr>" using single_byte_span [OF assms] Branch.prems False by simp
    ultimately show ?thesis using False by (simp add: Let_def split_beta)
  qed
qed simp_all

subsection \<open>Lemmas: the edited tree fits the edited source\<close>

lemma kept_bytes:
  "good_edit src ed t \<Longrightarrow> nEndByte e \<le> eStartByte ed \<Longrightarrow> bytes_ok src e \<Longrightarrow> bytes_ok (run_edit src ed t) e"
  using edit_numbers(3,4) [of src ed t] by (simp add: bytes_ok_def word_le_nat_alt)

lemma kept_span:
  assumes "good_edit src ed t" and "nEndByte d \<le> eStartByte ed" and "span_ok src d"
  shows "span_ok (run_edit src ed t) d"
proof -
  have ok: "edit_ok src ed t" using assms(1) by (simp add: good_edit_def)
  have "unat (nStartByte d) \<le> unat (eStartByte ed)" "unat (nEndByte d) \<le> unat (eStartByte ed)"
    using assms(2,3) by (auto simp: span_ok_def bytes_ok_def word_le_nat_alt)
  then show ?thesis using assms kept_bytes [OF assms(1,2)] by (simp add: span_ok_def point_at_prefix [OF ok])
qed

lemma kept_tree:
  assumes "good_edit src ed t"
  shows "tree_ok src c \<Longrightarrow> c = NoEntry \<or> stackEntryNodeEndByte c \<le> eStartByte ed \<Longrightarrow> tree_ok (run_edit src ed t) c"
proof (induction c)
  case (Branch k d cs)
  have "\<forall>c \<in> set cs. tree_ok (run_edit src ed t) c"
    using Branch children_before [of "nStartByte d" "nEndByte d" cs src "eStartByte ed"] by auto
  then show ?case using Branch.prems kept_span [OF assms] by simp
qed (use kept_span [OF assms] kept_bytes [OF assms] in auto)

lemma shifted_bytes:
  assumes "good_edit src ed t" and "eOldEndByte ed \<le> a" and "a \<le> b" and "unat b \<le> length src"
  shows "addUint32Delta a (byte_delta ed) \<le> addUint32Delta b (byte_delta ed)"
    and "unat (addUint32Delta b (byte_delta ed)) \<le> length (run_edit src ed t)"
    and "eNewEndByte ed \<le> addUint32Delta a (byte_delta ed)"
proof -
  note num = edit_numbers [OF assms(1)]
  have le: "unat (eOldEndByte ed) \<le> unat a" "unat a \<le> unat b" using assms(2,3) by (simp_all add: word_le_nat_alt)
  then have a: "unat (addUint32Delta a (byte_delta ed)) = unat a - unat (eOldEndByte ed) + unat (eNewEndByte ed)"
    and b: "unat (addUint32Delta b (byte_delta ed)) = unat b - unat (eOldEndByte ed) + unat (eNewEndByte ed)"
    using shift_byte [OF assms(1)] assms(4) by (meson order_trans)+
  show "addUint32Delta a (byte_delta ed) \<le> addUint32Delta b (byte_delta ed)"
    "eNewEndByte ed \<le> addUint32Delta a (byte_delta ed)" using a b le by (simp_all add: word_le_nat_alt)
  show "unat (addUint32Delta b (byte_delta ed)) \<le> length (run_edit src ed t)" using b num(5) assms(4) le by linarith
qed

lemma shifted_span:
  assumes "good_edit src ed t"
  shows "bytes_ok src e \<Longrightarrow> eOldEndByte ed \<le> nStartByte e \<Longrightarrow> bytes_ok (run_edit src ed t) (shiftNoTreeNodeAfterEdit (byte_delta ed) e)"
    and "span_ok src d \<Longrightarrow> eOldEndByte ed \<le> nStartByte d \<Longrightarrow>
      span_ok (run_edit src ed t) (shiftCompactFullLeafAfterEdit ed (byte_delta ed) (row_delta ed) d)"
proof -
  show "bytes_ok (run_edit src ed t) (shiftNoTreeNodeAfterEdit (byte_delta ed) e)"
    if "bytes_ok src e" "eOldEndByte ed \<le> nStartByte e"
    using that shifted_bytes [OF assms, of "nStartByte e" "nEndByte e"]
    by (simp add: bytes_ok_def shiftNoTreeNodeAfterEdit_def)
  assume d: "span_ok src d" and s: "eOldEndByte ed \<le> nStartByte d"
  then have le: "unat (eOldEndByte ed) \<le> unat (nStartByte d)" "unat (nStartByte d) \<le> length src"
    "unat (eOldEndByte ed) \<le> unat (nEndByte d)" "unat (nEndByte d) \<le> length src"
    by (auto simp: span_ok_def bytes_ok_def word_le_nat_alt)
  have "bytes_ok src d" using d by (simp add: span_ok_def)
  then show "span_ok (run_edit src ed t) (shiftCompactFullLeafAfterEdit ed (byte_delta ed) (row_delta ed) d)"
    using d s shifted_bytes [OF assms, of "nStartByte d" "nEndByte d"]
      shift_point(1) [OF assms le(1,2)] shift_point(1) [OF assms le(3,4)] shift_byte [OF assms le(1,2)] shift_byte [OF assms le(3,4)]
    by (simp add: span_ok_def bytes_ok_def shiftCompactFullLeafAfterEdit_def shiftNoTreeNodeAfterEdit_def)
qed

lemma shifted_order:
  assumes "good_edit src ed t"
  shows "in_order lo hi cs \<Longrightarrow> \<forall>c \<in> set cs. tree_ok src c \<Longrightarrow> eOldEndByte ed \<le> lo \<Longrightarrow> unat hi \<le> length src \<Longrightarrow>
    in_order (addUint32Delta lo (byte_delta ed)) (addUint32Delta hi (byte_delta ed))
      (map (shiftStackEntrySubtreeAfterEdit ed (byte_delta ed) (row_delta ed)) cs)"
proof (induction cs arbitrary: lo)
  case Nil
  then show ?case using shifted_bytes(1) [OF assms] by simp
next
  case (Cons c cs)
  show ?case
  proof (cases "c = NoEntry")
    case True
    then show ?thesis using Cons by simp
  next
    case False
    then have c: "stackEntryNodeStartByte c \<le> stackEntryNodeEndByte c" "unat (stackEntryNodeEndByte c) \<le> length src"
      "lo \<le> stackEntryNodeStartByte c" "in_order (stackEntryNodeEndByte c) hi cs"
      using tree_ok_bytes [of src c] Cons.prems by simp_all
    have o: "eOldEndByte ed \<le> stackEntryNodeEndByte c" using c Cons.prems(3) by (meson order_trans)
    have "unat (stackEntryNodeStartByte c) \<le> length src" using c(1,2) by (simp add: word_le_nat_alt)
    then have "addUint32Delta lo (byte_delta ed) \<le> addUint32Delta (stackEntryNodeStartByte c) (byte_delta ed)"
      using shifted_bytes(1) [OF assms Cons.prems(3) c(3)] by simp
    then show ?thesis using False Cons.IH [OF c(4) _ o Cons.prems(4)] Cons.prems(2) by simp
  qed
qed

lemma shifted_tree:
  assumes "good_edit src ed t"
  shows "tree_ok src c \<Longrightarrow> c = NoEntry \<or> eOldEndByte ed \<le> stackEntryNodeStartByte c \<Longrightarrow>
    tree_ok (run_edit src ed t) (shiftStackEntrySubtreeAfterEdit ed (byte_delta ed) (row_delta ed) c)"
proof (induction c)
  case (Branch k d cs)
  have "\<forall>c \<in> set cs. tree_ok (run_edit src ed t) (shiftStackEntrySubtreeAfterEdit ed (byte_delta ed) (row_delta ed) c)"
    using Branch children_behind [of "nStartByte d" "nEndByte d" cs src "eOldEndByte ed"] by auto
  moreover have "in_order (addUint32Delta (nStartByte d) (byte_delta ed)) (addUint32Delta (nEndByte d) (byte_delta ed))
      (map (shiftStackEntrySubtreeAfterEdit ed (byte_delta ed) (row_delta ed)) cs)"
    using Branch.prems shifted_order [OF assms, of "nStartByte d" "nEndByte d" cs] by (simp add: span_ok_def bytes_ok_def)
  ultimately show ?case
    using Branch.prems shifted_span(2) [OF assms] by (simp add: shiftCompactFullLeafAfterEdit_def shiftNoTreeNodeAfterEdit_def)
qed (use shifted_span [OF assms] in auto)

text \<open>Where the end of a span goes.\<close>

definition new_end :: "input_edit \<Rightarrow> u32 \<Rightarrow> u32" where
  "new_end ed v =
     (if v \<le> eStartByte ed then v else if v \<le> eOldEndByte ed then eNewEndByte ed else addUint32Delta v (byte_delta ed))"

lemma unat_new_end:
  assumes "good_edit src ed t" and "unat v \<le> length src"
  shows "unat (new_end ed v) =
    (if unat v \<le> unat (eStartByte ed) then unat v else if unat v \<le> unat (eOldEndByte ed) then unat (eNewEndByte ed)
     else unat v - unat (eOldEndByte ed) + unat (eNewEndByte ed))"
  using shift_byte [OF assms(1) _ assms(2)] by (simp add: new_end_def word_le_nat_alt)

lemma edited_end:
  assumes "good_edit src ed t" and "tree_ok src c" and "c \<noteq> NoEntry"
  shows "stackEntryNodeEndByte (edited ed c) = new_end ed (stackEntryNodeEndByte c)"
proof -
  have c: "stackEntryNodeStartByte c \<le> stackEntryNodeEndByte c" "unat (stackEntryNodeEndByte c) \<le> length src"
    using tree_ok_bytes [OF assms(2,3)] by simp_all
  have "addUint32Delta (eOldEndByte ed) (byte_delta ed) = eNewEndByte ed"
    using shift_byte [OF assms(1), of "eOldEndByte ed"] edit_numbers(2) [OF assms(1)] by (simp add: word_unat_eq_iff)
  moreover have "stackEntryNodeEndByte c = eOldEndByte ed"
    if "eOldEndByte ed \<le> stackEntryNodeStartByte c" "stackEntryNodeEndByte c \<le> eOldEndByte ed"
    using that c(1) by (meson order_antisym order_trans)
  ultimately show ?thesis
    by (cases c) (use assms(3) in \<open>auto simp: new_end_def edit_span_def mark_edited_def
        shiftCompactFullLeafAfterEdit_def shiftNoTreeNodeAfterEdit_def\<close>)
qed

lemma edited_start:
  assumes "good_edit src ed t" and "tree_ok src c" and "c \<noteq> NoEntry" and "lo \<le> stackEntryNodeStartByte c"
  shows "new_end ed lo \<le> stackEntryNodeStartByte (edited ed c)"
proof -
  let ?s = "stackEntryNodeStartByte c" and ?e = "stackEntryNodeEndByte c"
  note num = edit_numbers [OF assms(1)]
  have c: "unat ?s \<le> unat ?e" "unat ?e \<le> length src" "unat lo \<le> unat ?s"
    using tree_ok_bytes [OF assms(2,3)] assms(4) by (simp_all add: word_le_nat_alt)
  have start: "stackEntryNodeStartByte (edited ed c) =
      (if ?e \<le> eStartByte ed then ?s else if eOldEndByte ed \<le> ?s then addUint32Delta ?s (byte_delta ed)
       else if eStartByte ed < ?s then eNewEndByte ed else ?s)"
    by (cases c) (use assms(3) in \<open>auto simp: edit_span_def mark_edited_def
        shiftCompactFullLeafAfterEdit_def shiftNoTreeNodeAfterEdit_def\<close>)
  have "unat (stackEntryNodeStartByte (edited ed c)) =
      (if unat ?e \<le> unat (eStartByte ed) then unat ?s
       else if unat (eOldEndByte ed) \<le> unat ?s then unat ?s - unat (eOldEndByte ed) + unat (eNewEndByte ed)
       else if unat (eStartByte ed) < unat ?s then unat (eNewEndByte ed) else unat ?s)"
    using shift_byte [OF assms(1), of ?s] c by (simp add: start word_le_nat_alt word_less_nat_alt)
  then show ?thesis
    using unat_new_end [OF assms(1), of lo] c num(1,3) by (auto simp: word_le_nat_alt)
qed

lemma edited_NoEntry [simp]: "edited ed c = NoEntry \<longleftrightarrow> c = NoEntry" "is_node (edited ed c) = is_node c"
  by (cases c; simp)+

lemma new_end_mono:
  assumes "good_edit src ed t" and "lo \<le> hi" and "unat hi \<le> length src"
  shows "new_end ed lo \<le> new_end ed hi"
  using assms(2,3) unat_new_end [OF assms(1), of lo] unat_new_end [OF assms(1), of hi] edit_numbers(1,3) [OF assms(1)]
  by (auto simp: word_le_nat_alt)

lemma edited_order:
  assumes "good_edit src ed t"
  shows "in_order lo hi cs \<Longrightarrow> \<forall>c \<in> set cs. tree_ok src c \<Longrightarrow> unat hi \<le> length src \<Longrightarrow>
    in_order (new_end ed lo) (new_end ed hi) (map (edited ed) cs)"
proof (induction cs arbitrary: lo)
  case (Cons c cs)
  then show ?case using edited_start [OF assms, of c lo] edited_end [OF assms, of c] by (cases "c = NoEntry") auto
qed (simp add: new_end_mono [OF assms])

lemma edited_span:
  assumes "good_edit src ed t" and "\<not> nEndByte d \<le> eStartByte ed" and "\<not> nStartByte d \<ge> eOldEndByte ed"
  shows "bytes_ok src d \<Longrightarrow> nStartByte (mark_edited ed (byte_delta ed) d) = new_end ed (nStartByte d) \<and>
      nEndByte (mark_edited ed (byte_delta ed) d) = new_end ed (nEndByte d) \<and>
      bytes_ok (run_edit src ed t) (mark_edited ed (byte_delta ed) d)"
proof -
  assume d: "bytes_ok src d"
  have n: "nStartByte (mark_edited ed (byte_delta ed) d) = new_end ed (nStartByte d)"
    "nEndByte (mark_edited ed (byte_delta ed) d) = new_end ed (nEndByte d)"
    using assms(2,3) by (auto simp: mark_edited_def new_end_def)
  have "unat (new_end ed (nEndByte d)) \<le> length (run_edit src ed t)"
    using d unat_new_end [OF assms(1), of "nEndByte d"] edit_numbers [OF assms(1)] by (auto simp: bytes_ok_def)
  then show ?thesis using n d new_end_mono [OF assms(1)] by (simp add: bytes_ok_def)
qed

lemma edit_span_bytes:
  "nStartByte (edit_span ed bd rd d) = nStartByte (mark_edited ed bd d)" "nEndByte (edit_span ed bd rd d) = nEndByte (mark_edited ed bd d)"
  "bytes_ok src (edit_span ed bd rd d) = bytes_ok src (mark_edited ed bd d)"
  by (simp_all add: edit_span_def bytes_ok_def)

lemma edited_point:
  assumes "good_edit src ed t" and "span_ok src d" and "\<not> nEndByte d \<le> eStartByte ed" and "\<not> nStartByte d \<ge> eOldEndByte ed"
  shows "span_ok (run_edit src ed t) (edit_span ed (byte_delta ed) (row_delta ed) d)"
proof -
  have d: "bytes_ok src d" using assms(2) by (simp add: span_ok_def)
  have ok: "edit_ok src ed t" using assms(1) by (simp add: good_edit_def)
  then have new: "eNewEndPoint ed = point_at (run_edit src ed t) (unat (eNewEndByte ed))" by (simp add: edit_ok_def)
  note m = edited_span [OF assms(1,3,4) d]
  have s: "nStartPoint (edit_span ed (byte_delta ed) (row_delta ed) d) = point_at (run_edit src ed t) (unat (new_end ed (nStartByte d)))"
    using new assms(2,4) point_at_prefix [OF ok, of "unat (nStartByte d)"]
    by (auto simp: edit_span_def new_end_def span_ok_def word_le_nat_alt word_less_nat_alt)
  have e: "nEndPoint (edit_span ed (byte_delta ed) (row_delta ed) d) = point_at (run_edit src ed t) (unat (new_end ed (nEndByte d)))"
    using new assms(2,3) d shift_point(1) [OF assms(1), of "unat (nEndByte d)"] unat_new_end [OF assms(1), of "nEndByte d"]
    by (auto simp: edit_span_def new_end_def span_ok_def bytes_ok_def word_le_nat_alt)
  show ?thesis using m s e by (simp add: span_ok_def edit_span_bytes)
qed

lemma edited_tree:
  assumes "good_edit src ed t"
  shows "tree_ok src c \<Longrightarrow> tree_ok (run_edit src ed t) (edited ed c)"
proof (induction c)
  case (Branch k d cs)
  consider (before) "nEndByte d \<le> eStartByte ed" | (behind) "\<not> nEndByte d \<le> eStartByte ed" "nStartByte d \<ge> eOldEndByte ed"
    | (over) "\<not> nEndByte d \<le> eStartByte ed" "\<not> nStartByte d \<ge> eOldEndByte ed" by blast
  then show ?case
  proof cases
    case over
    have d: "bytes_ok src d" "span_ok src d" using Branch.prems by (simp_all add: span_ok_def)
    have "in_order (new_end ed (nStartByte d)) (new_end ed (nEndByte d)) (map (edited ed) cs)"
      using edited_order [OF assms, of "nStartByte d" "nEndByte d" cs] Branch.prems d by (simp add: bytes_ok_def)
    then show ?thesis
      using over Branch edited_point [OF assms d(2) over] edited_span [OF assms over d(1)] by (simp add: edit_span_bytes)
  next
    case before
    then show ?thesis using kept_tree [OF assms Branch.prems] by simp
  next
    case behind
    then show ?thesis using shifted_tree [OF assms Branch.prems] edited_shift [of "Branch k d cs" ed] by simp
  qed
next
  case (NoTreeEntry d)
  then show ?case using kept_bytes [OF assms, of d] shifted_span(1) [OF assms, of d] edited_span [OF assms, of d] by simp
next
  case (LeafEntry d)
  then show ?case using kept_span [OF assms, of d] shifted_span(2) [OF assms, of d] edited_point [OF assms, of d] by simp
qed simp

subsection \<open>Lemmas: what the edit marks\<close>

text \<open>How a node relates to itself after the edit: it is marked when it overlaps the edit, and
  otherwise it covers the same text.\<close>

definition kept_or_marked :: "bytes \<Rightarrow> bytes \<Rightarrow> input_edit \<Rightarrow> no_tree_node \<Rightarrow> no_tree_node \<Rightarrow> bool" where
  "kept_or_marked src src' ed d d' \<longleftrightarrow>
     nSymbol d' = nSymbol d \<and> nDirty d' = (nDirty d \<or> overlaps ed d) \<and>
     (overlaps ed d \<or>
      go_slice src' (unat (nStartByte d')) (unat (nEndByte d')) = go_slice src (unat (nStartByte d)) (unat (nEndByte d)))"

lemma truncate_simps [simp]:
  "nStartByte (no_tree_node.truncate d) = nStartByte d" "nEndByte (no_tree_node.truncate d) = nEndByte d"
  "nSymbol (no_tree_node.truncate d) = nSymbol d" "nDirty (no_tree_node.truncate d) = nDirty d"
  by (simp_all add: no_tree_node.truncate_def)

lemma truncate_id [simp]: "no_tree_node.truncate (d :: no_tree_node) = d"
  by (simp add: no_tree_node.truncate_def)

lemma cells_inside:
  "tree_ok src c \<Longrightarrow> x \<in> set (cells c) \<Longrightarrow>
     bytes_ok src x \<and> stackEntryNodeStartByte c \<le> nStartByte x \<and> nEndByte x \<le> stackEntryNodeEndByte c"
proof (induction c)
  case (Branch k d cs)
  show ?case
  proof (cases "x = no_tree_node.truncate d")
    case True
    then show ?thesis using Branch.prems by (simp add: span_ok_def bytes_ok_def)
  next
    case False
    then obtain c where c: "c \<in> set cs" "x \<in> set (cells c)" using Branch.prems(2) by auto
    moreover have "c \<noteq> NoEntry" using c(2) by auto
    ultimately have "nStartByte d \<le> stackEntryNodeStartByte c" "stackEntryNodeEndByte c \<le> nEndByte d"
      using in_order_bounds [of "nStartByte d" "nEndByte d" cs src] Branch.prems(1) by auto
    moreover have "bytes_ok src x \<and> stackEntryNodeStartByte c \<le> nStartByte x \<and> nEndByte x \<le> stackEntryNodeEndByte c"
      using Branch.IH [OF c(1) _ c(2)] Branch.prems(1) c(1) by simp
    ultimately show ?thesis by (auto intro: order_trans)
  qed
qed (auto simp: span_ok_def bytes_ok_def)

lemma cells_shift:
  "cells (shiftStackEntrySubtreeAfterEdit ed bd rd c) = map (shiftNoTreeNodeAfterEdit bd) (cells c)"
proof (induction c)
  case (Branch k d cs)
  then show ?case
    by (simp add: map_concat comp_def shiftCompactFullLeafAfterEdit_def shiftNoTreeNodeAfterEdit_def no_tree_node.truncate_def
        cong: map_cong)
qed (simp_all add: shiftCompactFullLeafAfterEdit_def shiftNoTreeNodeAfterEdit_def no_tree_node.truncate_def)

lemma kept_cells:
  assumes "good_edit src ed t"
  shows "bytes_ok src x \<Longrightarrow> nEndByte x \<le> eStartByte ed \<Longrightarrow> kept_or_marked src (run_edit src ed t) ed x x"
    and "bytes_ok src x \<Longrightarrow> nStartByte x \<ge> eOldEndByte ed \<Longrightarrow>
      kept_or_marked src (run_edit src ed t) ed x (shiftNoTreeNodeAfterEdit (byte_delta ed) x)"
proof -
  have ok: "edit_ok src ed t" using assms by (simp add: good_edit_def)
  show "kept_or_marked src (run_edit src ed t) ed x x" if "bytes_ok src x" and le: "nEndByte x \<le> eStartByte ed"
  proof -
    have "\<not> overlaps ed x" using le by (simp add: overlaps_def not_less)
    then show ?thesis
      using run_edit_take(1) [OF ok, of "unat (nEndByte x)"] le
      by (simp add: kept_or_marked_def go_slice_def word_le_nat_alt flip: drop_take)
  qed
  assume x: "bytes_ok src x" "nStartByte x \<ge> eOldEndByte ed"
  then have le: "unat (eOldEndByte ed) \<le> unat (nStartByte x)" "unat (nStartByte x) \<le> unat (nEndByte x)" "unat (nEndByte x) \<le> length src"
    by (simp_all add: bytes_ok_def word_le_nat_alt)
  have "\<not> overlaps ed x" using x(2) by (simp add: overlaps_def not_less)
  then show "kept_or_marked src (run_edit src ed t) ed x (shiftNoTreeNodeAfterEdit (byte_delta ed) x)"
    using le shift_byte [OF assms, of "nStartByte x"] shift_byte [OF assms, of "nEndByte x"]
      run_edit_take(3) [OF ok, of "unat (nStartByte x) - unat (eOldEndByte ed)"]
    by (simp add: kept_or_marked_def go_slice_def shiftNoTreeNodeAfterEdit_def add.commute)
qed

lemma list_all2_concat_map:
  "\<forall>x \<in> set xs. list_all2 P (f x) (g x) \<Longrightarrow> list_all2 P (concat (map f xs)) (concat (map g xs))"
  by (induction xs) (auto intro: list_all2_appendI)

lemma list_all2_self: "\<forall>x \<in> set xs. P x x \<Longrightarrow> list_all2 P xs xs"
  by (induction xs) auto

lemma list_all2_map: "\<forall>x \<in> set xs. P x (f x) \<Longrightarrow> list_all2 P xs (map f xs)"
  by (induction xs) auto

lemma skipped_cells:
  assumes "good_edit src ed t" and "tree_ok src c"
  shows "stackEntryNodeEndByte c \<le> eStartByte ed \<Longrightarrow> list_all2 (kept_or_marked src (run_edit src ed t) ed) (cells c) (cells c)"
    and "eOldEndByte ed \<le> stackEntryNodeStartByte c \<Longrightarrow> list_all2 (kept_or_marked src (run_edit src ed t) ed) (cells c)
      (cells (shiftStackEntrySubtreeAfterEdit ed (byte_delta ed) (row_delta ed) c))"
proof -
  show "list_all2 (kept_or_marked src (run_edit src ed t) ed) (cells c) (cells c)" if "stackEntryNodeEndByte c \<le> eStartByte ed"
  proof (intro list_all2_self ballI)
    fix x assume "x \<in> set (cells c)"
    then have "bytes_ok src x" "nEndByte x \<le> eStartByte ed" using cells_inside [OF assms(2)] that by (blast intro: order_trans)+
    then show "kept_or_marked src (run_edit src ed t) ed x x" by (rule kept_cells(1) [OF assms(1)])
  qed
  show "list_all2 (kept_or_marked src (run_edit src ed t) ed) (cells c)
      (cells (shiftStackEntrySubtreeAfterEdit ed (byte_delta ed) (row_delta ed) c))" if "eOldEndByte ed \<le> stackEntryNodeStartByte c"
    unfolding cells_shift
  proof (intro list_all2_map ballI)
    fix x assume "x \<in> set (cells c)"
    then have "bytes_ok src x" "eOldEndByte ed \<le> nStartByte x" using cells_inside [OF assms(2)] that by (blast intro: order_trans)+
    then show "kept_or_marked src (run_edit src ed t) ed x (shiftNoTreeNodeAfterEdit (byte_delta ed) x)"
      by (rule kept_cells(2) [OF assms(1)])
  qed
qed

lemma marked_cell:
  assumes "\<not> nEndByte d \<le> eStartByte ed" and "\<not> nStartByte d \<ge> eOldEndByte ed"
  shows "kept_or_marked src src' ed (no_tree_node.truncate d) (no_tree_node.truncate (mark_edited ed bd d))"
    "no_tree_node.truncate (edit_span ed bd rd e) = no_tree_node.truncate (mark_edited ed bd e)"
proof -
  have "overlaps ed (no_tree_node.truncate d)" using assms by (simp add: overlaps_def not_le)
  then show "kept_or_marked src src' ed (no_tree_node.truncate d) (no_tree_node.truncate (mark_edited ed bd d))"
    by (simp add: kept_or_marked_def mark_edited_def)
qed (simp add: mark_edited_def edit_span_def no_tree_node.truncate_def)

lemma edited_cells:
  assumes "good_edit src ed t"
  shows "tree_ok src c \<Longrightarrow> list_all2 (kept_or_marked src (run_edit src ed t) ed) (cells c) (cells (edited ed c))"
proof (induction c)
  case (Branch k d cs)
  consider (before) "nEndByte d \<le> eStartByte ed" | (behind) "\<not> nEndByte d \<le> eStartByte ed" "nStartByte d \<ge> eOldEndByte ed"
    | (over) "\<not> nEndByte d \<le> eStartByte ed" "\<not> nStartByte d \<ge> eOldEndByte ed" by blast
  then show ?case
  proof cases
    case before
    then show ?thesis using skipped_cells(1) [OF assms Branch.prems] by simp
  next
    case behind
    then show ?thesis using skipped_cells(2) [OF assms Branch.prems] edited_shift [of "Branch k d cs" ed] by simp
  next
    case over
    have "list_all2 (kept_or_marked src (run_edit src ed t) ed) (concat (map cells cs)) (concat (map (\<lambda>c. cells (edited ed c)) cs))"
      using Branch by (intro list_all2_concat_map) simp
    then show ?thesis using over marked_cell [OF over] by (simp add: comp_def)
  qed
next
  case (NoTreeEntry d)
  then show ?case
    using skipped_cells [OF assms NoTreeEntry] marked_cell(1) [of d ed src "run_edit src ed t" "byte_delta ed"] by simp
next
  case (LeafEntry d)
  then show ?case using skipped_cells [OF assms LeafEntry] marked_cell [of d ed] by auto
qed simp

subsection \<open>Properties\<close>

definition tree_fits :: "bytes \<Rightarrow> tree \<Rightarrow> bool" where
  "tree_fits src tr \<longleftrightarrow> (case tRoot tr of None \<Rightarrow> True | Some root \<Rightarrow> is_node root \<and> tree_ok src root)"

lemma tree_edit_root:
  assumes "good_edit src ed t" and "is_node root" and "tree_ok src root" and "tRoot tr = Some root"
  shows "tRoot (tree_Edit tr ed) = Some (edited ed root)"
proof -
  have "editNodeSingleByteReplacement ed root None = edit_with_deltas ed root None" if "inputEditIsSingleByteReplacement ed"
    using single_byte_edit_node [OF assms(1) that assms(3,2)] single_byte_edit [OF that] by (simp add: edit_with_deltas_def)
  then show ?thesis
    using edit_node_edited [OF assms(1,3), of None] assms(4) by (auto simp: tree_Edit_def Let_def split: prod.splits)
qed

lemma tree_edit_fits:
  assumes "tree_fits src tr" and "good_edit src ed t"
  shows "tree_fits (run_edit src ed t) (tree_Edit tr ed)"
proof (cases "tRoot tr")
  case None
  then show ?thesis by (simp add: tree_fits_def tree_Edit_def)
next
  case (Some root)
  then show ?thesis
    using assms tree_edit_root [OF assms(2) _ _ Some] edited_tree [OF assms(2), of root] by (simp add: tree_fits_def)
qed

definition sample_tree :: tree where
  "sample_tree =
     (let pt = (\<lambda>r c. \<lparr>Row = r, Column = c\<rparr>);
          nd = (\<lambda>s e s' e'. \<lparr>nStartByte = s, nEndByte = e, nSymbol = 1, nDirty = False, nStartPoint = s', nEndPoint = e'\<rparr>)
      in \<lparr>tRoot = Some (Branch FullNode (nd 0 5 (pt 0 0) (pt 1 2))
            [Branch FullNode (nd 0 2 (pt 0 0) (pt 0 2)) [],
             Branch RefsNode (nd 3 5 (pt 1 0) (pt 1 2)) [LeafEntry (nd 3 4 (pt 1 0) (pt 1 1)), LeafEntry (nd 4 5 (pt 1 1) (pt 1 2))]]),
          tEdits = [], lastEditedLeaf = None\<rparr>)"

definition sample_edit :: input_edit where
  "sample_edit = \<lparr>eStartByte = 1, eOldEndByte = 2, eNewEndByte = 4, eStartPoint = \<lparr>Row = 0, Column = 1\<rparr>,
     eOldEndPoint = \<lparr>Row = 0, Column = 2\<rparr>, eNewEndPoint = \<lparr>Row = 1, Column = 1\<rparr>\<rparr>"

definition byte_edit :: input_edit where
  "byte_edit = \<lparr>eStartByte = 3, eOldEndByte = 4, eNewEndByte = 4, eStartPoint = \<lparr>Row = 1, Column = 0\<rparr>,
     eOldEndPoint = \<lparr>Row = 1, Column = 1\<rparr>, eNewEndPoint = \<lparr>Row = 1, Column = 1\<rparr>\<rparr>"

lemma sample_edits:
  "good_edit [97, 98, 10, 99, 100] sample_edit [120, 10, 121]" "good_edit [97, 98, 10, 99, 100] byte_edit [122]"
  "tree_fits [97, 98, 10, 99, 100] sample_tree" "run_edit [97, 98, 10, 99, 100] sample_edit [120, 10, 121] = [97, 120, 10, 121, 10, 99, 100]"
proof -
  have "edit_ok [97, 98, 10, 99, 100] sample_edit [120, 10, 121]" "edit_ok [97, 98, 10, 99, 100] byte_edit [122]" by code_simp+
  moreover have "run_edit [97, 98, 10, 99, 100] byte_edit [122] = [97, 98, 10, 122, 100]" by code_simp
  moreover show run: "run_edit [97, 98, 10, 99, 100] sample_edit [120, 10, 121] = [97, 120, 10, 121, 10, 99, 100]" by code_simp
  ultimately show "good_edit [97, 98, 10, 99, 100] sample_edit [120, 10, 121]" "good_edit [97, 98, 10, 99, 100] byte_edit [122]"
    by (simp_all add: good_edit_def)
  show "tree_fits [97, 98, 10, 99, 100] sample_tree" by code_simp
qed

text \<open>
  \<^bold>\<open>C6.\<close> \<open>Tree.Edit\<close> keeps a tree in step with its text: when the tree has the spans and the
  row/column points of its source and the edit record is right for it, every node of the edited
  tree, whatever its representation, has the bytes and the points it has in the edited source,
  and children still lie in their parents one after the other.
\<close>

theorem tree_edit_positions:
  assumes "tree_fits src tr" and "good_edit src ed t"
  shows "tree_fits (run_edit src ed t) (tree_Edit tr ed)"
  using assms by (rule tree_edit_fits)

theorem tree_edit_positions_witness: "tree_fits [97, 120, 10, 121, 10, 99, 100] (tree_Edit sample_tree sample_edit)"
  using tree_edit_positions [OF sample_edits(3,1)] by (simp only: sample_edits(4))

text \<open>
  \<^bold>\<open>C7.\<close> \<open>Tree.Edit\<close> marks exactly the nodes that overlap the edit: no node is lost, every
  overlapping node is dirty afterwards and no other becomes dirty, and a node that does not
  overlap the edit covers the same text in the new source as it did in the old one, which is
  what allows an incremental parse to reuse it.
\<close>

theorem tree_edit_marks:
  assumes "tree_fits src tr" and "good_edit src ed t" and "tRoot tr = Some root"
  shows "\<exists>root'. tRoot (tree_Edit tr ed) = Some root' \<and>
    list_all2 (kept_or_marked src (run_edit src ed t) ed) (cells root) (cells root')"
proof -
  have "is_node root" "tree_ok src root" using assms(1,3) by (simp_all add: tree_fits_def)
  then show ?thesis using tree_edit_root [OF assms(2) _ _ assms(3)] edited_cells [OF assms(2)] by blast
qed

theorem tree_edit_marks_witness:
  "list_all2 (kept_or_marked [97, 98, 10, 99, 100] [97, 120, 10, 121, 10, 99, 100] sample_edit)
     (cells (the (tRoot sample_tree))) (cells (the (tRoot (tree_Edit sample_tree sample_edit)))) \<and>
   map nDirty (cells (the (tRoot (tree_Edit sample_tree sample_edit)))) = [True, True, False, False, False]"
proof -
  have "map nDirty (cells (the (tRoot (tree_Edit sample_tree sample_edit)))) = [True, True, False, False, False]" by code_simp
  moreover have "tRoot sample_tree = Some (the (tRoot sample_tree))" by (simp add: sample_tree_def Let_def)
  from tree_edit_marks [OF sample_edits(3,1) this] obtain root' where "tRoot (tree_Edit sample_tree sample_edit) = Some root'"
    "list_all2 (kept_or_marked [97, 98, 10, 99, 100] [97, 120, 10, 121, 10, 99, 100] sample_edit) (cells (the (tRoot sample_tree))) (cells root')"
    unfolding sample_edits(4) by blast
  ultimately show ?thesis by (simp only: option.sel simp_thms)
qed

text \<open>
  \<^bold>\<open>C10.\<close> The shortcut for the replacement of a single byte, which marks a path and recomputes no
  span, does what the general edit does: the same tree and the same last edited leaf.
\<close>

theorem single_byte_edit_equiv:
  assumes "good_edit src ed t" and "inputEditIsSingleByteReplacement ed" and "is_node n" and "tree_ok src n"
  shows "editNodeSingleByteReplacement ed n hint = edit_with_deltas ed n hint"
  using single_byte_edit_node [OF assms(1,2,4,3)] single_byte_edit [OF assms(2)] by (simp add: edit_with_deltas_def)

theorem single_byte_edit_equiv_witness:
  "inputEditIsSingleByteReplacement byte_edit \<and>
   editNodeSingleByteReplacement byte_edit (the (tRoot sample_tree)) None = edit_with_deltas byte_edit (the (tRoot sample_tree)) None"
proof -
  have "inputEditIsSingleByteReplacement byte_edit" "is_node (the (tRoot sample_tree))"
    "tree_ok [97, 98, 10, 99, 100] (the (tRoot sample_tree))" by code_simp+
  then show ?thesis using single_byte_edit_equiv [OF sample_edits(2)] by blast
qed

end
