(* ===== verification/Parse_Tables.thy ===== *)
theory Parse_Tables
  imports Lex_Tables
begin

text \<open>
  The parse tables of a language and the lookups of the parser in them (\<open>parser_tables.go\<close>,
  \<open>lex_mode_repair.go\<close>, \<open>parser_reduce.go\<close>). States below the dense limit have a row per
  symbol; the others are stored as groups of symbols in one array. \<open>buildSmallTokenLookup\<close>
  and \<open>buildSmallLookup\<close> derive dense rows and sorted overflow pairs from the groups. The
  lemmas show that the lookup through the derived tables finds what a scan of the groups
  finds, and that the enumeration of a state visits exactly the symbols with an action.
\<close>

unbundle bit_operations_syntax

subsection \<open>Languages\<close>

datatype parse_action_type = ParseActionShift | ParseActionReduce | ParseActionAccept | ParseActionRecover

record parse_action =
  actType :: parse_action_type
  actState :: u32
  actSymbol :: u16
  ChildCount :: u8
  DynamicPrecedence :: int
  ProductionID :: u16
  Extra :: bool
  ExtraChain :: bool
  Repetition :: bool

record parse_action_entry =
  Reusable :: bool
  Actions :: "parse_action list"

record symbol_metadata =
  metaName :: string
  Visible :: bool
  Named :: bool
  Supertype :: bool
  GeneratedRepeatAux :: bool

record field_map_entry =
  FieldID :: u16
  ChildIndex :: u8
  Inherited :: bool

record language =
  langName :: string
  GeneratedByGrammargen :: bool
  SymbolCount :: u32
  TokenCount :: u32
  StateCount :: u32
  LargeStateCount :: u32
  SymbolNames :: "string list"
  SymbolMetadata :: "symbol_metadata list"
  ParseTable :: "u16 list list"
  SmallParseTable :: "u16 list"
  SmallParseTableMap :: "u32 list"
  ParseActions :: "parse_action_entry list"
  LargeStateGotos :: "64 word \<rightharpoonup> u32"
  LexModes :: "lex_mode list"
  KeywordLexStates :: "lex_state list"
  KeywordCaptureToken :: u16
  FieldMapSlices :: "(u16 \<times> u16) list"
  FieldMapEntries :: "field_map_entry list"
  AliasSequences :: "u16 list list"
  ExternalSymbols :: "u16 list"
  ExternalLexStates :: "bool list list"
  InitialState :: u32

subsection \<open>Walking the groups of a small state\<close>

text \<open>
  The loop nest that all readers of the array share: for every group its value and its
  symbols are visited in order; the walk ends early when the array ends or the visitor asks
  for it.
\<close>

fun symbol_loop :: "(u16 \<Rightarrow> 's \<Rightarrow> 's \<times> bool) \<Rightarrow> u16 list \<Rightarrow> nat \<Rightarrow> nat \<Rightarrow> 's \<Rightarrow> 's \<times> nat \<times> bool" where
  "symbol_loop visit table 0 pos s = (s, pos, True)"
| "symbol_loop visit table (Suc n) pos s =
     (if pos \<ge> length table then (s, pos, True)
      else (case visit (table ! pos) s of (s', continue) \<Rightarrow>
              if continue then symbol_loop visit table n (pos + 1) s' else (s', pos, False)))"

fun group_loop :: "(u16 \<Rightarrow> u16 \<Rightarrow> 's \<Rightarrow> 's \<times> bool) \<Rightarrow> u16 list \<Rightarrow> nat \<Rightarrow> nat \<Rightarrow> 's \<Rightarrow> 's" where
  "group_loop visit table 0 pos s = s"
| "group_loop visit table (Suc n) pos s =
     (if pos + 1 \<ge> length table then s
      else (case symbol_loop (visit (table ! pos)) table (unat (table ! (pos + 1))) (pos + 2) s of
              (s', pos', continue) \<Rightarrow> if continue then group_loop visit table n pos' s' else s'))"

text \<open>The walk over the groups of the small state with a given offset.\<close>

definition small_walk :: "(u16 \<Rightarrow> u16 \<Rightarrow> 's \<Rightarrow> 's \<times> bool) \<Rightarrow> u16 list \<Rightarrow> nat \<Rightarrow> 's \<Rightarrow> 's" where
  "small_walk visit table offset s =
     (if offset \<ge> length table then s else group_loop visit table (unat (table ! offset)) (offset + 1) s)"

subsection \<open>Derived tables\<close>

definition smallTokenDenseThreshold :: nat where
  "smallTokenDenseThreshold = 8"

definition cobolSmallTokenDenseThreshold :: nat where
  "cobolSmallTokenDenseThreshold = 12"

definition typeScriptSmallTokenDenseThreshold :: nat where
  "typeScriptSmallTokenDenseThreshold = 4"

definition isCobolLanguage :: "language \<Rightarrow> bool" where
  "isCobolLanguage lang \<longleftrightarrow> langName lang = ''cobol'' \<or> langName lang = ''COBOL''"

definition compactSmallTokenRows :: "language \<Rightarrow> bool" where
  "compactSmallTokenRows lang = isCobolLanguage lang"

definition smallDenseLookupSymbolLimit :: "language \<Rightarrow> nat" where
  "smallDenseLookupSymbolLimit lang =
     (if GeneratedByGrammargen lang \<and> SymbolCount lang > TokenCount lang then unat (SymbolCount lang)
      else unat (TokenCount lang))"

text \<open>One dense row: \<open>row\<close> and the number of cells in use.\<close>

definition full_row_visit :: "nat \<Rightarrow> u16 \<Rightarrow> u16 \<Rightarrow> u16 list \<times> nat \<Rightarrow> (u16 list \<times> nat) \<times> bool" where
  "full_row_visit symbolLimit val s st =
     (let (row, used) = st in
      (if unat s < symbolLimit
       then (row[unat s := val], if row ! unat s = 0 then used + 1 else used)
       else (row, used), True))"

definition full_row :: "language \<Rightarrow> nat \<Rightarrow> u32 \<Rightarrow> u16 list" where
  "full_row lang threshold offset =
     (let symbolLimit = smallDenseLookupSymbolLimit lang;
          (row, used) = small_walk (full_row_visit symbolLimit) (SmallParseTable lang) (unat offset)
                          (replicate symbolLimit 0, 0)
      in if unat offset < length (SmallParseTable lang) \<and> used > threshold then row else [])"

definition buildSmallTokenLookupFullRows :: "language \<Rightarrow> nat \<Rightarrow> u16 list list" where
  "buildSmallTokenLookupFullRows lang threshold = map (full_row lang threshold) (SmallParseTableMap lang)"

text \<open>The rows cut at the largest token: \<open>seen\<close> holds the number of the state that saw a
  symbol last and is kept between the states.\<close>

definition compact_count :: "nat \<Rightarrow> nat \<Rightarrow> u16 \<Rightarrow> u16 \<Rightarrow> nat list \<times> nat \<times> int \<Rightarrow> (nat list \<times> nat \<times> int) \<times> bool" where
  "compact_count tokenCount stamp val s st =
     (let (seen, used, maxSym) = st in
      (if unat s < tokenCount \<and> seen ! unat s \<noteq> stamp
       then (seen[unat s := stamp], used + 1, if int (unat s) > maxSym then int (unat s) else maxSym)
       else (seen, used, maxSym), True))"

definition compact_fill :: "u16 \<Rightarrow> u16 \<Rightarrow> u16 list \<Rightarrow> u16 list \<times> bool" where
  "compact_fill val s row = (if unat s < length row then row[unat s := val] else row, True)"

definition compact_row :: "language \<Rightarrow> nat \<Rightarrow> nat list \<Rightarrow> u32 \<Rightarrow> nat list \<times> u16 list" where
  "compact_row lang smallIdx seen offset =
     (let table = SmallParseTable lang;
          (seen', used, maxSym) =
            small_walk (compact_count (unat (TokenCount lang)) (smallIdx + 1)) table (unat offset) (seen, 0, -1)
      in (seen',
          if used > cobolSmallTokenDenseThreshold
          then small_walk compact_fill table (unat offset) (replicate (nat (maxSym + 1)) 0)
          else []))"

fun compact_rows :: "language \<Rightarrow> nat \<Rightarrow> nat list \<Rightarrow> u32 list \<Rightarrow> u16 list list" where
  "compact_rows lang smallIdx seen [] = []"
| "compact_rows lang smallIdx seen (offset # offsets) =
     (let (seen', row) = compact_row lang smallIdx seen offset
      in row # compact_rows lang (smallIdx + 1) seen' offsets)"

definition buildSmallTokenLookup :: "language \<Rightarrow> u16 list list" where
  "buildSmallTokenLookup lang =
     (if TokenCount lang = 0 \<or> SmallParseTableMap lang = [] \<or> SmallParseTable lang = [] then []
      else if \<not> compactSmallTokenRows lang
      then buildSmallTokenLookupFullRows lang
             (if GeneratedByGrammargen lang then 0
              else if langName lang = ''typescript'' then typeScriptSmallTokenDenseThreshold
              else smallTokenDenseThreshold)
      else compact_rows lang 0 (replicate (unat (TokenCount lang)) 0) (SmallParseTableMap lang))"

text \<open>The counting pass of \<open>buildSmallLookup\<close>, which skips over whole groups when there is
  no dense row and gives up on a cut-off group header.\<close>

fun count_symbols :: "nat \<Rightarrow> u16 list \<Rightarrow> nat \<Rightarrow> nat \<Rightarrow> nat \<Rightarrow> nat \<times> nat" where
  "count_symbols limit table 0 pos found = (pos, found)"
| "count_symbols limit table (Suc n) pos found =
     (if pos \<ge> length table then (pos, found)
      else count_symbols limit table n (pos + 1) (if unat (table ! pos) \<ge> limit then found + 1 else found))"

fun count_groups :: "nat \<Rightarrow> u16 list \<Rightarrow> nat \<Rightarrow> nat \<Rightarrow> nat \<Rightarrow> nat" where
  "count_groups limit table 0 pos found = found"
| "count_groups limit table (Suc n) pos found =
     (if pos + 1 \<ge> length table then 0
      else
        (let symbolCount = unat (table ! (pos + 1)) in
         if limit = 0 then count_groups limit table n (pos + 2 + symbolCount) (found + symbolCount)
         else (case count_symbols limit table symbolCount (pos + 2) found of
                 (pos', found') \<Rightarrow> count_groups limit table n pos' found')))"

definition pair_visit :: "nat \<Rightarrow> u16 \<Rightarrow> u16 \<Rightarrow> (u16 \<times> u16) list \<Rightarrow> (u16 \<times> u16) list \<times> bool" where
  "pair_visit limit val s pairs = (if limit = 0 \<or> unat s \<ge> limit then pairs @ [(s, val)] else pairs, True)"

definition small_pairs :: "u16 list \<Rightarrow> nat \<Rightarrow> u32 \<Rightarrow> (u16 \<times> u16) list" where
  "small_pairs table denseLookupLimit offset =
     (if unat offset \<ge> length table then []
      else if count_groups denseLookupLimit table (unat (table ! unat offset)) (unat offset + 1) 0 = 0 then []
      else go_sort_by fst (small_walk (pair_visit denseLookupLimit) table (unat offset) []))"

definition buildSmallLookup :: "language \<Rightarrow> u16 list list \<Rightarrow> (u16 \<times> u16) list list" where
  "buildSmallLookup lang smallTokenLookup =
     map (\<lambda>(smallIdx, offset).
            small_pairs (SmallParseTable lang)
              (if smallIdx < length smallTokenLookup then length (smallTokenLookup ! smallIdx) else 0) offset)
       (enumerate 0 (SmallParseTableMap lang))"

definition languageDenseLimit :: "language \<Rightarrow> nat" where
  "languageDenseLimit l =
     (if LargeStateCount l > 0 then unat (LargeStateCount l) else length (ParseTable l))"

datatype parse_action_class =
    classifiedParseActionNoAction | classifiedParseActionSingleReduce | classifiedParseActionSingleShift
  | classifiedParseActionSingleAccept | classifiedParseActionSingleOther | classifiedParseActionMulti

record classified_action =
  caClass :: parse_action_class
  caAction :: parse_action

definition zero_action :: parse_action where
  "zero_action = \<lparr>actType = ParseActionShift, actState = 0, actSymbol = 0, ChildCount = 0, DynamicPrecedence = 0,
     ProductionID = 0, Extra = False, ExtraChain = False, Repetition = False\<rparr>"

definition classifyParseActionEntry :: "parse_action_entry \<Rightarrow> classified_action" where
  "classifyParseActionEntry entry =
     (if length (Actions entry) = 0 then \<lparr>caClass = classifiedParseActionNoAction, caAction = zero_action\<rparr>
      else if length (Actions entry) \<noteq> 1 then \<lparr>caClass = classifiedParseActionMulti, caAction = zero_action\<rparr>
      else
        (let action = Actions entry ! 0 in
         (case actType action of
            ParseActionReduce \<Rightarrow> \<lparr>caClass = classifiedParseActionSingleReduce, caAction = action\<rparr>
          | ParseActionShift \<Rightarrow> \<lparr>caClass = classifiedParseActionSingleShift, caAction = action\<rparr>
          | ParseActionAccept \<Rightarrow> \<lparr>caClass = classifiedParseActionSingleAccept, caAction = action\<rparr>
          | _ \<Rightarrow> \<lparr>caClass = classifiedParseActionSingleOther, caAction = action\<rparr>)))"

definition buildClassifiedParseActions :: "language \<Rightarrow> classified_action list" where
  "buildClassifiedParseActions lang = map classifyParseActionEntry (ParseActions lang)"

text \<open>\<open>parserActionTableView\<close>: what the lookups read. \<open>new_view\<close> is the view of a parser
  built for a language (\<open>buildParserDerivedTables\<close> and \<open>NewParser\<close>).\<close>

record table_view =
  vLanguage :: language
  denseLimit :: nat
  smallBase :: nat
  smallTokenLookup :: "u16 list list"
  smallLookup :: "(u16 \<times> u16) list list"
  classifiedActions :: "classified_action list"

definition new_view :: "language \<Rightarrow> table_view" where
  "new_view l =
     (let small = SmallParseTableMap l \<noteq> [] \<and> SmallParseTable l \<noteq> [];
          tokenLookup = (if small then buildSmallTokenLookup l else [])
      in \<lparr>vLanguage = l, denseLimit = languageDenseLimit l, smallBase = unat (LargeStateCount l),
          smallTokenLookup = tokenLookup,
          smallLookup = (if small then buildSmallLookup l tokenLookup else []),
          classifiedActions = buildClassifiedParseActions l\<rparr>)"

subsection \<open>Lookups\<close>

text \<open>The scan of the groups for a symbol.\<close>

definition find_symbol :: "u16 \<Rightarrow> u16 \<Rightarrow> u16 \<Rightarrow> u16 \<Rightarrow> u16 \<times> bool" where
  "find_symbol target val s result = (if s = target then (val, False) else (result, True))"

definition scan_groups :: "language \<Rightarrow> nat \<Rightarrow> u16 \<Rightarrow> u16" where
  "scan_groups lang smallIdx target =
     small_walk (find_symbol target) (SmallParseTable lang) (unat (SmallParseTableMap lang ! smallIdx)) 0"

fun linear_pairs :: "(u16 \<times> u16) list \<Rightarrow> u16 \<Rightarrow> u16" where
  "linear_pairs [] target = 0"
| "linear_pairs ((s, val) # pairs) target =
     (if s = target then val else if s > target then 0 else linear_pairs pairs target)"

definition not_below :: "(u16 \<times> u16) list \<times> u16 \<Rightarrow> nat \<Rightarrow> bool" where
  "not_below c i \<longleftrightarrow> \<not> fst (fst c ! i) < snd c"

definition search_pairs :: "(u16 \<times> u16) list \<Rightarrow> u16 \<Rightarrow> u16" where
  "search_pairs pairs target =
     (let lo = go_search_loop (not_below (pairs, target)) 0 (length pairs)
      in if lo < length pairs \<and> fst (pairs ! lo) = target then snd (pairs ! lo) else 0)"

definition lookupActionIndexSmall :: "table_view \<Rightarrow> u32 \<Rightarrow> u16 \<Rightarrow> u16" where
  "lookupActionIndexSmall p state s =
     (if unat state < smallBase p \<or> unat state - smallBase p \<ge> length (SmallParseTableMap (vLanguage p)) then 0
      else
        (let smallIdx = unat state - smallBase p in
         if smallIdx < length (smallTokenLookup p) \<and> unat s < length (smallTokenLookup p ! smallIdx)
         then smallTokenLookup p ! smallIdx ! unat s
         else if smallIdx < length (smallLookup p) \<and> length (smallLookup p ! smallIdx) > 0
         then (let pairs = smallLookup p ! smallIdx
               in if length pairs \<le> 8 then linear_pairs pairs s else search_pairs pairs s)
         else scan_groups (vLanguage p) smallIdx s))"

definition lookupActionIndex :: "table_view \<Rightarrow> u32 \<Rightarrow> u16 \<Rightarrow> u16" where
  "lookupActionIndex p state s =
     (if unat state < denseLimit p
      then (if unat state \<ge> length (ParseTable (vLanguage p)) then 0
            else
              (let row = ParseTable (vLanguage p) ! unat state
               in if unat s \<ge> length row then 0 else row ! unat s))
      else lookupActionIndexSmall p state s)"

definition lookupAction :: "table_view \<Rightarrow> u32 \<Rightarrow> u16 \<Rightarrow> parse_action_entry option" where
  "lookupAction p state s =
     (let idx = lookupActionIndex p state s in
      if idx = 0 then None
      else if unat idx < length (ParseActions (vLanguage p)) then Some (ParseActions (vLanguage p) ! unat idx)
      else None)"

definition lookupRepairActionIndex :: "language \<Rightarrow> u32 \<Rightarrow> u16 \<Rightarrow> u16" where
  "lookupRepairActionIndex lang state s =
     (if unat state < languageDenseLimit lang
      then (if unat state \<ge> length (ParseTable lang) then 0
            else
              (let row = ParseTable lang ! unat state
               in if unat s \<ge> length row then 0 else row ! unat s))
      else if unat state < unat (LargeStateCount lang) \<or>
              unat state - unat (LargeStateCount lang) \<ge> length (SmallParseTableMap lang) then 0
      else scan_groups lang (unat state - unat (LargeStateCount lang)) s)"

text \<open>Visiting a list until the visitor asks to stop.\<close>

fun visit_list :: "('a \<Rightarrow> 's \<Rightarrow> 's \<times> bool) \<Rightarrow> 'a list \<Rightarrow> 's \<Rightarrow> 's \<times> bool" where
  "visit_list visit [] s = (s, True)"
| "visit_list visit (x # xs) s =
     (case visit x s of (s', continue) \<Rightarrow> if continue then visit_list visit xs s' else (s', False))"

definition visit_row :: "(u16 \<Rightarrow> u16 \<Rightarrow> 's \<Rightarrow> 's \<times> bool) \<Rightarrow> u16 list \<Rightarrow> 's \<Rightarrow> 's \<times> bool" where
  "visit_row visit row s =
     visit_list (\<lambda>(i, idx) s. if idx = 0 then (s, True) else visit (u16_of i) idx s) (enumerate 0 row) s"

definition forEachActionIndexInState ::
  "table_view \<Rightarrow> u32 \<Rightarrow> (u16 \<Rightarrow> u16 \<Rightarrow> 's \<Rightarrow> 's \<times> bool) \<Rightarrow> 's \<Rightarrow> 's" where
  "forEachActionIndexInState v state visit s =
     (if unat state < denseLimit v
      then (if unat state \<ge> length (ParseTable (vLanguage v)) then s
            else fst (visit_row visit (ParseTable (vLanguage v) ! unat state) s))
      else if unat state < smallBase v \<or> unat state - smallBase v \<ge> length (SmallParseTableMap (vLanguage v)) then s
      else
        (let smallIdx = unat state - smallBase v;
             hasDenseRow = smallIdx < length (smallTokenLookup v) \<and> length (smallTokenLookup v ! smallIdx) > 0;
             hasOverflow = smallIdx < length (smallLookup v) \<and> length (smallLookup v ! smallIdx) > 0
         in if hasDenseRow \<or> hasOverflow
            then (case (if hasDenseRow then visit_row visit (smallTokenLookup v ! smallIdx) s else (s, True)) of
                    (s', continue) \<Rightarrow>
                      if continue \<and> hasOverflow
                      then fst (visit_list (\<lambda>(x, val). visit x val) (smallLookup v ! smallIdx) s')
                      else s')
            else small_walk (\<lambda>val x. visit x val) (SmallParseTable (vLanguage v))
                   (unat (SmallParseTableMap (vLanguage v) ! smallIdx)) s))"

subsection \<open>Goto\<close>

definition largeStateGotoKey :: "u32 \<Rightarrow> u16 \<Rightarrow> 64 word" where
  "largeStateGotoKey state s = push_bit 32 (ucast state) OR ucast s"

definition lookupLargeStateGoto :: "language \<Rightarrow> u32 \<Rightarrow> u16 \<Rightarrow> u32" where
  "lookupLargeStateGoto l state s =
     (case LargeStateGotos l (largeStateGotoKey state s) of None \<Rightarrow> 0 | Some target \<Rightarrow> target)"

definition lookupGoto :: "table_view \<Rightarrow> u32 \<Rightarrow> u16 \<Rightarrow> u32" where
  "lookupGoto p state s =
     (let l = vLanguage p;
          nonterminal = TokenCount l > 0 \<and> ucast s \<ge> TokenCount l
      in if nonterminal \<and> lookupLargeStateGoto l state s \<noteq> 0 then lookupLargeStateGoto l state s
         else
           (let raw = lookupActionIndex p state s in
            if raw = 0 then 0
            else if nonterminal \<and> StateCount l > 0 \<and> InitialState l > 0 then ucast raw
            else if unat raw < length (ParseActions l)
            then (case Actions (ParseActions l ! unat raw) of
                    act # _ \<Rightarrow> if actType act = ParseActionShift then actState act else 0
                  | [] \<Rightarrow> 0)
            else 0))"

subsection \<open>Lemmas: the entries of a small state\<close>

named_theorems table_simps \<open>reading the groups of a small state\<close>

text \<open>The symbols and values that a walk visits, in order.\<close>

fun group_entries :: "u16 list \<Rightarrow> nat \<Rightarrow> nat \<Rightarrow> (u16 \<times> u16) list" where
  "group_entries table 0 pos = []"
| "group_entries table (Suc n) pos =
     (if pos + 1 \<ge> length table then []
      else
        (let end = pos + 2 + unat (table ! (pos + 1))
         in map (\<lambda>s. (s, table ! pos)) (go_slice table (pos + 2) end) @ group_entries table n end))"

definition small_entries :: "u16 list \<Rightarrow> nat \<Rightarrow> (u16 \<times> u16) list" where
  "small_entries table offset =
     (if offset \<ge> length table then [] else group_entries table (unat (table ! offset)) (offset + 1))"

definition assoc :: "(u16 \<times> u16) list \<Rightarrow> u16 \<Rightarrow> u16" where
  "assoc es s = (case map_of es s of None \<Rightarrow> 0 | Some v \<Rightarrow> v)"

lemma visit_list_append:
  "visit_list visit (xs @ ys) s =
     (case visit_list visit xs s of (s', c) \<Rightarrow> if c then visit_list visit ys s' else (s', False))"
  by (induction xs arbitrary: s) (auto split: prod.splits)

lemma visit_list_map: "visit_list visit (map f xs) s = visit_list (visit \<circ> f) xs s"
  by (induction xs arbitrary: s) (auto split: prod.splits)

lemma visit_list_all:
  "(\<And>x s. snd (visit x s)) \<Longrightarrow> visit_list visit xs s = (fold (\<lambda>x s. fst (visit x s)) xs s, True)"
  by (induction xs arbitrary: s) (auto split: prod.splits simp: case_prod_beta)

lemma group_entries_past: "length table \<le> pos + 1 \<Longrightarrow> group_entries table n pos = []"
  by (cases n) auto

lemma group_loop_past: "length table \<le> pos + 1 \<Longrightarrow> group_loop visit table n pos s = s"
  by (cases n) auto

lemma symbol_loop_visit:
  "case symbol_loop visit table n pos s of (s', pos', c) \<Rightarrow>
     visit_list visit (go_slice table pos (pos + n)) s = (s', c) \<and>
     (c \<longrightarrow> pos' = pos + n \<or> length table \<le> pos' \<and> length table \<le> pos + n)"
proof (induction n arbitrary: pos s)
  case (Suc n)
  show ?case
  proof (cases "length table \<le> pos")
    case True
    then show ?thesis by (simp add: go_slice_def)
  next
    case False
    have sl: "go_slice table pos (pos + Suc n) = table ! pos # go_slice table (pos + 1) (pos + 1 + n)"
      using False by (simp add: go_slice_def Cons_nth_drop_Suc [symmetric])
    obtain s' c where v: "visit (table ! pos) s = (s', c)" by fastforce
    show ?thesis using Suc.IH [of "pos + 1" s'] False v sl by (auto split: prod.splits)
  qed
qed (simp add: go_slice_def)

lemma group_loop_visit:
  "group_loop visit table n pos s = fst (visit_list (\<lambda>(x, val). visit val x) (group_entries table n pos) s)"
proof (induction n arbitrary: pos s)
  case (Suc n)
  show ?case
  proof (cases "length table \<le> pos + 1")
    case False
    let ?e = "pos + 2 + unat (table ! (pos + 1))"
    obtain s' pos' c where l: "symbol_loop (visit (table ! pos)) table (unat (table ! (pos + 1))) (pos + 2) s = (s', pos', c)"
      by (metis prod_cases3)
    have v: "visit_list (visit (table ! pos)) (go_slice table (pos + 2) ?e) s = (s', c)"
      and p: "c \<Longrightarrow> pos' = ?e \<or> length table \<le> pos' \<and> length table \<le> ?e"
      using symbol_loop_visit [of "visit (table ! pos)" table "pos + 2" "unat (table ! (pos + 1))" s] l by auto
    have "c \<Longrightarrow> group_loop visit table n pos' s' = group_loop visit table n ?e s'"
      using p by (auto simp: group_loop_past)
    then show ?thesis
      using False l v Suc.IH [of ?e s']
      by (auto simp: Let_def visit_list_append visit_list_map comp_def)
  qed simp
qed simp

lemma small_walk_visit [table_simps]:
  "small_walk visit table offset s = fst (visit_list (\<lambda>(x, val). visit val x) (small_entries table offset) s)"
  by (simp add: small_walk_def small_entries_def group_loop_visit)

lemma small_walk_fold:
  assumes "\<And>val x s. snd (visit val x s)"
  shows "small_walk visit table offset s = fold (\<lambda>(x, val) s. fst (visit val x s)) (small_entries table offset) s"
  using visit_list_all [of "\<lambda>(x, val). visit val x" "small_entries table offset" s] assms
  by (simp add: small_walk_visit case_prod_beta cong: fold_cong)

lemma visit_find: "fst (visit_list (\<lambda>(x, val). find_symbol target val x) es 0) = assoc es target"
  by (induction es) (auto simp: find_symbol_def assoc_def)

lemma scan_groups_assoc [table_simps]:
  "scan_groups lang smallIdx target =
     assoc (small_entries (SmallParseTable lang) (unat (SmallParseTableMap lang ! smallIdx))) target"
  by (simp add: scan_groups_def small_walk_visit visit_find)

lemma assoc_iff:
  assumes "distinct (map fst es)" "v \<noteq> 0"
  shows "assoc es x = v \<longleftrightarrow> (x, v) \<in> set es"
  using map_of_eq_Some_iff [OF assms(1), of x v] assms(2) by (auto simp: assoc_def split: option.splits)

lemma assoc_set:
  assumes "distinct (map fst es)" "distinct (map fst fs)" "set es = set fs"
  shows "assoc es x = assoc fs x"
proof -
  have "map_of es = map_of fs" using assms by (simp add: map_of_inject_set)
  then show ?thesis by (simp add: assoc_def)
qed

lemma assoc_filter: "P x \<Longrightarrow> assoc (filter (\<lambda>(s, v). P s) es) x = assoc es x"
  unfolding assoc_def by (induction es) (auto split: option.splits)

subsection \<open>Lemmas: dense rows and overflow pairs\<close>

text \<open>A dense row agrees with the entries on the symbols it has; only symbols have a value.\<close>

definition row_ok :: "(u16 \<times> u16) list \<Rightarrow> u16 list \<Rightarrow> bool" where
  "row_ok es row \<longleftrightarrow>
     (\<forall>s. unat s < length row \<longrightarrow> row ! unat s = assoc es s) \<and>
     (\<forall>k < length row. row ! k \<noteq> 0 \<longrightarrow> k < 65536)"

lemma row_fill:
  fixes row :: "u16 list"
  assumes "distinct (map fst es)" "unat s < length row"
  shows "fold (\<lambda>(x, val) row. if unat x < n then row[unat x := val] else row) es row ! unat s =
    (if unat s < n then (case map_of es s of None \<Rightarrow> row ! unat s | Some v \<Rightarrow> v) else row ! unat s)"
  using assms
proof (induction es arbitrary: row)
  case (Cons e es)
  obtain x v where e: "e = (x, v)" by fastforce
  have x: "map_of es x = None" "distinct (map fst es)" using Cons.prems e by (auto simp: map_of_eq_None_iff)
  have "unat x = unat s \<longleftrightarrow> x = s" by (simp add: word_unat_eq_iff)
  then show ?case
    using Cons.IH [of "if unat x < n then row[unat x := v] else row"] Cons.prems(2) x e
    by (cases "x = s") (auto simp: nth_list_update cong: option.case_cong)
qed simp

lemma length_row_fill:
  "length (fold (\<lambda>(x, val) row. if unat x < n then row[unat x := val] else row) es row) = length row"
  by (induction es arbitrary: row) auto

lemma row_fill_short:
  fixes row :: "u16 list" and es :: "(u16 \<times> u16) list"
  assumes "k < length row" "row ! k = 0"
    and "fold (\<lambda>(x, val) row. if unat x < n then row[unat x := val] else row) es row ! k \<noteq> 0"
  shows "k < 65536"
  using assms
proof (induction es arbitrary: row)
  case (Cons e es)
  obtain x v where e: "e = (x, v)" by fastforce
  have "unat x < 65536" using unsigned_less [of x, where ?'a = nat] by simp
  then show ?case
    using Cons.IH [of "if unat x < n then row[unat x := v] else row"] Cons.prems e
    by (cases "k = unat x") auto
qed simp

lemma row_ok_fill:
  "distinct (map fst es) \<Longrightarrow>
     row_ok es (fold (\<lambda>(x, val) row. if unat x < n then row[unat x := val] else row) es (replicate n 0))"
  unfolding row_ok_def length_row_fill
  using row_fill_short [of _ "replicate n 0" n es]
  by (auto simp: row_fill assoc_def split: option.splits)

lemma row_ok_Nil [simp]: "row_ok es []"
  by (simp add: row_ok_def)

lemma fold_pair:
  "fold (\<lambda>x (a, b). (f x a, g x a b)) xs (a, b) = (fold f xs a, snd (fold (\<lambda>x (a, b). (f x a, g x a b)) xs (a, b)))"
  by (induction xs arbitrary: a b) auto

lemma full_row_ok:
  assumes "distinct (map fst (small_entries (SmallParseTable lang) (unat offset)))"
  shows "row_ok (small_entries (SmallParseTable lang) (unat offset)) (full_row lang threshold offset)"
proof -
  let ?n = "smallDenseLookupSymbolLimit lang" and ?es = "small_entries (SmallParseTable lang) (unat offset)"
  have "fst (small_walk (full_row_visit ?n) (SmallParseTable lang) (unat offset) (replicate ?n 0, 0)) =
      fold (\<lambda>(x, val) row. if unat x < ?n then row[unat x := val] else row) ?es (replicate ?n 0)"
  proof -
    have "small_walk (full_row_visit ?n) (SmallParseTable lang) (unat offset) (replicate ?n 0, 0) =
        fold (\<lambda>(x, val) s. fst (full_row_visit ?n val x s)) ?es (replicate ?n 0, 0)"
      by (rule small_walk_fold) (simp add: full_row_visit_def case_prod_beta)
    moreover have "fst (fold (\<lambda>(x, val) s. fst (full_row_visit ?n val x s)) es (row, used)) =
        fold (\<lambda>(x, val) row. if unat x < ?n then row[unat x := val] else row) es row" for es row used
      by (induction es arbitrary: row used) (auto simp: full_row_visit_def)
    ultimately show ?thesis by simp
  qed
  then show ?thesis
    using row_ok_fill [OF assms, of ?n] by (simp add: full_row_def Let_def case_prod_beta)
qed

lemma compact_row_ok:
  assumes "distinct (map fst (small_entries (SmallParseTable lang) (unat offset)))"
  shows "row_ok (small_entries (SmallParseTable lang) (unat offset)) (snd (compact_row lang i seen offset))"
proof -
  let ?es = "small_entries (SmallParseTable lang) (unat offset)"
  have "fold (\<lambda>(x, val) s. fst (compact_fill val x s)) es row =
      fold (\<lambda>(x, val) row. if unat x < n then row[unat x := val] else row) es row"
    if "length row = n" for es :: "(u16 \<times> u16) list" and row n
    using that by (induction es arbitrary: row) (auto simp: compact_fill_def)
  then have "small_walk compact_fill (SmallParseTable lang) (unat offset) (replicate n 0) =
      fold (\<lambda>(x, val) row. if unat x < n then row[unat x := val] else row) ?es (replicate n 0)" for n
    using small_walk_fold [of compact_fill "SmallParseTable lang" "unat offset" "replicate n 0"]
    by (simp add: compact_fill_def)
  then show ?thesis
    using row_ok_fill [OF assms] by (simp add: compact_row_def Let_def case_prod_beta)
qed

lemma compact_rows_nth:
  "length (compact_rows lang i seen offsets) = length offsets"
  "k < length offsets \<Longrightarrow>
     \<exists>seen'. compact_rows lang i seen offsets ! k = snd (compact_row lang (i + k) seen' (offsets ! k))"
proof (induction offsets arbitrary: i seen k)
  case (Cons o1 os)
  {
    case 1
    show ?case using Cons.IH(1) by (simp add: case_prod_beta Let_def)
  next
    case 2
    then show ?case
      using Cons.IH(2) [of "k - 1" "Suc i" "fst (compact_row lang i seen o1)"]
      by (cases k) (auto simp: case_prod_beta Let_def)
  }
qed simp_all

lemma buildSmallTokenLookup_ok:
  assumes "i < length (buildSmallTokenLookup lang)" "i < length (SmallParseTableMap lang)"
    and "distinct (map fst (small_entries (SmallParseTable lang) (unat (SmallParseTableMap lang ! i))))"
  shows "row_ok (small_entries (SmallParseTable lang) (unat (SmallParseTableMap lang ! i)))
    (buildSmallTokenLookup lang ! i)"
  using assms full_row_ok [OF assms(3)] compact_row_ok [OF assms(3)]
    compact_rows_nth(2) [of i "SmallParseTableMap lang" lang 0 "replicate (unat (TokenCount lang)) 0"]
  by (auto simp: buildSmallTokenLookup_def buildSmallTokenLookupFullRows_def split: if_splits)

text \<open>Sorted pairs: both searches find what the association list has.\<close>

lemma linear_pairs_assoc: "sorted (map fst ps) \<Longrightarrow> linear_pairs ps target = assoc ps target"
proof (induction ps)
  case (Cons p ps)
  obtain s v where p: "p = (s, v)" by fastforce
  have "map_of ps target = None" if "target < s"
    using Cons.prems that p by (force simp: map_of_eq_None_iff)
  then show ?case using Cons p by (auto simp: assoc_def)
qed (simp add: assoc_def)

interpretation pair_search: monotone_search not_below "\<lambda>c. length (fst c)" "\<lambda>c. sorted (map fst (fst c))"
proof
  fix c :: "(u16 \<times> u16) list \<times> u16" and k l
  assume "sorted (map fst (fst c))" "k \<le> l" "l < length (fst c)" "not_below c k"
  then show "not_below c l"
    using sorted_nth_mono [of "map fst (fst c)" k l] by (auto simp: not_below_def)
qed

lemma search_pairs_assoc:
  assumes "sorted (map fst ps)" "distinct (map fst ps)"
  shows "search_pairs ps target = assoc ps target"
proof -
  let ?c = "(ps, target)"
  define lo where "lo = go_search (length ps) (not_below ?c)"
  have lo: "k < lo \<Longrightarrow> fst (ps ! k) < target" "lo \<le> k \<Longrightarrow> k < length ps \<Longrightarrow> \<not> fst (ps ! k) < target" for k
    using pair_search.search_spec(2,3) [of ?c k] assms(1) by (auto simp: lo_def not_below_def)
  show ?thesis
  proof (cases "lo < length ps \<and> fst (ps ! lo) = target")
    case True
    then have "map_of ps target = Some (snd (ps ! lo))"
      using assms(2) by (metis map_of_eq_Some_iff nth_mem prod.collapse)
    then show ?thesis using True by (simp add: search_pairs_def lo_def go_search_def Let_def assoc_def)
  next
    case False
    have "target \<notin> fst ` set ps"
    proof
      assume "target \<in> fst ` set ps"
      then obtain k where k: "k < length ps" "fst (ps ! k) = target" by (auto simp: in_set_conv_nth image_iff)
      then have le: "lo \<le> k" using lo(1) [of k] by (meson less_irrefl not_le)
      then have "fst (ps ! lo) \<le> target"
        using sorted_nth_mono [OF assms(1), of lo k] k by simp
      then show False using lo(2) [of lo] le k False by auto
    qed
    then show ?thesis
      using False by (auto simp: search_pairs_def lo_def go_search_def Let_def assoc_def
          map_of_eq_None_iff [THEN iffD2])
  qed
qed

lemma pair_walk:
  "small_walk (pair_visit limit) table offset [] =
     filter (\<lambda>(s, v). limit = 0 \<or> limit \<le> unat s) (small_entries table offset)"
proof -
  have "fold (\<lambda>(x, val) s. fst (pair_visit limit val x s)) es ps =
      ps @ filter (\<lambda>(s, v). limit = 0 \<or> limit \<le> unat s) es" for es ps
    by (induction es arbitrary: ps) (auto simp: pair_visit_def)
  then show ?thesis
    using small_walk_fold [of "pair_visit limit" table offset "[]"] by (simp add: pair_visit_def)
qed

lemma small_pairs_cases:
  "small_pairs table limit offset = [] \<or>
   small_pairs table limit offset =
     go_sort_by fst (filter (\<lambda>(s, v). limit = 0 \<or> limit \<le> unat s) (small_entries table (unat offset)))"
  by (simp add: small_pairs_def pair_walk)

subsection \<open>Lemmas: lookups\<close>

text \<open>Every symbol occurs at most once in a small state.\<close>

definition rows_distinct :: "language \<Rightarrow> bool" where
  "rows_distinct lang \<longleftrightarrow>
     (\<forall>offset \<in> set (SmallParseTableMap lang). distinct (map fst (small_entries (SmallParseTable lang) (unat offset))))"

abbreviation state_entries :: "language \<Rightarrow> nat \<Rightarrow> (u16 \<times> u16) list" where
  "state_entries lang i \<equiv> small_entries (SmallParseTable lang) (unat (SmallParseTableMap lang ! i))"

lemma sorted_pairs:
  assumes "distinct (map fst es)"
  shows "sorted (map fst (go_sort_by fst es))" "distinct (map fst (go_sort_by fst es))"
    "assoc (go_sort_by fst es) = assoc es"
proof -
  show "sorted (map fst (go_sort_by fst es))" by (rule sorted_go_sort_by)
  show d: "distinct (map fst (go_sort_by fst es))"
    using assms by (simp add: distinct_map go_sort_by_def)
  show "assoc (go_sort_by fst es) = assoc es"
    using assoc_set [OF d assms] by (simp add: fun_eq_iff)
qed

lemma nth_buildSmallLookup:
  "i < length (SmallParseTableMap lang) \<Longrightarrow>
     buildSmallLookup lang rows ! i =
       small_pairs (SmallParseTable lang) (if i < length rows then length (rows ! i) else 0) (SmallParseTableMap lang ! i)"
  by (simp add: buildSmallLookup_def nth_enumerate_eq)

lemma length_buildSmallLookup [simp]: "length (buildSmallLookup lang rows) = length (SmallParseTableMap lang)"
  by (simp add: buildSmallLookup_def)

lemma lookup_small_eq:
  assumes "rows_distinct lang" "i < length (SmallParseTableMap lang)"
    and "unat state = unat (LargeStateCount lang) + i"
  shows "lookupActionIndexSmall (new_view lang) state s = assoc (state_entries lang i) s"
proof (cases "SmallParseTable lang = []")
  case True
  then show ?thesis
    using assms by (simp add: lookupActionIndexSmall_def new_view_def Let_def scan_groups_assoc)
next
  case False
  let ?es = "state_entries lang i" and ?rows = "buildSmallTokenLookup lang"
  let ?limit = "if i < length ?rows then length (?rows ! i) else 0"
  let ?pairs = "small_pairs (SmallParseTable lang) ?limit (SmallParseTableMap lang ! i)"
  have d: "distinct (map fst ?es)" using assms(1,2) by (simp add: rows_distinct_def)
  have map: "SmallParseTableMap lang \<noteq> []" using assms(2) by auto
  have v: "lookupActionIndexSmall (new_view lang) state s =
      (if i < length ?rows \<and> unat s < length (?rows ! i) then ?rows ! i ! unat s
       else if 0 < length ?pairs
       then (if length ?pairs \<le> 8 then linear_pairs ?pairs s else search_pairs ?pairs s)
       else assoc ?es s)"
    using assms(2,3) False map
    by (simp add: lookupActionIndexSmall_def new_view_def Let_def scan_groups_assoc nth_buildSmallLookup)
  show ?thesis
  proof (cases "i < length ?rows \<and> unat s < length (?rows ! i)")
    case True
    then show ?thesis using v buildSmallTokenLookup_ok [OF _ assms(2) d] by (simp add: row_ok_def)
  next
    case over: False
    let ?fs = "filter (\<lambda>(s, v). ?limit = 0 \<or> ?limit \<le> unat s) ?es"
    have df: "distinct (map fst ?fs)" using d by (rule distinct_map_filter)
    have "assoc ?fs s = assoc ?es s" by (rule assoc_filter) (use over in auto)
    moreover have "0 < length ?pairs \<Longrightarrow> ?pairs = go_sort_by fst ?fs"
      using small_pairs_cases [of "SmallParseTable lang" ?limit "SmallParseTableMap lang ! i"] by auto
    ultimately have "0 < length ?pairs \<Longrightarrow>
        (if length ?pairs \<le> 8 then linear_pairs ?pairs s else search_pairs ?pairs s) = assoc ?es s"
      using sorted_pairs [OF df] linear_pairs_assoc [of "go_sort_by fst ?fs"] search_pairs_assoc [of "go_sort_by fst ?fs"]
      by simp
    then show ?thesis using v over by simp
  qed
qed

lemma lookup_eq_repair:
  assumes "rows_distinct lang"
  shows "lookupActionIndex (new_view lang) state s = lookupRepairActionIndex lang state s"
proof (cases "unat state < languageDenseLimit lang")
  case True
  then show ?thesis by (simp add: lookupActionIndex_def lookupRepairActionIndex_def new_view_def Let_def)
next
  case False
  let ?i = "unat state - unat (LargeStateCount lang)"
  show ?thesis
  proof (cases "unat state < unat (LargeStateCount lang) \<or> ?i \<ge> length (SmallParseTableMap lang)")
    case True
    then show ?thesis
      using False
      by (auto simp: lookupActionIndex_def lookupActionIndexSmall_def lookupRepairActionIndex_def new_view_def Let_def)
  next
    case small: False
    then have "lookupActionIndexSmall (new_view lang) state s = assoc (state_entries lang ?i) s"
      using lookup_small_eq [OF assms, of ?i state s] by simp
    then show ?thesis
      using False small
      by (simp add: lookupActionIndex_def lookupRepairActionIndex_def scan_groups_assoc new_view_def Let_def)
  qed
qed

subsection \<open>Lemmas: enumerating a state\<close>

text \<open>No group is cut off by the end of the array, and every dense symbol is a symbol.\<close>

fun groups_complete :: "u16 list \<Rightarrow> nat \<Rightarrow> nat \<Rightarrow> bool" where
  "groups_complete table 0 pos = True"
| "groups_complete table (Suc n) pos =
     (pos + 1 < length table \<and> pos + 2 + unat (table ! (pos + 1)) \<le> length table \<and>
      groups_complete table n (pos + 2 + unat (table ! (pos + 1))))"

definition tables_ok :: "language \<Rightarrow> bool" where
  "tables_ok lang \<longleftrightarrow>
     rows_distinct lang \<and> (\<forall>row \<in> set (ParseTable lang). length row \<le> 65536) \<and>
     (\<forall>offset \<in> set (SmallParseTableMap lang). unat offset < length (SmallParseTable lang) \<longrightarrow>
        groups_complete (SmallParseTable lang) (unat (SmallParseTable lang ! unat offset)) (unat offset + 1))"

lemma count_symbols_eq:
  "pos + n \<le> length table \<Longrightarrow>
     count_symbols limit table n pos found =
       (pos + n, found + length (filter (\<lambda>s. limit \<le> unat s) (go_slice table pos (pos + n))))"
proof (induction n arbitrary: pos found)
  case (Suc n)
  have "go_slice table pos (pos + Suc n) = table ! pos # go_slice table (pos + 1) (pos + 1 + n)"
    using Suc.prems by (simp add: go_slice_def Cons_nth_drop_Suc [symmetric])
  then show ?case using Suc.IH [of "pos + 1"] Suc.prems by simp
qed (simp add: go_slice_def)

lemma count_groups_eq:
  "groups_complete table n pos \<Longrightarrow>
     count_groups limit table n pos found =
       found + length (filter (\<lambda>(s, v). limit = 0 \<or> limit \<le> unat s) (group_entries table n pos))"
proof (induction n arbitrary: pos found)
  case (Suc n)
  let ?c = "unat (table ! (pos + 1))"
  have c: "pos + 1 < length table" "pos + 2 + ?c \<le> length table" "groups_complete table n (pos + 2 + ?c)"
    using Suc.prems by auto
  have len: "length (go_slice table (pos + 2) (pos + 2 + ?c)) = ?c" using c by simp
  have f: "filter (\<lambda>(s, v). limit = 0 \<or> limit \<le> unat s) (map (\<lambda>s. (s, table ! pos)) xs) =
      map (\<lambda>s. (s, table ! pos)) (filter (\<lambda>s. limit = 0 \<or> limit \<le> unat s) xs)" for xs
    by (simp add: filter_map comp_def)
  show ?case
  proof (cases "limit = 0")
    case True
    then show ?thesis using c Suc.IH [OF c(3)] len by (simp add: Let_def f)
  next
    case False
    then show ?thesis
      using c Suc.IH [OF c(3)] count_symbols_eq [of "pos + 2" ?c table limit]
      by (simp add: Let_def f comp_def)
  qed
qed simp

lemma small_pairs_complete:
  assumes "unat offset < length table \<Longrightarrow> groups_complete table (unat (table ! unat offset)) (unat offset + 1)"
  shows "small_pairs table limit offset =
    go_sort_by fst (filter (\<lambda>(s, v). limit = 0 \<or> limit \<le> unat s) (small_entries table (unat offset)))"
proof (cases "unat offset < length table")
  case True
  show ?thesis
    using True count_groups_eq [OF assms [OF True], of limit 0]
    by (auto simp: small_pairs_def pair_walk small_entries_def go_sort_by_def)
next
  case False
  then show ?thesis by (simp add: small_pairs_def small_entries_def go_sort_by_def)
qed

text \<open>The pairs that an enumeration presents to its visitor.\<close>

definition row_visits :: "u16 list \<Rightarrow> (u16 \<times> u16) list" where
  "row_visits row = map (\<lambda>(i, idx). (u16_of i, idx)) (filter (\<lambda>(i, idx). idx \<noteq> 0) (enumerate 0 row))"

definition visits :: "table_view \<Rightarrow> u32 \<Rightarrow> (u16 \<times> u16) list" where
  "visits v state = forEachActionIndexInState v state (\<lambda>s idx acc. (acc @ [(s, idx)], True)) []"

lemma visit_row_eq: "visit_row visit row s = visit_list (\<lambda>(x, idx). visit x idx) (row_visits row) s"
proof -
  have "visit_list (\<lambda>(i, idx) s. if idx = 0 then (s, True) else visit (u16_of i) idx s) xs s =
      visit_list (\<lambda>(x, idx). visit x idx) (map (\<lambda>(i, idx). (u16_of i, idx)) (filter (\<lambda>(i, idx). idx \<noteq> 0) xs)) s" for xs
    by (induction xs arbitrary: s) (auto split: prod.splits)
  then show ?thesis by (simp add: visit_row_def row_visits_def)
qed

lemma visit_list_collect:
  "visit_list (\<lambda>(x, idx) acc. (acc @ [(x, idx)], True)) es acc = (acc @ es, True)"
  by (induction es arbitrary: acc) auto

lemma visits_eq:
  "visits v state =
     (if unat state < denseLimit v
      then (if unat state \<ge> length (ParseTable (vLanguage v)) then []
            else row_visits (ParseTable (vLanguage v) ! unat state))
      else if unat state < smallBase v \<or> unat state - smallBase v \<ge> length (SmallParseTableMap (vLanguage v)) then []
      else
        (let i = unat state - smallBase v;
             row = (if i < length (smallTokenLookup v) then smallTokenLookup v ! i else []);
             pairs = (if i < length (smallLookup v) then smallLookup v ! i else [])
         in if row \<noteq> [] \<or> pairs \<noteq> [] then row_visits row @ pairs
            else state_entries (vLanguage v) i))"
  unfolding visits_def forEachActionIndexInState_def
  by (simp add: visit_row_eq visit_list_collect small_walk_visit Let_def row_visits_def)

lemma forEach_visits:
  "forEachActionIndexInState v state visit s = fst (visit_list (\<lambda>(x, idx). visit x idx) (visits v state) s)"
  unfolding visits_eq forEachActionIndexInState_def
  by (auto simp: visit_row_eq small_walk_visit Let_def visit_list_append case_prod_beta row_visits_def)

lemma row_visits_Nil [simp]: "row_visits [] = []"
  by (simp add: row_visits_def)

lemma row_visits_set:
  assumes "\<And>k. k < length row \<Longrightarrow> row ! k \<noteq> 0 \<Longrightarrow> k < 65536"
  shows "(s, idx) \<in> set (row_visits row) \<longleftrightarrow> idx \<noteq> 0 \<and> unat s < length row \<and> row ! unat s = idx"
    and "distinct (map fst (row_visits row))"
proof -
  have u: "unat (u16_of k) = k" if "k < 65536" for k
    using that by (simp add: u16_of_def unat_of_nat)
  show "(s, idx) \<in> set (row_visits row) \<longleftrightarrow> idx \<noteq> 0 \<and> unat s < length row \<and> row ! unat s = idx"
  proof
    assume "(s, idx) \<in> set (row_visits row)"
    then obtain k where k: "k < length row" "row ! k = idx" "idx \<noteq> 0" "s = u16_of k"
      by (auto simp: row_visits_def in_set_enumerate_eq)
    then show "idx \<noteq> 0 \<and> unat s < length row \<and> row ! unat s = idx" using u [OF assms [of k]] by simp
  next
    assume a: "idx \<noteq> 0 \<and> unat s < length row \<and> row ! unat s = idx"
    have "u16_of (unat s) = s" by (simp add: u16_of_def)
    then show "(s, idx) \<in> set (row_visits row)"
      using a by (auto simp: row_visits_def in_set_enumerate_eq image_iff intro!: bexI [of _ "(unat s, idx)"])
  qed
  have "inj_on u16_of (fst ` set (filter (\<lambda>(i, idx). idx \<noteq> 0) (enumerate 0 row)))"
    by (rule inj_on_inverseI [of _ unat]) (use u assms in \<open>auto simp: in_set_enumerate_eq\<close>)
  moreover have "map fst (row_visits row) = map u16_of (map fst (filter (\<lambda>(i, idx). idx \<noteq> 0) (enumerate 0 row)))"
    by (simp add: row_visits_def case_prod_beta)
  moreover have "distinct (map fst (filter (\<lambda>(i, idx). idx \<noteq> 0) (enumerate 0 row)))"
    by (rule distinct_map_filter) (simp add: distinct_enumerate)
  ultimately show "distinct (map fst (row_visits row))"
    by (simp add: distinct_map comp_inj_on)
qed

text \<open>The contract of an action table: the enumeration of a state and the lookup agree.\<close>

locale action_table =
  fixes ok :: "'v \<Rightarrow> bool" and lookup :: "'v \<Rightarrow> u32 \<Rightarrow> u16 \<Rightarrow> u16" and enum :: "'v \<Rightarrow> u32 \<Rightarrow> (u16 \<times> u16) list"
  assumes enum_iff: "ok v \<Longrightarrow> idx \<noteq> 0 \<Longrightarrow> (s, idx) \<in> set (enum v state) \<longleftrightarrow> lookup v state s = idx"
    and enum_distinct: "ok v \<Longrightarrow> distinct (map fst (enum v state))"
begin

lemma enum_nonzero: "ok v \<Longrightarrow> lookup v state s \<noteq> 0 \<Longrightarrow> (s, lookup v state s) \<in> set (enum v state)"
  by (simp add: enum_iff)

lemma enum_lookup_iff:
  "ok v \<Longrightarrow> (\<exists>s idx. (s, idx) \<in> set (enum v state) \<and> idx \<noteq> 0 \<and> P s idx) \<longleftrightarrow>
     (\<exists>s. lookup v state s \<noteq> 0 \<and> P s (lookup v state s))"
  using enum_iff by metis

end

lemma dense_row_visits:
  assumes "i < length (SmallParseTableMap lang)" "i < length (buildSmallTokenLookup lang)"
    and "distinct (map fst (state_entries lang i))"
  defines "row \<equiv> buildSmallTokenLookup lang ! i"
  shows "idx \<noteq> 0 \<Longrightarrow> (s, idx) \<in> set (row_visits row) \<longleftrightarrow> unat s < length row \<and> assoc (state_entries lang i) s = idx"
    and "distinct (map fst (row_visits row))"
    and "s \<in> fst ` set (row_visits row) \<Longrightarrow> unat s < length row"
proof -
  have ok: "row_ok (state_entries lang i) row"
    unfolding row_def by (rule buildSmallTokenLookup_ok [OF assms(2,1,3)])
  then have short: "\<And>k. k < length row \<Longrightarrow> row ! k \<noteq> 0 \<Longrightarrow> k < 65536" by (simp add: row_ok_def)
  note r = row_visits_set [of row, OF short]
  show "idx \<noteq> 0 \<Longrightarrow> (s, idx) \<in> set (row_visits row) \<longleftrightarrow> unat s < length row \<and> assoc (state_entries lang i) s = idx"
    using r(1) ok by (auto simp: row_ok_def)
  show "distinct (map fst (row_visits row))" using r(2) by blast
  show "s \<in> fst ` set (row_visits row) \<Longrightarrow> unat s < length row" using r(1) by auto
qed

lemma small_visits:
  assumes "tables_ok lang" "i < length (SmallParseTableMap lang)"
    and "languageDenseLimit lang \<le> unat state" "unat state = unat (LargeStateCount lang) + i"
  shows "idx \<noteq> 0 \<Longrightarrow> (s, idx) \<in> set (visits (new_view lang) state) \<longleftrightarrow> assoc (state_entries lang i) s = idx"
    and "distinct (map fst (visits (new_view lang) state))"
proof -
  let ?rows = "buildSmallTokenLookup lang"
  define es where "es = state_entries lang i"
  define row where "row = (if i < length ?rows then ?rows ! i else [])"
  define fs where "fs = filter (\<lambda>(s, v). length row = 0 \<or> length row \<le> unat s) es"
  have d: "distinct (map fst es)"
    and c: "unat (SmallParseTableMap lang ! i) < length (SmallParseTable lang) \<Longrightarrow>
      groups_complete (SmallParseTable lang) (unat (SmallParseTable lang ! unat (SmallParseTableMap lang ! i)))
        (unat (SmallParseTableMap lang ! i) + 1)"
    using assms(1,2) by (auto simp: tables_ok_def rows_distinct_def es_def)
  have df: "distinct (map fst fs)" unfolding fs_def using d by (rule distinct_map_filter)
  have len: "(if i < length ?rows then length (?rows ! i) else 0) = length row" by (simp add: row_def)
  have v: "visits (new_view lang) state =
      (if SmallParseTable lang = [] then []
       else if row \<noteq> [] \<or> go_sort_by fst fs \<noteq> [] then row_visits row @ go_sort_by fst fs else es)"
  proof (cases "SmallParseTable lang = []")
    case True
    then show ?thesis using assms(2-4)
      by (auto simp: visits_eq new_view_def Let_def small_entries_def)
  next
    case False
    have "SmallParseTableMap lang \<noteq> []" using assms(2) by auto
    moreover have "buildSmallLookup lang ?rows ! i = go_sort_by fst fs"
      using small_pairs_complete [OF c] assms(2) by (simp only: nth_buildSmallLookup len fs_def es_def)
    ultimately show ?thesis
      using assms(2-4) False by (simp add: visits_eq new_view_def Let_def row_def es_def)
  qed
  have dense: "idx \<noteq> 0 \<Longrightarrow> (s, idx) \<in> set (row_visits row) \<longleftrightarrow> unat s < length row \<and> assoc es s = idx"
    "distinct (map fst (row_visits row))" "s \<in> fst ` set (row_visits row) \<Longrightarrow> unat s < length row" for s idx
    using dense_row_visits [OF assms(2) _ d [unfolded es_def]] unfolding row_def es_def
    by (cases "i < length ?rows"; simp)+
  have Nil: "es = []" if "SmallParseTable lang = []" using that by (simp add: small_entries_def es_def)
  show "(s, idx) \<in> set (visits (new_view lang) state) \<longleftrightarrow> assoc (state_entries lang i) s = idx" if idx: "idx \<noteq> 0"
  proof -
    have es: "(s, idx) \<in> set es \<longleftrightarrow> assoc es s = idx" using assoc_iff [OF d idx, of s] by simp
    have fs: "(s, idx) \<in> set fs \<longleftrightarrow> (length row = 0 \<or> length row \<le> unat s) \<and> assoc es s = idx"
      using es by (auto simp: fs_def)
    have both: "(s, idx) \<in> set (row_visits row @ go_sort_by fst fs) \<longleftrightarrow> assoc es s = idx"
      using dense(1) [OF idx, of s] fs by auto
    show ?thesis
    proof (cases "SmallParseTable lang = []")
      case True
      then show ?thesis using v idx by (simp add: assoc_def small_entries_def)
    next
      case False
      then show ?thesis using v both es by (simp add: es_def [symmetric])
    qed
  qed
  show "distinct (map fst (visits (new_view lang) state))"
  proof -
    have "distinct (map fst (row_visits row @ go_sort_by fst fs))"
    proof (cases "row = []")
      case True
      then show ?thesis using sorted_pairs(2) [OF df] by simp
    next
      case False
      have "s \<notin> fst ` set (row_visits row)" if "s \<in> fst ` set fs" for s
        using that dense(3) [of s] False by (fastforce simp: fs_def)
      then show ?thesis using dense(2) sorted_pairs(2) [OF df] by auto
    qed
    then show ?thesis using v d by simp
  qed
qed

lemma repair_small:
  assumes "\<not> unat state < languageDenseLimit lang"
    and "\<not> (unat state < unat (LargeStateCount lang) \<or>
      unat state - unat (LargeStateCount lang) \<ge> length (SmallParseTableMap lang))"
  shows "lookupRepairActionIndex lang state s = assoc (state_entries lang (unat state - unat (LargeStateCount lang))) s"
  using assms by (simp add: lookupRepairActionIndex_def scan_groups_assoc)

interpretation parse_table: action_table tables_ok lookupRepairActionIndex "\<lambda>lang. visits (new_view lang)"
proof
  fix lang state s and idx :: u16
  assume ok: "tables_ok lang"
  show "(s, idx) \<in> set (visits (new_view lang) state) \<longleftrightarrow> lookupRepairActionIndex lang state s = idx"
    if idx: "idx \<noteq> 0"
  proof (cases "unat state < languageDenseLimit lang")
    case True
    show ?thesis
    proof (cases "unat state < length (ParseTable lang)")
      case st: True
      then have "length (ParseTable lang ! unat state) \<le> 65536" using ok by (simp add: tables_ok_def)
      then show ?thesis
        using True st idx row_visits_set(1) [of "ParseTable lang ! unat state" s idx]
        by (auto simp: visits_eq new_view_def Let_def lookupRepairActionIndex_def)
    next
      case False
      then show ?thesis using True idx by (simp add: visits_eq new_view_def Let_def lookupRepairActionIndex_def)
    qed
  next
    case False
    show ?thesis
    proof (cases "unat state < unat (LargeStateCount lang) \<or>
        unat state - unat (LargeStateCount lang) \<ge> length (SmallParseTableMap lang)")
      case True
      then show ?thesis using False idx
        by (auto simp: visits_eq new_view_def Let_def lookupRepairActionIndex_def)
    next
      case small: False
      then show ?thesis
        using small_visits(1) [OF ok _ _ _ idx, of "unat state - unat (LargeStateCount lang)" state s]
          repair_small [OF False small] False by simp
    qed
  qed
  show "distinct (map fst (visits (new_view lang) state))"
  proof (cases "unat state < languageDenseLimit lang")
    case True
    show ?thesis
    proof (cases "unat state < length (ParseTable lang)")
      case st: True
      then have "length (ParseTable lang ! unat state) \<le> 65536" using ok by (simp add: tables_ok_def)
      then show ?thesis
        using True st row_visits_set(2) [of "ParseTable lang ! unat state"]
        by (simp add: visits_eq new_view_def Let_def)
    next
      case False
      then show ?thesis using True by (simp add: visits_eq new_view_def Let_def)
    qed
  next
    case False
    show ?thesis
    proof (cases "unat state < unat (LargeStateCount lang) \<or>
        unat state - unat (LargeStateCount lang) \<ge> length (SmallParseTableMap lang)")
      case True
      then show ?thesis using False by (auto simp: visits_eq new_view_def Let_def)
    next
      case small: False
      then show ?thesis
        using small_visits(2) [OF ok, of "unat state - unat (LargeStateCount lang)" state] False by simp
    qed
  qed
qed

subsection \<open>Properties\<close>

definition sample_action :: parse_action where
  "sample_action = zero_action\<lparr>actType := ParseActionReduce, actSymbol := 4, ChildCount := 2\<rparr>"

text \<open>Two dense states and one small state with two groups.\<close>

definition sample_language :: language where
  "sample_language =
     \<lparr>langName = ''sample'', GeneratedByGrammargen = False, SymbolCount = 6, TokenCount = 3, StateCount = 3,
      LargeStateCount = 2, SymbolNames = [''end'', ''a'', ''b'', ''s'', ''t'', ''u''], SymbolMetadata = [],
      ParseTable = [[0, 1, 0, 2, 0, 0], [0, 0, 1, 0, 0, 0]],
      SmallParseTable = [2, 1, 2, 0, 1, 2, 1, 5], SmallParseTableMap = [0],
      ParseActions = [\<lparr>Reusable = False, Actions = []\<rparr>, \<lparr>Reusable = True, Actions = [sample_action]\<rparr>,
        \<lparr>Reusable = True, Actions = [zero_action\<lparr>actState := 2\<rparr>]\<rparr>],
      LargeStateGotos = Map.empty, LexModes = [], KeywordLexStates = [], KeywordCaptureToken = 0,
      FieldMapSlices = [], FieldMapEntries = [], AliasSequences = [], ExternalSymbols = [],
      ExternalLexStates = [], InitialState = 1\<rparr>"

lemma sample_rows_distinct: "rows_distinct sample_language"
  by code_simp

lemma sample_language_ok: "tables_ok sample_language"
proof -
  have "\<forall>offset \<in> set (SmallParseTableMap sample_language). unat offset < length (SmallParseTable sample_language) \<longrightarrow>
      groups_complete (SmallParseTable sample_language) (unat (SmallParseTable sample_language ! unat offset)) (unat offset + 1)"
    by code_simp
  moreover have "\<forall>row \<in> set (ParseTable sample_language). length row \<le> 65536"
    by (simp add: sample_language_def)
  ultimately show ?thesis using sample_rows_distinct unfolding tables_ok_def by blast
qed

text \<open>
  \<^bold>\<open>C29.\<close> The derived tables do not change a lookup: for every language whose small states
  list a symbol at most once, \<open>lookupActionIndex\<close> through the dense token rows, the sorted
  overflow pairs and their linear or binary search finds the action index that the plain scan
  of the groups in \<open>lookupRepairActionIndex\<close> finds, for every state and symbol and also for
  tables with cut-off groups.
\<close>

theorem table_lookup_equiv:
  assumes "rows_distinct lang"
  shows "lookupActionIndex (new_view lang) state s = lookupRepairActionIndex lang state s"
  using assms by (rule lookup_eq_repair)

theorem table_lookup_equiv_witness:
  "lookupActionIndex (new_view sample_language) 2 5 = 2 \<and> lookupActionIndex (new_view sample_language) 2 4 = 0"
proof -
  have "lookupRepairActionIndex sample_language 2 5 = 2" "lookupRepairActionIndex sample_language 2 4 = 0"
    by code_simp+
  then show ?thesis
    using table_lookup_equiv [OF sample_rows_distinct, of 2 5] table_lookup_equiv [OF sample_rows_distinct, of 2 4]
    by simp
qed

text \<open>
  \<^bold>\<open>C31.\<close> The enumeration of a state is complete and visits no symbol twice:
  \<open>forEachActionIndexInState\<close> presents a symbol with a non-zero action index to its visitor
  exactly when \<open>lookupActionIndex\<close> gives that index, whether the state is stored densely, as
  groups, or split into a dense row and overflow pairs.
\<close>

theorem for_each_action_complete:
  fixes state :: u32
  assumes "tables_ok lang" and "idx \<noteq> 0"
  defines "visited \<equiv> forEachActionIndexInState (new_view lang) state (\<lambda>s idx acc. (acc @ [(s, idx)], True)) []"
  shows "((s, idx) \<in> set visited \<longleftrightarrow> lookupActionIndex (new_view lang) state s = idx) \<and> distinct (map fst visited)"
proof -
  have "rows_distinct lang" using assms(1) by (simp add: tables_ok_def)
  then show ?thesis
    using parse_table.enum_iff [OF assms(1,2), of s state] parse_table.enum_distinct [OF assms(1), of state]
    by (simp add: lookup_eq_repair visited_def visits_def)
qed

theorem for_each_action_complete_witness:
  "(5, 2) \<in> set (forEachActionIndexInState (new_view sample_language) 2 (\<lambda>s idx acc. (acc @ [(s, idx)], True)) [])"
proof -
  have "lookupActionIndex (new_view sample_language) 2 5 = 2" by code_simp
  then show ?thesis using for_each_action_complete [OF sample_language_ok, of 2 5 2] by simp
qed

end
