(* ===== verification/Table_Clients.thy ===== *)
theory Table_Clients
  imports Parse_Tables
begin

text \<open>
  What the parser derives from its action tables (\<open>parser_default_reduce.go\<close>,
  \<open>parser_recovery.go\<close>, \<open>lex_mode_repair.go\<close>, \<open>lookahead.go\<close> and
  \<open>buildExternalValidByState\<close> of \<open>parser_tables.go\<close>): eager default reductions, the symbols
  that are valid in a state, recover actions by state, states that can produce a keyword,
  states that need no lookahead, and the valid external tokens. Each is shown to agree with
  the lookups of \<open>Parse_Tables\<close>.
\<close>

unbundle bit_operations_syntax

subsection \<open>Eager default reductions\<close>

definition sameEagerDefaultReduce :: "parse_action \<Rightarrow> parse_action \<Rightarrow> bool" where
  "sameEagerDefaultReduce a b \<longleftrightarrow>
     actType a = ParseActionReduce \<and> actType b = ParseActionReduce \<and> actSymbol a = actSymbol b \<and>
     ChildCount a = ChildCount b \<and> DynamicPrecedence a = DynamicPrecedence b \<and> ProductionID a = ProductionID b"

text \<open>The candidate found so far, and whether the state is invalid.\<close>

definition eager_visit ::
  "classified_action list \<Rightarrow> u16 \<Rightarrow> u16 \<Rightarrow> u16 \<Rightarrow> parse_action option \<times> bool \<Rightarrow> (parse_action option \<times> bool) \<times> bool" where
  "eager_visit actions tokenCount s idx st =
     (let (candidate, invalid) = st in
      if s \<ge> tokenCount then ((candidate, invalid), True)
      else if unat idx \<ge> length actions then ((candidate, True), False)
      else
        (let classified = actions ! unat idx in
         if caClass classified = classifiedParseActionSingleShift \<and>
            (Extra (caAction classified) \<or> ExtraChain (caAction classified))
         then ((candidate, invalid), True)
         else if caClass classified \<noteq> classifiedParseActionSingleReduce \<or> ChildCount (caAction classified) = 0
         then ((candidate, True), False)
         else
           (case candidate of
              None \<Rightarrow> ((Some (caAction classified), invalid), True)
            | Some c \<Rightarrow>
                if \<not> sameEagerDefaultReduce c (caAction classified) then ((candidate, True), False)
                else ((candidate, invalid), True))))"

definition parserRuntimeStateCount :: "table_view \<Rightarrow> nat" where
  "parserRuntimeStateCount v =
     (let l = vLanguage v;
          stateCount = (if StateCount l = 0 then length (ParseTable l) else unat (StateCount l));
          smallStates = smallBase v + length (SmallParseTableMap l);
          stateCount = (if smallStates > stateCount then smallStates else stateCount)
      in if length (LexModes l) > stateCount then length (LexModes l) else stateCount)"

definition eager_state :: "table_view \<Rightarrow> nat \<Rightarrow> parse_action option" where
  "eager_state v state =
     (let (candidate, invalid) =
        forEachActionIndexInState v (u32_of state)
          (eager_visit (classifiedActions v) (ucast (TokenCount (vLanguage v)))) (None, False)
      in if invalid then None else candidate)"

definition buildEagerDefaultReduceActions :: "table_view \<Rightarrow> parse_action option list" where
  "buildEagerDefaultReduceActions v =
     (if ParseActions (vLanguage v) = [] then [] else map (eager_state v) [0..<parserRuntimeStateCount v])"

definition eagerDefaultReduceAction :: "parse_action option list \<Rightarrow> u32 \<Rightarrow> parse_action option" where
  "eagerDefaultReduceAction reduces state =
     (if unat state \<ge> length reduces then None else reduces ! unat state)"

subsection \<open>Symbols that are valid in a state\<close>

record lookahead_iterator =
  itLanguage :: language
  itState :: u32
  itSymbols :: "u16 list"
  itPos :: int

definition computeMaxState :: "language \<Rightarrow> nat" where
  "computeMaxState lang =
     (let m = (if StateCount lang = 0 then length (ParseTable lang) else unat (StateCount lang));
          smallCount = unat (LargeStateCount lang) + length (SmallParseTableMap lang)
      in if smallCount > m then smallCount else m)"

text \<open>The groups of a small state, where those with value 0 are skipped as a whole.\<close>

fun collect_groups :: "u16 list \<Rightarrow> nat \<Rightarrow> nat \<Rightarrow> u16 list \<Rightarrow> u16 list" where
  "collect_groups table 0 pos symbols = symbols"
| "collect_groups table (Suc n) pos symbols =
     (if pos + 1 \<ge> length table then symbols
      else
        (let sectionValue = table ! pos; symbolCount = unat (table ! (pos + 1)) in
         if sectionValue \<noteq> 0
         then (case symbol_loop (\<lambda>s acc. (acc @ [s], True)) table symbolCount (pos + 2) symbols of
                 (symbols', pos', _) \<Rightarrow> collect_groups table n pos' symbols')
         else collect_groups table n (min (pos + 2 + symbolCount) (length table)) symbols))"

definition collectValidSymbols :: "language \<Rightarrow> u32 \<Rightarrow> u16 list" where
  "collectValidSymbols lang state =
     (let s = unat state in
      if s < length (ParseTable lang) \<and> s < unat (LargeStateCount lang)
      then map (\<lambda>(i, _). u16_of i) (filter (\<lambda>(_, actionIdx). actionIdx \<noteq> 0) (enumerate 0 (ParseTable lang ! s)))
      else if s < unat (LargeStateCount lang) \<or>
              s - unat (LargeStateCount lang) \<ge> length (SmallParseTableMap lang) then []
      else
        (let table = SmallParseTable lang;
             pos = unat (SmallParseTableMap lang ! (s - unat (LargeStateCount lang)))
         in if pos \<ge> length table then [] else collect_groups table (unat (table ! pos)) (pos + 1) []))"

definition ResetState :: "lookahead_iterator \<Rightarrow> u32 \<Rightarrow> lookahead_iterator option" where
  "ResetState it state =
     (if unat state \<ge> computeMaxState (itLanguage it) then None
      else Some (it\<lparr>itState := state, itPos := -1, itSymbols := collectValidSymbols (itLanguage it) state\<rparr>))"

definition NewLookaheadIterator :: "language \<Rightarrow> u32 \<Rightarrow> lookahead_iterator option" where
  "NewLookaheadIterator lang state =
     ResetState \<lparr>itLanguage = lang, itState = 0, itSymbols = [], itPos = -1\<rparr> state"

definition iterator_next :: "lookahead_iterator \<Rightarrow> lookahead_iterator \<times> bool" where
  "iterator_next it = (it\<lparr>itPos := itPos it + 1\<rparr>, itPos it + 1 < int (length (itSymbols it)))"

definition CurrentSymbol :: "lookahead_iterator \<Rightarrow> u16" where
  "CurrentSymbol it =
     (if itPos it < 0 \<or> itPos it \<ge> int (length (itSymbols it)) then 0 else itSymbols it ! nat (itPos it))"

definition CurrentSymbolName :: "lookahead_iterator \<Rightarrow> string" where
  "CurrentSymbolName it =
     (if unat (CurrentSymbol it) < length (SymbolNames (itLanguage it))
      then SymbolNames (itLanguage it) ! unat (CurrentSymbol it) else '''')"

text \<open>A client's loop: the symbols that \<open>Next\<close> and \<open>CurrentSymbol\<close> give until the end.\<close>

function drain :: "lookahead_iterator \<Rightarrow> u16 list" where
  "drain it =
     (case iterator_next it of (it', ok) \<Rightarrow> if ok then CurrentSymbol it' # drain it' else [])"
  by pat_completeness auto
termination
  by (relation "measure (\<lambda>it. nat (int (length (itSymbols it)) - itPos it))") (auto simp: iterator_next_def)

declare drain.simps [simp del]

subsection \<open>Recover actions\<close>

definition recoverAction :: "parse_action_entry \<Rightarrow> parse_action option" where
  "recoverAction entry = find (\<lambda>act. actType act = ParseActionRecover) (Actions entry)"

definition table_state_count :: "language \<Rightarrow> nat" where
  "table_state_count lang =
     (let stateCount = (if StateCount lang = 0 then length (ParseTable lang) else unat (StateCount lang));
          smallCount = unat (LargeStateCount lang) + length (SmallParseTableMap lang)
      in if smallCount > stateCount then smallCount else stateCount)"

definition table_symbol_count :: "language \<Rightarrow> nat" where
  "table_symbol_count lang =
     (if SymbolCount lang \<noteq> 0 then unat (SymbolCount lang)
      else if SymbolNames lang \<noteq> [] then length (SymbolNames lang) else 64)"

text \<open>\<open>ensureSymbolCap\<close>: the array is doubled until it has the symbol.\<close>

function doubled :: "nat \<Rightarrow> nat \<Rightarrow> nat" where
  "doubled idx newLen = (if newLen = 0 then doubled idx 64 else if idx \<ge> newLen then doubled idx (newLen * 2) else newLen)"
  by pat_completeness auto
termination
  by (relation "measure (\<lambda>(idx, newLen). if newLen = 0 then idx + 65 else idx + 1 - newLen)") auto

declare doubled.simps [simp del]

definition ensure_cap :: "nat \<Rightarrow> bool list \<Rightarrow> bool list" where
  "ensure_cap idx xs =
     (if idx < length xs then xs else xs @ replicate (doubled idx (length xs) - length xs) False)"

definition mark_symbol :: "u16 \<Rightarrow> bool list \<Rightarrow> bool list" where
  "mark_symbol s xs = (ensure_cap (unat s) xs)[unat s := True]"

type_synonym recover_row = "(u16 \<times> parse_action) list"

text \<open>One visited cell: \<open>recoverActions\<close> and \<open>hasRecoverAction\<close> are one list of options.\<close>

definition recover_cell ::
  "parse_action option list \<Rightarrow> u16 \<Rightarrow> u16 \<Rightarrow> recover_row \<times> bool list \<Rightarrow> (recover_row \<times> bool list) \<times> bool" where
  "recover_cell actions idx s st =
     (let (row, marks) = st in
      (if unat idx < length actions
       then (case actions ! unat idx of
               None \<Rightarrow> (row, marks)
             | Some act \<Rightarrow> (row @ [(s, act)], mark_symbol s marks))
       else (row, marks), True))"

fun recover_dense :: "parse_action option list \<Rightarrow> u16 list list \<Rightarrow> bool list \<Rightarrow> recover_row list \<times> bool list" where
  "recover_dense actions [] marks = ([], marks)"
| "recover_dense actions (row # rows) marks =
     (let ((cells, marks'), _) =
            visit_list (\<lambda>(i, idx). recover_cell actions idx (u16_of i)) (enumerate 0 row) ([], marks);
          (rest, marks'') = recover_dense actions rows marks'
      in (cells # rest, marks''))"

fun recover_small ::
  "language \<Rightarrow> parse_action option list \<Rightarrow> nat \<Rightarrow> u32 list \<Rightarrow> recover_row list \<times> bool list \<Rightarrow> recover_row list \<times> bool list" where
  "recover_small lang actions state [] acc = acc"
| "recover_small lang actions state (offset # offsets) (byState, marks) =
     recover_small lang actions (state + 1) offsets
       (if state \<ge> length byState then (byState, marks)
        else
          (let (row, marks') = small_walk (recover_cell actions) (SmallParseTable lang) (unat offset)
                                 (byState ! state, marks)
           in (byState[state := row], marks')))"

record recover_tables =
  recoverByState :: "recover_row list"
  hasRecoverState :: "bool list"
  hasRecoverSymbol :: "bool list"

definition no_recover :: recover_tables where
  "no_recover = \<lparr>recoverByState = [], hasRecoverState = [], hasRecoverSymbol = []\<rparr>"

text \<open>The rows and marks before the final emptiness tests.\<close>

definition recover_raw :: "language \<Rightarrow> recover_row list \<times> bool list" where
  "recover_raw lang =
     (let actions = map recoverAction (ParseActions lang); stateCount = table_state_count lang;
          (dense, marks) = recover_dense actions (take stateCount (ParseTable lang)) (replicate (table_symbol_count lang) False);
          byState = dense @ replicate (stateCount - length dense) []
      in if SmallParseTableMap lang \<noteq> [] \<and> SmallParseTable lang \<noteq> []
         then recover_small lang actions (unat (LargeStateCount lang)) (SmallParseTableMap lang) (byState, marks)
         else (byState, marks))"

definition buildRecoverActionsByState :: "language \<Rightarrow> recover_tables" where
  "buildRecoverActionsByState lang =
     (if (\<forall>a \<in> set (map recoverAction (ParseActions lang)). a = None) \<or> table_state_count lang = 0 then no_recover
      else
        (let (byState, marks) = recover_raw lang; states = map (\<lambda>row. row \<noteq> []) byState
         in if \<not> (\<exists>b \<in> set states. b) then no_recover
            else \<lparr>recoverByState = byState, hasRecoverState = states,
                  hasRecoverSymbol = (if \<exists>b \<in> set marks. b then marks else [])\<rparr>))"

definition stateCanRecover :: "recover_tables \<Rightarrow> u32 \<Rightarrow> bool" where
  "stateCanRecover p state =
     (if hasRecoverState p = [] then True
      else unat state < length (hasRecoverState p) \<and> hasRecoverState p ! unat state)"

definition symbolCanRecover :: "recover_tables \<Rightarrow> u16 \<Rightarrow> bool" where
  "symbolCanRecover p s =
     (if hasRecoverSymbol p = [] then True
      else unat s < length (hasRecoverSymbol p) \<and> hasRecoverSymbol p ! unat s)"

definition recoverActionForState :: "recover_tables \<Rightarrow> u32 \<Rightarrow> u16 \<Rightarrow> parse_action option" where
  "recoverActionForState p state s =
     (if unat state \<ge> length (recoverByState p) then None
      else map_option snd (find (\<lambda>(x, _). x = s) (recoverByState p ! unat state)))"

subsection \<open>States that can produce a keyword\<close>

definition keyword_marks :: "language \<Rightarrow> bool list" where
  "keyword_marks lang =
     fold (\<lambda>st marks. if AcceptToken st = 0 \<or> AcceptToken st = KeywordCaptureToken lang then marks
                      else mark_symbol (AcceptToken st) marks)
       (KeywordLexStates lang) (replicate (table_symbol_count lang) False)"

definition is_marked :: "bool list \<Rightarrow> nat \<Rightarrow> bool" where
  "is_marked marks i \<longleftrightarrow> i < length marks \<and> marks ! i"

fun keyword_groups :: "bool list \<Rightarrow> u16 list \<Rightarrow> nat \<Rightarrow> nat \<Rightarrow> bool" where
  "keyword_groups marks table 0 pos = False"
| "keyword_groups marks table (Suc n) pos =
     (if pos + 1 \<ge> length table then False
      else
        (let end = min (pos + 2 + unat (table ! (pos + 1))) (length table) in
         if table ! pos \<noteq> 0 \<and> (\<exists>s \<in> set (go_slice table (pos + 2) end). is_marked marks (unat s)) then True
         else keyword_groups marks table n end))"

definition keyword_row :: "bool list \<Rightarrow> u16 list \<Rightarrow> bool" where
  "keyword_row marks row \<longleftrightarrow> (\<exists>(i, idx) \<in> set (enumerate 0 row). idx \<noteq> 0 \<and> is_marked marks i)"

fun keyword_small :: "language \<Rightarrow> bool list \<Rightarrow> nat \<Rightarrow> u32 list \<Rightarrow> bool list \<Rightarrow> bool list" where
  "keyword_small lang marks state [] hasKeyword = hasKeyword"
| "keyword_small lang marks state (offset # offsets) hasKeyword =
     keyword_small lang marks (state + 1) offsets
       (if state \<ge> length hasKeyword \<or> hasKeyword ! state \<or> unat offset \<ge> length (SmallParseTable lang) then hasKeyword
        else if keyword_groups marks (SmallParseTable lang) (unat (SmallParseTable lang ! unat offset)) (unat offset + 1)
        then hasKeyword[state := True] else hasKeyword)"

text \<open>All states, before the test that some state has a keyword.\<close>

definition keyword_raw :: "language \<Rightarrow> bool list" where
  "keyword_raw lang =
     (let marks = keyword_marks lang; dense = map (keyword_row marks) (take (table_state_count lang) (ParseTable lang));
          has = dense @ replicate (table_state_count lang - length dense) False
      in if SmallParseTableMap lang \<noteq> [] \<and> SmallParseTable lang \<noteq> []
         then keyword_small lang marks (unat (LargeStateCount lang)) (SmallParseTableMap lang) has else has)"

definition buildKeywordStates :: "language \<Rightarrow> bool list" where
  "buildKeywordStates lang =
     (if KeywordCaptureToken lang = 0 \<or> KeywordLexStates lang = [] then []
      else if \<not> (\<exists>b \<in> set (keyword_marks lang). b) \<or> table_state_count lang = 0 then []
      else if \<exists>b \<in> set (keyword_raw lang). b then keyword_raw lang else [])"

subsection \<open>States that need no lookahead\<close>

definition noLookaheadLexState :: u32 where
  "noLookaheadLexState = NOT 0"

definition repairEntryIsTriviaOnly :: "parse_action_entry \<Rightarrow> bool" where
  "repairEntryIsTriviaOnly entry \<longleftrightarrow>
     Actions entry \<noteq> [] \<and> (\<forall>act \<in> set (Actions entry). Extra act \<or> ExtraChain act)"

text \<open>Whether a token makes the state look ahead; the token count is below \<open>2^16\<close>.\<close>

definition needs_lookahead :: "language \<Rightarrow> u32 \<Rightarrow> u16 \<Rightarrow> bool" where
  "needs_lookahead lang state s \<longleftrightarrow>
     s \<notin> set (ExternalSymbols lang) \<and>
     (let idx = lookupRepairActionIndex lang state s in
      idx \<noteq> 0 \<and> unat idx < length (ParseActions lang) \<and> \<not> repairEntryIsTriviaOnly (ParseActions lang ! unat idx))"

definition repair_mode :: "language \<Rightarrow> nat \<Rightarrow> lex_mode \<Rightarrow> lex_mode" where
  "repair_mode lang state mode =
     (if LexStateIndex mode = noLookaheadLexState then mode
      else
        (let eofIdx = lookupRepairActionIndex lang (u32_of state) 0 in
         if eofIdx = 0 \<or> unat eofIdx \<ge> length (ParseActions lang) then mode
         else
           (let eofEntry = ParseActions lang ! unat eofIdx in
            if Actions eofEntry = [] \<or> \<not> (\<forall>act \<in> set (Actions eofEntry). actType act = ParseActionReduce) then mode
            else if \<exists>i \<in> set [1..<unat (TokenCount lang)]. needs_lookahead lang (u32_of state) (u16_of i) then mode
            else SetLexStateIndex mode noLookaheadLexState)))"

definition RepairNoLookaheadLexModes :: "language \<Rightarrow> language" where
  "RepairNoLookaheadLexModes lang =
     (if ParseActions lang = [] then lang
      else lang\<lparr>LexModes :=
        map (\<lambda>(state, mode). if state < unat (StateCount lang) then repair_mode lang state mode else mode)
          (enumerate 0 (LexModes lang))\<rparr>)"

subsection \<open>Valid external tokens\<close>

definition external_state_count :: "table_view \<Rightarrow> nat" where
  "external_state_count p =
     (let l = vLanguage p in
      if StateCount l \<noteq> 0 then unat (StateCount l)
      else
        (let stateCount = length (ParseTable l);
             smallStates = smallBase p + length (SmallParseTableMap l);
             stateCount = (if smallStates > stateCount then smallStates else stateCount)
         in if length (LexModes l) > stateCount then length (LexModes l) else stateCount))"

definition buildExternalValidByState :: "table_view \<Rightarrow> u16 list list" where
  "buildExternalValidByState p =
     (let ext = ExternalSymbols (vLanguage p) in
      if ext = [] \<or> ExternalLexStates (vLanguage p) \<noteq> [] \<or> int (length ext) > 65535 then []
      else map (\<lambda>state. map (\<lambda>(i, _). u16_of i)
                  (filter (\<lambda>(i, s). lookupActionIndex p (u32_of state) s \<noteq> 0) (enumerate 0 ext)))
             [0..<external_state_count p])"

definition valid_mask :: "nat \<Rightarrow> u16 list \<Rightarrow> 64 word" where
  "valid_mask n row = foldl (\<lambda>mask i. if unat i \<ge> n then mask else mask OR push_bit (unat i) 1) 0 row"

definition buildExternalValidMaskByState :: "u16 list list \<Rightarrow> nat \<Rightarrow> 64 word list" where
  "buildExternalValidMaskByState rows externalSymbolCount =
     (if rows = [] \<or> externalSymbolCount = 0 \<or> externalSymbolCount > 64 then []
      else
        (let masks = map (valid_mask externalSymbolCount) rows
         in if \<exists>mask \<in> set masks. mask \<noteq> 0 then masks else []))"

subsection \<open>Lemmas: eager default reductions\<close>

text \<open>A token that may occur in a state with the default reduction \<open>a\<close>.\<close>

definition eager_token :: "classified_action list \<Rightarrow> parse_action \<Rightarrow> u16 \<Rightarrow> bool" where
  "eager_token actions a idx \<longleftrightarrow>
     unat idx < length actions \<and>
     (let c = actions ! unat idx in
      caClass c = classifiedParseActionSingleShift \<and> (Extra (caAction c) \<or> ExtraChain (caAction c)) \<or>
      caClass c = classifiedParseActionSingleReduce \<and> ChildCount (caAction c) \<noteq> 0 \<and>
        (a = caAction c \<or> sameEagerDefaultReduce a (caAction c)))"

lemma eager_visit_cases:
  "eager_visit actions n x i (c0, False) = (st, continue) \<Longrightarrow>
     \<not> continue \<and> snd st \<or>
     continue \<and> st = (c0, False) \<and> (x < n \<longrightarrow> (\<forall>c. c0 = Some c \<longrightarrow> eager_token actions c i)) \<and>
       (x < n \<and> c0 = None \<longrightarrow> (\<forall>a. eager_token actions a i)) \<or>
     continue \<and> c0 = None \<and> x < n \<and> (\<exists>a. st = (Some a, False) \<and> eager_token actions a i \<and>
       unat i < length actions \<and> a = caAction (actions ! unat i) \<and>
       caClass (actions ! unat i) = classifiedParseActionSingleReduce)"
  by (auto simp: eager_visit_def eager_token_def Let_def not_le split: if_splits option.splits)

lemma eager_visit_sound:
  assumes "fst (visit_list (\<lambda>(x, idx). eager_visit actions n x idx) es (c0, False)) = (Some a, False)"
  shows "(\<forall>c. c0 = Some c \<longrightarrow> a = c) \<and> (\<forall>(s, idx) \<in> set es. s < n \<longrightarrow> eager_token actions a idx) \<and>
    (c0 = None \<longrightarrow> (\<exists>(s, idx) \<in> set es. s < n \<and> unat idx < length actions \<and> a = caAction (actions ! unat idx) \<and>
       caClass (actions ! unat idx) = classifiedParseActionSingleReduce))"
  using assms
proof (induction es arbitrary: c0)
  case (Cons e es)
  obtain x i where e: "e = (x, i)" by fastforce
  obtain st c where v: "eager_visit actions n x i (c0, False) = (st, c)" by fastforce
  from eager_visit_cases [OF v] show ?case
  proof (elim disjE)
    assume "\<not> c \<and> snd st"
    then show ?thesis using Cons.prems e v by (cases st) simp
  next
    assume c: "c \<and> st = (c0, False) \<and> (x < n \<longrightarrow> (\<forall>c. c0 = Some c \<longrightarrow> eager_token actions c i)) \<and>
       (x < n \<and> c0 = None \<longrightarrow> (\<forall>a. eager_token actions a i))"
    then have "fst (visit_list (\<lambda>(x, idx). eager_visit actions n x idx) es (c0, False)) = (Some a, False)"
      using Cons.prems e v by simp
    note IH = Cons.IH [OF this]
    then show ?thesis using c e by (cases c0) auto
  next
    assume c: "c \<and> c0 = None \<and> x < n \<and> (\<exists>a. st = (Some a, False) \<and> eager_token actions a i \<and>
       unat i < length actions \<and> a = caAction (actions ! unat i) \<and>
       caClass (actions ! unat i) = classifiedParseActionSingleReduce)"
    then obtain b where b: "st = (Some b, False)" "eager_token actions b i" "unat i < length actions"
      "b = caAction (actions ! unat i)" "caClass (actions ! unat i) = classifiedParseActionSingleReduce" by blast
    have "fst (visit_list (\<lambda>(x, idx). eager_visit actions n x idx) es (Some b, False)) = (Some a, False)"
      using Cons.prems e v c b(1) by simp
    note IH = Cons.IH [OF this]
    then show ?thesis using c b e by auto
  qed
qed simp

lemma classify_cases:
  "caClass (classifyParseActionEntry e) = classifiedParseActionSingleReduce \<longleftrightarrow>
     (\<exists>act. Actions e = [act] \<and> actType act = ParseActionReduce \<and> caAction (classifyParseActionEntry e) = act)"
  "caClass (classifyParseActionEntry e) = classifiedParseActionSingleShift \<longleftrightarrow>
     (\<exists>act. Actions e = [act] \<and> actType act = ParseActionShift \<and> caAction (classifyParseActionEntry e) = act)"
  by (auto simp: classifyParseActionEntry_def Let_def length_Suc_conv split: parse_action_type.splits)

lemma new_view_simps [simp]:
  "vLanguage (new_view lang) = lang" "classifiedActions (new_view lang) = map classifyParseActionEntry (ParseActions lang)"
  "denseLimit (new_view lang) = languageDenseLimit lang" "smallBase (new_view lang) = unat (LargeStateCount lang)"
  by (simp_all add: new_view_def Let_def buildClassifiedParseActions_def)

lemma eager_state_visits:
  assumes "eager_state (new_view lang) state = Some a"
  shows "\<forall>(s, idx) \<in> set (visits (new_view lang) (u32_of state)). s < ucast (TokenCount lang) \<longrightarrow>
      eager_token (map classifyParseActionEntry (ParseActions lang)) a idx" (is ?all)
    and "actType a = ParseActionReduce"
proof -
  let ?actions = "map classifyParseActionEntry (ParseActions lang)"
  let ?r = "visit_list (\<lambda>(x, idx). eager_visit ?actions (ucast (TokenCount lang)) x idx)
      (visits (new_view lang) (u32_of state)) (None, False)"
  have "fst ?r = (Some a, False)"
    using assms by (auto simp: eager_state_def forEach_visits Let_def split: prod.splits if_splits)
  note sound = eager_visit_sound [OF this]
  then show ?all by blast
  obtain idx :: u16 where "unat idx < length ?actions" "a = caAction (?actions ! unat idx)"
    "caClass (?actions ! unat idx) = classifiedParseActionSingleReduce"
    using sound by auto
  then show "actType a = ParseActionReduce" by (auto simp: classify_cases(1))
qed

lemma eager_token_entry:
  assumes "eager_token (map classifyParseActionEntry actions) a idx" "actType a = ParseActionReduce"
  shows "\<exists>act. unat idx < length actions \<and> Actions (actions ! unat idx) = [act] \<and>
    (actType act = ParseActionShift \<and> (Extra act \<or> ExtraChain act) \<or>
     sameEagerDefaultReduce a act \<and> ChildCount act \<noteq> 0)"
proof -
  let ?e = "actions ! unat idx"
  have len: "unat idx < length actions" using assms(1) by (simp add: eager_token_def)
  then consider "caClass (classifyParseActionEntry ?e) = classifiedParseActionSingleShift"
      "Extra (caAction (classifyParseActionEntry ?e)) \<or> ExtraChain (caAction (classifyParseActionEntry ?e))"
    | "caClass (classifyParseActionEntry ?e) = classifiedParseActionSingleReduce"
      "ChildCount (caAction (classifyParseActionEntry ?e)) \<noteq> 0"
      "a = caAction (classifyParseActionEntry ?e) \<or> sameEagerDefaultReduce a (caAction (classifyParseActionEntry ?e))"
    using assms(1) by (auto simp: eager_token_def Let_def)
  then show ?thesis
    using len assms(2) by cases (auto simp: classify_cases sameEagerDefaultReduce_def)
qed

subsection \<open>Lemmas: valid symbols\<close>

lemma collect_groups_entries:
  "collect_groups table n pos acc = acc @ map fst (filter (\<lambda>(s, v). v \<noteq> 0) (group_entries table n pos))"
proof (induction n arbitrary: pos acc)
  case (Suc n)
  have past: "collect_groups table k p acc = acc" if "length table \<le> p + 1" for k p acc
    using that by (cases k) auto
  show ?case
  proof (cases "length table \<le> pos + 1")
    case False
    let ?e = "pos + 2 + unat (table ! (pos + 1))"
    let ?loop = "symbol_loop (\<lambda>s acc. (acc @ [s], True)) table (unat (table ! (pos + 1))) (pos + 2) acc"
    obtain acc' pos' c where l: "?loop = (acc', pos', c)" by (metis prod_cases3)
    have collect: "visit_list (\<lambda>s acc. (acc @ [s], True)) xs acc = (acc @ xs, True)" for xs :: "u16 list" and acc
      by (induction xs arbitrary: acc) auto
    have acc': "acc' = acc @ go_slice table (pos + 2) ?e"
      and p: "pos' = ?e \<or> length table \<le> pos' \<and> length table \<le> ?e"
      using symbol_loop_visit [of "\<lambda>s acc. (acc @ [s], True)" table "pos + 2" "unat (table ! (pos + 1))" acc] l
      by (auto simp: collect)
    have f: "filter (\<lambda>(s, v). v \<noteq> 0) (map (\<lambda>s. (s, table ! pos)) xs) =
        (if table ! pos \<noteq> 0 then map (\<lambda>s. (s, table ! pos)) xs else [])" for xs
      by (induction xs) auto
    have "collect_groups table n pos' acc'' = collect_groups table n ?e acc''" for acc''
      using p past [of pos' n acc''] past [of ?e n acc''] by auto
    moreover have "collect_groups table n (min ?e (length table)) acc'' = collect_groups table n ?e acc''" for acc''
      using past [of "min ?e (length table)" n acc''] past [of ?e n acc''] by (cases "?e \<le> length table") auto
    ultimately show ?thesis
      using False l acc' Suc.IH by (simp add: Let_def f comp_def del: min_less_iff_conj)
  qed simp
qed simp

lemma drain_drop: "-1 \<le> itPos it \<Longrightarrow> drain it = drop (nat (itPos it + 1)) (itSymbols it)"
proof (induction it rule: drain.induct)
  case (1 it)
  show ?case
  proof (cases "itPos it + 1 < int (length (itSymbols it))")
    case True
    let ?it = "it\<lparr>itPos := itPos it + 1\<rparr>"
    have n: "nat (itPos it + 1) < length (itSymbols it)" "nat (itPos it + 1 + 1) = Suc (nat (itPos it + 1))"
      using True 1(2) by auto
    have "drain ?it = drop (nat (itPos it + 1 + 1)) (itSymbols it)"
      using 1(1) [of ?it True] True 1(2) by (simp add: iterator_next_def)
    moreover have "CurrentSymbol ?it = itSymbols it ! nat (itPos it + 1)"
      using True 1(2) by (simp add: CurrentSymbol_def)
    ultimately show ?thesis
      using True n by (simp add: drain.simps [of it] iterator_next_def Cons_nth_drop_Suc)
  next
    case False
    then show ?thesis by (simp add: drain.simps [of it] iterator_next_def)
  qed
qed

text \<open>The two kinds of states do not overlap.\<close>

definition states_split :: "language \<Rightarrow> bool" where
  "states_split lang \<longleftrightarrow>
     (if LargeStateCount lang = 0 then ParseTable lang = [] \<or> SmallParseTableMap lang = []
      else length (ParseTable lang) \<le> unat (LargeStateCount lang))"

lemma collectValidSymbols_lookup:
  assumes "tables_ok lang" "LargeStateCount lang \<noteq> 0 \<or> ParseTable lang = []"
  shows "s \<in> set (collectValidSymbols lang state) \<longleftrightarrow> lookupRepairActionIndex lang state s \<noteq> 0"
    and "distinct (collectValidSymbols lang state)"
proof -
  let ?dense = "unat state < length (ParseTable lang) \<and> unat state < unat (LargeStateCount lang)"
  let ?none = "unat state < unat (LargeStateCount lang) \<or>
      unat state - unat (LargeStateCount lang) \<ge> length (SmallParseTableMap lang)"
  have pos: "LargeStateCount lang \<noteq> 0 \<Longrightarrow> 0 < unat (LargeStateCount lang)"
    by (simp add: unat_gt_0)
  then have limit: "languageDenseLimit lang = unat (LargeStateCount lang)"
    using assms(2) by (auto simp: languageDenseLimit_def word_gt_0)
  have "(s \<in> set (collectValidSymbols lang state) \<longleftrightarrow> lookupRepairActionIndex lang state s \<noteq> 0) \<and>
      distinct (collectValidSymbols lang state)"
  proof (cases ?dense)
    case True
    let ?row = "ParseTable lang ! unat state"
    have eq: "collectValidSymbols lang state = map fst (row_visits ?row)"
      using True by (simp add: collectValidSymbols_def Let_def row_visits_def comp_def case_prod_beta)
    have "length ?row \<le> 65536" using assms(1) True by (simp add: tables_ok_def)
    then have short: "\<And>k. k < length ?row \<Longrightarrow> ?row ! k \<noteq> 0 \<Longrightarrow> k < 65536" by simp
    have "s \<in> fst ` set (row_visits ?row) \<longleftrightarrow> (\<exists>idx. (s, idx) \<in> set (row_visits ?row))" by force
    then show ?thesis
      using True row_visits_set [of ?row, OF short] eq
      by (auto simp: lookupRepairActionIndex_def limit Let_def)
  next
    case False
    show ?thesis
    proof (cases ?none)
      case True
      then show ?thesis
        using False by (auto simp: collectValidSymbols_def lookupRepairActionIndex_def limit Let_def)
    next
      case small: False
      let ?es = "state_entries lang (unat state - unat (LargeStateCount lang))"
      have d: "distinct (map fst ?es)" using assms(1) small by (auto simp: tables_ok_def rows_distinct_def)
      have "collectValidSymbols lang state = map fst (filter (\<lambda>(s, v). v \<noteq> 0) ?es)"
        using small by (auto simp: collectValidSymbols_def Let_def small_entries_def collect_groups_entries)
      moreover have "lookupRepairActionIndex lang state s = assoc ?es s"
        using repair_small [of state lang s] small limit by simp
      moreover have "s \<in> fst ` set (filter (\<lambda>(s, v). v \<noteq> 0) ?es) \<longleftrightarrow> assoc ?es s \<noteq> 0"
        using assoc_iff [OF d] by force
      ultimately show ?thesis using distinct_map_filter [OF d] by simp
    qed
  qed
  then show "s \<in> set (collectValidSymbols lang state) \<longleftrightarrow> lookupRepairActionIndex lang state s \<noteq> 0"
    and "distinct (collectValidSymbols lang state)" by auto
qed

subsection \<open>Lemmas: recover actions\<close>

definition rec_of :: "parse_action option list \<Rightarrow> u16 \<Rightarrow> parse_action option" where
  "rec_of actions idx = (if unat idx < length actions then actions ! unat idx else None)"

definition cells :: "parse_action option list \<Rightarrow> (u16 \<times> u16) list \<Rightarrow> recover_row" where
  "cells actions es = List.map_filter (\<lambda>(s, idx). map_option (Pair s) (rec_of actions idx)) es"

definition recovers :: "parse_action option list \<Rightarrow> (u16 \<times> u16) list \<Rightarrow> nat \<Rightarrow> bool" where
  "recovers actions es i \<longleftrightarrow> (\<exists>e \<in> set es. rec_of actions (snd e) \<noteq> None \<and> i = unat (fst e))"

lemma doubled_ge: "idx < doubled idx n"
  by (induction idx n rule: doubled.induct) (subst doubled.simps, auto)

lemma doubled_le: "n \<le> doubled idx n"
  by (induction idx n rule: doubled.induct) (subst doubled.simps, auto)

lemma mark_symbol_marked:
  "is_marked (mark_symbol s marks) i \<longleftrightarrow> i = unat s \<or> is_marked marks i"
proof -
  have "unat s < length (ensure_cap (unat s) marks)"
    using doubled_ge [of "unat s" "length marks"] by (simp add: ensure_cap_def)
  moreover have "is_marked (ensure_cap (unat s) marks) i \<longleftrightarrow> is_marked marks i"
    by (auto simp: is_marked_def ensure_cap_def nth_append)
  ultimately show ?thesis by (auto simp: mark_symbol_def is_marked_def nth_list_update)
qed

lemma recover_cell_eq:
  "recover_cell actions idx s (row, marks) =
     ((row @ cells actions [(s, idx)], if rec_of actions idx = None then marks else mark_symbol s marks), True)"
  by (simp add: recover_cell_def cells_def rec_of_def List.map_filter_def split: option.splits)

lemma cells_Cons: "cells actions (e # es) = cells actions [e] @ cells actions es"
  by (simp add: cells_def List.map_filter_def)

lemma recover_visits:
  "\<exists>marks'. visit_list (\<lambda>(s, idx). recover_cell actions idx s) es (row, marks) = ((row @ cells actions es, marks'), True) \<and>
     (\<forall>i. is_marked marks' i \<longleftrightarrow> is_marked marks i \<or> recovers actions es i)"
proof (induction es arbitrary: row marks)
  case Nil
  then show ?case by (simp add: cells_def List.map_filter_def recovers_def)
next
  case (Cons e es)
  obtain s idx where e: "e = (s, idx)" by fastforce
  let ?marks = "if rec_of actions idx = None then marks else mark_symbol s marks"
  obtain marks' where m: "visit_list (\<lambda>(s, idx). recover_cell actions idx s) es (row @ cells actions [e], ?marks) =
      (((row @ cells actions [e]) @ cells actions es, marks'), True)"
    "\<forall>i. is_marked marks' i \<longleftrightarrow> is_marked ?marks i \<or> recovers actions es i"
    using Cons.IH by blast
  show ?case
    using m e cells_Cons [of actions e es]
    by (intro exI [of _ marks']) (auto simp: recover_cell_eq mark_symbol_marked recovers_def)
qed

lemma find_cells:
  assumes "distinct (map fst es)" "rec_of actions 0 = None"
  shows "map_option snd (find (\<lambda>(x, _). x = s) (cells actions es)) = rec_of actions (assoc es s)"
  using assms(1)
proof (induction es)
  case Nil
  then show ?case using assms(2) by (simp add: cells_def List.map_filter_def assoc_def)
next
  case (Cons e es)
  obtain x idx where e: "e = (x, idx)" by fastforce
  have none: "find (\<lambda>(y, _). y = x) (cells actions es) = None"
    using Cons.prems e by (force simp: find_None_iff cells_def List.map_filter_def)
  show ?case
    using Cons none e by (auto simp: cells_def List.map_filter_def assoc_def split: option.splits)
qed

text \<open>A dense row as entries.\<close>

definition row_entries :: "u16 list \<Rightarrow> (u16 \<times> u16) list" where
  "row_entries row = map (\<lambda>(i, idx). (u16_of i, idx)) (enumerate 0 row)"

lemma row_entries_assoc:
  assumes "length row \<le> 65536"
  shows "distinct (map fst (row_entries row))"
    and "assoc (row_entries row) s = (if unat s < length row then row ! unat s else 0)"
proof -
  have u: "unat (u16_of k) = k" if "k < length row" for k
    using that assms by (simp add: u16_of_def unat_of_nat)
  have "row_entries row = zip (map u16_of [0..<length row]) row"
    by (simp add: row_entries_def enumerate_eq_zip zip_map1)
  then have "map fst (row_entries row) = map u16_of [0..<length row]" by simp
  moreover have "inj_on u16_of {0..<length row}"
    by (rule inj_on_inverseI [of _ unat]) (simp add: u)
  ultimately show d: "distinct (map fst (row_entries row))" by (simp add: distinct_map)
  have "(s, idx) \<in> set (row_entries row) \<longleftrightarrow> unat s < length row \<and> row ! unat s = idx" for idx
  proof
    assume "(s, idx) \<in> set (row_entries row)"
    then show "unat s < length row \<and> row ! unat s = idx"
      by (auto simp: row_entries_def in_set_enumerate_eq u)
  next
    assume "unat s < length row \<and> row ! unat s = idx"
    moreover have "u16_of (unat s) = s" by (simp add: u16_of_def)
    ultimately show "(s, idx) \<in> set (row_entries row)"
      by (auto simp: row_entries_def in_set_enumerate_eq image_iff intro!: bexI [of _ "(unat s, idx)"])
  qed
  then have "map_of (row_entries row) s = (if unat s < length row then Some (row ! unat s) else None)"
    using map_of_eq_Some_iff [OF d] by (cases "map_of (row_entries row) s") (auto, metis option.distinct(1))
  then show "assoc (row_entries row) s = (if unat s < length row then row ! unat s else 0)"
    by (simp add: assoc_def)
qed

lemma recover_dense_eq:
  "fst (recover_dense actions rows marks) = map (\<lambda>row. cells actions (row_entries row)) rows \<and>
   (\<forall>i. is_marked (snd (recover_dense actions rows marks)) i \<longleftrightarrow>
      is_marked marks i \<or> (\<exists>row \<in> set rows. recovers actions (row_entries row) i))"
proof (induction rows arbitrary: marks)
  case (Cons row rows)
  have v: "visit_list (\<lambda>(i, idx). recover_cell actions idx (u16_of i)) (enumerate 0 row) st =
      visit_list (\<lambda>(s, idx). recover_cell actions idx s) (row_entries row) st" for st
  proof -
    have "visit_list (\<lambda>(i, idx). recover_cell actions idx (u16_of i)) xs st =
        visit_list (\<lambda>(s, idx). recover_cell actions idx s) (map (\<lambda>(i, idx). (u16_of i, idx)) xs) st" for xs
      by (induction xs arbitrary: st) (auto split: prod.splits)
    then show ?thesis by (simp add: row_entries_def)
  qed
  obtain marks' where m: "visit_list (\<lambda>(s, idx). recover_cell actions idx s) (row_entries row) ([], marks) =
      ((cells actions (row_entries row), marks'), True)"
    "\<forall>i. is_marked marks' i \<longleftrightarrow> is_marked marks i \<or>
      recovers actions (row_entries row) i"
    using recover_visits [of actions "row_entries row" "[]" marks] by auto
  show ?case
    using Cons.IH [of marks'] m v [of "([], marks)"] by (auto simp: Let_def split: prod.splits)
qed simp

lemma recover_small_eq:
  "length (fst (recover_small lang actions state offsets (byState, marks))) = length byState \<and>
   (\<forall>k < length byState. fst (recover_small lang actions state offsets (byState, marks)) ! k =
      byState ! k @ (if state \<le> k \<and> k < state + length offsets
        then cells actions (small_entries (SmallParseTable lang) (unat (offsets ! (k - state)))) else [])) \<and>
   (\<forall>i. is_marked marks i \<longrightarrow> is_marked (snd (recover_small lang actions state offsets (byState, marks))) i) \<and>
   (\<forall>k s idx. k < length byState \<and> state \<le> k \<and> k < state + length offsets \<and>
      (s, idx) \<in> set (small_entries (SmallParseTable lang) (unat (offsets ! (k - state)))) \<and> rec_of actions idx \<noteq> None \<longrightarrow>
      is_marked (snd (recover_small lang actions state offsets (byState, marks))) (unat s))"
proof (induction offsets arbitrary: state byState marks)
  case (Cons offset offsets)
  let ?es = "small_entries (SmallParseTable lang) (unat offset)"
  show ?case
  proof (cases "length byState \<le> state")
    case True
    then show ?thesis using Cons.IH [of "state + 1" byState marks] by auto
  next
    case False
    obtain marks' where m: "visit_list (\<lambda>(s, idx). recover_cell actions idx s) ?es (byState ! state, marks) =
        ((byState ! state @ cells actions ?es, marks'), True)"
      "\<forall>i. is_marked marks' i \<longleftrightarrow> is_marked marks i \<or>
        recovers actions ?es i"
      using recover_visits by blast
    let ?b = "byState[state := byState ! state @ cells actions ?es]"
    have eq: "recover_small lang actions state (offset # offsets) (byState, marks) =
        recover_small lang actions (state + 1) offsets (?b, marks')"
      using False m(1) by (simp add: small_walk_visit Let_def)
    note IH = Cons.IH [of "state + 1" ?b marks']
    show ?thesis
      unfolding eq
    proof (intro conjI allI impI)
      show "length (fst (recover_small lang actions (state + 1) offsets (?b, marks'))) = length byState"
        using IH by simp
      fix k assume k: "k < length byState"
      then have "fst (recover_small lang actions (state + 1) offsets (?b, marks')) ! k =
          ?b ! k @ (if state + 1 \<le> k \<and> k < state + 1 + length offsets
            then cells actions (small_entries (SmallParseTable lang) (unat (offsets ! (k - (state + 1))))) else [])"
        using IH by simp
      then show "fst (recover_small lang actions (state + 1) offsets (?b, marks')) ! k =
          byState ! k @ (if state \<le> k \<and> k < state + length (offset # offsets)
            then cells actions (small_entries (SmallParseTable lang) (unat ((offset # offsets) ! (k - state)))) else [])"
        using k by (cases "k = state") (auto simp: nth_Cons')
    next
      fix i assume "is_marked marks i"
      then show "is_marked (snd (recover_small lang actions (state + 1) offsets (?b, marks'))) i"
        using IH m(2) by blast
    next
      fix k s idx
      assume a: "k < length byState \<and> state \<le> k \<and> k < state + length (offset # offsets) \<and>
        (s, idx) \<in> set (small_entries (SmallParseTable lang) (unat ((offset # offsets) ! (k - state)))) \<and> rec_of actions idx \<noteq> None"
      show "is_marked (snd (recover_small lang actions (state + 1) offsets (?b, marks'))) (unat s)"
      proof (cases "k = state")
        case True
        then have "is_marked marks' (unat s)" using a m(2) by (force simp: recovers_def)
        then show ?thesis using IH by blast
      next
        case False
        then have "k < length ?b \<and> state + 1 \<le> k \<and> k < state + 1 + length offsets \<and>
            (s, idx) \<in> set (small_entries (SmallParseTable lang) (unat (offsets ! (k - (state + 1))))) \<and> rec_of actions idx \<noteq> None"
          using a by (auto simp: nth_Cons')
        then show ?thesis using IH by blast
      qed
    qed
  qed
qed auto

lemma repair_dense:
  "unat state < languageDenseLimit lang \<Longrightarrow> lookupRepairActionIndex lang state s =
     (if unat state < length (ParseTable lang) \<and> unat s < length (ParseTable lang ! unat state)
      then ParseTable lang ! unat state ! unat s else 0)"
  by (simp add: lookupRepairActionIndex_def Let_def)

text \<open>The row of a state, whichever way it is stored.\<close>

definition row_of :: "language \<Rightarrow> nat \<Rightarrow> (u16 \<times> u16) list" where
  "row_of lang k =
     (if k < length (ParseTable lang) then row_entries (ParseTable lang ! k) else []) @
     (if SmallParseTable lang \<noteq> [] \<and> unat (LargeStateCount lang) \<le> k \<and>
         k < unat (LargeStateCount lang) + length (SmallParseTableMap lang)
      then state_entries lang (k - unat (LargeStateCount lang)) else [])"

lemma row_of_lookup:
  assumes "tables_ok lang" "states_split lang"
  shows "distinct (map fst (row_of lang (unat state)))"
    and "assoc (row_of lang (unat state)) s = lookupRepairActionIndex lang state s"
proof -
  let ?k = "unat state" and ?b = "unat (LargeStateCount lang)"
  let ?small = "?b \<le> ?k \<and> ?k < ?b + length (SmallParseTableMap lang)"
  have d: "distinct (map fst (state_entries lang (?k - ?b)))" if ?small
    using that assms(1) by (auto simp: tables_ok_def rows_distinct_def)
  have len: "length (ParseTable lang ! ?k) \<le> 65536" if "?k < length (ParseTable lang)"
    using that assms(1) by (simp add: tables_ok_def)
  have excl: "\<not> (?k < length (ParseTable lang) \<and> ?small)"
    using assms(2) by (auto simp: states_split_def split: if_splits)
  have limit: "?k < languageDenseLimit lang \<longleftrightarrow>
      (if LargeStateCount lang = 0 then ?k < length (ParseTable lang) else ?k < ?b)"
    by (simp add: languageDenseLimit_def word_gt_0)
  have Nil: "SmallParseTable lang = [] \<Longrightarrow> assoc (small_entries (SmallParseTable lang) n) s = 0" for n
    by (simp add: small_entries_def assoc_def)
  have empty: "assoc [] s = 0" by (simp add: assoc_def)
  have "distinct (map fst (row_of lang ?k)) \<and> assoc (row_of lang ?k) s = lookupRepairActionIndex lang state s"
  proof (cases "?k < length (ParseTable lang)")
    case True
    then have "?k < languageDenseLimit lang"
      using limit assms(2) by (auto simp: states_split_def split: if_splits)
    then show ?thesis
      using True excl row_entries_assoc [OF len [OF True]] by (auto simp: row_of_def repair_dense)
  next
    case False
    show ?thesis
    proof (cases ?small)
      case True
      then have "\<not> ?k < languageDenseLimit lang" using limit False by (auto split: if_splits)
      moreover have "\<not> (?k < ?b \<or> ?k - ?b \<ge> length (SmallParseTableMap lang))" using True by linarith
      ultimately have "lookupRepairActionIndex lang state s = assoc (state_entries lang (?k - ?b)) s"
        by (rule repair_small)
      then show ?thesis using False True d Nil empty by (auto simp: row_of_def)
    next
      case small: False
      then have "lookupRepairActionIndex lang state s = 0"
        using False by (auto simp: lookupRepairActionIndex_def Let_def not_le not_less)
      then show ?thesis using False small empty by (auto simp: row_of_def)
    qed
  qed
  then show "distinct (map fst (row_of lang ?k))" "assoc (row_of lang ?k) s = lookupRepairActionIndex lang state s"
    by auto
qed

lemma table_state_count_small: "unat (LargeStateCount lang) + length (SmallParseTableMap lang) \<le> table_state_count lang"
  by (simp add: table_state_count_def Let_def)

lemma cells_append: "cells actions (xs @ ys) = cells actions xs @ cells actions ys"
  by (simp add: cells_def List.map_filter_def)

lemma cells_Nil [simp]: "cells actions [] = []"
  by (simp add: cells_def List.map_filter_def)

lemma cells_empty: "\<forall>a \<in> set actions. a = None \<Longrightarrow> cells actions es = []"
  by (induction es) (auto simp: cells_def List.map_filter_def rec_of_def split: prod.splits)

lemma set_cells: "(s, a) \<in> set (cells actions es) \<longleftrightarrow> (\<exists>idx. (s, idx) \<in> set es \<and> rec_of actions idx = Some a)"
  by (induction es) (auto simp: cells_def List.map_filter_def split: prod.splits)

lemma recovers_cells: "recovers actions es i \<Longrightarrow> cells actions es \<noteq> []"
  using set_cells [of _ _ actions es] by (force simp: recovers_def)

lemma buildRecover_raw:
  "buildRecoverActionsByState lang =
     (if (\<forall>a \<in> set (map recoverAction (ParseActions lang)). a = None) \<or> table_state_count lang = 0 \<or>
         \<not> (\<exists>row \<in> set (fst (recover_raw lang)). row \<noteq> []) then no_recover
      else \<lparr>recoverByState = fst (recover_raw lang), hasRecoverState = map (\<lambda>row. row \<noteq> []) (fst (recover_raw lang)),
        hasRecoverSymbol = (if \<exists>b \<in> set (snd (recover_raw lang)). b then snd (recover_raw lang) else [])\<rparr>)"
  by (simp add: buildRecoverActionsByState_def Let_def case_prod_beta)

lemma recover_raw_rows:
  fixes lang
  defines "actions \<equiv> map recoverAction (ParseActions lang)"
  shows "length (fst (recover_raw lang)) = table_state_count lang"
    and "k < table_state_count lang \<Longrightarrow> fst (recover_raw lang) ! k = cells actions (row_of lang k)"
    and "k < table_state_count lang \<Longrightarrow> recovers actions (row_of lang k) i \<Longrightarrow> is_marked (snd (recover_raw lang)) i"
proof -
  let ?n = "table_state_count lang" and ?b = "unat (LargeStateCount lang)"
  let ?d = "recover_dense actions (take ?n (ParseTable lang)) (replicate (table_symbol_count lang) False)"
  let ?byState = "fst ?d @ replicate (?n - length (fst ?d)) []"
  have dense: "fst ?d = map (\<lambda>row. cells actions (row_entries row)) (take ?n (ParseTable lang))"
    and marks: "\<And>i row. row \<in> set (take ?n (ParseTable lang)) \<Longrightarrow> recovers actions (row_entries row) i \<Longrightarrow> is_marked (snd ?d) i"
    using recover_dense_eq [of actions "take ?n (ParseTable lang)" "replicate (table_symbol_count lang) False"] by auto
  have lenB: "length ?byState = ?n" by (simp add: dense)
  have nthB: "?byState ! k = (if k < length (ParseTable lang) then cells actions (row_entries (ParseTable lang ! k)) else [])"
    if "k < ?n" for k
    using that by (auto simp: dense nth_append)
  show "length (fst (recover_raw lang)) = ?n"
    using recover_small_eq [of lang actions ?b "SmallParseTableMap lang" ?byState "snd ?d"] lenB
    by (simp add: recover_raw_def Let_def case_prod_beta actions_def)
  show "fst (recover_raw lang) ! k = cells actions (row_of lang k)" if k: "k < ?n"
  proof (cases "SmallParseTableMap lang \<noteq> [] \<and> SmallParseTable lang \<noteq> []")
    case True
    then have "fst (recover_raw lang) ! k = ?byState ! k @ (if ?b \<le> k \<and> k < ?b + length (SmallParseTableMap lang)
        then cells actions (state_entries lang (k - ?b)) else [])"
      using recover_small_eq [of lang actions ?b "SmallParseTableMap lang" ?byState "snd ?d"] lenB k
      by (simp add: recover_raw_def Let_def case_prod_beta actions_def)
    then show ?thesis using True nthB [OF k] by (simp add: row_of_def cells_append)
  next
    case False
    then have "fst (recover_raw lang) ! k = ?byState ! k"
      by (auto simp: recover_raw_def Let_def case_prod_beta actions_def)
    then show ?thesis using False nthB [OF k] by (auto simp: row_of_def)
  qed
  show "is_marked (snd (recover_raw lang)) i" if k: "k < ?n" and r: "recovers actions (row_of lang k) i"
  proof -
    let ?small = "SmallParseTable lang \<noteq> [] \<and> ?b \<le> k \<and> k < ?b + length (SmallParseTableMap lang)"
    consider (dense) "k < length (ParseTable lang)" "recovers actions (row_entries (ParseTable lang ! k)) i"
      | (small) ?small "recovers actions (state_entries lang (k - ?b)) i"
      using r by (auto simp: row_of_def recovers_def split: if_splits)
    then show ?thesis
    proof cases
      case dense
      have "take ?n (ParseTable lang) ! k \<in> set (take ?n (ParseTable lang))"
        by (rule nth_mem) (use dense k in simp)
      then have "ParseTable lang ! k \<in> set (take ?n (ParseTable lang))" using k by simp
      then have "is_marked (snd ?d) i" using marks dense by blast
      then show ?thesis
        using recover_small_eq [of lang actions ?b "SmallParseTableMap lang" ?byState "snd ?d"]
        by (simp add: recover_raw_def Let_def case_prod_beta actions_def)
    next
      case small
      then obtain e where e: "e \<in> set (state_entries lang (k - ?b))" "rec_of actions (snd e) \<noteq> None" "i = unat (fst e)"
        by (auto simp: recovers_def)
      have "k < length ?byState \<and> ?b \<le> k \<and> k < ?b + length (SmallParseTableMap lang) \<and>
          (fst e, snd e) \<in> set (state_entries lang (k - ?b)) \<and> rec_of actions (snd e) \<noteq> None"
        using small(1) e(1,2) lenB k by simp
      then have "is_marked (snd (recover_small lang actions ?b (SmallParseTableMap lang) (?byState, snd ?d))) (unat (fst e))"
        using recover_small_eq [of lang actions ?b "SmallParseTableMap lang" ?byState "snd ?d"] by blast
      moreover have "SmallParseTableMap lang \<noteq> []" using small(1) by auto
      ultimately show ?thesis
        using small(1) e(3) by (simp add: recover_raw_def Let_def case_prod_beta actions_def)
    qed
  qed
qed

lemma recoverActionForState_eq:
  assumes "tables_ok lang" "states_split lang" "rec_of (map recoverAction (ParseActions lang)) 0 = None"
    and "unat state < table_state_count lang"
  shows "recoverActionForState (buildRecoverActionsByState lang) state s =
      rec_of (map recoverAction (ParseActions lang)) (lookupRepairActionIndex lang state s)"
proof -
  let ?actions = "map recoverAction (ParseActions lang)" and ?k = "unat state"
  note row = row_of_lookup [OF assms(1,2), of state]
  have find: "map_option snd (find (\<lambda>(x, _). x = s) (cells ?actions (row_of lang ?k))) =
      rec_of ?actions (lookupRepairActionIndex lang state s)"
    using find_cells [OF row(1) assms(3)] row(2) by simp
  show ?thesis
  proof (cases "buildRecoverActionsByState lang = no_recover")
    case True
    then have "cells ?actions (row_of lang ?k) = []"
      using recover_raw_rows(1) [of lang] recover_raw_rows(2) [of ?k lang] assms(4) cells_empty [of ?actions]
      by (auto simp: buildRecover_raw no_recover_def split: if_splits)
        (metis (no_types, lifting) nth_mem)+
    then show ?thesis using True find by (simp add: recoverActionForState_def no_recover_def)
  next
    case False
    then have "recoverByState (buildRecoverActionsByState lang) = fst (recover_raw lang)"
      unfolding buildRecover_raw by (auto split: if_splits)
    then show ?thesis
      using recover_raw_rows(1) [of lang] recover_raw_rows(2) [of ?k lang] assms(4) find by (simp add: recoverActionForState_def)
  qed
qed

lemma can_recover:
  assumes "rec_of (map recoverAction (ParseActions lang)) 0 = None" "tables_ok lang" "states_split lang"
    and "unat state < table_state_count lang"
    and "rec_of (map recoverAction (ParseActions lang)) (lookupRepairActionIndex lang state s) \<noteq> None"
  shows "stateCanRecover (buildRecoverActionsByState lang) state \<and> symbolCanRecover (buildRecoverActionsByState lang) s"
proof -
  let ?actions = "map recoverAction (ParseActions lang)" and ?k = "unat state"
  note row = row_of_lookup [OF assms(2,3), of state]
  have "(s, assoc (row_of lang ?k) s) \<in> set (row_of lang ?k)"
    using assoc_iff [OF row(1), of "assoc (row_of lang ?k) s" s] assms(1,5) row(2) by metis
  then have rec: "recovers ?actions (row_of lang ?k) (unat s)"
    using assms(5) row(2) by (force simp: recovers_def)
  have "is_marked (snd (recover_raw lang)) (unat s)" by (rule recover_raw_rows(3) [OF assms(4) rec])
  then show ?thesis
    using recover_raw_rows(1) [of lang] recover_raw_rows(2) [of ?k lang] assms(4) recovers_cells [OF rec]
    by (auto simp: buildRecover_raw stateCanRecover_def symbolCanRecover_def no_recover_def is_marked_def)
qed

subsection \<open>Lemmas: keywords\<close>

definition keyword_symbol :: "language \<Rightarrow> u16 \<Rightarrow> bool" where
  "keyword_symbol lang s \<longleftrightarrow>
     s \<noteq> 0 \<and> s \<noteq> KeywordCaptureToken lang \<and> (\<exists>st \<in> set (KeywordLexStates lang). AcceptToken st = s)"

definition keyword_in :: "bool list \<Rightarrow> (u16 \<times> u16) list \<Rightarrow> bool" where
  "keyword_in marks es \<longleftrightarrow> (\<exists>e \<in> set es. snd e \<noteq> 0 \<and> is_marked marks (unat (fst e)))"

lemma keyword_marks_iff: "is_marked (keyword_marks lang) (unat s) \<longleftrightarrow> keyword_symbol lang s"
proof -
  have "is_marked (fold (\<lambda>st marks. if AcceptToken st = 0 \<or> AcceptToken st = KeywordCaptureToken lang then marks
        else mark_symbol (AcceptToken st) marks) sts marks) (unat s) \<longleftrightarrow>
      is_marked marks (unat s) \<or>
      s \<noteq> 0 \<and> s \<noteq> KeywordCaptureToken lang \<and> (\<exists>st \<in> set sts. AcceptToken st = s)" for sts marks
    by (induction sts arbitrary: marks) (auto simp: mark_symbol_marked word_unat_eq_iff [symmetric])
  moreover have "\<not> is_marked (replicate (table_symbol_count lang) False) (unat s)" by (simp add: is_marked_def)
  ultimately show ?thesis unfolding keyword_marks_def keyword_symbol_def by blast
qed

lemma keyword_in_simps:
  "\<not> keyword_in marks []" "keyword_in marks (xs @ ys) \<longleftrightarrow> keyword_in marks xs \<or> keyword_in marks ys"
  "keyword_in marks (map (\<lambda>s. (s, v)) ss) \<longleftrightarrow> v \<noteq> 0 \<and> (\<exists>s \<in> set ss. is_marked marks (unat s))"
  by (auto simp: keyword_in_def)

lemma keyword_groups_iff: "keyword_groups marks table n pos \<longleftrightarrow> keyword_in marks (group_entries table n pos)"
proof (induction n arbitrary: pos)
  case (Suc n)
  have past: "\<not> keyword_groups marks table k p" if "length table \<le> p + 1" for k p
    using that by (cases k) auto
  let ?e = "pos + 2 + unat (table ! (pos + 1))"
  have slice: "go_slice table (pos + 2) (min ?e (length table)) = go_slice table (pos + 2) ?e"
    by (auto simp: go_slice_def min_def)
  have "keyword_groups marks table n (min ?e (length table)) \<longleftrightarrow> keyword_groups marks table n ?e"
    using past [of "min ?e (length table)" n] past [of ?e n] by (cases "?e \<le> length table") auto
  then show ?case
    using Suc.IH [of ?e] slice by (simp add: Let_def keyword_in_simps)
qed (simp add: keyword_in_simps)

lemma keyword_row_iff:
  assumes "length row \<le> 65536"
  shows "keyword_row marks row \<longleftrightarrow> keyword_in marks (row_entries row)"
proof -
  have "unat (u16_of k) = k" if "k < length row" for k
    using that assms by (simp add: u16_of_def unat_of_nat)
  then have "keyword_row marks row \<longleftrightarrow> (\<exists>k < length row. row ! k \<noteq> 0 \<and> is_marked marks (unat (u16_of k)))"
    by (auto simp: keyword_row_def bex_enumerate)
  moreover have "keyword_in marks (row_entries row) \<longleftrightarrow>
      (\<exists>k < length row. row ! k \<noteq> 0 \<and> is_marked marks (unat (u16_of k)))"
    by (simp add: keyword_in_def row_entries_def bex_enumerate)
  ultimately show ?thesis by simp
qed

lemma keyword_small_eq:
  "length (keyword_small lang marks state offsets has) = length has \<and>
   (\<forall>k < length has. keyword_small lang marks state offsets has ! k \<longleftrightarrow>
      has ! k \<or> state \<le> k \<and> k < state + length offsets \<and>
        keyword_in marks (small_entries (SmallParseTable lang) (unat (offsets ! (k - state)))))"
proof (induction offsets arbitrary: state has)
  case (Cons offset offsets)
  let ?es = "small_entries (SmallParseTable lang) (unat offset)"
  let ?has = "if state \<ge> length has \<or> has ! state \<or> unat offset \<ge> length (SmallParseTable lang) then has
        else if keyword_groups marks (SmallParseTable lang) (unat (SmallParseTable lang ! unat offset)) (unat offset + 1)
        then has[state := True] else has"
  have "?has ! k \<longleftrightarrow> has ! k \<or> k = state \<and> keyword_in marks ?es" if "k < length has" for k
    using that by (auto simp: keyword_groups_iff small_entries_def keyword_in_def nth_list_update)
  moreover have "length ?has = length has" by simp
  ultimately show ?case
    using Cons.IH [of "state + 1" ?has] by (auto simp: nth_Cons')
qed auto

lemma keyword_raw_nth:
  assumes "tables_ok lang" "k < table_state_count lang"
  shows "length (keyword_raw lang) = table_state_count lang"
    and "keyword_raw lang ! k \<longleftrightarrow> keyword_in (keyword_marks lang) (row_of lang k)"
proof -
  let ?n = "table_state_count lang" and ?b = "unat (LargeStateCount lang)" and ?marks = "keyword_marks lang"
  let ?dense = "map (keyword_row ?marks) (take ?n (ParseTable lang))"
  let ?has = "?dense @ replicate (?n - length ?dense) False"
  have nth: "?has ! k \<longleftrightarrow> k < length (ParseTable lang) \<and> keyword_in ?marks (row_entries (ParseTable lang ! k))"
    using assms by (auto simp: nth_append tables_ok_def keyword_row_iff)
  have len: "length ?has = ?n" by simp
  have app: "keyword_in ?marks (xs @ ys) \<longleftrightarrow> keyword_in ?marks xs \<or> keyword_in ?marks ys" for xs ys
    by (auto simp: keyword_in_def)
  have Nil: "\<not> keyword_in ?marks []" by (simp add: keyword_in_def)
  note ks = keyword_small_eq [of lang ?marks ?b "SmallParseTableMap lang" ?has]
  show "length (keyword_raw lang) = ?n"
    using ks len by (simp add: keyword_raw_def Let_def)
  show "keyword_raw lang ! k \<longleftrightarrow> keyword_in ?marks (row_of lang k)"
  proof (cases "SmallParseTableMap lang \<noteq> [] \<and> SmallParseTable lang \<noteq> []")
    case True
    then have "keyword_raw lang ! k \<longleftrightarrow> ?has ! k \<or> ?b \<le> k \<and> k < ?b + length (SmallParseTableMap lang) \<and>
        keyword_in ?marks (state_entries lang (k - ?b))"
      using ks len assms(2) by (simp add: keyword_raw_def Let_def)
    then show ?thesis using True nth Nil by (auto simp: row_of_def app)
  next
    case False
    then have "keyword_raw lang ! k \<longleftrightarrow> ?has ! k" by (auto simp: keyword_raw_def Let_def)
    then show ?thesis using False nth Nil by (auto simp: row_of_def app)
  qed
qed

lemma assoc_ex:
  assumes "distinct (map fst es)"
  shows "(\<exists>e \<in> set es. snd e \<noteq> 0 \<and> P (fst e)) \<longleftrightarrow> (\<exists>s. P s \<and> assoc es s \<noteq> 0)"
proof
  assume "\<exists>e \<in> set es. snd e \<noteq> 0 \<and> P (fst e)"
  then obtain e where e: "e \<in> set es" "snd e \<noteq> 0" "P (fst e)" by blast
  then have "assoc es (fst e) = snd e" using assoc_iff [OF assms e(2), of "fst e"] by simp
  then show "\<exists>s. P s \<and> assoc es s \<noteq> 0" using e by metis
next
  assume "\<exists>s. P s \<and> assoc es s \<noteq> 0"
  then obtain s where s: "P s" "assoc es s \<noteq> 0" by blast
  then have "(s, assoc es s) \<in> set es" using assoc_iff [OF assms s(2), of s] by simp
  then show "\<exists>e \<in> set es. snd e \<noteq> 0 \<and> P (fst e)" using s by force
qed

lemma keyword_in_row:
  assumes "tables_ok lang" "states_split lang"
  shows "keyword_in (keyword_marks lang) (row_of lang (unat state)) \<longleftrightarrow>
    (\<exists>s. keyword_symbol lang s \<and> lookupRepairActionIndex lang state s \<noteq> 0)"
proof -
  note row = row_of_lookup [OF assms, of state]
  have "(\<exists>e \<in> set (row_of lang (unat state)). snd e \<noteq> 0 \<and> keyword_symbol lang (fst e)) \<longleftrightarrow>
      (\<exists>s. keyword_symbol lang s \<and> lookupRepairActionIndex lang state s \<noteq> 0)"
    using assoc_ex [OF row(1)] row(2) by simp
  then show ?thesis by (simp add: keyword_in_def keyword_marks_iff)
qed

lemma buildKeywordStates_raw:
  assumes "k < table_state_count lang" "tables_ok lang" "KeywordCaptureToken lang \<noteq> 0"
  shows "(k < length (buildKeywordStates lang) \<and> buildKeywordStates lang ! k) \<longleftrightarrow> keyword_raw lang ! k"
proof -
  note raw = keyword_raw_nth [OF assms(2,1)]
  have marked: "is_marked marks i \<Longrightarrow> \<exists>b \<in> set marks. b" for marks i
    using nth_mem [of i marks] by (auto simp: is_marked_def)
  have none: "\<not> keyword_raw lang ! k" if "\<not> (\<exists>b \<in> set (keyword_marks lang). b)"
    using that raw(2) marked [of "keyword_marks lang"] unfolding keyword_in_def by blast
  have empty: "KeywordLexStates lang = [] \<Longrightarrow> \<not> (\<exists>b \<in> set (keyword_marks lang). b)"
    by (simp add: keyword_marks_def)
  have some: "keyword_raw lang ! k \<Longrightarrow> \<exists>b \<in> set (keyword_raw lang). b"
    using nth_mem [of k "keyword_raw lang"] raw(1) assms(1) by auto
  have pos: "table_state_count lang \<noteq> 0" using assms(1) by simp
  show ?thesis
  proof (cases "\<exists>b \<in> set (keyword_marks lang). b")
    case True
    then have "buildKeywordStates lang = (if \<exists>b \<in> set (keyword_raw lang). b then keyword_raw lang else [])"
      using assms(3) empty pos by (auto simp: buildKeywordStates_def)
    then show ?thesis using raw(1) assms(1) some by (cases "\<exists>b \<in> set (keyword_raw lang). b") auto
  next
    case False
    then have "buildKeywordStates lang = []" by (auto simp: buildKeywordStates_def)
    then show ?thesis using none [OF False] by simp
  qed
qed

subsection \<open>Lemmas: external tokens\<close>

lemma bit_one_shift: "bit (2 ^ k :: 64 word) i \<longleftrightarrow> i = k \<and> k < 64"
  by (auto simp: bit_exp_iff)

lemma bit_valid_mask:
  assumes "n \<le> 64"
  shows "bit (valid_mask n row) i \<longleftrightarrow> i < n \<and> (\<exists>x \<in> set row. unat x = i)"
proof -
  have "bit (foldl (\<lambda>mask i. if unat i \<ge> n then mask else mask OR push_bit (unat i) (1 :: 64 word)) m row) i \<longleftrightarrow>
      bit m i \<or> i < n \<and> (\<exists>x \<in> set row. unat x = i)" for m
  proof (induction row arbitrary: m)
    case (Cons x row)
    let ?m = "if unat x \<ge> n then m else m OR push_bit (unat x) (1 :: 64 word)"
    have "bit ?m i \<longleftrightarrow> bit m i \<or> i < n \<and> unat x = i"
      using assms by (auto simp: bit_or_iff bit_one_shift)
    then show ?case using Cons.IH [of ?m] by (simp only: foldl_Cons) auto
  qed simp
  then show ?thesis by (simp add: valid_mask_def)
qed

lemma external_row:
  assumes "int (length ext) \<le> 65535" "i < length ext"
  shows "(\<exists>x \<in> set (map (\<lambda>(i, _). u16_of i) (filter (\<lambda>(i, s). P s) (enumerate 0 ext))). unat x = i) \<longleftrightarrow> P (ext ! i)"
proof -
  have u: "unat (u16_of k) = k" if "k < length ext" for k
    using that assms(1) by (simp add: u16_of_def unat_of_nat)
  have "(\<exists>x \<in> set (map (\<lambda>(i, _). u16_of i) (filter (\<lambda>(i, s). P s) (enumerate 0 ext))). unat x = i) \<longleftrightarrow>
      (\<exists>x \<in> set (enumerate 0 ext). P (snd x) \<and> unat (u16_of (fst x)) = i)"
    by force
  also have "\<dots> \<longleftrightarrow> (\<exists>k < length ext. P (ext ! k) \<and> k = i)" by (auto simp: bex_enumerate u)
  finally show ?thesis using assms(2) by auto
qed

lemma external_masks:
  fixes lang
  defines "rows \<equiv> buildExternalValidByState (new_view lang)"
  assumes "state < length (buildExternalValidMaskByState rows (length (ExternalSymbols lang)))"
    and "i < length (ExternalSymbols lang)"
  shows "bit (buildExternalValidMaskByState rows (length (ExternalSymbols lang)) ! state) i \<longleftrightarrow>
    lookupActionIndex (new_view lang) (u32_of state) (ExternalSymbols lang ! i) \<noteq> 0"
proof -
  let ?n = "length (ExternalSymbols lang)"
  have n: "?n \<le> 64" and m: "buildExternalValidMaskByState rows ?n = map (valid_mask ?n) rows" and ne: "rows \<noteq> []"
    using assms(2) by (auto simp: buildExternalValidMaskByState_def Let_def split: if_splits)
  have st: "state < external_state_count (new_view lang)"
    and row: "rows ! state = map (\<lambda>(i, _). u16_of i) (filter (\<lambda>(i, s). lookupActionIndex (new_view lang) (u32_of state) s \<noteq> 0)
      (enumerate 0 (ExternalSymbols lang)))"
    using assms(2) m ne by (auto simp: rows_def buildExternalValidByState_def Let_def split: if_splits)
  have "state < length rows" using assms(2) m by simp
  then show ?thesis
    using n m row assms(3) external_row [of "ExternalSymbols lang" i "\<lambda>s. lookupActionIndex (new_view lang) (u32_of state) s \<noteq> 0"]
    by (simp add: bit_valid_mask)
qed

subsection \<open>Properties\<close>

text \<open>
  \<^bold>\<open>C30.\<close> Eager default reductions are independent of the lookahead: when a state has the
  eager default reduction \<open>a\<close>, every token with an action in that state has exactly one
  action, which is either the shift of an extra token or a reduction of the same production,
  symbol, non-zero child count and precedence as \<open>a\<close>.
\<close>

theorem eager_default_reduce_sound:
  assumes "tables_ok lang"
    and "eagerDefaultReduceAction (buildEagerDefaultReduceActions (new_view lang)) state = Some a"
    and "s < ucast (TokenCount lang)" and "lookupActionIndex (new_view lang) state s \<noteq> 0"
  shows "\<exists>entry act. lookupAction (new_view lang) state s = Some entry \<and> Actions entry = [act] \<and>
    (actType act = ParseActionShift \<and> (Extra act \<or> ExtraChain act) \<or>
     sameEagerDefaultReduce a act \<and> ChildCount act \<noteq> 0)"
proof -
  let ?idx = "lookupActionIndex (new_view lang) state s"
  have "rows_distinct lang" using assms(1) by (simp add: tables_ok_def)
  then have "(s, ?idx) \<in> set (visits (new_view lang) state)"
    using parse_table.enum_iff [OF assms(1,4), of s state] by (simp add: lookup_eq_repair)
  moreover have "eager_state (new_view lang) (unat state) = Some a"
    using assms(2) by (auto simp: eagerDefaultReduceAction_def buildEagerDefaultReduceActions_def split: if_splits)
  ultimately have "eager_token (map classifyParseActionEntry (ParseActions lang)) a ?idx" "actType a = ParseActionReduce"
    using eager_state_visits [of lang "unat state" a] assms(3) by auto
  then show ?thesis
    using eager_token_entry [of "ParseActions lang" a ?idx] assms(4) by (auto simp: lookupAction_def Let_def)
qed

theorem eager_default_reduce_sound_witness:
  "\<exists>entry act. lookupAction (new_view sample_language) 1 2 = Some entry \<and> Actions entry = [act] \<and>
    (actType act = ParseActionShift \<and> (Extra act \<or> ExtraChain act) \<or>
     sameEagerDefaultReduce sample_action act \<and> ChildCount act \<noteq> 0)"
proof (rule eager_default_reduce_sound [OF sample_language_ok])
  show "eagerDefaultReduceAction (buildEagerDefaultReduceActions (new_view sample_language)) 1 = Some sample_action"
    by code_simp
  show "(2 :: u16) < ucast (TokenCount sample_language)" by code_simp
  show "lookupActionIndex (new_view sample_language) 1 2 \<noteq> 0" by code_simp
qed

text \<open>
  \<^bold>\<open>C33.\<close> The lookahead iterator is exact for well-formed tables of a language that sets
  \<open>LargeStateCount\<close> or has no dense rows: draining the iterator of a state with \<open>Next\<close> and
  \<open>CurrentSymbol\<close> gives every symbol for which the parser has an action in that state once and
  no other symbol; creation fails exactly for states out of range. C34 is about the other
  languages.
\<close>

theorem lookahead_iterator_exact:
  assumes "tables_ok lang" and "LargeStateCount lang \<noteq> 0 \<or> ParseTable lang = []"
  shows "case NewLookaheadIterator lang state of
      None \<Rightarrow> computeMaxState lang \<le> unat state
    | Some it \<Rightarrow> unat state < computeMaxState lang \<and> distinct (drain it) \<and>
        set (drain it) = {s. lookupActionIndex (new_view lang) state s \<noteq> 0}"
proof -
  have "rows_distinct lang" using assms(1) by (simp add: tables_ok_def)
  then show ?thesis
    using collectValidSymbols_lookup(1) [OF assms, of _ state] collectValidSymbols_lookup(2) [OF assms, of state]
    by (auto simp: NewLookaheadIterator_def ResetState_def drain_drop lookup_eq_repair)
qed

theorem lookahead_iterator_exact_witness:
  "\<exists>it. NewLookaheadIterator sample_language 2 = Some it \<and> set (drain it) = {0, 1, 5}"
proof -
  have large: "LargeStateCount sample_language \<noteq> 0 \<or> ParseTable sample_language = []" by code_simp
  have "map_option drain (NewLookaheadIterator sample_language 2) = Some [0, 1, 5]" by code_simp
  then show ?thesis
    using lookahead_iterator_exact [OF sample_language_ok large, of 2]
    by (cases "NewLookaheadIterator sample_language 2") auto
qed

text \<open>
  \<^bold>\<open>C34.\<close> Without \<open>LargeStateCount\<close> the lookahead iterator misses the dense states: in every
  language with \<open>LargeStateCount = 0\<close> and for every state in range that has a dense row and no
  compressed one, the iterator is created and lists nothing, while the parser's lookup finds the
  actions of the dense row. \<open>collectValidSymbols\<close> compares with \<open>LargeStateCount\<close> where the
  parser uses \<open>languageDenseLimit\<close>.
\<close>

theorem lookahead_misses_dense_states:
  assumes "LargeStateCount lang = 0" and "unat state < length (ParseTable lang)"
    and "length (SmallParseTableMap lang) \<le> unat state" and "unat state < computeMaxState lang"
  shows "map_option drain (NewLookaheadIterator lang state) = Some [] \<and>
    lookupActionIndex (new_view lang) state s =
      (if unat s < length (ParseTable lang ! unat state) then ParseTable lang ! unat state ! unat s else 0)"
proof -
  have "collectValidSymbols lang state = []" using assms by (simp add: collectValidSymbols_def Let_def)
  then have "map_option drain (NewLookaheadIterator lang state) = Some []"
    using assms(4) by (simp add: NewLookaheadIterator_def ResetState_def drain_drop)
  moreover have "unat state < denseLimit (new_view lang)" "vLanguage (new_view lang) = lang"
    using assms(1,2) by (simp_all add: new_view_def languageDenseLimit_def Let_def)
  ultimately show ?thesis using assms(2) by (simp add: lookupActionIndex_def Let_def)
qed

definition dense_language :: language where
  "dense_language = sample_language\<lparr>LargeStateCount := 0, SmallParseTable := [], SmallParseTableMap := []\<rparr>"

theorem lookahead_misses_dense_states_witness:
  "map_option drain (NewLookaheadIterator dense_language 0) = Some [] \<and>
   lookupActionIndex (new_view dense_language) 0 1 \<noteq> 0"
proof -
  have "LargeStateCount dense_language = 0" "unat (0 :: u32) < length (ParseTable dense_language)"
    "length (SmallParseTableMap dense_language) \<le> unat (0 :: u32)" "unat (0 :: u32) < computeMaxState dense_language"
    by code_simp+
  note l = lookahead_misses_dense_states [OF this, of 1]
  have "unat (1 :: u16) < length (ParseTable dense_language ! unat (0 :: u32))"
    "ParseTable dense_language ! unat (0 :: u32) ! unat (1 :: u16) \<noteq> 0"
    by code_simp+
  then show ?thesis using l by simp
qed

text \<open>
  \<^bold>\<open>C32.\<close> The recover tables agree with the parse table: \<open>recoverActionForState\<close> gives the
  recover action of the entry that the parse table has for the state and the symbol, and none
  when there is no such entry; \<open>stateCanRecover\<close> and \<open>symbolCanRecover\<close> never rule out a
  recover action that exists.
\<close>

theorem recover_tables_equiv:
  assumes "tables_ok lang" and "states_split lang" and "unat state < table_state_count lang"
    and "ParseActions lang \<noteq> []" and "recoverAction (ParseActions lang ! 0) = None"
  defines "p \<equiv> buildRecoverActionsByState lang"
  shows "recoverActionForState p state s =
      (case lookupAction (new_view lang) state s of None \<Rightarrow> None | Some entry \<Rightarrow> recoverAction entry) \<and>
    (recoverActionForState p state s \<noteq> None \<longrightarrow> stateCanRecover p state \<and> symbolCanRecover p s)"
proof -
  let ?actions = "map recoverAction (ParseActions lang)"
  have zero: "rec_of ?actions 0 = None" using assms(4,5) by (simp add: rec_of_def)
  have "rows_distinct lang" using assms(1) by (simp add: tables_ok_def)
  then have "(case lookupAction (new_view lang) state s of None \<Rightarrow> None | Some entry \<Rightarrow> recoverAction entry) =
      rec_of ?actions (lookupRepairActionIndex lang state s)"
    using zero by (auto simp: lookupAction_def lookup_eq_repair rec_of_def Let_def)
  then show ?thesis
    using recoverActionForState_eq [OF assms(1,2) zero assms(3)] can_recover [OF zero assms(1-3)]
    by (simp add: p_def)
qed

definition recover_language :: language where
  "recover_language = sample_language\<lparr>ParseActions :=
     [\<lparr>Reusable = False, Actions = []\<rparr>,
      \<lparr>Reusable = True, Actions = [zero_action\<lparr>actType := ParseActionRecover, actState := 1\<rparr>]\<rparr>]\<rparr>"

theorem recover_tables_equiv_witness:
  "recoverActionForState (buildRecoverActionsByState recover_language) 2 1 =
     Some (zero_action\<lparr>actType := ParseActionRecover, actState := 1\<rparr>) \<and>
   symbolCanRecover (buildRecoverActionsByState recover_language) 1"
proof -
  have ok: "tables_ok recover_language"
    using sample_language_ok by (simp add: recover_language_def tables_ok_def rows_distinct_def)
  have "states_split recover_language" "unat (2 :: u32) < table_state_count recover_language"
    "ParseActions recover_language \<noteq> []" "recoverAction (ParseActions recover_language ! 0) = None"
    by code_simp+
  note eq = recover_tables_equiv [OF ok this, of 1]
  have "recoverActionForState (buildRecoverActionsByState recover_language) 2 1 =
      Some (zero_action\<lparr>actType := ParseActionRecover, actState := 1\<rparr>)"
    by code_simp
  then show ?thesis using eq by simp
qed

text \<open>
  The precomputed keyword states are exact: a state is marked exactly when the keyword
  DFA can produce some token, other than the capture token, for which the parse table has an
  action in that state, so skipping keyword promotion in the other states loses nothing.
\<close>

lemma keyword_states_exact:
  assumes "tables_ok lang" and "states_split lang" and "unat state < table_state_count lang"
    and "KeywordCaptureToken lang \<noteq> 0"
  shows "(unat state < length (buildKeywordStates lang) \<and> buildKeywordStates lang ! unat state) \<longleftrightarrow>
    (\<exists>s. s \<noteq> 0 \<and> s \<noteq> KeywordCaptureToken lang \<and> (\<exists>st \<in> set (KeywordLexStates lang). AcceptToken st = s) \<and>
       lookupActionIndex (new_view lang) state s \<noteq> 0)"
proof -
  have "rows_distinct lang" using assms(1) by (simp add: tables_ok_def)
  then show ?thesis
    using buildKeywordStates_raw [OF assms(3,1,4)] keyword_raw_nth(2) [OF assms(1,3)] keyword_in_row [OF assms(1,2), of state]
    by (auto simp: lookup_eq_repair keyword_symbol_def)
qed

definition keyword_language :: language where
  "keyword_language = sample_language\<lparr>KeywordCaptureToken := 2, KeywordLexStates :=
     [\<lparr>AcceptToken = 1, AcceptPriority = 0, Skip = False, Default = -1, onEOF = -1, Transitions = []\<rparr>]\<rparr>"

text \<open>
  The 64-bit masks of valid external tokens are exact: bit \<open>i\<close> of the mask of a state
  is set exactly when the parse table has an action for the \<open>i\<close>-th external symbol in that
  state.
\<close>

lemma external_masks_exact:
  assumes "state < length (buildExternalValidMaskByState (buildExternalValidByState (new_view lang)) (length (ExternalSymbols lang)))"
    and "i < length (ExternalSymbols lang)"
  shows "bit (buildExternalValidMaskByState (buildExternalValidByState (new_view lang)) (length (ExternalSymbols lang)) ! state) i \<longleftrightarrow>
    lookupActionIndex (new_view lang) (u32_of state) (ExternalSymbols lang ! i) \<noteq> 0"
  using assms by (rule external_masks)

end
