(* ===== verification/Reduce_Tables.thy ===== *)
theory Reduce_Tables
  imports Table_Clients
begin

text \<open>
  Tables that the parser derives for reductions (\<open>parser_reduce.go\<close>): reduce-chain hints and
  their index by state, alias tables, the field plan of every production with its run-time
  counterpart \<open>buildFieldIDs\<close>, and the anonymous tokens that are shared between rules. A
  \<open>nil\<close> slice is the empty list; a triple of \<open>nil\<close> slices is \<open>None\<close>. Whether hints are
  enabled is an argument (an environment variable in the code).
\<close>

subsection \<open>Reduce-chain hints\<close>

text \<open>The terminal action class of the metadata is a \<open>uint8\<close> with six known values.\<close>

record chain_metadata =
  StartState :: u32
  mdLookahead :: u16
  TerminalStates :: "u32 list"
  TerminalAction :: u8
  mdMaxSteps :: u16

record chain_hint =
  hintState :: u32
  hintLookahead :: u16
  terminalStates :: "u32 list"
  terminalAction :: parse_action_class
  hintMaxSteps :: u16

definition reduceChainTerminalActionClass :: "u8 \<Rightarrow> parse_action_class option" where
  "reduceChainTerminalActionClass a =
     (if a = 0 then Some classifiedParseActionNoAction
      else if a = 1 then Some classifiedParseActionSingleReduce
      else if a = 2 then Some classifiedParseActionSingleShift
      else if a = 3 then Some classifiedParseActionSingleAccept
      else if a = 4 then Some classifiedParseActionSingleOther
      else if a = 5 then Some classifiedParseActionMulti
      else None)"

definition reduceChainHintInRange :: "language \<Rightarrow> chain_metadata \<Rightarrow> bool" where
  "reduceChainHintInRange lang hint \<longleftrightarrow>
     \<not> (StartState hint \<ge> StateCount lang \<or> ucast (mdLookahead hint) \<ge> SymbolCount lang \<or> TerminalStates hint = []) \<and>
     (\<forall>state \<in> set (TerminalStates hint). state < StateCount lang)"

fun buildReduceChainHintsFromMetadata :: "language \<Rightarrow> chain_metadata list \<Rightarrow> chain_hint list" where
  "buildReduceChainHintsFromMetadata lang [] = []"
| "buildReduceChainHintsFromMetadata lang (hint # hints) =
     (case reduceChainTerminalActionClass (TerminalAction hint) of
        None \<Rightarrow> buildReduceChainHintsFromMetadata lang hints
      | Some cls \<Rightarrow>
          if mdMaxSteps hint = 0 \<or> \<not> reduceChainHintInRange lang hint then buildReduceChainHintsFromMetadata lang hints
          else \<lparr>hintState = StartState hint, hintLookahead = mdLookahead hint, terminalStates = TerminalStates hint,
                terminalAction = cls, hintMaxSteps = mdMaxSteps hint\<rparr> # buildReduceChainHintsFromMetadata lang hints)"

definition languageSymbolNameMatches :: "language \<Rightarrow> u16 \<Rightarrow> string \<Rightarrow> bool" where
  "languageSymbolNameMatches lang s name \<longleftrightarrow> unat s < length (SymbolNames lang) \<and> SymbolNames lang ! unat s = name"

definition defaultReduceChainHintMetadata :: "language \<Rightarrow> chain_metadata list" where
  "defaultReduceChainHintMetadata lang =
     (if langName lang = ''python'' then
        (if \<not> languageSymbolNameMatches lang 101 ''_newline'' then []
         else [\<lparr>StartState = 1101, mdLookahead = 101, TerminalStates = [2336, 2361, 2098, 2460],
                TerminalAction = 2, mdMaxSteps = 10\<rparr>])
      else if langName lang = ''rust'' then
        (if \<not> languageSymbolNameMatches lang 5 '')'' then []
         else [\<lparr>StartState = 205, mdLookahead = 5, TerminalStates = [98, 132, 133],
                TerminalAction = 2, mdMaxSteps = 32\<rparr>])
      else [])"

definition buildReduceChainHints :: "bool \<Rightarrow> chain_metadata list \<Rightarrow> language \<Rightarrow> chain_hint list" where
  "buildReduceChainHints enabled hints lang =
     (if \<not> enabled then []
      else if hints \<noteq> [] then buildReduceChainHintsFromMetadata lang hints
      else buildReduceChainHintsFromMetadata lang (defaultReduceChainHintMetadata lang))"

text \<open>-1: no hint starts here; -2: several do.\<close>

definition index_hint :: "nat \<times> chain_hint \<Rightarrow> int list \<Rightarrow> int list" where
  "index_hint e index =
     (let (i, hint) = e; slot = unat (hintState hint) in
      index[slot := if index ! slot = -1 then int i else -2])"

definition buildReduceChainHintIndex :: "chain_hint list \<Rightarrow> int list" where
  "buildReduceChainHintIndex hints =
     (if hints = [] then []
      else
        (let maxState = foldl (\<lambda>m hint. if hintState hint > m then hintState hint else m) 0 hints
         in fold index_hint (enumerate 0 hints) (replicate (unat maxState + 1) (-1))))"

fun find_hint :: "chain_hint list \<Rightarrow> u32 \<Rightarrow> u16 \<Rightarrow> chain_hint option" where
  "find_hint [] state lookahead = None"
| "find_hint (hint # hints) state lookahead =
     (if hintState hint = state \<and> hintLookahead hint = lookahead then Some hint else find_hint hints state lookahead)"

definition reduceChainHintFor :: "chain_hint list \<Rightarrow> int list \<Rightarrow> u32 \<Rightarrow> u16 \<Rightarrow> chain_hint option" where
  "reduceChainHintFor hints byState state lookahead =
     (if unat state \<ge> length byState then None
      else
        (let hintIndex = byState ! unat state in
         if hintIndex = -2 then find_hint hints state lookahead
         else if hintIndex < 0 \<or> hintIndex \<ge> int (length hints) then None
         else
           (let hint = hints ! nat hintIndex in
            if hintLookahead hint \<noteq> lookahead then None else Some hint)))"

definition reduceChainHintTerminalStateAllowed :: "chain_hint \<Rightarrow> u32 \<Rightarrow> bool" where
  "reduceChainHintTerminalStateAllowed hint state \<longleftrightarrow> state \<in> set (terminalStates hint)"

definition reduceChainHintTerminalMatches :: "chain_hint \<Rightarrow> u32 \<Rightarrow> parse_action_class \<Rightarrow> bool" where
  "reduceChainHintTerminalMatches hint state cls \<longleftrightarrow>
     cls = terminalAction hint \<and> reduceChainHintTerminalStateAllowed hint state"

subsection \<open>Aliases\<close>

definition buildReduceAliasSequences :: "language \<Rightarrow> u16 list list" where
  "buildReduceAliasSequences lang = map (\<lambda>aliases. if \<exists>s \<in> set aliases. s \<noteq> 0 then aliases else []) (AliasSequences lang)"

definition reduceAliasSequence :: "u16 list list \<Rightarrow> u16 \<Rightarrow> u16 list" where
  "reduceAliasSequence aliasSeq productionID =
     (if unat productionID \<ge> length aliasSeq then [] else aliasSeq ! unat productionID)"

definition mark_alias :: "u16 \<Rightarrow> bool list \<Rightarrow> bool list" where
  "mark_alias s out = (if s = 0 \<or> unat s \<ge> length out then out else out[unat s := True])"

definition buildAliasTargetSymbols :: "language \<Rightarrow> bool list" where
  "buildAliasTargetSymbols lang =
     (let out = fold mark_alias (concat (AliasSequences lang)) (replicate (length (SymbolNames lang)) False)
      in if \<exists>b \<in> set out. b then out else [])"

subsection \<open>Fields\<close>

record field_state =
  fieldIDs :: "u16 list"
  inheritedFlags :: "bool list"
  conflicted :: "bool list"
  assigned :: bool

definition put_field :: "field_state \<Rightarrow> nat \<Rightarrow> u16 \<Rightarrow> bool \<Rightarrow> field_state" where
  "put_field st idx fid inh =
     st\<lparr>fieldIDs := (fieldIDs st)[idx := fid], inheritedFlags := (inheritedFlags st)[idx := inh]\<rparr>"

definition put_conflict :: "field_state \<Rightarrow> nat \<Rightarrow> bool \<Rightarrow> field_state" where
  "put_conflict st idx b = st\<lparr>conflicted := (conflicted st)[idx := b]\<rparr>"

text \<open>The conflict flags are allocated on the first conflict.\<close>

definition with_flags :: "nat \<Rightarrow> field_state \<Rightarrow> field_state" where
  "with_flags childCount st = (if conflicted st = [] then st\<lparr>conflicted := replicate childCount False\<rparr> else st)"

text \<open>One entry of the field map of a production, in \<open>buildFieldPlanForProduction\<close>.\<close>

definition plan_entry :: "nat \<Rightarrow> field_map_entry \<Rightarrow> field_state \<Rightarrow> field_state" where
  "plan_entry childCount entry st =
     (let idx = unat (ChildIndex entry) in
      if idx \<ge> childCount then st
      else
        (let st' =
           (if conflicted st \<noteq> [] \<and> conflicted st ! idx then
              (if \<not> Inherited entry then put_conflict (put_field st idx (FieldID entry) False) idx False else st)
            else if fieldIDs st ! idx = 0 then put_field st idx (FieldID entry) (Inherited entry)
            else if \<not> Inherited entry \<and> inheritedFlags st ! idx then put_field st idx (FieldID entry) False
            else if Inherited entry \<and> inheritedFlags st ! idx \<and> fieldIDs st ! idx \<noteq> FieldID entry
            then put_conflict (put_field (with_flags childCount st) idx 0 False) idx True
            else if Inherited entry = inheritedFlags st ! idx then put_field st idx (FieldID entry) (Inherited entry)
            else st)
         in st'\<lparr>assigned := True\<rparr>))"

text \<open>The entries that a slice of the field map selects, as far as the map goes.\<close>

definition production_entries :: "language \<Rightarrow> u16 \<Rightarrow> field_map_entry list" where
  "production_entries lang productionID =
     (let fm = FieldMapSlices lang ! unat productionID
      in go_slice (FieldMapEntries lang) (unat (fst fm)) (unat (fst fm) + unat (snd fm)))"

definition buildFieldPlanForProduction :: "language \<Rightarrow> nat \<Rightarrow> u16 \<Rightarrow> (u16 list \<times> bool list \<times> bool list) option" where
  "buildFieldPlanForProduction lang childCount productionID =
     (if childCount = 0 \<or> FieldMapEntries lang = [] then None
      else if unat productionID \<ge> length (FieldMapSlices lang) then None
      else if snd (FieldMapSlices lang ! unat productionID) = 0 then None
      else
        (let st = fold (plan_entry childCount) (production_entries lang productionID)
                    \<lparr>fieldIDs = replicate childCount 0, inheritedFlags = replicate childCount False,
                     conflicted = [], assigned = False\<rparr>
         in if \<not> assigned st then None else Some (fieldIDs st, inheritedFlags st, conflicted st)))"

definition fieldIDSliceHasAny :: "u16 list \<Rightarrow> bool" where
  "fieldIDSliceHasAny ids \<longleftrightarrow> (\<exists>fid \<in> set ids. fid \<noteq> 0)"

definition fieldMapHasEffectiveFields :: "language \<Rightarrow> nat \<Rightarrow> u16 \<Rightarrow> bool" where
  "fieldMapHasEffectiveFields lang childCount productionID =
     (case buildFieldPlanForProduction lang childCount productionID of
        None \<Rightarrow> False
      | Some (ids, _, conflicts) \<Rightarrow> fieldIDSliceHasAny ids \<or> (\<exists>c \<in> set conflicts. c))"

definition reduce_actions :: "language \<Rightarrow> parse_action list" where
  "reduce_actions lang = filter (\<lambda>act. actType act = ParseActionReduce) (concat (map Actions (ParseActions lang)))"

definition presence_step :: "language \<Rightarrow> parse_action \<Rightarrow> bool list \<Rightarrow> bool list" where
  "presence_step lang act out =
     (let pid = unat (ProductionID act) in
      if pid \<ge> length out \<or> \<not> out ! pid \<or> fieldMapHasEffectiveFields lang (unat (ChildCount act)) (ProductionID act)
      then out else out[pid := False])"

definition buildReduceFieldPresence :: "language \<Rightarrow> bool list" where
  "buildReduceFieldPresence lang =
     fold (presence_step lang) (reduce_actions lang) (map (\<lambda>fm. snd fm \<noteq> 0) (FieldMapSlices lang))"

definition reduceProductionHasFields :: "bool list \<Rightarrow> u16 \<Rightarrow> bool" where
  "reduceProductionHasFields hasFields productionID \<longleftrightarrow>
     unat productionID < length hasFields \<and> hasFields ! unat productionID"

text \<open>A plan that was not built is \<open>None\<close>.\<close>

type_synonym field_plan = "u8 \<times> u16 list \<times> bool list \<times> bool list"

definition plan_step :: "language \<Rightarrow> parse_action \<Rightarrow> field_plan option list \<Rightarrow> field_plan option list" where
  "plan_step lang act out =
     (let pid = unat (ProductionID act) in
      if pid \<ge> length out \<or> out ! pid \<noteq> None then out
      else (case buildFieldPlanForProduction lang (unat (ChildCount act)) (ProductionID act) of
              None \<Rightarrow> out
            | Some plan \<Rightarrow> out[pid := Some (ChildCount act, plan)]))"

definition buildReduceFieldPlans :: "language \<Rightarrow> field_plan option list" where
  "buildReduceFieldPlans lang =
     (if FieldMapSlices lang = [] \<or> FieldMapEntries lang = [] then []
      else
        (let out = fold (plan_step lang) (reduce_actions lang) (replicate (length (FieldMapSlices lang)) None)
         in if \<exists>p \<in> set out. p \<noteq> None then out else []))"

text \<open>The same switch at run time, over cleared scratch slices: the field IDs are taken on the
  first entry in range, the flags before the loop.\<close>

definition take_ids :: "nat \<Rightarrow> field_state \<Rightarrow> field_state" where
  "take_ids childCount st = (if fieldIDs st = [] then st\<lparr>fieldIDs := replicate childCount 0\<rparr> else st)"

definition field_entry :: "nat \<Rightarrow> field_map_entry \<Rightarrow> field_state \<Rightarrow> field_state" where
  "field_entry childCount entry st0 =
     (let idx = unat (ChildIndex entry) in
      if idx \<ge> childCount then st0
      else
        (let st = take_ids childCount st0;
             st' =
           (if conflicted st ! idx then
              (if \<not> Inherited entry then put_conflict (put_field st idx (FieldID entry) False) idx False else st)
            else if fieldIDs st ! idx = 0 then put_field st idx (FieldID entry) (Inherited entry)
            else if \<not> Inherited entry \<and> inheritedFlags st ! idx then put_field st idx (FieldID entry) False
            else if Inherited entry \<and> inheritedFlags st ! idx \<and> fieldIDs st ! idx \<noteq> FieldID entry
            then put_conflict (put_field st idx 0 False) idx True
            else if Inherited entry = inheritedFlags st ! idx then put_field st idx (FieldID entry) (Inherited entry)
            else st)
         in st'\<lparr>assigned := True\<rparr>))"

definition walk_fields :: "language \<Rightarrow> nat \<Rightarrow> u16 \<Rightarrow> (u16 list \<times> bool list \<times> bool list) option" where
  "walk_fields lang childCount productionID =
     (if snd (FieldMapSlices lang ! unat productionID) = 0 then None
      else
        (let st = fold (field_entry childCount) (production_entries lang productionID)
                    \<lparr>fieldIDs = [], inheritedFlags = replicate childCount False,
                     conflicted = replicate childCount False, assigned = False\<rparr>
         in if \<not> assigned st then None else Some (fieldIDs st, inheritedFlags st, conflicted st)))"

definition buildFieldIDs ::
  "language \<Rightarrow> field_plan option list \<Rightarrow> nat \<Rightarrow> u16 \<Rightarrow> (u16 list \<times> bool list \<times> bool list) option" where
  "buildFieldIDs lang plans childCount productionID =
     (if childCount = 0 \<or> FieldMapEntries lang = [] then None
      else if unat productionID \<ge> length (FieldMapSlices lang) then None
      else
        (case if unat productionID < length plans then plans ! unat productionID else None of
           Some (n, plan) \<Rightarrow> if unat n = childCount then Some plan else walk_fields lang childCount productionID
         | None \<Rightarrow> walk_fields lang childCount productionID))"

subsection \<open>The field of one child\<close>

text \<open>The switch on one child: field, whether it is inherited, whether inherited ones clash.\<close>

definition entry_cell :: "field_map_entry \<Rightarrow> u16 \<times> bool \<times> bool \<Rightarrow> u16 \<times> bool \<times> bool" where
  "entry_cell entry c =
     (let (fid, inh, conf) = c in
      if conf then (if \<not> Inherited entry then (FieldID entry, False, False) else c)
      else if fid = 0 then (FieldID entry, Inherited entry, False)
      else if \<not> Inherited entry \<and> inh then (FieldID entry, False, False)
      else if Inherited entry \<and> inh \<and> fid \<noteq> FieldID entry then (0, False, True)
      else if Inherited entry = inh then (FieldID entry, Inherited entry, False)
      else c)"

definition cell_at :: "field_state \<Rightarrow> nat \<Rightarrow> u16 \<times> bool \<times> bool" where
  "cell_at st i =
     (if fieldIDs st = [] then 0 else fieldIDs st ! i, inheritedFlags st ! i, conflicted st \<noteq> [] \<and> conflicted st ! i)"

definition fields_ok :: "nat \<Rightarrow> field_state \<Rightarrow> bool" where
  "fields_ok n st \<longleftrightarrow>
     length (fieldIDs st) = n \<and> length (inheritedFlags st) = n \<and> (conflicted st = [] \<or> length (conflicted st) = n)"

lemma put_simps [simp]:
  "fieldIDs (put_field st idx fid inh) = (fieldIDs st)[idx := fid]"
  "inheritedFlags (put_field st idx fid inh) = (inheritedFlags st)[idx := inh]"
  "conflicted (put_field st idx fid inh) = conflicted st" "assigned (put_field st idx fid inh) = assigned st"
  "fieldIDs (put_conflict st idx b) = fieldIDs st" "inheritedFlags (put_conflict st idx b) = inheritedFlags st"
  "conflicted (put_conflict st idx b) = (conflicted st)[idx := b]" "assigned (put_conflict st idx b) = assigned st"
  "fieldIDs (with_flags n st) = fieldIDs st" "inheritedFlags (with_flags n st) = inheritedFlags st"
  "conflicted (with_flags n st) = (if conflicted st = [] then replicate n False else conflicted st)"
  "assigned (with_flags n st) = assigned st"
  "fieldIDs (take_ids n st) = (if fieldIDs st = [] then replicate n 0 else fieldIDs st)"
  "inheritedFlags (take_ids n st) = inheritedFlags st" "conflicted (take_ids n st) = conflicted st"
  "assigned (take_ids n st) = assigned st"
  by (simp_all add: put_field_def put_conflict_def with_flags_def take_ids_def)

lemma cell_at_assigned [simp]: "cell_at (st\<lparr>assigned := b\<rparr>) i = cell_at st i"
  by (simp add: cell_at_def)

lemma cell_at_put:
  assumes "fields_ok n st" and "idx < n"
  shows "cell_at (put_field st idx fid inh) i =
    (if i = idx then (fid, inh, snd (snd (cell_at st i))) else cell_at st i)"
  using assms by (auto simp: cell_at_def fields_ok_def)

lemma cell_at_conflict:
  assumes "fields_ok n st" and "idx < n" and "conflicted st \<noteq> []"
  shows "cell_at (put_conflict st idx b) i =
    (if i = idx then (fst (cell_at st i), fst (snd (cell_at st i)), b) else cell_at st i)"
  using assms by (auto simp: cell_at_def fields_ok_def)

lemma cell_at_flags: "i < n \<Longrightarrow> cell_at (with_flags n st) i = cell_at st i"
  by (simp add: cell_at_def)

lemma fields_ok_put [simp]: "fields_ok n (put_field st idx fid inh) = fields_ok n st"
  by (simp add: fields_ok_def)

lemma fields_ok_conflict [simp]: "fields_ok n (put_conflict st idx b) = fields_ok n st"
  by (simp add: fields_ok_def)

lemma fields_ok_flags [simp]: "fields_ok n st \<Longrightarrow> fields_ok n (with_flags n st)"
  by (auto simp: fields_ok_def)

lemma cell_at_reads:
  assumes "fields_ok n st" and "i < n" and "cell_at st i = (fid, inh, conf)"
  shows "fieldIDs st ! i = fid" "inheritedFlags st ! i = inh" "(conflicted st \<noteq> [] \<and> conflicted st ! i) = conf"
proof -
  have "fieldIDs st \<noteq> []" using assms(1,2) by (auto simp: fields_ok_def)
  then show "fieldIDs st ! i = fid" "inheritedFlags st ! i = inh" "(conflicted st \<noteq> [] \<and> conflicted st ! i) = conf"
    using assms(3) by (simp_all add: cell_at_def)
qed

lemma plan_entry_cell:
  assumes "fields_ok n st" and "i < n"
  shows "cell_at (plan_entry n e st) i = (if unat (ChildIndex e) = i then entry_cell e (cell_at st i) else cell_at st i)"
proof (cases "unat (ChildIndex e) < n")
  case True
  obtain fid inh conf where c: "cell_at st (unat (ChildIndex e)) = (fid, inh, conf)" by (cases "cell_at st (unat (ChildIndex e))")
  have flags: "conf \<Longrightarrow> conflicted st \<noteq> []" using cell_at_reads(3) [OF assms(1) True c] by blast
  have n: "n \<noteq> 0" using assms(2) by simp
  have wf: "fields_ok n (with_flags n st)" using assms(1) by simp
  note clash = cell_at_conflict [OF fields_ok_put [THEN iffD2, OF wf] True] cell_at_put [OF wf True]
  show ?thesis
    unfolding plan_entry_def Let_def cell_at_reads [OF assms(1) True c]
    using assms True c flags n
    by (cases "unat (ChildIndex e) = i"; cases conf)
       (auto simp: entry_cell_def cell_at_put cell_at_conflict clash cell_at_flags)
qed (use assms in \<open>simp add: plan_entry_def\<close>)

lemma fields_ok_assigned [simp]: "fields_ok n (st\<lparr>assigned := b\<rparr>) = fields_ok n st"
  by (simp add: fields_ok_def)

lemma plan_entry_ok:
  "fields_ok n st \<Longrightarrow> fields_ok n (plan_entry n e st)"
  "assigned (plan_entry n e st) \<longleftrightarrow> assigned st \<or> unat (ChildIndex e) < n"
  by (simp_all add: plan_entry_def Let_def)

lemma plan_entry_flags: "conflicted st \<noteq> [] \<Longrightarrow> conflicted (plan_entry n e st) \<noteq> []"
  by (simp add: plan_entry_def Let_def)

lemma plan_entries_ok:
  assumes "fields_ok n st"
  shows "fields_ok n (fold (plan_entry n) es st)"
    and "assigned (fold (plan_entry n) es st) \<longleftrightarrow> assigned st \<or> (\<exists>e \<in> set es. unat (ChildIndex e) < n)"
    and "i < n \<Longrightarrow> cell_at (fold (plan_entry n) es st) i =
      fold entry_cell (filter (\<lambda>e. unat (ChildIndex e) = i) es) (cell_at st i)"
  using assms by (induction es arbitrary: st) (auto simp: plan_entry_ok plan_entry_cell)

text \<open>With its slices taken, the run-time switch is the planning one.\<close>

lemma field_entry_plan:
  "conflicted st \<noteq> [] \<Longrightarrow> field_entry n e st = (if unat (ChildIndex e) < n then plan_entry n e (take_ids n st) else st)"
  by (simp add: field_entry_def plan_entry_def Let_def with_flags_def)

lemma take_ids_id [simp]: "fieldIDs st \<noteq> [] \<Longrightarrow> take_ids n st = st"
  by (simp add: take_ids_def)

lemma field_entries_plan:
  assumes "fields_ok n (take_ids n st)" and "conflicted st \<noteq> []" and "0 < n"
    and "assigned st \<longrightarrow> fieldIDs st \<noteq> []"
  shows "take_ids n (fold (field_entry n) es st) = fold (plan_entry n) es (take_ids n st) \<and>
    (assigned (fold (field_entry n) es st) \<longrightarrow> fieldIDs (fold (field_entry n) es st) \<noteq> [])"
  using assms(1,2,4)
proof (induction es arbitrary: st)
  case (Cons e es)
  show ?case
  proof (cases "unat (ChildIndex e) < n")
    case True
    let ?st = "plan_entry n e (take_ids n st)"
    have "fields_ok n ?st" using plan_entry_ok(1) Cons.prems(1) by simp
    then have "fieldIDs ?st \<noteq> []" "fields_ok n ?st" using assms(3) by (auto simp: fields_ok_def)
    moreover have "conflicted ?st \<noteq> []" using plan_entry_flags Cons.prems(2) by simp
    ultimately show ?thesis using Cons.IH [of ?st] Cons.prems(2) True by (simp add: field_entry_plan)
  next
    case False
    then show ?thesis using Cons by (simp add: field_entry_plan plan_entry_def)
  qed
qed simp

text \<open>A result with its flags written out, and the one the cells give.\<close>

definition flags_of :: "nat \<Rightarrow> bool list \<Rightarrow> bool list" where
  "flags_of n xs = (if xs = [] then replicate n False else xs)"

definition full_plan :: "nat \<Rightarrow> (u16 list \<times> bool list \<times> bool list) option \<Rightarrow> (u16 list \<times> bool list \<times> bool list) option" where
  "full_plan n = map_option (\<lambda>(ids, inh, conf). (ids, inh, flags_of n conf))"

definition cell_lists :: "(u16 \<times> bool \<times> bool) list \<Rightarrow> u16 list \<times> bool list \<times> bool list" where
  "cell_lists cs = (map fst cs, map (fst \<circ> snd) cs, map (snd \<circ> snd) cs)"

lemma fields_as_cells:
  assumes "fields_ok n st" and "0 < n"
  shows "(fieldIDs st, inheritedFlags st, flags_of n (conflicted st)) = cell_lists (map (cell_at st) [0..<n])"
proof -
  have "fieldIDs st \<noteq> []" using assms by (auto simp: fields_ok_def)
  then have "fieldIDs st = map (\<lambda>i. fst (cell_at st i)) [0..<n]"
    "inheritedFlags st = map (\<lambda>i. fst (snd (cell_at st i))) [0..<n]"
    "flags_of n (conflicted st) = map (\<lambda>i. snd (snd (cell_at st i))) [0..<n]"
    using assms by (auto simp: cell_at_def fields_ok_def flags_of_def intro: nth_equalityI)
  then show ?thesis by (simp add: cell_lists_def comp_def)
qed

lemma full_plan_None [simp]: "full_plan n None = None"
  by (simp add: full_plan_def)

definition cell_of :: "nat \<Rightarrow> field_map_entry list \<Rightarrow> u16 \<times> bool \<times> bool" where
  "cell_of i es = fold entry_cell (filter (\<lambda>e. unat (ChildIndex e) = i) es) (0, False, False)"

definition entry_plan :: "nat \<Rightarrow> field_map_entry list \<Rightarrow> (u16 list \<times> bool list \<times> bool list) option" where
  "entry_plan n es =
     (if \<exists>e \<in> set es. unat (ChildIndex e) < n then Some (cell_lists (map (\<lambda>i. cell_of i es) [0..<n])) else None)"

lemma plan_result:
  assumes "0 < n" and "fields_ok n st" and "\<not> assigned st" and "\<forall>i < n. cell_at st i = (0, False, False)"
    and "st' = fold (plan_entry n) es st"
  shows "full_plan n (if \<not> assigned st' then None else Some (fieldIDs st', inheritedFlags st', conflicted st')) = entry_plan n es"
proof -
  have cells: "map (cell_at st') [0..<n] = map (\<lambda>i. cell_of i es) [0..<n]"
    using plan_entries_ok(3) [OF assms(2)] assms(4,5) by (simp add: cell_of_def)
  have "(fieldIDs st', inheritedFlags st', flags_of n (conflicted st')) = cell_lists (map (\<lambda>i. cell_of i es) [0..<n])"
    using fields_as_cells [OF plan_entries_ok(1) [OF assms(2)] assms(1), of es] by (simp only: assms(5) [symmetric] cells)
  moreover have "assigned st' \<longleftrightarrow> (\<exists>e \<in> set es. unat (ChildIndex e) < n)"
    using plan_entries_ok(2) [OF assms(2)] assms(3,5) by simp
  ultimately show ?thesis by (simp add: full_plan_def entry_plan_def)
qed

definition field_plan_at :: "language \<Rightarrow> nat \<Rightarrow> u16 \<Rightarrow> (u16 list \<times> bool list \<times> bool list) option" where
  "field_plan_at lang n pid =
     (if n = 0 \<or> unat pid \<ge> length (FieldMapSlices lang) then None else entry_plan n (production_entries lang pid))"

lemma entry_plan_Nil [simp]: "entry_plan n [] = None"
  by (simp add: entry_plan_def)

lemma production_entries_Nil:
  "FieldMapEntries lang = [] \<Longrightarrow> production_entries lang pid = []"
  "snd (FieldMapSlices lang ! unat pid) = 0 \<Longrightarrow> production_entries lang pid = []"
  by (simp_all add: production_entries_def Let_def go_slice_def)

lemma planned_fields: "full_plan n (buildFieldPlanForProduction lang n pid) = field_plan_at lang n pid"
proof -
  let ?st = "\<lparr>fieldIDs = replicate n 0, inheritedFlags = replicate n False, conflicted = [], assigned = False\<rparr>"
  have start: "fields_ok n ?st" "\<not> assigned ?st" "\<forall>i < n. cell_at ?st i = (0, False, False)"
    by (simp_all add: fields_ok_def cell_at_def)
  show ?thesis
    using plan_result [OF _ start refl, of "production_entries lang pid"]
    by (simp add: buildFieldPlanForProduction_def field_plan_at_def Let_def production_entries_Nil)
qed

lemma walked_fields:
  assumes "0 < n"
  shows "full_plan n (walk_fields lang n pid) = entry_plan n (production_entries lang pid)"
proof -
  let ?st = "\<lparr>fieldIDs = [], inheritedFlags = replicate n False, conflicted = replicate n False, assigned = False\<rparr>"
  let ?es = "production_entries lang pid"
  define r where "r = fold (field_entry n) ?es ?st"
  have start: "fields_ok n (take_ids n ?st)" "\<not> assigned (take_ids n ?st)"
    "\<forall>i < n. cell_at (take_ids n ?st) i = (0, False, False)" "conflicted ?st \<noteq> []"
    using assms by (simp_all add: fields_ok_def cell_at_def)
  have "take_ids n r = fold (plan_entry n) ?es (take_ids n ?st) \<and> (assigned r \<longrightarrow> fieldIDs r \<noteq> [])"
    unfolding r_def by (rule field_entries_plan [OF start(1,4) assms]) simp
  then have t: "take_ids n r = fold (plan_entry n) ?es (take_ids n ?st)" and ids: "assigned r \<Longrightarrow> take_ids n r = r"
    by auto
  have "full_plan n (if \<not> assigned r then None else Some (fieldIDs r, inheritedFlags r, conflicted r)) = entry_plan n ?es"
    using plan_result [OF assms start(1-3) t] ids by (cases "assigned r") simp_all
  then show ?thesis
    unfolding walk_fields_def Let_def r_def [symmetric]
    by (cases "snd (FieldMapSlices lang ! unat pid) = 0") (simp_all add: production_entries_Nil)
qed

lemma plan_steps:
  assumes "plans = fold (plan_step lang) acts (replicate (length (FieldMapSlices lang)) None)"
    and "unat pid < length plans" and "plans ! unat pid = Some (n, plan)"
  shows "buildFieldPlanForProduction lang (unat n) pid = Some plan"
proof -
  define good where "good out \<longleftrightarrow> (\<forall>pid n plan. unat pid < length out \<longrightarrow> out ! unat pid = Some (n, plan) \<longrightarrow>
      buildFieldPlanForProduction lang (unat n) pid = Some plan)" for out :: "field_plan option list"
  have step: "good (plan_step lang act out)" if "good out" for act out
    using that
    by (auto simp: good_def plan_step_def Let_def nth_list_update word_unat_eq_iff [symmetric] split: option.splits if_splits)
  have "good out \<Longrightarrow> good (fold (plan_step lang) acts out)" for out
    by (induction acts arbitrary: out) (simp_all add: step)
  moreover have "good (replicate (length (FieldMapSlices lang)) None)" by (simp add: good_def)
  ultimately show ?thesis using assms unfolding good_def by blast
qed

text \<open>The field of a child by the rule of the field map: a direct entry beats inherited ones,
  the last direct one counts, and inherited ones count only when they agree.\<close>

definition child_field :: "field_map_entry list \<Rightarrow> u16 \<times> bool \<times> bool" where
  "child_field es =
     (let direct = filter (\<lambda>e. \<not> Inherited e) es in
      if direct \<noteq> [] then (FieldID (last direct), False, False)
      else if es = [] then (0, False, False)
      else if \<forall>e \<in> set es. FieldID e = FieldID (hd es) then (FieldID (hd es), True, False)
      else (0, False, True))"

lemma child_field_step:
  assumes "\<forall>x \<in> set (es @ [e]). FieldID x \<noteq> 0"
  shows "entry_cell e (child_field es) = child_field (es @ [e])"
proof (cases "filter (\<lambda>e. \<not> Inherited e) es = []")
  case True
  show ?thesis
  proof (cases es)
    case Nil
    then show ?thesis by (simp add: child_field_def entry_cell_def)
  next
    case (Cons x xs)
    then have "FieldID x \<noteq> 0" "Inherited x" using assms True by (simp_all split: if_splits)
    then show ?thesis using True Cons assms by (auto simp: child_field_def entry_cell_def Let_def)
  qed
next
  case False
  then have "last (filter (\<lambda>e. \<not> Inherited e) es) \<in> set es" using last_in_set by fastforce
  then have "FieldID (last (filter (\<lambda>e. \<not> Inherited e) es)) \<noteq> 0" using assms by simp
  then show ?thesis using False by (auto simp: child_field_def entry_cell_def Let_def)
qed

lemma cell_of_child:
  assumes "\<forall>e \<in> set es. FieldID e \<noteq> 0"
  shows "cell_of i es = child_field (filter (\<lambda>e. unat (ChildIndex e) = i) es)"
proof -
  have "\<forall>e \<in> set xs. FieldID e \<noteq> 0 \<Longrightarrow> fold entry_cell xs (0, False, False) = child_field xs" for xs
  proof (induction xs rule: rev_induct)
    case Nil
    then show ?case by (simp add: child_field_def)
  next
    case (snoc x xs)
    then show ?case using child_field_step [of xs x] by simp
  qed
  then show ?thesis using assms by (simp add: cell_of_def)
qed

lemma field_ids_plan:
  "full_plan n (buildFieldIDs lang (buildReduceFieldPlans lang) n pid) = field_plan_at lang n pid"
proof (cases "n = 0 \<or> FieldMapEntries lang = [] \<or> unat pid \<ge> length (FieldMapSlices lang)")
  case True
  then show ?thesis by (auto simp: buildFieldIDs_def field_plan_at_def production_entries_Nil)
next
  case False
  let ?plans = "buildReduceFieldPlans lang"
  have walk: "full_plan n (walk_fields lang n pid) = field_plan_at lang n pid"
    using False walked_fields by (simp add: field_plan_at_def)
  have cached: "full_plan n (Some plan) = field_plan_at lang n pid"
    if "unat pid < length ?plans" "?plans ! unat pid = Some (m, plan)" "unat m = n" for m plan
  proof -
    have "?plans = fold (plan_step lang) (reduce_actions lang) (replicate (length (FieldMapSlices lang)) None)"
      using that(1) by (auto simp: buildReduceFieldPlans_def Let_def split: if_splits)
    from plan_steps [OF this that(1,2)] show ?thesis using planned_fields [of n lang pid] that(3) by simp
  qed
  show ?thesis
  proof (cases "if unat pid < length ?plans then ?plans ! unat pid else None")
    case None
    then show ?thesis using False walk by (simp add: buildFieldIDs_def)
  next
    case (Some mp)
    then have "unat pid < length ?plans" "?plans ! unat pid = Some (fst mp, snd mp)" by (auto split: if_splits)
    then show ?thesis
      using False walk cached [of "fst mp" "snd mp"] Some by (auto simp: buildFieldIDs_def split_beta)
  qed
qed

subsection \<open>Tokens shared between rules\<close>

definition resolve_action :: "language \<Rightarrow> (nat \<Rightarrow> nat \<Rightarrow> parse_action \<Rightarrow> 's \<Rightarrow> 's) \<Rightarrow> nat \<Rightarrow> nat \<Rightarrow> u16 \<Rightarrow> 's \<Rightarrow> 's" where
  "resolve_action lang fn state s idx acc =
     (if idx = 0 \<or> unat idx \<ge> length (ParseActions lang) then acc
      else fold (fn state s) (Actions (ParseActions lang ! unat idx)) acc)"

definition forEachStateAction :: "language \<Rightarrow> nat \<Rightarrow> nat \<Rightarrow> (nat \<Rightarrow> nat \<Rightarrow> parse_action \<Rightarrow> 's \<Rightarrow> 's) \<Rightarrow> 's \<Rightarrow> 's" where
  "forEachStateAction lang denseLim base fn acc =
     (let dense = fold (\<lambda>(state, row). fold (\<lambda>(s, idx). resolve_action lang fn state s idx) (enumerate 0 row))
                    (enumerate 0 (take denseLim (ParseTable lang))) acc
      in fold (\<lambda>(smallIdx, offset).
                 small_walk (\<lambda>val s acc. (resolve_action lang fn (base + smallIdx) (unat s) val acc, True))
                   (SmallParseTable lang) (unat offset))
           (enumerate 0 (SmallParseTableMap lang)) dense)"

text \<open>The distinct shift targets of the tracked symbols.\<close>

type_synonym target_map = "nat \<rightharpoonup> u32 list"

definition add_target :: "nat \<Rightarrow> nat \<Rightarrow> nat \<Rightarrow> parse_action \<Rightarrow> target_map \<Rightarrow> target_map" where
  "add_target tokenCount state s act targets =
     (if actType act \<noteq> ParseActionShift \<or> s \<ge> tokenCount then targets
      else (case targets s of
              None \<Rightarrow> targets
            | Some known \<Rightarrow> targets(s \<mapsto> List.insert (actState act) known)))"

definition collect_targets :: "language \<Rightarrow> target_map \<Rightarrow> target_map" where
  "collect_targets lang targets =
     forEachStateAction lang (languageDenseLimit lang) (unat (LargeStateCount lang))
       (add_target (unat (TokenCount lang))) targets"

definition anonymous_tokens :: "language \<Rightarrow> nat list" where
  "anonymous_tokens lang =
     map fst (filter (\<lambda>(s, meta). \<not> (s \<ge> unat (TokenCount lang) \<or> \<not> Visible meta \<or> Named meta))
       (enumerate 0 (SymbolMetadata lang)))"

definition buildSharedAnonymousTokenSymbols :: "language \<Rightarrow> bool list" where
  "buildSharedAnonymousTokenSymbols lang =
     (if SymbolMetadata lang = [] \<or> (ParseTable lang = [] \<and> SmallParseTableMap lang = []) then []
      else
        (let tokens = anonymous_tokens lang in
         if tokens = [] then []
         else
           (let targets = collect_targets lang (\<lambda>s. if s \<in> set tokens then Some [] else None);
                out = fold (\<lambda>s out. if length (the (targets s)) \<ge> 2 then out[s := True] else out) tokens
                        (replicate (length (SymbolMetadata lang)) False)
            in if \<exists>b \<in> set out. b then out else [])))"

text \<open>For every name its last visible named symbol and its last visible anonymous one (-1 when
  there is none); the map of the code is an association list in order of first use.\<close>

type_synonym name_pairs = "(string \<times> int \<times> int) list"

fun put_name :: "string \<Rightarrow> bool \<Rightarrow> nat \<Rightarrow> name_pairs \<Rightarrow> name_pairs" where
  "put_name nm isNamed s [] = [(nm, if isNamed then (int s, -1) else (-1, int s))]"
| "put_name nm isNamed s ((nm', n, a) # ps) =
     (if nm' = nm then (nm, if isNamed then (int s, a) else (n, int s)) # ps
      else (nm', n, a) # put_name nm isNamed s ps)"

definition name_step :: "language \<Rightarrow> nat \<times> symbol_metadata \<Rightarrow> name_pairs \<Rightarrow> name_pairs" where
  "name_step lang e ps =
     (let (s, meta) = e;
          nm = (if metaName meta = [] \<and> s < length (SymbolNames lang) then SymbolNames lang ! s else metaName meta)
      in if \<not> Visible meta \<or> nm = [] then ps else put_name nm (Named meta) s ps)"

definition twins :: "language \<Rightarrow> (nat \<times> nat) list" where
  "twins lang =
     map (\<lambda>(_, n, a). (nat n, nat a)) (filter (\<lambda>(_, n, a). \<not> (n < 0 \<or> a < 0))
       (fold (name_step lang) (enumerate 0 (SymbolMetadata lang)) []))"

definition buildKeepSameNamedAnonChildSymbols :: "language \<Rightarrow> bool list" where
  "buildKeepSameNamedAnonChildSymbols lang =
     (if SymbolMetadata lang = [] \<or> (ParseTable lang = [] \<and> SmallParseTableMap lang = []) then []
      else
        (let pairs = twins lang in
         if pairs = [] then []
         else
           (let targets = collect_targets lang (\<lambda>s. if s \<in> set (map snd pairs) then Some [] else None);
                out = fold (\<lambda>(n, a) out. if length (the (targets a)) \<ge> 2 then out[n := True] else out) pairs
                        (replicate (length (SymbolMetadata lang)) False)
            in if \<exists>b \<in> set out. b then out else [])))"

definition languageHasExtraChainActions :: "language \<Rightarrow> bool" where
  "languageHasExtraChainActions lang \<longleftrightarrow>
     (\<exists>entry \<in> set (ParseActions lang). \<exists>action \<in> set (Actions entry). ExtraChain action)"

subsection \<open>Shift targets\<close>

definition resolved :: "language \<Rightarrow> nat \<Rightarrow> u16 \<Rightarrow> (nat \<times> parse_action) list" where
  "resolved lang s idx =
     (if idx = 0 \<or> unat idx \<ge> length (ParseActions lang) then []
      else map (Pair s) (Actions (ParseActions lang ! unat idx)))"

definition action_calls :: "language \<Rightarrow> (nat \<times> parse_action) list" where
  "action_calls lang =
     concat (map (\<lambda>row. concat (map (\<lambda>(s, idx). resolved lang s idx) (enumerate 0 row)))
       (take (languageDenseLimit lang) (ParseTable lang))) @
     concat (map (\<lambda>offset. concat (map (\<lambda>(s, idx). resolved lang (unat s) idx)
       (small_entries (SmallParseTable lang) (unat offset)))) (SmallParseTableMap lang))"

lemma fold_concat_map: "fold f (concat (map g xs)) = fold (\<lambda>x. fold f (g x)) xs"
  by (induction xs) (simp_all add: fun_eq_iff)

lemma fold_enumerate_snd: "fold (\<lambda>p. f (snd p)) (enumerate k xs) = fold f xs"
  by (induction xs arbitrary: k) (simp_all add: fun_eq_iff)

lemma resolve_resolved: "resolve_action lang (\<lambda>_. f) state s idx = fold (\<lambda>(s, act). f s act) (resolved lang s idx)"
  by (simp add: resolve_action_def resolved_def fun_eq_iff fold_map comp_def)

lemma forEach_calls:
  "forEachStateAction lang (languageDenseLimit lang) base (\<lambda>_. f) acc = fold (\<lambda>(s, act). f s act) (action_calls lang) acc"
proof -
  have small: "small_walk (\<lambda>val s acc. (resolve_action lang (\<lambda>_. f) st (unat s) val acc, True)) table off =
      fold (\<lambda>(s, act). f s act) (concat (map (\<lambda>(s, idx). resolved lang (unat s) idx) (small_entries table off)))" for st table off
    by (simp add: fun_eq_iff small_walk_fold fold_concat_map resolve_resolved case_prod_unfold)
  have dense: "fold (\<lambda>(s, idx). resolve_action lang (\<lambda>_. f) st s idx) (enumerate 0 row) =
      fold (\<lambda>(s, act). f s act) (concat (map (\<lambda>(s, idx). resolved lang s idx) (enumerate 0 row)))" for st row
    by (simp add: fold_concat_map resolve_resolved case_prod_unfold)
  let ?F = "fold (\<lambda>(s, act). f s act)"
  let ?row = "\<lambda>row. concat (map (\<lambda>(s, idx). resolved lang s idx) (enumerate 0 row))"
  let ?small = "\<lambda>table offset. concat (map (\<lambda>(s, idx). resolved lang (unat s) idx) (small_entries table (unat (offset :: u32))))"
  have "fold (\<lambda>(state, row). fold (\<lambda>(s, idx). resolve_action lang (\<lambda>_. f) state s idx) (enumerate 0 row)) (enumerate 0 rows) =
      fold (\<lambda>p. ?F (?row (snd p))) (enumerate 0 rows)" for rows
    by (rule ext, rule fold_cong) (auto simp: dense)
  then have "fold (\<lambda>(state, row). fold (\<lambda>(s, idx). resolve_action lang (\<lambda>_. f) state s idx) (enumerate 0 row)) (enumerate 0 rows) =
      ?F (concat (map ?row rows))" for rows
    using fold_enumerate_snd [of "\<lambda>row. ?F (?row row)" 0 rows] by (simp only: fold_concat_map [of _ ?row rows])
  moreover have "fold (\<lambda>(smallIdx, offset).
        small_walk (\<lambda>val s acc. (resolve_action lang (\<lambda>_. f) (base + smallIdx) (unat s) val acc, True)) table (unat offset))
        (enumerate 0 offsets) = fold (\<lambda>p. ?F (?small table (snd p))) (enumerate 0 offsets)" for table offsets
    by (rule ext, rule fold_cong) (auto simp: small)
  then have "fold (\<lambda>(smallIdx, offset).
        small_walk (\<lambda>val s acc. (resolve_action lang (\<lambda>_. f) (base + smallIdx) (unat s) val acc, True)) table (unat offset))
        (enumerate 0 offsets) = ?F (concat (map (?small table) offsets))" for table offsets
    using fold_enumerate_snd [of "\<lambda>offset. ?F (?small table offset)" 0 offsets]
    by (simp only: fold_concat_map [of _ "?small table" offsets])
  ultimately show ?thesis by (simp add: forEachStateAction_def action_calls_def Let_def)
qed

lemma add_target_at:
  "add_target tc st s' act m s = (case m s of None \<Rightarrow> None
     | Some known \<Rightarrow> Some (if s' = s \<and> actType act = ParseActionShift \<and> s' < tc then List.insert (actState act) known else known))"
  by (auto simp: add_target_def split: option.split)

lemma targets_fold:
  "fold (\<lambda>(s, act). add_target tc 0 s act) calls m s = (case m s of None \<Rightarrow> None
     | Some known \<Rightarrow> Some (fold List.insert
         (map (actState \<circ> snd) (filter (\<lambda>(s', act). s' = s \<and> actType act = ParseActionShift \<and> s' < tc) calls)) known))"
proof (induction calls arbitrary: m)
  case (Cons c calls)
  then show ?case by (cases c; cases "m s") (simp_all add: add_target_at)
qed (simp split: option.split)

lemma set_fold_insert: "set (fold List.insert xs known) = set xs \<union> set known"
  by (induction xs arbitrary: known) auto

lemma distinct_fold_insert: "distinct known \<Longrightarrow> distinct (fold List.insert xs known)"
  by (induction xs arbitrary: known) simp_all

lemma collect_targets_length:
  assumes "m s = Some []"
  shows "length (the (collect_targets lang m s)) =
    card {actState act | act. (s, act) \<in> set (action_calls lang) \<and> actType act = ParseActionShift \<and> s < unat (TokenCount lang)}"
proof -
  let ?xs = "map (actState \<circ> snd) (filter (\<lambda>(s', act). s' = s \<and> actType act = ParseActionShift \<and> s' < unat (TokenCount lang))
    (action_calls lang))"
  have "add_target tc st = add_target tc 0" for tc st by (simp add: fun_eq_iff add_target_def)
  then have "collect_targets lang m = fold (\<lambda>(s, act). add_target (unat (TokenCount lang)) 0 s act) (action_calls lang) m"
    unfolding collect_targets_def by (metis (no_types, lifting) ext forEach_calls)
  then have "the (collect_targets lang m s) = fold List.insert ?xs []"
    using targets_fold [of "unat (TokenCount lang)" "action_calls lang" m s] assms by simp
  moreover have "length (fold List.insert ?xs []) = card (set ?xs)"
    using distinct_card [OF distinct_fold_insert [of "[]" ?xs]] by (simp add: set_fold_insert)
  moreover have "set ?xs = {actState act | act. (s, act) \<in> set (action_calls lang) \<and> actType act = ParseActionShift \<and> s < unat (TokenCount lang)}"
    by force
  ultimately show ?thesis by simp
qed

text \<open>The calls are the actions of the table, each found by looking up its state and symbol.\<close>

definition table_actions :: "language \<Rightarrow> u32 \<Rightarrow> u16 \<Rightarrow> parse_action list" where
  "table_actions lang state s = (case lookupAction (new_view lang) state s of None \<Rightarrow> [] | Some entry \<Rightarrow> Actions entry)"

lemma mem_resolved:
  "(s, act) \<in> set (resolved lang s' idx) \<longleftrightarrow>
     s = s' \<and> idx \<noteq> 0 \<and> unat idx < length (ParseActions lang) \<and> act \<in> set (Actions (ParseActions lang ! unat idx))"
  by (auto simp: resolved_def)

lemma mem_calls:
  "(s, act) \<in> set (concat (map (\<lambda>(s', idx). resolved lang (f s') idx) entries)) \<longleftrightarrow>
     (\<exists>s' idx. (s', idx) \<in> set entries \<and> f s' = s \<and>
       idx \<noteq> 0 \<and> unat idx < length (ParseActions lang) \<and> act \<in> set (Actions (ParseActions lang ! unat idx)))"
proof -
  have "(s, act) \<in> set (concat (map (\<lambda>(s', idx). resolved lang (f s') idx) entries)) \<longleftrightarrow>
      (\<exists>(s', idx) \<in> set entries. (s, act) \<in> set (resolved lang (f s') idx))"
    by (simp add: split_beta)
  then show ?thesis by (auto simp: mem_resolved)
qed

lemma mem_concat_map: "x \<in> set (concat (map f xs)) \<longleftrightarrow> (\<exists>y \<in> set xs. x \<in> set (f y))"
  by simp

lemma mem_row_entries:
  assumes "length row \<le> 65536"
  shows "(unat s, idx) \<in> set (enumerate 0 row) \<longleftrightarrow> (s, idx) \<in> set (row_entries row)"
proof -
  have u: "u16_of k = s \<longleftrightarrow> k = unat s" if "k < length row" for k
    using that assms by (auto simp: u16_of_def unat_of_nat)
  have "(s, idx) \<in> set (row_entries row) \<longleftrightarrow> (\<exists>k < length row. u16_of k = s \<and> row ! k = idx)"
    by (force simp: row_entries_def in_set_enumerate_eq)
  then show ?thesis using u by (auto simp: in_set_enumerate_eq)
qed

text \<open>All states of the tables have a \<open>StateID\<close>.\<close>

definition states_fit :: "language \<Rightarrow> bool" where
  "states_fit lang \<longleftrightarrow>
     int (length (ParseTable lang)) \<le> 2 ^ 32 \<and> int (unat (LargeStateCount lang) + length (SmallParseTableMap lang)) \<le> 2 ^ 32"

definition has_entry :: "language \<Rightarrow> u16 \<Rightarrow> u16 \<Rightarrow> bool" where
  "has_entry lang s idx \<longleftrightarrow>
     (\<exists>row \<in> set (ParseTable lang). (s, idx) \<in> set (row_entries row)) \<or>
     (\<exists>offset \<in> set (SmallParseTableMap lang). (s, idx) \<in> set (small_entries (SmallParseTable lang) (unat offset)))"

lemma has_entry_row:
  assumes "states_fit lang"
  shows "has_entry lang s idx \<longleftrightarrow> (\<exists>state :: u32. (s, idx) \<in> set (row_of lang (unat state)))"
proof
  let ?b = "unat (LargeStateCount lang)"
  have fit: "unat (u32_of k) = k" if "k < n" "int n \<le> 2 ^ 32" for k n
    using that by (intro unat_u32_of) simp
  assume "has_entry lang s idx"
  then consider (dense) k where "k < length (ParseTable lang)" "(s, idx) \<in> set (row_entries (ParseTable lang ! k))"
    | (small) i where "i < length (SmallParseTableMap lang)" "(s, idx) \<in> set (state_entries lang i)"
    unfolding has_entry_def
    using in_set_conv_nth [of _ "ParseTable lang"] in_set_conv_nth [of _ "SmallParseTableMap lang"] by metis
  then show "\<exists>state :: u32. (s, idx) \<in> set (row_of lang (unat state))"
  proof cases
    case dense
    then have "unat (u32_of k) = k" using fit [of k "length (ParseTable lang)"] assms by (simp only: states_fit_def)
    then show ?thesis using dense by (intro exI [of _ "u32_of k"]) (simp add: row_of_def)
  next
    case small
    then have "unat (u32_of (?b + i)) = ?b + i"
      using fit [of "?b + i" "?b + length (SmallParseTableMap lang)"] assms unfolding states_fit_def by linarith
    moreover have "SmallParseTable lang \<noteq> []" using small(2) by (auto simp: small_entries_def)
    ultimately show ?thesis using small by (intro exI [of _ "u32_of (?b + i)"]) (simp add: row_of_def)
  qed
next
  assume "\<exists>state :: u32. (s, idx) \<in> set (row_of lang (unat state))"
  then show "has_entry lang s idx"
    by (auto simp: row_of_def has_entry_def split: if_splits)
qed

lemma action_calls_iff:
  assumes "tables_ok lang" and "states_split lang" and "states_fit lang"
  shows "(unat s, act) \<in> set (action_calls lang) \<longleftrightarrow> (\<exists>state. act \<in> set (table_actions lang state s))"
proof -
  have all: "take (languageDenseLimit lang) (ParseTable lang) = ParseTable lang"
    using assms(2) by (auto simp: states_split_def languageDenseLimit_def word_gt_0 split: if_splits)
  let ?res = "\<lambda>idx. idx \<noteq> 0 \<and> unat idx < length (ParseActions lang) \<and> act \<in> set (Actions (ParseActions lang ! unat idx))"
  have len: "\<forall>row \<in> set (ParseTable lang). length row \<le> 65536" using assms(1) by (simp add: tables_ok_def)
  have "(unat s, act) \<in> set (action_calls lang) \<longleftrightarrow>
      (\<exists>row \<in> set (ParseTable lang). \<exists>idx. (unat s, idx) \<in> set (enumerate 0 row) \<and> ?res idx) \<or>
      (\<exists>offset \<in> set (SmallParseTableMap lang). \<exists>idx. (s, idx) \<in> set (small_entries (SmallParseTable lang) (unat offset)) \<and> ?res idx)"
    by (simp only: action_calls_def all set_append Un_iff mem_calls
        mem_concat_map [where xs = "ParseTable lang"] mem_concat_map [where xs = "SmallParseTableMap lang"] word_unat_eq_iff [symmetric]) blast
  also have "\<dots> \<longleftrightarrow> (\<exists>idx. has_entry lang s idx \<and> ?res idx)"
    using len by (auto simp: has_entry_def mem_row_entries)
  also have "\<dots> \<longleftrightarrow> (\<exists>state. act \<in> set (table_actions lang state s))"
  proof -
    have "rows_distinct lang" using assms(1) by (simp add: tables_ok_def)
    then have look: "lookupActionIndex (new_view lang) state s = assoc (row_of lang (unat state)) s" for state
      using row_of_lookup(2) [OF assms(1,2)] by (simp add: lookup_eq_repair)
    have "act \<in> set (table_actions lang state s) \<longleftrightarrow> ?res (assoc (row_of lang (unat state)) s)" for state
      by (simp add: table_actions_def lookupAction_def Let_def look)
    moreover have "?res (assoc (row_of lang (unat state)) s) \<longleftrightarrow> (\<exists>idx. (s, idx) \<in> set (row_of lang (unat state)) \<and> ?res idx)" for state :: u32
      using assoc_iff [OF row_of_lookup(1) [OF assms(1,2)], of _ state s] by metis
    ultimately show ?thesis using has_entry_row [OF assms(3)] by auto
  qed
  finally show ?thesis .
qed

text \<open>Marking the symbols that have at least two targets.\<close>

lemma fold_mark:
  "k < length out \<Longrightarrow>
     fold (\<lambda>s out. if P s then out[s := True] else out) xs out ! k \<longleftrightarrow> out ! k \<or> (k \<in> set xs \<and> P k)"
proof (induction xs arbitrary: out)
  case (Cons a xs)
  then show ?case by (cases "a = k") auto
qed simp

lemma length_fold_mark: "length (fold (\<lambda>s out. if P s then out[s := True] else out) xs out) = length out"
  by (induction xs arbitrary: out) auto

lemma is_marked_drop: "is_marked (if \<exists>b \<in> set out. b then out else []) k \<longleftrightarrow> is_marked out k"
  using nth_mem [of k out] by (cases "\<exists>b \<in> set out. b") (simp_all only: is_marked_def if_True if_False list.size not_less0, blast)

definition shift_targets :: "language \<Rightarrow> u16 \<Rightarrow> u32 set" where
  "shift_targets lang s =
     {actState act | state act. act \<in> set (table_actions lang state s) \<and> actType act = ParseActionShift}"

lemma mem_anonymous_tokens:
  "k \<in> set (anonymous_tokens lang) \<longleftrightarrow>
     k < length (SymbolMetadata lang) \<and> k < unat (TokenCount lang) \<and>
     Visible (SymbolMetadata lang ! k) \<and> \<not> Named (SymbolMetadata lang ! k)"
  by (force simp: anonymous_tokens_def in_set_enumerate_eq)

lemma target_count:
  assumes "tables_ok lang" and "states_split lang" and "states_fit lang"
    and "m (unat s) = Some []" and "unat s < unat (TokenCount lang)"
  shows "length (the (collect_targets lang m (unat s))) = card (shift_targets lang s)"
proof -
  have "{actState act | act. (unat s, act) \<in> set (action_calls lang) \<and> actType act = ParseActionShift \<and>
      unat s < unat (TokenCount lang)} = shift_targets lang s"
    using assms(5) by (auto simp: shift_targets_def action_calls_iff [OF assms(1,2,3)])
  then show ?thesis using collect_targets_length [of m "unat s" lang] assms(4) by simp
qed

lemma no_targets:
  assumes "tables_ok lang" and "states_split lang" and "states_fit lang"
    and "ParseTable lang = []" and "SmallParseTableMap lang = []"
  shows "shift_targets lang s = {}"
proof -
  have "action_calls lang = []" using assms(4,5) by (simp add: action_calls_def)
  then show ?thesis using action_calls_iff [OF assms(1,2,3), of s] by (auto simp: shift_targets_def)
qed

text \<open>
  \<open>buildSharedAnonymousTokenSymbols\<close> marks exactly the visible anonymous tokens that the
  parse table shifts to at least two different states, where the shifts are those that
  \<open>lookupAction\<close> finds, in the dense rows and the compressed ones alike.
\<close>

lemma shared_tokens_exact:
  assumes "tables_ok lang" and "states_split lang" and "states_fit lang"
  shows "is_marked (buildSharedAnonymousTokenSymbols lang) (unat s) \<longleftrightarrow>
    unat s < length (SymbolMetadata lang) \<and> unat s < unat (TokenCount lang) \<and>
    Visible (SymbolMetadata lang ! unat s) \<and> \<not> Named (SymbolMetadata lang ! unat s) \<and>
    2 \<le> card (shift_targets lang s)"
proof -
  let ?tokens = "anonymous_tokens lang"
  let ?init = "\<lambda>k. if k \<in> set ?tokens then Some [] else None"
  let ?P = "\<lambda>k. 2 \<le> length (the (collect_targets lang ?init k))"
  have mark: "is_marked (fold (\<lambda>k out. if ?P k then out[k := True] else out) ?tokens
      (replicate (length (SymbolMetadata lang)) False)) (unat s) \<longleftrightarrow> unat s \<in> set ?tokens \<and> ?P (unat s)"
    by (auto simp: is_marked_def length_fold_mark fold_mark mem_anonymous_tokens)
  have count: "?P (unat s) \<longleftrightarrow> 2 \<le> card (shift_targets lang s)" if "unat s \<in> set ?tokens"
    using that target_count [OF assms, of ?init s] by (simp add: mem_anonymous_tokens)
  show ?thesis
  proof (cases "SymbolMetadata lang = [] \<or> (ParseTable lang = [] \<and> SmallParseTableMap lang = [])")
    case True
    then have "SymbolMetadata lang = [] \<or> shift_targets lang s = {}" using no_targets [OF assms] by blast
    then show ?thesis using True by (auto simp: buildSharedAnonymousTokenSymbols_def is_marked_def)
  next
    case False
    show ?thesis
    proof (cases "?tokens = []")
      case True
      then show ?thesis
        using False mem_anonymous_tokens [of "unat s" lang]
        by (simp only: buildSharedAnonymousTokenSymbols_def if_False if_True Let_def) (auto simp: is_marked_def)
    next
      case tokens: False
      have "is_marked (buildSharedAnonymousTokenSymbols lang) (unat s) \<longleftrightarrow> unat s \<in> set ?tokens \<and> ?P (unat s)"
        using False tokens
        by (simp only: buildSharedAnonymousTokenSymbols_def if_False Let_def is_marked_drop mark)
      then show ?thesis using count by (auto simp: mem_anonymous_tokens)
    qed
  qed
qed

text \<open>A language in which symbol 1 is a shared token and production 0 has fields.\<close>

definition reduce_language :: language where
  "reduce_language = sample_language
     \<lparr>SymbolMetadata := [\<lparr>metaName = ''end'', Visible = False, Named = False, Supertype = False, GeneratedRepeatAux = False\<rparr>,
        \<lparr>metaName = ''a'', Visible = True, Named = False, Supertype = False, GeneratedRepeatAux = False\<rparr>],
      ParseTable := [[0, 1, 0, 2, 0, 0], [0, 2, 1, 0, 0, 0]],
      ParseActions := [\<lparr>Reusable = False, Actions = []\<rparr>, \<lparr>Reusable = True, Actions = [zero_action\<lparr>actState := 1\<rparr>]\<rparr>,
        \<lparr>Reusable = True, Actions = [zero_action\<lparr>actState := 2\<rparr>]\<rparr>],
      FieldMapSlices := [(0, 3)],
      FieldMapEntries := [\<lparr>FieldID = 1, ChildIndex = 0, Inherited = False\<rparr>, \<lparr>FieldID = 2, ChildIndex = 1, Inherited = True\<rparr>,
        \<lparr>FieldID = 3, ChildIndex = 1, Inherited = True\<rparr>]\<rparr>"

lemma reduce_language_ok: "tables_ok reduce_language"
proof -
  have "rows_distinct reduce_language" by code_simp
  moreover have "\<forall>offset \<in> set (SmallParseTableMap reduce_language). unat offset < length (SmallParseTable reduce_language) \<longrightarrow>
      groups_complete (SmallParseTable reduce_language) (unat (SmallParseTable reduce_language ! unat offset)) (unat offset + 1)"
    by code_simp
  moreover have "\<forall>row \<in> set (ParseTable reduce_language). length row \<le> 65536"
    by (simp add: reduce_language_def)
  ultimately show ?thesis unfolding tables_ok_def by blast
qed

text \<open>
  The plans cached per production change nothing: \<open>buildFieldIDs\<close>, which serves a
  reduction from the plan built for the first reduction of its production when the child counts
  agree and walks the field map otherwise, gives what \<open>buildFieldPlanForProduction\<close> computes
  for that child count, up to conflict flags that are absent when no child has one.
\<close>

lemma field_plan_cache_equiv:
  "full_plan n (buildFieldIDs lang (buildReduceFieldPlans lang) n pid) =
   full_plan n (buildFieldPlanForProduction lang n pid)"
  by (simp only: field_ids_plan planned_fields)

text \<open>
  \<^bold>\<open>C40.\<close> The fields of the children of a reduction follow the rule of the field map: a direct
  entry for a child beats all inherited ones and the last direct one counts; without a direct
  entry the inherited ones count when they agree, and otherwise the child has no field and is
  flagged as conflicting. A production whose entries name no child below the child count has no
  fields.
\<close>

theorem field_ids_spec:
  assumes "\<forall>e \<in> set (FieldMapEntries lang). FieldID e \<noteq> 0"
    and "n \<noteq> 0" and "unat pid < length (FieldMapSlices lang)"
  shows "full_plan n (buildFieldIDs lang (buildReduceFieldPlans lang) n pid) =
    (if \<exists>e \<in> set (production_entries lang pid). unat (ChildIndex e) < n
     then Some (cell_lists (map (\<lambda>i. child_field (filter (\<lambda>e. unat (ChildIndex e) = i) (production_entries lang pid))) [0..<n]))
     else None)"
proof -
  have "set (production_entries lang pid) \<subseteq> set (FieldMapEntries lang)"
    unfolding production_entries_def Let_def go_slice_def by (meson set_drop_subset set_take_subset subset_trans)
  then have "\<forall>e \<in> set (production_entries lang pid). FieldID e \<noteq> 0" using assms(1) by blast
  from cell_of_child [OF this] show ?thesis
    using assms(2,3) by (simp add: field_ids_plan field_plan_at_def entry_plan_def)
qed

theorem field_ids_spec_witness:
  "full_plan 2 (buildFieldIDs reduce_language (buildReduceFieldPlans reduce_language) 2 0) =
   Some ([1, 0], [False, False], [False, True])"
proof -
  have "\<forall>e \<in> set (FieldMapEntries reduce_language). FieldID e \<noteq> 0" "unat (0 :: u16) < length (FieldMapSlices reduce_language)"
    by (simp_all add: reduce_language_def)
  moreover have "(if \<exists>e \<in> set (production_entries reduce_language 0). unat (ChildIndex e) < 2
     then Some (cell_lists (map (\<lambda>i. child_field (filter (\<lambda>e. unat (ChildIndex e) = i) (production_entries reduce_language 0))) [0..<2]))
     else None) = Some ([1, 0], [False, False], [False, True])"
    by code_simp
  ultimately show ?thesis using field_ids_spec [of reduce_language 2 0] by simp
qed

subsection \<open>The index of hints\<close>

definition slot_value :: "(nat \<times> chain_hint) list \<Rightarrow> int" where
  "slot_value es = (case es of [] \<Rightarrow> -1 | [e] \<Rightarrow> int (fst e) | _ \<Rightarrow> -2)"

lemma index_hint_slot:
  assumes "\<forall>e \<in> set es. unat (hintState (snd e)) < n" and "slot < n"
  shows "length (fold index_hint es (replicate n (-1))) = n \<and>
    fold index_hint es (replicate n (-1)) ! slot = slot_value (filter (\<lambda>e. unat (hintState (snd e)) = slot) es)"
  using assms(1)
proof (induction es rule: rev_induct)
  case Nil
  then show ?case using assms(2) by (simp add: slot_value_def)
next
  case (snoc e es)
  have "slot_value (xs @ [e]) = (if slot_value xs = -1 then int (fst e) else -2)" for xs
    by (auto simp: slot_value_def split: list.split)
  then show ?case using snoc by (auto simp: index_hint_def split_beta Let_def nth_list_update)
qed

lemma filter_enumerate: "map snd (filter (\<lambda>e. P (snd e)) (enumerate k xs)) = filter P xs"
  by (induction xs arbitrary: k) auto

lemma find_hint_state: "find_hint (filter (\<lambda>h. hintState h = state) hints) state la = find_hint hints state la"
  by (induction hints) auto

lemma foldl_max_state:
  "(\<forall>h \<in> set hints. hintState h \<le> foldl (\<lambda>m h. if hintState h > m then hintState h else m) m hints) \<and>
   m \<le> foldl (\<lambda>m h. if hintState h > m then hintState h else m) m hints"
proof (induction hints arbitrary: m)
  case (Cons h hints)
  show ?case using Cons.IH [of "if hintState h > m then hintState h else m"] by (auto split: if_splits)
qed simp

text \<open>
  The index of the reduce-chain hints by start state loses no hint: looking up a state
  and a lookahead through the index gives the first hint of the list for both, for every list of
  hints.
\<close>

lemma hint_index_exact:
  "reduceChainHintFor hints (buildReduceChainHintIndex hints) state lookahead = find_hint hints state lookahead"
proof (cases "hints = []")
  case True
  then show ?thesis by (simp add: reduceChainHintFor_def buildReduceChainHintIndex_def)
next
  case False
  define top where "top = unat (foldl (\<lambda>m hint. if hintState hint > m then hintState hint else m) 0 hints) + 1"
  have le: "\<forall>h \<in> set hints. unat (hintState h) < top"
    using foldl_max_state [of hints 0] by (auto simp: top_def word_le_nat_alt less_Suc_eq_le)
  have index: "buildReduceChainHintIndex hints = fold index_hint (enumerate 0 hints) (replicate top (-1))"
    using False by (simp add: buildReduceChainHintIndex_def top_def)
  have states: "\<forall>e \<in> set (enumerate 0 hints). unat (hintState (snd e)) < top"
    using le by (auto simp: in_set_enumerate_eq)
  have len: "length (buildReduceChainHintIndex hints) = top"
    using index_hint_slot [OF states, of 0] by (simp add: index top_def)
  let ?es = "filter (\<lambda>e. unat (hintState (snd e)) = unat state) (enumerate 0 hints)"
  have es: "map snd ?es = filter (\<lambda>h. hintState h = state) hints"
    using filter_enumerate [of "\<lambda>h. unat (hintState h) = unat state"] by (simp add: word_unat_eq_iff)
  have found: "find_hint hints state lookahead = find_hint (map snd ?es) state lookahead"
    by (simp only: es find_hint_state)
  show ?thesis
  proof (cases "unat state < top")
    case True
    have slot: "buildReduceChainHintIndex hints ! unat state = slot_value ?es"
      using index_hint_slot [OF states True] by (simp add: index)
    have "hints ! i = h \<and> i < length hints \<and> hintState h = state" if "?es = [(i, h)]" for i h
    proof -
      have "(i, h) \<in> set ?es" using that by simp
      then show ?thesis by (auto simp: in_set_enumerate_eq word_unat_eq_iff)
    qed
    then show ?thesis
      using True found unfolding reduceChainHintFor_def Let_def slot len
      by (cases ?es rule: remdups_adj.cases) (auto simp: slot_value_def)
  next
    case outside: False
    then have "filter (\<lambda>h. hintState h = state) hints = []" using le by (auto simp: filter_empty_conv)
    then have "find_hint hints state lookahead = None" using find_hint_state [of state hints lookahead] by simp
    then show ?thesis using outside len by (simp add: reduceChainHintFor_def)
  qed
qed

end
