(* ===== verification/External_Lexer.thy ===== *)
theory External_Lexer
  imports Lexer
begin

text \<open>
  The lexer that external scanners drive (\<open>external_lexer.go\<close>): look ahead, advance, skip,
  mark the end, set the result, and the token that comes out. \<open>lexer_ok\<close> says that the
  cursor, the start and the mark lie in the source, not before the position the scan began
  at, with the row and column of their bytes. The lemmas show that every call keeps it, that
  the two bulk advances do what repeated \<open>Advance\<close> calls do, and where tokens lie.
\<close>

record external_lexer =
  xSource :: bytes
  startPos :: nat
  xPos :: nat
  endPos :: nat
  startPoint :: point
  xPoint :: point
  endPoint :: point
  endMarked :: bool
  advancedContent :: bool
  resultSymbol :: u16
  hasResult :: bool

text \<open>\<open>reset\<close> assigns every field, so the lexer before the call does not matter.\<close>

definition reset_lexer :: "external_lexer \<Rightarrow> bytes \<Rightarrow> nat \<Rightarrow> u32 \<Rightarrow> u32 \<Rightarrow> external_lexer" where
  "reset_lexer l src pos row col =
     (let pt = \<lparr>Row = row, Column = col\<rparr> in
      l\<lparr>xSource := src, startPos := pos, xPos := pos, endPos := pos, startPoint := pt, xPoint := pt,
        endPoint := pt, endMarked := False, advancedContent := False, resultSymbol := 0,
        hasResult := False\<rparr>)"

definition zero_lexer :: external_lexer where
  "zero_lexer =
     \<lparr>xSource = [], startPos = 0, xPos = 0, endPos = 0, startPoint = zero_point, xPoint = zero_point,
      endPoint = zero_point, endMarked = False, advancedContent = False, resultSymbol = 0,
      hasResult = False\<rparr>"

definition newExternalLexer :: "bytes \<Rightarrow> nat \<Rightarrow> u32 \<Rightarrow> u32 \<Rightarrow> external_lexer" where
  "newExternalLexer src pos row col = reset_lexer zero_lexer src pos row col"

definition Lookahead :: "external_lexer \<Rightarrow> rune" where
  "Lookahead l = (if xPos l \<ge> length (xSource l) then 0 else fst (rune_at (drop (xPos l) (xSource l))))"

text \<open>\<open>utf8.RuneStart\<close> and \<open>utf8.DecodeLastRune\<close>.\<close>

definition rune_start :: "u8 \<Rightarrow> bool" where
  "rune_start b \<longleftrightarrow> \<not> (0x80 \<le> uint b \<and> uint b < 0xC0)"

function rune_back :: "bytes \<Rightarrow> int \<Rightarrow> int \<Rightarrow> int" where
  "rune_back bs lim i =
     (if i < lim then i else if rune_start (bs ! nat i) then i else rune_back bs lim (i - 1))"
  by pat_completeness auto
termination
  by (relation "measure (\<lambda>(bs, lim, i). nat (i - lim + 1))") auto

definition decode_last_rune :: "bytes \<Rightarrow> rune \<times> nat" where
  "decode_last_rune bs =
     (if bs = [] then (RuneError, 0)
      else if uint (last bs) < 0x80 then (uint (last bs), 1)
      else
        (let n = int (length bs);
             start = nat (max 0 (rune_back bs (max 0 (n - 4)) (n - 2)));
             (r, width) = decode_rune (drop start bs)
         in if start + width \<noteq> length bs then (RuneError, 1) else (r, width)))"

definition Previous :: "external_lexer \<Rightarrow> rune" where
  "Previous l =
     (if xPos l = 0 \<or> xPos l > length (xSource l) then 0
      else fst (decode_last_rune (take (xPos l) (xSource l))))"

definition moved :: "bool \<Rightarrow> external_lexer \<Rightarrow> external_lexer" where
  "moved skip l =
     (if skip then l\<lparr>startPos := xPos l, startPoint := xPoint l\<rparr> else l\<lparr>advancedContent := True\<rparr>)"

definition Advance :: "bool \<Rightarrow> external_lexer \<Rightarrow> external_lexer" where
  "Advance skip l =
     (if xPos l \<ge> length (xSource l) then l
      else
        (let (r, width) = rune_at (drop (xPos l) (xSource l))
         in moved skip (l\<lparr>xPos := xPos l + width, xPoint := advance_point (xPoint l) r width\<rparr>)))"

text \<open>The bytes that the bulk advances run over: the longest stretch that satisfies a test.\<close>

definition byte_run :: "(u8 \<Rightarrow> bool) \<Rightarrow> external_lexer \<Rightarrow> nat" where
  "byte_run P l = length (takeWhile P (drop (xPos l) (xSource l)))"

definition bulk_advance :: "(u8 \<Rightarrow> bool) \<Rightarrow> bool \<Rightarrow> external_lexer \<Rightarrow> external_lexer \<times> nat" where
  "bulk_advance P skip l =
     (let n = byte_run P l in
      if n = 0 then (l, 0)
      else (moved skip (l\<lparr>xPos := xPos l + n,
              xPoint := \<lparr>Row = Row (xPoint l), Column = Column (xPoint l) + u32_of n\<rparr>\<rparr>), n))"

definition AdvanceSpaces :: "bool \<Rightarrow> external_lexer \<Rightarrow> external_lexer \<times> nat" where
  "AdvanceSpaces skip l = bulk_advance (\<lambda>b. b = 32) skip l"

definition AdvanceUntilNewline :: "bool \<Rightarrow> external_lexer \<Rightarrow> external_lexer \<times> nat" where
  "AdvanceUntilNewline skip l = bulk_advance (\<lambda>b. b \<noteq> 10) skip l"

definition MarkEnd :: "external_lexer \<Rightarrow> external_lexer" where
  "MarkEnd l = l\<lparr>endPos := xPos l, endPoint := xPoint l, endMarked := True\<rparr>"

definition SetResultSymbol :: "u16 \<Rightarrow> external_lexer \<Rightarrow> external_lexer" where
  "SetResultSymbol s l = l\<lparr>resultSymbol := s, hasResult := True\<rparr>"

definition GetColumn :: "external_lexer \<Rightarrow> u32" where
  "GetColumn l = Column (xPoint l)"

text \<open>\<open>HasPreviousBytes\<close>; \<open>None\<close> is the index panic of a cursor behind the source.\<close>

fun previous_loop :: "bytes \<Rightarrow> nat \<Rightarrow> bytes \<Rightarrow> bool option" where
  "previous_loop src i [] = Some True"
| "previous_loop src i (b # bs) =
     (if i \<ge> length src then None else if src ! i \<noteq> b then Some False else previous_loop src (i + 1) bs)"

definition HasPreviousBytes :: "external_lexer \<Rightarrow> bytes \<Rightarrow> bool option" where
  "HasPreviousBytes l text =
     (if text = [] then Some True else if xPos l < length text then Some False
      else previous_loop (xSource l) (xPos l - length text) text)"

definition lexer_token :: "external_lexer \<Rightarrow> token option" where
  "lexer_token l =
     (if \<not> hasResult l then None
      else
        (let (e, ept) = (if endMarked l then (endPos l, endPoint l) else (xPos l, xPoint l))
         in Some (if e < startPos l
              then zero_token\<lparr>Symbol := resultSymbol l, tStartByte := u32_of e, tEndByte := u32_of e,
                     tStartPoint := ept, tEndPoint := ept\<rparr>
              else zero_token\<lparr>Symbol := resultSymbol l, Text := go_slice (xSource l) (startPos l) e,
                     tStartByte := u32_of (startPos l), tEndByte := u32_of e,
                     tStartPoint := startPoint l, tEndPoint := ept\<rparr>)))"

subsection \<open>The invariant and the calls that keep it\<close>

definition spot_ok :: "external_lexer \<Rightarrow> nat \<Rightarrow> nat \<Rightarrow> point \<Rightarrow> bool" where
  "spot_ok l p i pt \<longleftrightarrow> p \<le> i \<and> i \<le> xPos l \<and> pt = point_at (xSource l) i"

definition lexer_ok :: "bytes \<Rightarrow> nat \<Rightarrow> external_lexer \<Rightarrow> bool" where
  "lexer_ok src p l \<longleftrightarrow>
     xSource l = src \<and> xPos l \<le> length src \<and> spot_ok l p (xPos l) (xPoint l) \<and>
     spot_ok l p (startPos l) (startPoint l) \<and> spot_ok l p (endPos l) (endPoint l)"

lemma reset_lexer_ok:
  assumes "p \<le> length src" and "\<lparr>Row = row, Column = col\<rparr> = point_at src p"
  shows "lexer_ok src p (reset_lexer l src p row col)"
  using assms by (simp add: lexer_ok_def spot_ok_def reset_lexer_def Let_def)

lemma moved_ok:
  assumes "lexer_ok src p l" and "xPos l \<le> i" and "i \<le> length src" and "pt = point_at src i"
  shows "lexer_ok src p (moved skip (l\<lparr>xPos := i, xPoint := pt\<rparr>))"
  using assms by (auto simp: lexer_ok_def spot_ok_def moved_def)

lemma Advance_ok: "lexer_ok src p l \<Longrightarrow> lexer_ok src p (Advance skip l)"
proof (cases "xPos l < length (xSource l)")
  case True
  assume ok: "lexer_ok src p l"
  then have src: "xSource l = src" "xPoint l = point_at (xSource l) (xPos l)"
    by (simp_all add: lexer_ok_def spot_ok_def)
  obtain r width where rw: "rune_at (drop (xPos l) (xSource l)) = (r, width)" by force
  note step = advance_point_at [OF True rw]
  have "Advance skip l =
      moved skip (l\<lparr>xPos := xPos l + width, xPoint := point_at src (xPos l + width)\<rparr>)"
    using True step(1) rw [unfolded src(1)] by (simp add: Advance_def src)
  then show ?thesis using moved_ok [OF ok] step(2) src(1) by simp
qed (simp add: Advance_def)

lemma MarkEnd_ok: "lexer_ok src p l \<Longrightarrow> lexer_ok src p (MarkEnd l)"
  by (simp add: lexer_ok_def spot_ok_def MarkEnd_def)

lemma SetResultSymbol_ok: "lexer_ok src p l \<Longrightarrow> lexer_ok src p (SetResultSymbol s l)"
  by (simp add: lexer_ok_def spot_ok_def SetResultSymbol_def)

lemma bulk_advance_ok:
  assumes ok: "lexer_ok src p l" and "\<not> P 10"
  shows "lexer_ok src p (fst (bulk_advance P skip l))"
proof -
  define n where "n = byte_run P l"
  let ?run = "takeWhile P (drop (xPos l) src)"
  have src: "xSource l = src" "xPoint l = point_at src (xPos l)" "xPos l \<le> length src"
    using ok by (simp_all add: lexer_ok_def spot_ok_def)
  have n: "n = length ?run" by (simp add: n_def byte_run_def src)
  then have le: "xPos l + n \<le> length src" using length_takeWhile_le [of P "drop (xPos l) src"] src(3) by simp
  have "10 \<notin> set ?run" using assms(2) by (auto dest: set_takeWhileD)
  moreover have "go_slice src (xPos l) (xPos l + n) = ?run"
    by (simp add: go_slice_def n takeWhile_eq_take [symmetric])
  ultimately have "\<lparr>Row = Row (xPoint l), Column = Column (xPoint l) + u32_of n\<rparr> = point_at src (xPos l + n)"
    using point_at_slice [of "xPos l" "xPos l + n" src] by (simp add: src no_newline_point n)
  then show ?thesis
    using moved_ok [OF ok _ le] ok by (simp add: bulk_advance_def Let_def n_def [symmetric])
qed

subsection \<open>The bulk advances\<close>

text \<open>The loop the bulk advances replace: advance as long as the next rune passes a test.\<close>

lemma Advance_progress:
  assumes "xPos l < length (xSource l)"
  shows "xPos l < xPos (Advance skip l)" and "xSource (Advance skip l) = xSource l"
  using rune_at_size [of "drop (xPos l) (xSource l)"] assms
  by (auto simp: Advance_def moved_def split: prod.split)

function advance_while :: "(rune \<Rightarrow> bool) \<Rightarrow> bool \<Rightarrow> external_lexer \<Rightarrow> external_lexer" where
  "advance_while Q skip l =
     (if xPos l < length (xSource l) \<and> Q (Lookahead l) then advance_while Q skip (Advance skip l) else l)"
  by pat_completeness auto
termination
  using Advance_progress
  by (relation "measure (\<lambda>(Q, skip, l). length (xSource l) - xPos l)") (auto simp: diff_less_mono2)

declare advance_while.simps [simp del]

lemma takeWhile_take_drop:
  assumes "\<forall>b \<in> set (take k bs). P b"
  shows "takeWhile P bs = take k bs @ takeWhile P (drop k bs)"
proof -
  have "takeWhile P (take k bs @ drop k bs) = take k bs @ takeWhile P (drop k bs)"
    using assms by (intro takeWhile_append2) auto
  then show ?thesis by simp
qed

lemma bulk_advance_while:
  assumes test: "\<And>bs. bs \<noteq> [] \<Longrightarrow> Q (fst (rune_at bs)) \<longleftrightarrow> P (hd bs)"
    and whole: "\<And>bs. bs \<noteq> [] \<Longrightarrow> P (hd bs) \<Longrightarrow> \<forall>b \<in> set (take (snd (rune_at bs)) bs). P b"
    and line: "\<not> P 10"
  shows "bulk_advance P skip l = (advance_while Q skip l, byte_run P l)"
proof (induction "length (xSource l) - xPos l" arbitrary: l rule: less_induct)
  case less
  let ?bs = "drop (xPos l) (xSource l)"
  show ?case
  proof (cases "xPos l < length (xSource l) \<and> Q (Lookahead l)")
    case False
    then have "byte_run P l = 0"
      using test [of ?bs] by (cases ?bs) (auto simp: byte_run_def Lookahead_def)
    then show ?thesis using False by (auto simp: bulk_advance_def advance_while.simps [of Q skip l])
  next
    case True
    then have ne: "?bs \<noteq> []" by simp
    obtain r w where rw: "rune_at ?bs = (r, w)" by force
    have hd: "P (hd ?bs)" using True test [OF ne] by (auto simp: Lookahead_def)
    have w: "1 \<le> w" "w \<le> length ?bs" using rune_at_size [OF ne] rw by auto
    have r: "r \<noteq> 10" using rune_at_newline [OF ne] rw hd line by auto
    define l' where "l' = Advance skip l"
    have l': "l' = moved skip (l\<lparr>xPos := xPos l + w,
        xPoint := \<lparr>Row = Row (xPoint l), Column = Column (xPoint l) + u32_of w\<rparr>\<rparr>)"
      using True r by (simp add: l'_def Advance_def rw advance_point_def)
    have "takeWhile P ?bs = take w ?bs @ takeWhile P (drop w ?bs)"
      using takeWhile_take_drop [of w ?bs P] whole [OF ne hd] rw by simp
    then have run: "byte_run P l = w + byte_run P l'"
      using w by (simp add: byte_run_def l' moved_def add.commute)
    have IH: "bulk_advance P skip l' = (advance_while Q skip l', byte_run P l')"
      using less Advance_progress [of l skip] True by (simp add: l'_def diff_less_mono2)
    have "fst (bulk_advance P skip l) = fst (bulk_advance P skip l')"
      using w run by (auto simp: bulk_advance_def Let_def l' moved_def u32_of_add add.assoc)
    moreover have "snd (bulk_advance P skip l) = byte_run P l" by (simp add: bulk_advance_def Let_def)
    ultimately show ?thesis
      using IH True by (simp add: prod_eq_iff advance_while.simps [of Q skip l] l'_def)
  qed
qed

lemma take_rune_no_newline:
  assumes "bs \<noteq> []" and "hd bs \<noteq> 10"
  shows "\<forall>b \<in> set (take (snd (rune_at bs)) bs). b \<noteq> 10"
proof
  fix b assume "b \<in> set (take (snd (rune_at bs)) bs)"
  then obtain k where k: "k < snd (rune_at bs)" "b = bs ! k" by (auto simp: in_set_conv_nth)
  show "b \<noteq> 10" using assms k rune_at_tail [of k bs] by (cases k) (auto simp: hd_conv_nth)
qed

lemma rune_at_space:
  assumes "bs \<noteq> []"
  shows "fst (rune_at bs) = 32 \<longleftrightarrow> hd bs = 32"
proof (cases "uint (hd bs) < 0x80")
  case True
  then show ?thesis by (simp add: rune_at_ascii word_uint_eq_iff)
next
  case False
  then have "0x80 \<le> fst (rune_at bs)"
    using decode_rune_high [of "hd bs" "tl bs"] assms by (simp add: rune_at_def)
  then show ?thesis using False by auto
qed

subsection \<open>Sequences of calls\<close>

text \<open>The calls of a scanner that change the lexer.\<close>

datatype lexer_call =
  Call_Advance bool
| Call_AdvanceSpaces bool
| Call_AdvanceUntilNewline bool
| Call_MarkEnd
| Call_SetResultSymbol u16

fun run_call :: "lexer_call \<Rightarrow> external_lexer \<Rightarrow> external_lexer" where
  "run_call (Call_Advance skip) l = Advance skip l"
| "run_call (Call_AdvanceSpaces skip) l = fst (AdvanceSpaces skip l)"
| "run_call (Call_AdvanceUntilNewline skip) l = fst (AdvanceUntilNewline skip l)"
| "run_call Call_MarkEnd l = MarkEnd l"
| "run_call (Call_SetResultSymbol s) l = SetResultSymbol s l"

lemma run_call_ok: "lexer_ok src p l \<Longrightarrow> lexer_ok src p (run_call c l)"
  by (cases c)
     (simp_all add: Advance_ok MarkEnd_ok SetResultSymbol_ok bulk_advance_ok AdvanceSpaces_def AdvanceUntilNewline_def)

lemma run_calls_ok: "lexer_ok src p l \<Longrightarrow> lexer_ok src p (fold run_call cs l)"
  by (induction cs arbitrary: l) (simp_all add: run_call_ok)

text \<open>What a token says about the source: its span, its positions, its text.\<close>

definition token_in :: "bytes \<Rightarrow> nat \<Rightarrow> token \<Rightarrow> bool" where
  "token_in src p tok \<longleftrightarrow>
     p \<le> unat (tStartByte tok) \<and> tStartByte tok \<le> tEndByte tok \<and> unat (tEndByte tok) \<le> length src \<and>
     tStartPoint tok = point_at src (unat (tStartByte tok)) \<and>
     tEndPoint tok = point_at src (unat (tEndByte tok)) \<and>
     Text tok = go_slice src (unat (tStartByte tok)) (unat (tEndByte tok))"

lemma lexer_token_in:
  assumes ok: "lexer_ok src p l" and tok: "lexer_token l = Some tok" and len: "length src < 2 ^ 32"
  shows "token_in src p tok" and "Symbol tok = resultSymbol l"
proof -
  define e ept where "e = (if endMarked l then endPos l else xPos l)"
    and "ept = (if endMarked l then endPoint l else xPoint l)"
  have e: "p \<le> e" "e \<le> length src" "ept = point_at src e"
    and s: "p \<le> startPos l" "startPos l \<le> length src" "startPoint l = point_at src (startPos l)"
    and src: "xSource l = src"
    using ok by (auto simp: lexer_ok_def spot_ok_def e_def ept_def)
  have pair: "(if endMarked l then (endPos l, endPoint l) else (xPos l, xPoint l)) = (e, ept)"
    by (simp add: e_def ept_def)
  have u: "unat (u32_of e) = e" "unat (u32_of (startPos l)) = startPos l"
    using e(2) s(2) len by (simp_all add: unat_u32_of)
  have t: "tok = (if e < startPos l
      then zero_token\<lparr>Symbol := resultSymbol l, tStartByte := u32_of e, tEndByte := u32_of e,
             tStartPoint := ept, tEndPoint := ept\<rparr>
      else zero_token\<lparr>Symbol := resultSymbol l, Text := go_slice src (startPos l) e,
             tStartByte := u32_of (startPos l), tEndByte := u32_of e,
             tStartPoint := startPoint l, tEndPoint := ept\<rparr>)"
    using tok by (simp add: lexer_token_def pair src split: if_splits)
  show "Symbol tok = resultSymbol l" by (simp add: t)
  show "token_in src p tok"
    using e s by (simp add: t token_in_def u zero_token_def word_le_nat_alt)
qed

lemma previous_loop_spec:
  "i + length prev \<le> length src \<Longrightarrow> previous_loop src i prev = Some (go_slice src i (i + length prev) = prev)"
proof (induction prev arbitrary: i)
  case (Cons b bs)
  then have "go_slice src i (i + length (b # bs)) = src ! i # go_slice src (Suc i) (Suc i + length bs)"
    by (simp add: go_slice_def Cons_nth_drop_Suc [symmetric])
  then show ?case using Cons by simp
qed simp

lemma HasPreviousBytes_spec:
  assumes "xPos l \<le> length (xSource l)"
  shows "HasPreviousBytes l prev =
    Some (length prev \<le> xPos l \<and> go_slice (xSource l) (xPos l - length prev) (xPos l) = prev)"
  using assms previous_loop_spec [of "xPos l - length prev" prev "xSource l"]
  by (auto simp: HasPreviousBytes_def)

subsection \<open>Properties\<close>

text \<open>
  \<^bold>\<open>C38.\<close> The token of an external scan lies in the source. Whatever calls a scanner makes on
  a lexer that starts at byte \<open>p\<close>, in whatever order, the token it ends with starts at or
  after \<open>p\<close>, does not end before it starts, ends inside the source, carries the rows and
  columns of its two bytes and the bytes between them, and has the symbol set last. The guard
  on the bytes before the cursor never runs out of bounds and compares exactly those bytes.
\<close>

theorem external_token_positions:
  assumes "p \<le> length src" and "length src < 2 ^ 32"
    and "l = fold run_call cs (newExternalLexer src p (Row (point_at src p)) (Column (point_at src p)))"
  shows "(case lexer_token l of None \<Rightarrow> \<not> hasResult l
      | Some tok \<Rightarrow> token_in src p tok \<and> Symbol tok = resultSymbol l) \<and>
    HasPreviousBytes l prev = Some (length prev \<le> xPos l \<and> go_slice src (xPos l - length prev) (xPos l) = prev)"
proof -
  have ok: "lexer_ok src p l"
    using assms by (simp add: run_calls_ok newExternalLexer_def reset_lexer_ok)
  then have "xSource l = src" "xPos l \<le> length src" by (simp_all add: lexer_ok_def)
  moreover have "lexer_token l = None \<Longrightarrow> \<not> hasResult l" by (auto simp: lexer_token_def split: if_splits prod.splits)
  ultimately show ?thesis
    using lexer_token_in [OF ok _ assms(2)] HasPreviousBytes_spec [of l prev] by (auto split: option.split)
qed

text \<open>Leading spaces skipped, then a word marked: \<open>"  ab c"\<close> from byte 0.\<close>

definition sample_calls :: "lexer_call list" where
  "sample_calls = [Call_AdvanceSpaces True, Call_Advance False, Call_Advance False, Call_MarkEnd,
     Call_Advance False, Call_SetResultSymbol 9]"

theorem external_token_positions_witness:
  "let src = [32, 32, 97, 98, 32, 99]; l = fold run_call sample_calls (newExternalLexer src 0 0 0) in
   map_option Text (lexer_token l) = Some [97, 98] \<and>
   (case lexer_token l of None \<Rightarrow> False | Some tok \<Rightarrow> token_in src 0 tok) \<and>
   HasPreviousBytes l [98, 32] = Some True"
proof -
  let ?src = "[32, 32, 97, 98, 32, 99] :: bytes"
  let ?l = "fold run_call sample_calls (newExternalLexer ?src 0 0 0)"
  have t: "map_option Text (lexer_token ?l) = Some [97, 98]" by code_simp
  have h: "HasPreviousBytes ?l [98, 32] = Some True" by code_simp
  have "case lexer_token ?l of None \<Rightarrow> \<not> hasResult ?l
      | Some tok \<Rightarrow> token_in ?src 0 tok \<and> Symbol tok = resultSymbol ?l"
    using external_token_positions [of 0 ?src ?l sample_calls "[98, 32]"] by simp
  then show ?thesis using t h by (auto simp: Let_def split: option.splits)
qed

text \<open>
  The bulk advances are the loops they replace: \<open>AdvanceSpaces\<close> leaves the lexer as
  repeated \<open>Advance\<close> calls while the next rune is a space, and \<open>AdvanceUntilNewline\<close> as
  repeated \<open>Advance\<close> calls until a newline or the end of the source, over invalid and
  multi-byte prev too; both return the number of bytes the cursor moved.
\<close>

lemma bulk_advance_equiv:
  "AdvanceSpaces skip l = (let l' = advance_while (\<lambda>r. r = 32) skip l in (l', xPos l' - xPos l)) \<and>
   AdvanceUntilNewline skip l = (let l' = advance_while (\<lambda>r. r \<noteq> 10) skip l in (l', xPos l' - xPos l))"
proof -
  have pos: "xPos (fst (bulk_advance P skip l)) - xPos l = byte_run P l" for P
    by (simp add: bulk_advance_def Let_def moved_def)
  have one: "\<forall>b \<in> set (take (snd (rune_at bs)) bs). b = 32" if "bs \<noteq> []" "hd bs = 32" for bs
    using that rune_at_ascii [of bs] by (cases bs) auto
  have "bulk_advance (\<lambda>b. b = 32) skip l = (advance_while (\<lambda>r. r = 32) skip l, byte_run (\<lambda>b. b = 32) l)"
    by (rule bulk_advance_while [OF rune_at_space one]) simp_all
  moreover have "bulk_advance (\<lambda>b. b \<noteq> 10) skip l = (advance_while (\<lambda>r. r \<noteq> 10) skip l, byte_run (\<lambda>b. b \<noteq> 10) l)"
    by (rule bulk_advance_while [OF _ take_rune_no_newline]) (simp_all only: rune_at_newline not_not refl simp_thms)
  ultimately show ?thesis
    using pos [of "\<lambda>b. b = 32"] pos [of "\<lambda>b. b \<noteq> 10"]
    by (simp add: AdvanceSpaces_def AdvanceUntilNewline_def Let_def)
qed

end
