(* ===== verification/External_VM.thy ===== *)
theory External_VM
  imports External_Lexer
begin

text \<open>
  The bytecode machine for external scanners (\<open>external_vm.go\<close>) and the scanner interface
  (\<open>language.go\<close>, \<open>external.go\<close>). A \<open>vm_scanner\<close> holds a program that
  \<open>validateExternalVMProgram\<close> accepted, as the unexported field of the code does. The locale
  \<open>external_scanner\<close> states what the runtime relies on when it drives any scanner; the
  machine is shown to be one. An index panic of the interpreter is the outcome \<open>None\<close>. The
  letter and digit tables of package \<open>unicode\<close> are arguments.
\<close>

subsection \<open>Programs\<close>

datatype vm_op =
  ExternalVMOpFail
| ExternalVMOpJump
| ExternalVMOpRequireValid
| ExternalVMOpRequireStateEq
| ExternalVMOpSetState
| ExternalVMOpIfRuneEq
| ExternalVMOpIfRuneInRange
| ExternalVMOpIfRuneClass
| ExternalVMOpAdvance
| ExternalVMOpMarkEnd
| ExternalVMOpEmit
| ExternalVMOpOther u8

record vm_instr =
  Op :: vm_op
  opA :: int
  opB :: int
  opAlt :: int

record vm_program =
  Code :: "vm_instr list"
  MaxSteps :: int

datatype vm_error =
  Empty_Program
| Negative_Max_Steps
| Invalid_Target nat string int nat
| Invalid_Valid_Symbol nat int
| Invalid_State_Value nat int
| Invalid_Rune_Range nat int int
| Invalid_Rune_Class nat int
| Unknown_Opcode nat u8

definition validateExternalVMTarget :: "nat \<Rightarrow> int \<Rightarrow> nat \<Rightarrow> string \<Rightarrow> vm_error option" where
  "validateExternalVMTarget i target codeLen operand =
     (if target < 0 \<or> target \<ge> int codeLen then Some (Invalid_Target i operand target codeLen) else None)"

fun validate_op :: "vm_op \<Rightarrow> nat \<Rightarrow> vm_instr \<Rightarrow> nat \<Rightarrow> vm_error option" where
  "validate_op ExternalVMOpJump i ins n = validateExternalVMTarget i (opA ins) n ''A''"
| "validate_op ExternalVMOpRequireValid i ins n =
     (if opA ins < 0 then Some (Invalid_Valid_Symbol i (opA ins))
      else validateExternalVMTarget i (opAlt ins) n ''Alt'')"
| "validate_op ExternalVMOpRequireStateEq i ins n =
     (if opA ins < 0 then Some (Invalid_State_Value i (opA ins))
      else validateExternalVMTarget i (opAlt ins) n ''Alt'')"
| "validate_op ExternalVMOpSetState i ins n =
     (if opA ins < 0 then Some (Invalid_State_Value i (opA ins)) else None)"
| "validate_op ExternalVMOpIfRuneEq i ins n = validateExternalVMTarget i (opAlt ins) n ''Alt''"
| "validate_op ExternalVMOpIfRuneInRange i ins n =
     (if opB ins < opA ins then Some (Invalid_Rune_Range i (opA ins) (opB ins))
      else validateExternalVMTarget i (opAlt ins) n ''Alt'')"
| "validate_op ExternalVMOpIfRuneClass i ins n =
     (if opA ins < 0 \<or> opA ins > 4 then Some (Invalid_Rune_Class i (opA ins))
      else validateExternalVMTarget i (opAlt ins) n ''Alt'')"
| "validate_op (ExternalVMOpOther op) i ins n = Some (Unknown_Opcode i op)"
| "validate_op _ i ins n = None"

fun validate_code :: "nat \<Rightarrow> vm_instr list \<Rightarrow> nat \<Rightarrow> vm_error option" where
  "validate_code i [] n = None"
| "validate_code i (ins # code) n =
     (case validate_op (Op ins) i ins n of Some e \<Rightarrow> Some e | None \<Rightarrow> validate_code (i + 1) code n)"

definition validateExternalVMProgram :: "vm_program \<Rightarrow> vm_error option" where
  "validateExternalVMProgram prog =
     (if Code prog = [] then Some Empty_Program
      else if MaxSteps prog < 0 then Some Negative_Max_Steps
      else validate_code 0 (Code prog) (length (Code prog)))"

text \<open>The constructors of instructions; operands wrap to 32 bits.\<close>

definition vm_ins :: "vm_op \<Rightarrow> int \<Rightarrow> int \<Rightarrow> int \<Rightarrow> vm_instr" where
  "vm_ins op a b alt = \<lparr>Op = op, opA = go_int32 a, opB = go_int32 b, opAlt = go_int32 alt\<rparr>"

definition VMFail :: vm_instr where "VMFail = vm_ins ExternalVMOpFail 0 0 0"
definition VMJump :: "int \<Rightarrow> vm_instr" where "VMJump target = vm_ins ExternalVMOpJump target 0 0"
definition VMRequireValid :: "int \<Rightarrow> int \<Rightarrow> vm_instr" where
  "VMRequireValid i alt = vm_ins ExternalVMOpRequireValid i 0 alt"
definition VMRequireStateEq :: "u32 \<Rightarrow> int \<Rightarrow> vm_instr" where
  "VMRequireStateEq st alt = vm_ins ExternalVMOpRequireStateEq (uint st) 0 alt"
definition VMSetState :: "u32 \<Rightarrow> vm_instr" where
  "VMSetState st = vm_ins ExternalVMOpSetState (uint st) 0 0"
definition VMIfRuneEq :: "rune \<Rightarrow> int \<Rightarrow> vm_instr" where
  "VMIfRuneEq r alt = vm_ins ExternalVMOpIfRuneEq r 0 alt"
definition VMIfRuneInRange :: "rune \<Rightarrow> rune \<Rightarrow> int \<Rightarrow> vm_instr" where
  "VMIfRuneInRange lo hi alt = vm_ins ExternalVMOpIfRuneInRange lo hi alt"
definition VMIfRuneClass :: "int \<Rightarrow> int \<Rightarrow> vm_instr" where
  "VMIfRuneClass c alt = vm_ins ExternalVMOpIfRuneClass c 0 alt"
definition VMAdvance :: "bool \<Rightarrow> vm_instr" where
  "VMAdvance skip = vm_ins ExternalVMOpAdvance (if skip then 1 else 0) 0 0"
definition VMMarkEnd :: vm_instr where "VMMarkEnd = vm_ins ExternalVMOpMarkEnd 0 0 0"
definition VMEmit :: "u16 \<Rightarrow> vm_instr" where
  "VMEmit s = vm_ins ExternalVMOpEmit (uint s) 0 0"

subsection \<open>The interpreter\<close>

record unicode_tables =
  IsDigit :: "rune \<Rightarrow> bool"
  IsLetter :: "rune \<Rightarrow> bool"

text \<open>\<open>unicode.IsSpace\<close>\<close>

definition is_space :: "rune \<Rightarrow> bool" where
  "is_space r \<longleftrightarrow> r \<in> {9, 10, 11, 12, 13, 0x20, 0x85, 0xA0, 0x1680, 0x2028, 0x2029, 0x202F, 0x205F, 0x3000} \<or>
     (0x2000 \<le> r \<and> r \<le> 0x200A)"

text \<open>The class is a \<open>uint8\<close>: an operand is reduced to 8 bits.\<close>

definition matchesExternalVMRuneClass :: "unicode_tables \<Rightarrow> rune \<Rightarrow> int \<Rightarrow> bool" where
  "matchesExternalVMRuneClass uni r a =
     (let c = a mod 256 in
      if c = 0 then is_space r
      else if c = 1 then IsDigit uni r
      else if c = 2 then IsLetter uni r
      else if c = 3 then r = 95 \<or> IsLetter uni r \<or> IsDigit uni r
      else if c = 4 then r = 10
      else False)"

record vm_config =
  pc :: int
  vmState :: u32
  vmLexer :: external_lexer

datatype vm_outcome = Vm_Step vm_config | Vm_Return bool vm_config | Vm_Panic

definition branch :: "vm_instr \<Rightarrow> vm_config \<Rightarrow> bool \<Rightarrow> vm_outcome" where
  "branch ins c b = Vm_Step (c\<lparr>pc := if b then pc c + 1 else opAlt ins\<rparr>)"

fun exec_op :: "vm_op \<Rightarrow> unicode_tables \<Rightarrow> bool list \<Rightarrow> vm_instr \<Rightarrow> vm_config \<Rightarrow> vm_outcome" where
  "exec_op ExternalVMOpFail uni valid ins c = Vm_Return False c"
| "exec_op ExternalVMOpJump uni valid ins c = Vm_Step (c\<lparr>pc := opA ins\<rparr>)"
| "exec_op ExternalVMOpRequireValid uni valid ins c =
     (if opA ins < 0 then Vm_Panic
      else branch ins c (opA ins < int (length valid) \<and> valid ! nat (opA ins)))"
| "exec_op ExternalVMOpRequireStateEq uni valid ins c = branch ins c (vmState c = word_of_int (opA ins))"
| "exec_op ExternalVMOpSetState uni valid ins c =
     Vm_Step (c\<lparr>vmState := word_of_int (opA ins), pc := pc c + 1\<rparr>)"
| "exec_op ExternalVMOpIfRuneEq uni valid ins c = branch ins c (Lookahead (vmLexer c) = opA ins)"
| "exec_op ExternalVMOpIfRuneInRange uni valid ins c =
     (let r = Lookahead (vmLexer c) in branch ins c (r \<ge> opA ins \<and> r \<le> opB ins))"
| "exec_op ExternalVMOpIfRuneClass uni valid ins c =
     branch ins c (matchesExternalVMRuneClass uni (Lookahead (vmLexer c)) (opA ins))"
| "exec_op ExternalVMOpAdvance uni valid ins c =
     Vm_Step (c\<lparr>vmLexer := Advance (opA ins \<noteq> 0) (vmLexer c), pc := pc c + 1\<rparr>)"
| "exec_op ExternalVMOpMarkEnd uni valid ins c =
     Vm_Step (c\<lparr>vmLexer := MarkEnd (vmLexer c), pc := pc c + 1\<rparr>)"
| "exec_op ExternalVMOpEmit uni valid ins c =
     Vm_Return True (c\<lparr>vmLexer := SetResultSymbol (word_of_int (opA ins)) (vmLexer c)\<rparr>)"
| "exec_op (ExternalVMOpOther op) uni valid ins c = Vm_Return False c"

definition vm_step :: "unicode_tables \<Rightarrow> vm_instr list \<Rightarrow> bool list \<Rightarrow> vm_config \<Rightarrow> vm_outcome" where
  "vm_step uni code valid c =
     (if pc c < 0 \<or> pc c \<ge> int (length code) then Vm_Return False c
      else exec_op (Op (code ! nat (pc c))) uni valid (code ! nat (pc c)) c)"

text \<open>The loop, bounded by the step limit as in the code; \<open>None\<close> is a panic.\<close>

fun vm_loop :: "nat \<Rightarrow> unicode_tables \<Rightarrow> vm_instr list \<Rightarrow> bool list \<Rightarrow> vm_config \<Rightarrow> (bool \<times> vm_config) option" where
  "vm_loop 0 uni code valid c = Some (False, c)"
| "vm_loop (Suc n) uni code valid c =
     (case vm_step uni code valid c of
        Vm_Step c' \<Rightarrow> vm_loop n uni code valid c'
      | Vm_Return b c' \<Rightarrow> Some (b, c')
      | Vm_Panic \<Rightarrow> None)"

definition defaultExternalVMMaxSteps :: "nat \<Rightarrow> nat" where
  "defaultExternalVMMaxSteps codeLen = (let steps = codeLen * 16 in if steps < 64 then 64 else steps)"

definition step_limit :: "vm_program \<Rightarrow> nat" where
  "step_limit prog =
     (if MaxSteps prog \<le> 0 then defaultExternalVMMaxSteps (length (Code prog)) else nat (MaxSteps prog))"

text \<open>A payload is \<open>None\<close> when it is not the machine's own.\<close>

definition vm_scan :: "unicode_tables \<Rightarrow> vm_program \<Rightarrow> u32 option \<Rightarrow> external_lexer \<Rightarrow> bool list \<Rightarrow>
    (u32 option \<times> external_lexer \<times> bool) option" where
  "vm_scan uni prog payload l valid =
     (if Code prog = [] then Some (payload, l, False)
      else
        (case vm_loop (step_limit prog) uni (Code prog) valid
                \<lparr>pc = 0, vmState = (case payload of None \<Rightarrow> 0 | Some st \<Rightarrow> st), vmLexer = l\<rparr> of
           None \<Rightarrow> None
         | Some (b, c) \<Rightarrow> Some (map_option (\<lambda>_. vmState c) payload, vmLexer c, b)))"

definition vm_create :: "u32 option" where
  "vm_create = Some 0"

text \<open>\<open>binary.LittleEndian\<close>\<close>

definition put_u32 :: "u32 \<Rightarrow> bytes" where
  "put_u32 w = map (\<lambda>k. ucast (drop_bit (8 * k) w)) [0, 1, 2, 3]"

definition get_u32 :: "bytes \<Rightarrow> u32" where
  "get_u32 bs = foldr (\<lambda>b w. ucast b + 256 * w) (take 4 bs) 0"

definition vm_serialize :: "u32 option \<Rightarrow> bytes \<Rightarrow> bytes \<times> nat" where
  "vm_serialize payload buf =
     (if length buf < 4 then (buf, 0)
      else (put_u32 (case payload of None \<Rightarrow> 0 | Some st \<Rightarrow> st) @ drop 4 buf, 4))"

definition vm_deserialize :: "u32 option \<Rightarrow> bytes \<Rightarrow> u32 option" where
  "vm_deserialize payload buf =
     (case payload of None \<Rightarrow> None | Some _ \<Rightarrow> Some (if length buf < 4 then 0 else get_u32 buf))"

subsection \<open>The scanner interface\<close>

text \<open>
  What the runtime relies on. \<open>view\<close> is the scanner state inside a payload. A scan ends
  without a panic, keeps the lexer inside the source, sets a result when it succeeds, and is
  a function of the scanner state; what \<open>serialize\<close> writes into a buffer of the runtime's
  size is read back by \<open>deserialize\<close>, whatever state the payload is in by then.
\<close>

definition externalScannerSerializationBufferSize :: nat where
  "externalScannerSerializationBufferSize = 4096"

locale external_scanner =
  fixes good :: "'p \<Rightarrow> bool" and view :: "'p \<Rightarrow> 's" and create :: 'p
    and serialize :: "'p \<Rightarrow> bytes \<Rightarrow> bytes \<times> nat" and deserialize :: "'p \<Rightarrow> bytes \<Rightarrow> 'p"
    and scan :: "'p \<Rightarrow> external_lexer \<Rightarrow> bool list \<Rightarrow> ('p \<times> external_lexer \<times> bool) option"
  assumes create_good: "good create"
    and scan_safe: "good pl \<Longrightarrow> lexer_ok src p l \<Longrightarrow>
      \<exists>pl' l' b. scan pl l valid = Some (pl', l', b) \<and> good pl' \<and> lexer_ok src p l' \<and> (b \<longrightarrow> hasResult l')"
    and scan_view: "good pl \<Longrightarrow> good pl' \<Longrightarrow> view pl = view pl' \<Longrightarrow>
      map_option (\<lambda>(q, l, b). (view q, l, b)) (scan pl l valid) =
      map_option (\<lambda>(q, l, b). (view q, l, b)) (scan pl' l valid)"
    and restore_good: "good pl \<Longrightarrow> good (deserialize pl bs)"
    and restore_view: "good pl \<Longrightarrow> good pl' \<Longrightarrow> externalScannerSerializationBufferSize \<le> length buf \<Longrightarrow>
      serialize pl buf = (buf', n) \<Longrightarrow> n \<le> length buf' \<and> view (deserialize pl' (take n buf')) = view pl"

subsection \<open>The machine is a scanner\<close>

lemma validate_code_nth:
  "validate_code i code n = None \<Longrightarrow> k < length code \<Longrightarrow>
   validate_op (Op (code ! k)) (i + k) (code ! k) n = None"
proof (induction code arbitrary: i k)
  case (Cons ins code)
  then show ?case using Cons.IH [of "Suc i" "k - 1"] by (cases k) (auto split: option.splits)
qed simp

lemma validate_target_ok:
  "validateExternalVMTarget i target n operand = None \<longleftrightarrow> 0 \<le> target \<and> target < int n"
  by (auto simp: validateExternalVMTarget_def)

definition code_ok :: "vm_instr list \<Rightarrow> bool" where
  "code_ok code \<longleftrightarrow> (\<forall>k < length code. validate_op (Op (code ! k)) k (code ! k) (length code) = None)"

lemma validated_code_ok: "validateExternalVMProgram prog = None \<Longrightarrow> code_ok (Code prog)"
  using validate_code_nth [of 0 "Code prog" "length (Code prog)"]
  by (auto simp: validateExternalVMProgram_def code_ok_def split: if_splits)

lemma exec_op_safe:
  assumes "validate_op op i ins n = None" and "0 \<le> pc c" and "pc c < int n"
  shows "case exec_op op uni valid ins c of
      Vm_Step c' \<Rightarrow> 0 \<le> pc c' \<and> pc c' \<le> int n | Vm_Return _ _ \<Rightarrow> True | Vm_Panic \<Rightarrow> False"
  using assms
  by (cases op) (auto simp: branch_def validate_target_ok Let_def split: if_splits)

lemma vm_step_safe:
  assumes "code_ok code" and "0 \<le> pc c"
  shows "case vm_step uni code valid c of
      Vm_Step c' \<Rightarrow> 0 \<le> pc c' \<and> pc c' \<le> int (length code) | Vm_Return _ _ \<Rightarrow> True | Vm_Panic \<Rightarrow> False"
proof (cases "pc c < int (length code)")
  case True
  then have k: "nat (pc c) < length code" using assms(2) by linarith
  then have "validate_op (Op (code ! nat (pc c))) (nat (pc c)) (code ! nat (pc c)) (length code) = None"
    using assms(1) by (simp add: code_ok_def)
  then show ?thesis using exec_op_safe True assms(2) by (simp add: vm_step_def)
qed (simp add: vm_step_def)

lemma exec_op_lexer:
  assumes "lexer_ok src p (vmLexer c)"
  shows "case exec_op op uni valid ins c of
      Vm_Step c' \<Rightarrow> lexer_ok src p (vmLexer c')
    | Vm_Return b c' \<Rightarrow> lexer_ok src p (vmLexer c') \<and> (b \<longrightarrow> hasResult (vmLexer c'))
    | Vm_Panic \<Rightarrow> True"
  using assms
  by (cases op) (simp_all add: branch_def Let_def Advance_ok MarkEnd_ok SetResultSymbol_ok, simp add: SetResultSymbol_def)

lemma vm_loop_safe:
  assumes "code_ok code" and "0 \<le> pc c" and "lexer_ok src p (vmLexer c)"
  shows "\<exists>b c'. vm_loop n uni code valid c = Some (b, c') \<and> lexer_ok src p (vmLexer c') \<and>
    (b \<longrightarrow> hasResult (vmLexer c'))"
  using assms(2,3)
proof (induction n arbitrary: c)
  case (Suc n)
  have lex: "case vm_step uni code valid c of
      Vm_Step c' \<Rightarrow> lexer_ok src p (vmLexer c')
    | Vm_Return b c' \<Rightarrow> lexer_ok src p (vmLexer c') \<and> (b \<longrightarrow> hasResult (vmLexer c'))
    | Vm_Panic \<Rightarrow> True"
    using exec_op_lexer [OF Suc.prems(2)] Suc.prems(2) by (simp add: vm_step_def)
  show ?case
    using vm_step_safe [OF assms(1) Suc.prems(1), of uni valid] lex Suc.IH
    by (cases "vm_step uni code valid c") auto
qed auto

lemma get_put_u32: "get_u32 (put_u32 w @ rest) = w"
proof -
  define x where "x = uint w"
  have x: "0 \<le> x" "x < 2 ^ 32" using uint_lt2p [of w] by (simp_all add: x_def)
  have m: "uint w mod 4294967296 = uint w" using x by (simp add: x_def)
  have b: "(ucast (ucast (drop_bit k w) :: u8) :: u32) = word_of_int (x div 2 ^ k mod 256)" for k
    by (simp add: x_def m word_uint_eq_iff unsigned_ucast_eq uint_word_of_int unsigned_drop_bit_eq unsigned_take_bit_eq
          take_bit_eq_mod [where 'a = int] drop_bit_eq_div [where 'a = int])
  have "x mod 256 + 256 * (x div 2 ^ 8 mod 256 + 256 * (x div 2 ^ 16 mod 256 + 256 * (x div 2 ^ 24 mod 256))) = x"
  proof -
    define q1 q2 q3 where "q1 = x div 2 ^ 8" and "q2 = q1 div 2 ^ 8" and "q3 = q2 div 2 ^ 8"
    have d: "x div 2 ^ 8 = q1" "x div 2 ^ 16 = q2" "x div 2 ^ 24 = q3"
      by (simp_all add: q1_def q2_def q3_def div_mult2_eq [symmetric] zdiv_zmult2_eq [symmetric])
    have top: "q3 mod 256 = q3"
      using x by (simp add: q1_def q2_def q3_def zdiv_zmult2_eq [symmetric] pos_imp_zdiv_nonneg_iff)
    have "x mod 256 + 256 * q1 = x" "q1 mod 256 + 256 * q2 = q1" "q2 mod 256 + 256 * q3 = q2"
      by (simp_all add: q1_def q2_def q3_def)
    then show ?thesis unfolding d top by (simp only:)
  qed
  moreover have "get_u32 (put_u32 w @ rest) =
      word_of_int (x mod 256 + 256 * (x div 2 ^ 8 mod 256 + 256 * (x div 2 ^ 16 mod 256 + 256 * (x div 2 ^ 24 mod 256))))"
    using b [of 0] b [of 8] b [of 16] b [of 24] by (simp add: get_u32_def put_u32_def)
  ultimately have "get_u32 (put_u32 w @ rest) = word_of_int x" by (simp only:)
  then show ?thesis by (simp add: x_def)
qed

text \<open>\<open>ExternalVMScanner\<close>: its program is only ever set by \<open>NewExternalVMScanner\<close>.\<close>

typedef vm_scanner = "{prog. validateExternalVMProgram prog = None}"
  morphisms program Scanner
proof
  show "\<lparr>Code = [VMFail], MaxSteps = 0\<rparr> \<in> {prog. validateExternalVMProgram prog = None}"
    by (simp add: validateExternalVMProgram_def VMFail_def vm_ins_def)
qed

definition NewExternalVMScanner :: "vm_program \<Rightarrow> vm_error + vm_scanner" where
  "NewExternalVMScanner prog =
     (case validateExternalVMProgram prog of Some e \<Rightarrow> Inl e | None \<Rightarrow> Inr (Scanner prog))"

definition Scan :: "unicode_tables \<Rightarrow> vm_scanner \<Rightarrow> u32 option \<Rightarrow> external_lexer \<Rightarrow> bool list \<Rightarrow>
    (u32 option \<times> external_lexer \<times> bool) option" where
  "Scan uni s payload l valid = vm_scan uni (program s) payload l valid"

lemma program_Scanner: "validateExternalVMProgram prog = None \<Longrightarrow> program (Scanner prog) = prog"
  by (simp add: Scanner_inverse)

lemma scanner_code_ok: "code_ok (Code (program s))"
  using program [of s] validated_code_ok by simp

lemma vm_scan_safe:
  assumes "code_ok (Code prog)" and "lexer_ok src p l"
  shows "\<exists>pl' l' b. vm_scan uni prog pl l valid = Some (pl', l', b) \<and> (pl' = None \<longleftrightarrow> pl = None) \<and>
    lexer_ok src p l' \<and> (b \<longrightarrow> hasResult l')"
proof (cases "Code prog = []")
  case False
  let ?c = "\<lparr>pc = 0, vmState = (case pl of None \<Rightarrow> 0 | Some st \<Rightarrow> st), vmLexer = l\<rparr>"
  obtain b c' where "vm_loop (step_limit prog) uni (Code prog) valid ?c = Some (b, c')"
    "lexer_ok src p (vmLexer c')" "b \<longrightarrow> hasResult (vmLexer c')"
    using vm_loop_safe [OF assms(1), of ?c src p "step_limit prog" uni valid] assms(2) by auto
  then show ?thesis using False by (simp add: vm_scan_def)
qed (use assms in \<open>auto simp: vm_scan_def\<close>)

lemma vm_restore:
  assumes "4 \<le> length buf" and "vm_serialize (Some st) buf = (buf', n)"
  shows "n \<le> length buf'" and "vm_deserialize (Some st') (take n buf') = Some st"
  using assms get_put_u32 [of st "[]"] by (auto simp: vm_serialize_def vm_deserialize_def put_u32_def)

interpretation vm: external_scanner "\<lambda>pl. pl \<noteq> None" id vm_create vm_serialize vm_deserialize "Scan uni s"
  for uni s
proof
  fix pl :: "u32 option" and src p l valid
  assume "pl \<noteq> None" "lexer_ok src p l"
  then show "\<exists>pl' l' b. Scan uni s pl l valid = Some (pl', l', b) \<and> pl' \<noteq> None \<and> lexer_ok src p l' \<and>
      (b \<longrightarrow> hasResult l')"
    using vm_scan_safe [OF scanner_code_ok, of src p l uni s pl valid] by (auto simp: Scan_def)
next
  fix pl pl' :: "u32 option" and buf buf' n
  assume "pl \<noteq> None" "pl' \<noteq> None" "externalScannerSerializationBufferSize \<le> length buf"
    "vm_serialize pl buf = (buf', n)"
  then show "n \<le> length buf' \<and> id (vm_deserialize pl' (take n buf')) = id pl"
    using vm_restore [of buf] by (auto simp: externalScannerSerializationBufferSize_def)
qed (auto simp: vm_create_def vm_deserialize_def)

subsection \<open>Runs of the machine\<close>

inductive vm_reach :: "unicode_tables \<Rightarrow> vm_instr list \<Rightarrow> bool list \<Rightarrow> vm_config \<Rightarrow> vm_config \<Rightarrow> bool"
  for uni code valid c where
  start: "vm_reach uni code valid c c"
| step: "vm_reach uni code valid c c' \<Longrightarrow> vm_step uni code valid c' = Vm_Step c'' \<Longrightarrow> vm_reach uni code valid c c''"

lemma vm_reach_safe:
  assumes "vm_reach uni code valid c c'" and "code_ok code" and "pc c = 0"
  shows "0 \<le> pc c' \<and> pc c' \<le> int (length code)"
  using assms
proof (induction rule: vm_reach.induct)
  case (step c' c'')
  then show ?case using vm_step_safe [of code c' uni valid] by simp
qed simp

lemma code_ok_known: "code_ok code \<Longrightarrow> k < length code \<Longrightarrow> Op (code ! k) \<noteq> ExternalVMOpOther op"
  by (auto simp: code_ok_def)

text \<open>Programs whose jumps all go forward, as scanner programs without a loop do.\<close>

fun targets :: "vm_op \<Rightarrow> vm_instr \<Rightarrow> int list" where
  "targets ExternalVMOpJump ins = [opA ins]"
| "targets op ins =
     (if op \<in> {ExternalVMOpRequireValid, ExternalVMOpRequireStateEq, ExternalVMOpIfRuneEq,
               ExternalVMOpIfRuneInRange, ExternalVMOpIfRuneClass} then [opAlt ins] else [])"

definition forward :: "vm_instr list \<Rightarrow> bool" where
  "forward code \<longleftrightarrow>
     (\<forall>(i, ins) \<in> set (enumerate 0 code). \<forall>target \<in> set (targets (Op ins) ins). int i < target)"

lemma forwardD: "forward code \<Longrightarrow> i < length code \<Longrightarrow> target \<in> set (targets (Op (code ! i)) (code ! i)) \<Longrightarrow> int i < target"
  by (fastforce simp: forward_def in_set_enumerate_eq)

lemma exec_op_forward:
  assumes "\<forall>target \<in> set (targets op ins). pc c < target" and "exec_op op uni valid ins c = Vm_Step c'"
  shows "pc c < pc c'"
  using assms by (cases op) (auto simp: branch_def Let_def split: if_splits)

lemma vm_step_forward:
  assumes "forward code" and "vm_step uni code valid c = Vm_Step c'"
  shows "pc c < pc c'" and "pc c < int (length code)"
proof -
  show "pc c < int (length code)" using assms(2) by (simp add: vm_step_def split: if_splits)
  then have k: "0 \<le> pc c" "nat (pc c) < length code" using assms(2) by (simp_all add: vm_step_def split: if_splits)
  then show "pc c < pc c'"
    using assms forwardD [OF assms(1) k(2)]
    by (intro exec_op_forward [of "Op (code ! nat (pc c))" "code ! nat (pc c)"]) (auto simp: vm_step_def split: if_splits)
qed

lemma vm_loop_enough:
  assumes "forward code" and "int (length code) - pc c \<le> int n" and "n \<le> m"
  shows "vm_loop m uni code valid c = vm_loop n uni code valid c"
  using assms(2,3)
proof (induction n arbitrary: m c)
  case 0
  then have "vm_step uni code valid c = Vm_Return False c" by (simp add: vm_step_def)
  then show ?case by (cases m) simp_all
next
  case (Suc n)
  then obtain m' where m: "m = Suc m'" "n \<le> m'" by (cases m) auto
  show ?case
  proof (cases "vm_step uni code valid c")
    case (Vm_Step c')
    then have "int (length code) - pc c' \<le> int n" using vm_step_forward [OF assms(1) Vm_Step] Suc.prems(1) by linarith
    then show ?thesis using Suc.IH [of c' m'] m Vm_Step by simp
  qed (simp_all add: m)
qed

subsection \<open>Properties\<close>

text \<open>
  \<^bold>\<open>C36.\<close> Programs that pass validation are safe to run. In every configuration reached from
  the first instruction the program counter is inside the program or just behind its last
  instruction, the instruction under it has a known opcode, and its execution does not panic;
  the scan as a whole returns.
\<close>

theorem vm_validated_safe:
  assumes "validateExternalVMProgram prog = None" and "pc c = 0" and "vm_reach uni (Code prog) valid c c'"
    and "lexer_ok src p l"
  shows "0 \<le> pc c' \<and> pc c' \<le> int (length (Code prog)) \<and>
    (\<forall>op. pc c' < int (length (Code prog)) \<longrightarrow> Op (Code prog ! nat (pc c')) \<noteq> ExternalVMOpOther op) \<and>
    vm_step uni (Code prog) valid c' \<noteq> Vm_Panic \<and> vm_scan uni prog pl l valid \<noteq> None"
proof -
  note ok = validated_code_ok [OF assms(1)]
  have pc: "0 \<le> pc c'" "pc c' \<le> int (length (Code prog))" using vm_reach_safe [OF assms(3) ok assms(2)] by auto
  moreover have "vm_step uni (Code prog) valid c' \<noteq> Vm_Panic"
    using vm_step_safe [OF ok pc(1), of uni valid] by auto
  moreover have "vm_scan uni prog pl l valid \<noteq> None"
    using vm_scan_safe [OF ok assms(4), of uni pl valid] by auto
  ultimately show ?thesis using code_ok_known [OF ok] by (simp add: nat_less_iff)
qed

text \<open>Skip blanks in a loop, then a letter \<open>a\<close> is symbol 5 and moves to scanner state 3.\<close>

definition sample_program :: vm_program where
  "sample_program =
     \<lparr>Code = [VMRequireValid 0 7, VMIfRuneClass 0 4, VMAdvance True, VMJump 1, VMIfRuneEq 97 7,
              VMAdvance False, VMJump 8, VMFail, VMMarkEnd, VMSetState 3, VMEmit 5], MaxSteps = 0\<rparr>"

definition no_tables :: unicode_tables where
  "no_tables = \<lparr>IsDigit = \<lambda>_. False, IsLetter = \<lambda>_. False\<rparr>"

lemma sample_program_valid: "validateExternalVMProgram sample_program = None"
  by code_simp

theorem vm_validated_safe_witness:
  "let src = [32, 97]; l = newExternalLexer src 0 0 0; c = \<lparr>pc = 0, vmState = 0, vmLexer = l\<rparr> in
   vm_step no_tables (Code sample_program) [True] c \<noteq> Vm_Panic \<and>
   vm_scan no_tables sample_program (Some 0) l [True] \<noteq> None"
proof -
  let ?src = "[32, 97] :: bytes"
  let ?l = "newExternalLexer ?src 0 0 0"
  have "lexer_ok ?src 0 ?l" by (simp add: newExternalLexer_def reset_lexer_ok)
  then show ?thesis
    using vm_validated_safe [OF sample_program_valid _ vm_reach.start, of "\<lparr>pc = 0, vmState = 0, vmLexer = ?l\<rparr>"]
    by (simp add: Let_def)
qed

text \<open>
  The step limit never cuts off a program without backward jumps. For such a program
  the default limit, and every limit of at least the length of the program, give the same
  scan: result, scanner state and lexer. A failed scan is then a failure of the program.
\<close>

lemma vm_forward_limit:
  assumes "forward (Code prog)" and "MaxSteps prog = 0 \<or> int (length (Code prog)) \<le> MaxSteps prog"
    and "int (length (Code prog)) \<le> k"
  shows "vm_scan uni (prog\<lparr>MaxSteps := k\<rparr>) pl l valid = vm_scan uni prog pl l valid"
proof -
  let ?n = "length (Code prog)"
  let ?c = "\<lparr>pc = 0, vmState = (case pl of None \<Rightarrow> 0 | Some st \<Rightarrow> st), vmLexer = l\<rparr>"
  have "?n \<le> step_limit prog" "?n \<le> step_limit (prog\<lparr>MaxSteps := k\<rparr>)"
    using assms(2,3) by (auto simp: step_limit_def defaultExternalVMMaxSteps_def Let_def)
  then have "vm_loop (step_limit prog) uni (Code prog) valid ?c = vm_loop ?n uni (Code prog) valid ?c"
    "vm_loop (step_limit (prog\<lparr>MaxSteps := k\<rparr>)) uni (Code prog) valid ?c = vm_loop ?n uni (Code prog) valid ?c"
    by (auto intro!: vm_loop_enough [OF assms(1)])
  then show ?thesis by (simp add: vm_scan_def)
qed

definition forward_program :: vm_program where
  "forward_program = \<lparr>Code = [VMIfRuneEq 97 3, VMAdvance False, VMEmit 5, VMFail], MaxSteps = 0\<rparr>"

end
