(* ===== verification/Scanner_Adapter.thy ===== *)
theory Scanner_Adapter
  imports External_VM Parse_Tables
begin

text \<open>
  Two users of the scanner interface: the token source's retry loop
  (\<open>parser_dfa_token_source.go\<close>), which snapshots the scanner state, scans, and on a rejected
  result scans again without it; and the order adapter (\<open>external_scanner_adapter.go\<close>), which
  runs one language's scanner for another by translating indices and symbols, and is a
  scanner itself. Reused scratch buffers are ordinary values here.
\<close>

subsection \<open>Driving a scanner\<close>

record 'p scanner =
  sCreate :: 'p
  sSerialize :: "'p \<Rightarrow> bytes \<Rightarrow> bytes \<times> nat"
  sDeserialize :: "'p \<Rightarrow> bytes \<Rightarrow> 'p"
  sScan :: "'p \<Rightarrow> external_lexer \<Rightarrow> bool list \<Rightarrow> ('p \<times> external_lexer \<times> bool) option"
  preservesState :: bool
  retainsState :: bool

definition RunExternalScanner ::
  "'p scanner option \<Rightarrow> 'p \<Rightarrow> external_lexer \<Rightarrow> bool list \<Rightarrow> ('p \<times> external_lexer \<times> bool) option" where
  "RunExternalScanner sc pl l valid = (case sc of None \<Rightarrow> Some (pl, l, False) | Some s \<Rightarrow> sScan s pl l valid)"

definition captureExternalScannerState :: "'p scanner \<Rightarrow> bytes \<Rightarrow> 'p \<Rightarrow> bytes" where
  "captureExternalScannerState sc dst pl =
     (let buf = (if length dst < externalScannerSerializationBufferSize
                 then replicate externalScannerSerializationBufferSize 0
                 else take externalScannerSerializationBufferSize dst);
          (buf', n) = sSerialize sc pl buf
      in if n = 0 then [] else take n buf')"

definition restoreExternalScannerState :: "'p scanner \<Rightarrow> bytes \<Rightarrow> 'p \<Rightarrow> 'p" where
  "restoreExternalScannerState sc snapshot pl = sDeserialize sc pl snapshot"

fun externalSymbolIndex_from :: "nat \<Rightarrow> u16 list \<Rightarrow> u16 \<Rightarrow> int" where
  "externalSymbolIndex_from i [] s = -1"
| "externalSymbolIndex_from i (ext # exts) s = (if ext = s then int i else externalSymbolIndex_from (i + 1) exts s)"

definition externalSymbolIndex :: "language \<Rightarrow> u16 \<Rightarrow> int" where
  "externalSymbolIndex lang s = externalSymbolIndex_from 0 (ExternalSymbols lang) s"

definition restore_failed :: "'p scanner \<Rightarrow> bytes \<Rightarrow> 'p \<Rightarrow> 'p" where
  "restore_failed sc snapshot pl =
     (if \<not> preservesState sc \<and> \<not> retainsState sc then restoreExternalScannerState sc snapshot pl else pl)"

lemma count_update_False:
  "i < length xs \<Longrightarrow> xs ! i \<Longrightarrow> count_list (xs[i := False]) True < count_list xs True"
proof (induction xs arbitrary: i)
  case (Cons x xs)
  then show ?case by (cases i) auto
qed simp

text \<open>One round per rejected symbol; \<open>None\<close> is a panic of the scanner. \<open>fresh\<close> is the lexer
  reset to the token start.\<close>

function retry_loop ::
  "'p scanner \<Rightarrow> language \<Rightarrow> bytes \<Rightarrow> external_lexer \<Rightarrow> 'p \<Rightarrow> external_lexer \<Rightarrow> bool list \<Rightarrow>
   ('p \<times> external_lexer \<times> bool) option" where
  "retry_loop sc lang snapshot fresh pl el masked =
     (let idx = externalSymbolIndex lang (resultSymbol el) in
      if idx < 0 \<or> idx \<ge> int (length masked) \<or> \<not> masked ! nat idx
      then Some (restore_failed sc snapshot pl, el, False)
      else
        (let masked' = masked[nat idx := False] in
         if \<not> (\<exists>b \<in> set masked'. b) then Some (restore_failed sc snapshot pl, el, False)
         else
           (case sScan sc (restoreExternalScannerState sc snapshot pl) fresh masked' of
              None \<Rightarrow> None
            | Some (pl', l', ok) \<Rightarrow>
                if ok then Some (pl', l', True)
                else if \<not> hasResult l' then Some (restore_failed sc snapshot pl', el, False)
                else retry_loop sc lang snapshot fresh pl' l' masked')))"
  by pat_completeness auto
termination
  by (relation "measure (\<lambda>(sc, lang, snapshot, fresh, pl, el, masked). count_list masked True)")
     (auto intro!: count_update_False simp: not_le nat_less_iff)

declare retry_loop.simps [simp del]

text \<open>Retention wins when a scanner claims both capabilities.\<close>

definition runExternalScannerWithRetry ::
  "'p scanner \<Rightarrow> language \<Rightarrow> bytes \<Rightarrow> external_lexer \<Rightarrow> 'p \<Rightarrow> external_lexer \<Rightarrow> bool list \<Rightarrow>
   ('p \<times> external_lexer \<times> bool) option" where
  "runExternalScannerWithRetry sc lang dst fresh pl el valid =
     (case sScan sc pl el valid of
        None \<Rightarrow> None
      | Some (pl', el', ok) \<Rightarrow>
          (let preserve = \<not> retainsState sc \<and> preservesState sc;
               snapshot = captureExternalScannerState sc dst (if preserve then pl' else pl)
           in if ok then Some (pl', el', True)
              else if \<not> hasResult el' then Some (restore_failed sc snapshot pl', el', False)
              else retry_loop sc lang snapshot fresh pl' el' valid))"

text \<open>
  The protocol the loop is meant to follow, as a specification: after a rejected result (a scan
  that fails with a result set) the symbol is taken out of the mask, unless it is no valid symbol
  of the mask or no other symbol is left; every mask is tried on the same scanner state and at
  the same place.
\<close>

definition next_mask :: "language \<Rightarrow> external_lexer \<Rightarrow> bool list \<Rightarrow> bool list option" where
  "next_mask lang l ms =
     (let idx = externalSymbolIndex lang (resultSymbol l) in
      if 0 \<le> idx \<and> idx < int (length ms) \<and> ms ! nat idx \<and> True \<in> set (ms[nat idx := False])
      then Some (ms[nat idx := False]) else None)"

inductive attempted :: "'p scanner \<Rightarrow> language \<Rightarrow> 'p \<Rightarrow> external_lexer \<Rightarrow> bool list \<Rightarrow> bool list \<Rightarrow> bool"
  for sc lang pl fresh valid where
  attempted_first: "attempted sc lang pl fresh valid valid"
| attempted_again: "attempted sc lang pl fresh valid ms \<Longrightarrow> sScan sc pl fresh ms = Some (q, l, False) \<Longrightarrow>
    hasResult l \<Longrightarrow> next_mask lang l ms = Some ms' \<Longrightarrow> attempted sc lang pl fresh valid ms'"

text \<open>The last scan of the protocol: it succeeded, or nothing is left to try.\<close>

definition concludes :: "'p scanner \<Rightarrow> language \<Rightarrow> 'p \<Rightarrow> external_lexer \<Rightarrow> bool list \<Rightarrow> 'p \<Rightarrow> external_lexer \<Rightarrow> bool \<Rightarrow> bool" where
  "concludes sc lang pl fresh valid q l ok \<longleftrightarrow>
     (\<exists>ms. attempted sc lang pl fresh valid ms \<and> sScan sc pl fresh ms = Some (q, l, ok) \<and>
        (ok \<or> \<not> hasResult l \<or> next_mask lang l ms = None))"

lemma next_mask_smaller: "next_mask lang l ms = Some ms' \<Longrightarrow> count_list ms' True < count_list ms True"
  by (auto simp: next_mask_def Let_def nat_less_iff intro!: count_update_False split: if_splits)

lemma retry_loop_next:
  "retry_loop sc lang snapshot fresh pl el masked =
     (case next_mask lang el masked of
        None \<Rightarrow> Some (restore_failed sc snapshot pl, el, False)
      | Some masked' \<Rightarrow>
          (case sScan sc (restoreExternalScannerState sc snapshot pl) fresh masked' of
             None \<Rightarrow> None
           | Some (pl', l', ok) \<Rightarrow>
               if ok then Some (pl', l', True)
               else if \<not> hasResult l' then Some (restore_failed sc snapshot pl', el, False)
               else retry_loop sc lang snapshot fresh pl' l' masked'))"
proof -
  have any: "(\<exists>b \<in> set m. b) \<longleftrightarrow> True \<in> set m" for m by auto
  show ?thesis
    by (subst retry_loop.simps) (auto simp: next_mask_def Let_def any split: option.splits)
qed

text \<open>What the loop promises for any scanner that keeps the contract.\<close>

locale scanner_client =
  external_scanner good view "sCreate sc" "sSerialize sc" "sDeserialize sc" "sScan sc"
  for good :: "'p \<Rightarrow> bool" and view :: "'p \<Rightarrow> 's" and sc :: "'p scanner"
begin

definition keeps_on_failure :: bool where
  "keeps_on_failure \<longleftrightarrow> (\<forall>pl l valid pl' l'. good pl \<longrightarrow> sScan sc pl l valid = Some (pl', l', False) \<longrightarrow> view pl' = view pl)"

definition outcome_ok :: "bytes \<Rightarrow> nat \<Rightarrow> 's \<Rightarrow> ('p \<times> external_lexer \<times> bool) option \<Rightarrow> bool" where
  "outcome_ok src p st r \<longleftrightarrow>
     (\<exists>pl l ok. r = Some (pl, l, ok) \<and> good pl \<and> lexer_ok src p l \<and> (ok \<longrightarrow> hasResult l) \<and>
        (\<not> ok \<longrightarrow> \<not> retainsState sc \<longrightarrow> (preservesState sc \<longrightarrow> keeps_on_failure) \<longrightarrow> view pl = st))"

lemma capture_restore:
  assumes "good pl" and "good pl'"
  shows "view (restoreExternalScannerState sc (captureExternalScannerState sc dst pl) pl') = view pl"
proof -
  define buf where "buf = (if length dst < externalScannerSerializationBufferSize
    then replicate externalScannerSerializationBufferSize 0 else take externalScannerSerializationBufferSize dst)"
  obtain buf' n where s: "sSerialize sc pl buf = (buf', n)" by force
  have "externalScannerSerializationBufferSize \<le> length buf" by (simp add: buf_def)
  then have "view (sDeserialize sc pl' (take n buf')) = view pl" using restore_view [OF assms _ s] by simp
  moreover have "captureExternalScannerState sc dst pl = take n buf'"
    using s by (simp add: captureExternalScannerState_def Let_def buf_def [symmetric])
  ultimately show ?thesis by (simp add: restoreExternalScannerState_def)
qed

lemma retry_loop_ok:
  assumes "good pl0" and "snapshot = captureExternalScannerState sc dst pl0" and "lexer_ok src p fresh"
  shows "good pl \<Longrightarrow> lexer_ok src p el \<Longrightarrow>
    (preservesState sc \<longrightarrow> keeps_on_failure \<longrightarrow> \<not> retainsState sc \<longrightarrow> view pl = view pl0) \<Longrightarrow>
    outcome_ok src p (view pl0) (retry_loop sc lang snapshot fresh pl el masked)"
proof (induction "count_list masked True" arbitrary: masked pl el rule: less_induct)
  case less
  have restored: "view (restoreExternalScannerState sc snapshot q) = view pl0" "good (restoreExternalScannerState sc snapshot q)"
    if "good q" for q
    using that capture_restore [OF assms(1)] restore_good assms(2) by (auto simp: restoreExternalScannerState_def)
  have failed: "outcome_ok src p (view pl0) (Some (restore_failed sc snapshot q, l, False))"
    if "good q" "lexer_ok src p l"
      "preservesState sc \<longrightarrow> keeps_on_failure \<longrightarrow> \<not> retainsState sc \<longrightarrow> view q = view pl0" for q l
    using that restored [of q] by (auto simp: outcome_ok_def restore_failed_def)
  let ?i = "externalSymbolIndex lang (resultSymbol el)"
  let ?m = "masked[nat ?i := False]"
  show ?case
  proof (cases "?i < 0 \<or> ?i \<ge> int (length masked) \<or> \<not> masked ! nat ?i \<or> \<not> (\<exists>b \<in> set ?m. b)")
    case True
    then show ?thesis
      using failed [OF less.prems] by (subst retry_loop.simps) (auto simp: Let_def)
  next
    case False
    then have smaller: "count_list ?m True < count_list masked True"
      by (intro count_update_False) (auto simp: nat_less_iff)
    obtain pl' l' ok where scan: "sScan sc (restoreExternalScannerState sc snapshot pl) fresh ?m = Some (pl', l', ok)"
      "good pl'" "lexer_ok src p l'" "ok \<longrightarrow> hasResult l'"
      using scan_safe [OF restored(2) [OF less.prems(1)] assms(3)] by blast
    have kept: "preservesState sc \<longrightarrow> keeps_on_failure \<longrightarrow> \<not> retainsState sc \<longrightarrow> view pl' = view pl0" if "\<not> ok"
      using that scan(1) restored [OF less.prems(1)] unfolding keeps_on_failure_def by metis
    have "retry_loop sc lang snapshot fresh pl el masked =
        (if ok then Some (pl', l', True)
         else if \<not> hasResult l' then Some (restore_failed sc snapshot pl', el, False)
         else retry_loop sc lang snapshot fresh pl' l' ?m)"
      using False scan(1) by (subst retry_loop.simps) (auto simp: Let_def)
    moreover have "outcome_ok src p (view pl0) (Some (pl', l', True))" if ok
      using that scan by (auto simp: outcome_ok_def)
    ultimately show ?thesis
      using less.hyps [OF smaller scan(2,3)] kept failed [OF scan(2) less.prems(2)] by auto
  qed
qed

lemma retry_loop_concludes:
  assumes start: "good start" "good pl0" "view pl0 = view start" and snap: "snapshot = captureExternalScannerState sc dst pl0"
    and fresh: "lexer_ok src p fresh"
  shows "good pl \<Longrightarrow> attempted sc lang start fresh valid masked \<Longrightarrow> sScan sc start fresh masked = Some (r, el, False) \<Longrightarrow>
    hasResult el \<Longrightarrow> retry_loop sc lang snapshot fresh pl el masked = Some (pl', l, ok) \<Longrightarrow>
    \<exists>q l'. concludes sc lang start fresh valid q l' ok \<and> (ok \<longrightarrow> l = l' \<and> view pl' = view q)"
proof (induction "count_list masked True" arbitrary: masked pl el r rule: less_induct)
  case less
  note loop = less.prems(5) [unfolded retry_loop_next [of sc lang snapshot fresh pl el masked]]
  show ?case
  proof (cases "next_mask lang el masked")
    case None
    then have "\<not> ok" using loop by simp
    then show ?thesis using None less.prems(2,3) by (auto simp: concludes_def)
  next
    case (Some m)
    let ?pl = "restoreExternalScannerState sc snapshot pl"
    have m: "attempted sc lang start fresh valid m" using attempted_again [OF less.prems(2-4) Some] .
    have pl: "good ?pl" "view ?pl = view start"
      using capture_restore [OF start(2) less.prems(1)] restore_good [OF less.prems(1)] start(3) snap
      by (simp_all add: restoreExternalScannerState_def)
    obtain q l2 b where scan: "sScan sc ?pl fresh m = Some (q, l2, b)" "good q"
      using scan_safe [OF pl(1) fresh] by blast
    obtain q' where same: "sScan sc start fresh m = Some (q', l2, b)" "view q' = view q"
      using scan_view [OF pl(1) start(1) pl(2), of fresh m] scan(1)
      by (cases "sScan sc start fresh m") auto
    show ?thesis
    proof (cases "b \<or> \<not> hasResult l2")
      case True
      then have "ok = b" "b \<longrightarrow> l = l2 \<and> pl' = q" using loop Some scan(1) by (auto split: if_splits)
      moreover have "concludes sc lang start fresh valid q' l2 b" using True same(1) m by (auto simp: concludes_def)
      ultimately show ?thesis using same(2) by (intro exI [of _ q'] exI [of _ l2]) auto
    next
      case False
      then have "retry_loop sc lang snapshot fresh q l2 m = Some (pl', l, ok)" "hasResult l2" "\<not> b"
        using loop Some scan(1) by auto
      then show ?thesis using less.hyps [OF next_mask_smaller [OF Some] scan(2) m] same(1) by auto
    qed
  qed
qed

lemma with_retry_concludes:
  assumes "good pl" and "lexer_ok src p fresh" and keeps: "preservesState sc \<longrightarrow> \<not> retainsState sc \<longrightarrow> keeps_on_failure"
    and run: "runExternalScannerWithRetry sc lang dst fresh pl fresh valid = Some (pl', l, ok)"
  shows "\<exists>q l'. concludes sc lang pl fresh valid q l' ok \<and> (ok \<longrightarrow> l = l' \<and> view pl' = view q)"
proof -
  obtain r el b where scan: "sScan sc pl fresh valid = Some (r, el, b)" "good r"
    using scan_safe [OF assms(1,2)] by blast
  have first: "attempted sc lang pl fresh valid valid" by (rule attempted_first)
  show ?thesis
  proof (cases "b \<or> \<not> hasResult el")
    case True
    then have "ok = b" "b \<longrightarrow> l = el \<and> pl' = r"
      using run scan(1) by (auto simp: runExternalScannerWithRetry_def Let_def split: if_splits)
    moreover have "concludes sc lang pl fresh valid r el b" using True scan(1) first by (auto simp: concludes_def)
    ultimately show ?thesis by (intro exI [of _ r] exI [of _ el]) auto
  next
    case False
    let ?q = "if \<not> retainsState sc \<and> preservesState sc then r else pl"
    have "view r = view pl" if keeps_on_failure
      using that scan(1) assms(1) False unfolding keeps_on_failure_def by (metis (full_types))
    then have "view ?q = view pl" using keeps by auto
    moreover have "retry_loop sc lang (captureExternalScannerState sc dst ?q) fresh r el valid = Some (pl', l, ok)"
      using run scan(1) False by (simp add: runExternalScannerWithRetry_def Let_def)
    moreover have "good ?q" "sScan sc pl fresh valid = Some (r, el, False)" "hasResult el"
      using scan assms(1) False by auto
    ultimately show ?thesis
      by (intro retry_loop_concludes [OF assms(1) _ _ refl assms(2) scan(2) first])
  qed
qed

lemma with_retry_ok:
  assumes "good pl" and "lexer_ok src p el" and "lexer_ok src p fresh"
  shows "outcome_ok src p (view pl) (runExternalScannerWithRetry sc lang dst fresh pl el valid)"
proof -
  obtain pl' el' ok where scan: "sScan sc pl el valid = Some (pl', el', ok)" "good pl'" "lexer_ok src p el'"
    "ok \<longrightarrow> hasResult el'"
    using scan_safe [OF assms(1,2)] by blast
  define q where "q = (if \<not> retainsState sc \<and> preservesState sc then pl' else pl)"
  define snapshot where "snapshot = captureExternalScannerState sc dst q"
  have q: "good q" using scan assms by (simp add: q_def)
  have kept: "keeps_on_failure \<Longrightarrow> \<not> ok \<Longrightarrow> view pl' = view pl"
    using scan(1) assms(1) unfolding keeps_on_failure_def by metis
  have undo: "view (restoreExternalScannerState sc snapshot pl') = view q"
    "good (restoreExternalScannerState sc snapshot pl')"
    using capture_restore [OF q scan(2)] restore_good [OF scan(2)] by (auto simp: snapshot_def restoreExternalScannerState_def)
  have "runExternalScannerWithRetry sc lang dst fresh pl el valid =
      (if ok then Some (pl', el', True)
       else if \<not> hasResult el' then Some (restore_failed sc snapshot pl', el', False)
       else retry_loop sc lang snapshot fresh pl' el' valid)"
    using scan(1) by (simp add: runExternalScannerWithRetry_def Let_def snapshot_def q_def)
  moreover have "outcome_ok src p (view pl) (retry_loop sc lang snapshot fresh pl' el' valid)" if "\<not> ok"
  proof -
    have "outcome_ok src p (view q) (retry_loop sc lang snapshot fresh pl' el' valid)"
      by (rule retry_loop_ok [OF q snapshot_def assms(3) scan(2,3)]) (simp add: q_def)
    then show ?thesis using kept that by (auto simp: outcome_ok_def q_def)
  qed
  ultimately show ?thesis
    using scan kept undo by (auto simp: outcome_ok_def restore_failed_def q_def)
qed

end

subsection \<open>Matching the external symbols of two languages\<close>

definition externalSymbolName :: "language \<Rightarrow> u16 \<Rightarrow> string" where
  "externalSymbolName lang s = (if unat s < length (SymbolNames lang) then SymbolNames lang ! unat s else [])"

fun duplicate_loop :: "string list \<Rightarrow> string set \<Rightarrow> bool" where
  "duplicate_loop [] seen = False"
| "duplicate_loop (name # names) seen = (if name \<in> seen then True else duplicate_loop names (insert name seen))"

definition hasDuplicateExternalNames :: "language \<Rightarrow> u16 list \<Rightarrow> bool" where
  "hasDuplicateExternalNames lang externals = duplicate_loop (map (externalSymbolName lang) externals) {}"

definition newExternalTargetMap :: "nat \<Rightarrow> int list" where
  "newExternalTargetMap n = replicate n (-1)"

definition externalScannerUsesIndexOnlyMapping :: "language \<Rightarrow> language \<Rightarrow> bool" where
  "externalScannerUsesIndexOnlyMapping src tgt \<longleftrightarrow>
     GeneratedByGrammargen tgt \<or>
     (length (ExternalSymbols src) = length (ExternalSymbols tgt) \<and>
      (hasDuplicateExternalNames src (ExternalSymbols src) \<or> hasDuplicateExternalNames tgt (ExternalSymbols tgt)))"

type_synonym index_map = "int list \<times> bool list"

definition mapExternalSymbolsByIndex :: "index_map \<Rightarrow> index_map" where
  "mapExternalSymbolsByIndex m =
     fold (\<lambda>i (targetToSource, used). (targetToSource[i := int i], used[i := True]))
       [0..<min (length (fst m)) (length (snd m))] m"

text \<open>The bucket of a name: the indices of the externals that have it, in order.\<close>

definition externalSymbolBuckets :: "language \<Rightarrow> string \<Rightarrow> nat list" where
  "externalSymbolBuckets lang name =
     [i \<leftarrow> [0..<length (ExternalSymbols lang)]. externalSymbolName lang (ExternalSymbols lang ! i) = name]"

fun assignFirstUnusedExternalSource :: "nat \<Rightarrow> nat list \<Rightarrow> index_map \<Rightarrow> index_map" where
  "assignFirstUnusedExternalSource targetIdx [] m = m"
| "assignFirstUnusedExternalSource targetIdx (sourceIdx # candidates) (targetToSource, used) =
     (if \<not> used ! sourceIdx then (targetToSource[targetIdx := int sourceIdx], used[sourceIdx := True])
      else assignFirstUnusedExternalSource targetIdx candidates (targetToSource, used))"

definition mapExternalSymbolsByName :: "language \<Rightarrow> language \<Rightarrow> index_map \<Rightarrow> index_map" where
  "mapExternalSymbolsByName src tgt m =
     fold (\<lambda>(targetIdx, targetSym).
             assignFirstUnusedExternalSource targetIdx (externalSymbolBuckets src (externalSymbolName tgt targetSym)))
       (enumerate 0 (ExternalSymbols tgt)) m"

definition fillExternalSymbolIndexFallback :: "language \<Rightarrow> index_map \<Rightarrow> index_map" where
  "fillExternalSymbolIndexFallback tgt m =
     (if \<not> GeneratedByGrammargen tgt then m
      else fold (\<lambda>i (targetToSource, used).
                   if targetToSource ! i \<noteq> -1 \<or> used ! i then (targetToSource, used)
                   else (targetToSource[i := int i], used[i := True]))
             [0..<min (length (fst m)) (length (snd m))] m)"

definition result_assign :: "u16 list \<Rightarrow> u16 list \<Rightarrow> nat \<times> int \<Rightarrow> bool list \<times> (u16 \<rightharpoonup> u16) \<Rightarrow> bool list \<times> (u16 \<rightharpoonup> u16)" where
  "result_assign sourceExt targetExt e st =
     (let (targetIdx, sourceIdx) = e; (assigned, m) = st in
      if sourceIdx < 0 \<or> sourceIdx \<ge> int (length sourceExt) then st
      else (assigned[nat sourceIdx := True], m(sourceExt ! nat sourceIdx \<mapsto> targetExt ! targetIdx)))"

definition addUnassignedExternalResultSymbols :: "u16 list \<Rightarrow> bool list \<Rightarrow> (u16 \<rightharpoonup> u16) \<Rightarrow> (u16 \<rightharpoonup> u16)" where
  "addUnassignedExternalResultSymbols sourceExt assigned m =
     fold (\<lambda>(s, b) m. if b then m else m(s \<mapsto> s)) (zip sourceExt assigned) m"

definition buildExternalResultSymbolMap :: "u16 list \<Rightarrow> u16 list \<Rightarrow> int list \<Rightarrow> (u16 \<rightharpoonup> u16)" where
  "buildExternalResultSymbolMap sourceExt targetExt targetToSource =
     (let (assigned, m) = fold (result_assign sourceExt targetExt) (enumerate 0 targetToSource)
                            (replicate (length sourceExt) False, \<lambda>_. None)
      in addUnassignedExternalResultSymbols sourceExt assigned m)"

definition index_symbol :: "nat \<times> u16 \<Rightarrow> (u16 \<rightharpoonup> nat) \<Rightarrow> (u16 \<rightharpoonup> nat)" where
  "index_symbol e out = (let (idx, s) = e in if out s = None then out(s \<mapsto> idx) else out)"

definition buildExternalSymbolIndex :: "u16 list \<Rightarrow> (u16 \<rightharpoonup> nat)" where
  "buildExternalSymbolIndex sourceExt = fold index_symbol (enumerate 0 sourceExt) (\<lambda>_. None)"

record order_mapping =
  omTargetToSource :: "int list"
  omResultToTarget :: "u16 \<rightharpoonup> u16"

definition buildExternalScannerOrderMapping :: "language \<Rightarrow> language \<Rightarrow> order_mapping" where
  "buildExternalScannerOrderMapping src tgt =
     (let m0 = (newExternalTargetMap (length (ExternalSymbols tgt)), replicate (length (ExternalSymbols src)) False);
          m = (if externalScannerUsesIndexOnlyMapping src tgt then mapExternalSymbolsByIndex m0
               else fillExternalSymbolIndexFallback tgt (mapExternalSymbolsByName src tgt m0))
      in \<lparr>omTargetToSource = fst m,
          omResultToTarget = buildExternalResultSymbolMap (ExternalSymbols src) (ExternalSymbols tgt) (fst m)\<rparr>)"

text \<open>The target's external lex states; the recovery certification that follows the
  assignment in the code concerns fields that \<^typ>\<open>language\<close> does not have.\<close>

definition adapted_row :: "int list \<Rightarrow> bool list \<Rightarrow> bool list" where
  "adapted_row targetToSource row = map (\<lambda>i. 0 \<le> i \<and> i < int (length row) \<and> row ! nat i) targetToSource"

definition adaptExternalLexStatesByExternalOrder :: "language \<Rightarrow> language \<Rightarrow> int list \<Rightarrow> language" where
  "adaptExternalLexStatesByExternalOrder src tgt targetToSource =
     (if ExternalLexStates src = [] \<or> ExternalSymbols tgt = [] \<or>
         length targetToSource \<noteq> length (ExternalSymbols tgt) \<or> ExternalLexStates tgt \<noteq> [] then tgt
      else tgt\<lparr>ExternalLexStates := map (adapted_row targetToSource) (ExternalLexStates src)\<rparr>)"

subsection \<open>The adapter\<close>

record adapter =
  targetToSource :: "int list"
  sourceCount :: nat
  sourceSymbolToIndex :: "u16 \<rightharpoonup> nat"
  sourceResultToTarget :: "u16 \<rightharpoonup> u16"

text \<open>A payload is the adapter's own, with its scratch row, or one made by the inner scanner.\<close>

datatype 'p adapter_payload = Adapted 'p "bool list" | Plain 'p

fun innerPayload :: "'p adapter_payload \<Rightarrow> 'p" where
  "innerPayload (Adapted pl sv) = pl"
| "innerPayload (Plain pl) = pl"

fun with_inner :: "'p adapter_payload \<Rightarrow> 'p \<Rightarrow> 'p adapter_payload" where
  "with_inner (Adapted _ sv) pl = Adapted pl sv"
| "with_inner (Plain _) pl = Plain pl"

definition mark_valid :: "adapter \<Rightarrow> nat \<times> bool \<Rightarrow> bool list \<Rightarrow> bool list" where
  "mark_valid a e sv =
     (let (targetIdx, isValid) = e in
      if \<not> isValid \<or> targetIdx \<ge> length (targetToSource a) then sv
      else
        (let sourceIdx = targetToSource a ! targetIdx in
         if 0 \<le> sourceIdx \<and> sourceIdx < int (length sv) then sv[nat sourceIdx := True] else sv))"

definition mapValidSymbols :: "adapter \<Rightarrow> bool list \<Rightarrow> bool list \<Rightarrow> bool list" where
  "mapValidSymbols a valid sourceValid = fold (mark_valid a) (enumerate 0 valid) sourceValid"

definition sourceResultWasValid :: "adapter \<Rightarrow> u16 \<Rightarrow> bool list \<Rightarrow> bool" where
  "sourceResultWasValid a s sourceValid =
     (case sourceSymbolToIndex a s of None \<Rightarrow> False | Some idx \<Rightarrow> idx < length sourceValid \<and> sourceValid ! idx)"

definition mapResultSymbol :: "adapter \<Rightarrow> external_lexer \<Rightarrow> bool list \<Rightarrow> external_lexer \<times> bool" where
  "mapResultSymbol a l sourceValid =
     (if \<not> hasResult l then (l, True)
      else
        (case sourceResultToTarget a (resultSymbol l) of
           Some mapped \<Rightarrow>
             if sourceResultWasValid a (resultSymbol l) sourceValid then (l\<lparr>resultSymbol := mapped\<rparr>, True) else (l, False)
         | None \<Rightarrow> (l, False)))"

text \<open>The cleared scratch row and what is left of a longer one.\<close>

fun prepareScanPayload :: "adapter \<Rightarrow> 'p adapter_payload \<Rightarrow> 'p \<times> bool list \<times> bool list" where
  "prepareScanPayload a (Adapted pl sv) = (pl, replicate (sourceCount a) False, drop (sourceCount a) sv)"
| "prepareScanPayload a (Plain pl) = (pl, replicate (sourceCount a) False, [])"

fun with_scratch :: "'p adapter_payload \<Rightarrow> 'p \<Rightarrow> bool list \<Rightarrow> 'p adapter_payload" where
  "with_scratch (Adapted _ _) pl sv = Adapted pl sv"
| "with_scratch (Plain _) pl sv = Plain pl"

definition adapter_scan ::
  "adapter \<Rightarrow> 'p scanner \<Rightarrow> 'p adapter_payload \<Rightarrow> external_lexer \<Rightarrow> bool list \<Rightarrow>
   ('p adapter_payload \<times> external_lexer \<times> bool) option" where
  "adapter_scan a inner payload l valid =
     (let (pl, cleared, rest) = prepareScanPayload a payload; sourceValid = mapValidSymbols a valid cleared in
      case sScan inner pl l sourceValid of
        None \<Rightarrow> None
      | Some (pl', l', ok) \<Rightarrow>
          (let payload' = with_scratch payload pl' (sourceValid @ rest) in
           if \<not> ok then Some (payload', l', False)
           else (case mapResultSymbol a l' sourceValid of
                   (l'', True) \<Rightarrow> Some (payload', l'', True)
                 | (l'', False) \<Rightarrow> Some (payload', l''\<lparr>resultSymbol := 0, hasResult := False\<rparr>, False))))"

definition adapt_scanner :: "adapter \<Rightarrow> 'p scanner \<Rightarrow> 'p adapter_payload scanner" where
  "adapt_scanner a inner =
     \<lparr>sCreate = Adapted (sCreate inner) (replicate (sourceCount a) False),
      sSerialize = (\<lambda>payload. sSerialize inner (innerPayload payload)),
      sDeserialize = (\<lambda>payload buf. with_inner payload (sDeserialize inner (innerPayload payload) buf)),
      sScan = adapter_scan a inner,
      preservesState = preservesState inner, retainsState = retainsState inner\<rparr>"

definition canAdaptExternalScanner :: "language \<Rightarrow> 'p scanner option \<Rightarrow> language \<Rightarrow> bool" where
  "canAdaptExternalScanner src inner tgt \<longleftrightarrow>
     inner \<noteq> None \<and> ExternalSymbols src \<noteq> [] \<and> ExternalSymbols tgt \<noteq> []"

definition order_adapter :: "language \<Rightarrow> language \<Rightarrow> adapter" where
  "order_adapter src tgt =
     (let mapping = buildExternalScannerOrderMapping src tgt in
      \<lparr>targetToSource = omTargetToSource mapping, sourceCount = length (ExternalSymbols src),
       sourceSymbolToIndex = buildExternalSymbolIndex (ExternalSymbols src),
       sourceResultToTarget = omResultToTarget mapping\<rparr>)"

definition AdaptExternalScannerByExternalOrder ::
  "language \<Rightarrow> 'p scanner option \<Rightarrow> language \<Rightarrow> ('p adapter_payload scanner \<times> language) option" where
  "AdaptExternalScannerByExternalOrder src inner tgt =
     (if \<not> canAdaptExternalScanner src inner tgt then None
      else
        (let a = order_adapter src tgt in
         Some (adapt_scanner a (the inner), adaptExternalLexStatesByExternalOrder src tgt (targetToSource a))))"

subsection \<open>An adapted scanner is a scanner\<close>

lemma innerPayload_simps [simp]:
  "innerPayload (with_inner payload pl) = pl" "innerPayload (with_scratch payload pl sv) = pl"
  "fst (prepareScanPayload a payload) = innerPayload payload"
  "fst (snd (prepareScanPayload a payload)) = replicate (sourceCount a) False"
  by (cases payload; simp)+

lemma mapResultSymbol_keeps:
  assumes "mapResultSymbol a l sv = (l', ok)"
  shows "lexer_ok src p l' \<longleftrightarrow> lexer_ok src p l" and "hasResult l' = hasResult l"
  using assms by (auto simp: mapResultSymbol_def lexer_ok_def spot_ok_def split: if_splits option.splits)

text \<open>The outcome of an adapted scan from the outcome of the inner one.\<close>

definition adapted_outcome :: "adapter \<Rightarrow> bool list \<Rightarrow> external_lexer \<times> bool \<Rightarrow> external_lexer \<times> bool" where
  "adapted_outcome a sourceValid r =
     (let (l, ok) = r in
      if \<not> ok then (l, False)
      else (case mapResultSymbol a l sourceValid of
              (l', True) \<Rightarrow> (l', True)
            | (l', False) \<Rightarrow> (l'\<lparr>resultSymbol := 0, hasResult := False\<rparr>, False)))"

lemma adapter_scan_inner:
  "adapter_scan a inner payload l valid =
     (let sv = mapValidSymbols a valid (replicate (sourceCount a) False) in
      map_option (\<lambda>(pl', l', ok).
          (with_scratch payload pl' (sv @ snd (snd (prepareScanPayload a payload))), adapted_outcome a sv (l', ok)))
        (sScan inner (innerPayload payload) l sv))"
proof -
  obtain pl cleared rest where p: "prepareScanPayload a payload = (pl, cleared, rest)"
    using prod_cases3 by blast
  then have "pl = innerPayload payload" "cleared = replicate (sourceCount a) False"
    using innerPayload_simps(3,4) [of a payload] by simp_all
  then show ?thesis
    using p by (auto simp: adapter_scan_def adapted_outcome_def Let_def split: option.split prod.split bool.split)
qed

lemma adapted_outcome_ok:
  assumes "adapted_outcome a sv (l, ok) = (l', ok')" and "lexer_ok src p l" and "ok \<longrightarrow> hasResult l"
  shows "lexer_ok src p l' \<and> (ok' \<longrightarrow> hasResult l')"
proof (cases ok)
  case True
  obtain l1 b where m: "mapResultSymbol a l sv = (l1, b)" by force
  then have "lexer_ok src p l1" "hasResult l1" using mapResultSymbol_keeps [OF m] assms True by auto
  then show ?thesis
    using assms(1) True m
    by (auto simp: adapted_outcome_def lexer_ok_def spot_ok_def split: bool.splits)
qed (use assms in \<open>simp add: adapted_outcome_def\<close>)

locale adapted_scanner = scanner_client good view sc
  for good :: "'p \<Rightarrow> bool" and view :: "'p \<Rightarrow> 's" and sc :: "'p scanner" +
  fixes a :: adapter

sublocale adapted_scanner \<subseteq> outer: scanner_client
  "\<lambda>payload. good (innerPayload payload)" "\<lambda>payload. view (innerPayload payload)" "adapt_scanner a sc"
proof
  show "good (innerPayload (sCreate (adapt_scanner a sc)))" by (simp add: adapt_scanner_def create_good)
next
  fix payload src p l valid
  assume "good (innerPayload payload)" "lexer_ok src p l"
  then obtain pl' l' ok where s: "sScan sc (innerPayload payload) l (mapValidSymbols a valid (replicate (sourceCount a) False))
      = Some (pl', l', ok)" "good pl'" "lexer_ok src p l'" "ok \<longrightarrow> hasResult l'"
    using scan_safe by blast
  obtain l2 ok2 where o: "adapted_outcome a (mapValidSymbols a valid (replicate (sourceCount a) False)) (l', ok) = (l2, ok2)"
    by force
  show "\<exists>pl' l' b. sScan (adapt_scanner a sc) payload l valid = Some (pl', l', b) \<and> good (innerPayload pl') \<and>
      lexer_ok src p l' \<and> (b \<longrightarrow> hasResult l')"
    using s o adapted_outcome_ok [OF o s(3,4)] by (simp add: adapt_scanner_def adapter_scan_inner Let_def)
next
  fix payload payload' l valid
  assume g: "good (innerPayload payload)" "good (innerPayload payload')"
    "view (innerPayload payload) = view (innerPayload payload')"
  let ?sv = "mapValidSymbols a valid (replicate (sourceCount a) False)"
  have "map_option (\<lambda>(q, l, b). (view (innerPayload q), l, b)) (adapter_scan a sc x l valid) =
      map_option (\<lambda>(v, l, b). (v, adapted_outcome a ?sv (l, b)))
        (map_option (\<lambda>(q, l, b). (view q, l, b)) (sScan sc (innerPayload x) l ?sv))" for x
    by (simp add: adapter_scan_inner Let_def option.map_comp comp_def split_beta)
  then show "map_option (\<lambda>(q, l, b). (view (innerPayload q), l, b)) (sScan (adapt_scanner a sc) payload l valid) =
      map_option (\<lambda>(q, l, b). (view (innerPayload q), l, b)) (sScan (adapt_scanner a sc) payload' l valid)"
    using scan_view [OF g, of l ?sv] by (simp add: adapt_scanner_def)
next
  fix payload bs
  assume "good (innerPayload payload)"
  then show "good (innerPayload (sDeserialize (adapt_scanner a sc) payload bs))"
    by (simp add: adapt_scanner_def restore_good)
next
  fix payload payload' buf buf' n
  assume "good (innerPayload payload)" "good (innerPayload payload')"
    "externalScannerSerializationBufferSize \<le> length buf" "sSerialize (adapt_scanner a sc) payload buf = (buf', n)"
  then show "n \<le> length buf' \<and>
      view (innerPayload (sDeserialize (adapt_scanner a sc) payload' (take n buf'))) = view (innerPayload payload)"
    using restore_view [of "innerPayload payload" "innerPayload payload'" buf buf' n] by (simp add: adapt_scanner_def)
qed

text \<open>The methods of \<open>ExternalVMScanner\<close>; it claims neither failure capability.\<close>

definition vm_methods :: "unicode_tables \<Rightarrow> vm_scanner \<Rightarrow> u32 option scanner" where
  "vm_methods uni s =
     \<lparr>sCreate = vm_create, sSerialize = vm_serialize, sDeserialize = vm_deserialize, sScan = Scan uni s,
      preservesState = False, retainsState = False\<rparr>"

interpretation vm_client: scanner_client "\<lambda>pl. pl \<noteq> None" id "vm_methods uni s" for uni s
  using vm.external_scanner_axioms [of uni s] by (simp add: scanner_client_def vm_methods_def)

interpretation vm_adapted: adapted_scanner "\<lambda>pl. pl \<noteq> None" id "vm_methods uni s" a for uni s a
  by unfold_locales

subsection \<open>Lemmas on the symbol mapping\<close>

definition index_map_ok :: "nat \<Rightarrow> nat \<Rightarrow> index_map \<Rightarrow> bool" where
  "index_map_ok nT nS m \<longleftrightarrow>
     length (fst m) = nT \<and> length (snd m) = nS \<and>
     (\<forall>i < nT. fst m ! i \<noteq> -1 \<longrightarrow> 0 \<le> fst m ! i \<and> fst m ! i < int nS) \<and>
     (\<forall>i < nT. \<forall>j < nT. fst m ! i = fst m ! j \<longrightarrow> fst m ! i \<noteq> -1 \<longrightarrow> i = j) \<and>
     (\<forall>k < nS. snd m ! k \<longleftrightarrow> (\<exists>i < nT. fst m ! i = int k))"

lemma by_index_loop:
  "k \<le> nT \<Longrightarrow> k \<le> nS \<Longrightarrow>
   fold (\<lambda>i (t2s, used). (t2s[i := int i], used[i := True])) [0..<k]
     (replicate nT (-1 :: int), replicate nS False) =
   (map int [0..<k] @ replicate (nT - k) (-1), replicate k True @ replicate (nS - k) False)"
proof (induction k)
  case (Suc k)
  have s2: "replicate (n - k) x = x # replicate (n - Suc k) x" if "Suc k \<le> n" for n and x :: int
    using that by (metis Suc_diff_Suc less_eq_Suc_le replicate_Suc)
  have s3: "replicate (n - k) x = x # replicate (n - Suc k) x" if "Suc k \<le> n" for n and x :: bool
    using that by (metis Suc_diff_Suc less_eq_Suc_le replicate_Suc)
  show ?case using Suc by (simp add: s2 s3 list_update_append replicate_append_same)
qed simp

lemma by_index_map:
  "mapExternalSymbolsByIndex (replicate nT (-1), replicate nS False) =
   (map int [0..<min nT nS] @ replicate (nT - min nT nS) (-1),
    replicate (min nT nS) True @ replicate (nS - min nT nS) False)"
  using by_index_loop [of "min nT nS" nT nS] by (simp add: mapExternalSymbolsByIndex_def)

lemma assign_cases:
  assumes "\<forall>c \<in> set candidates. c < length used"
  shows "(\<exists>c \<in> set candidates. \<not> used ! c \<and>
      assignFirstUnusedExternalSource i candidates (t2s, used) = (t2s[i := int c], used[c := True])) \<or>
    (\<forall>c \<in> set candidates. used ! c) \<and> assignFirstUnusedExternalSource i candidates (t2s, used) = (t2s, used)"
  using assms by (induction candidates) auto

lemma index_map_update:
  assumes ok: "index_map_ok nT nS (t2s, used)" and n: "n < nT" "t2s ! n = -1" and c: "c < nS" "\<not> used ! c"
  shows "index_map_ok nT nS (t2s[n := int c], used[c := True])"
proof -
  have len: "length t2s = nT" "length used = nS"
    and range: "\<And>i. i < nT \<Longrightarrow> t2s ! i \<noteq> -1 \<Longrightarrow> 0 \<le> t2s ! i \<and> t2s ! i < int nS"
    and inj: "\<And>i j. i < nT \<Longrightarrow> j < nT \<Longrightarrow> t2s ! i = t2s ! j \<Longrightarrow> t2s ! i \<noteq> -1 \<Longrightarrow> i = j"
    and used: "\<And>k. k < nS \<Longrightarrow> used ! k \<longleftrightarrow> (\<exists>i < nT. t2s ! i = int k)"
    using ok by (simp_all add: index_map_ok_def)
  have unused: "t2s ! i \<noteq> int c" if "i < nT" for i using used c that by blast
  have "used[c := True] ! k \<longleftrightarrow> (\<exists>i < nT. t2s[n := int c] ! i = int k)" if k: "k < nS" for k
  proof (cases "k = c")
    case True
    then show ?thesis using n len c by auto
  next
    case False
    have "t2s[n := int c] ! i = int k \<longleftrightarrow> t2s ! i = int k" if "i < nT" for i
      using n len that False by (cases "i = n") auto
    then show ?thesis using used [OF k] False by auto
  qed
  moreover have "i = j" if "i < nT" "j < nT" "t2s[n := int c] ! i = t2s[n := int c] ! j" "t2s[n := int c] ! i \<noteq> -1" for i j
    using that inj unused [of i] unused [of j] len by (cases "i = n"; cases "j = n") auto
  moreover have "0 \<le> t2s[n := int c] ! i \<and> t2s[n := int c] ! i < int nS"
    if "i < nT" "t2s[n := int c] ! i \<noteq> -1" for i
    using that range c len by (cases "i = n") auto
  ultimately show ?thesis using len by (simp add: index_map_ok_def)
qed

lemma buckets_iff:
  "c \<in> set (externalSymbolBuckets src name) \<longleftrightarrow>
   c < length (ExternalSymbols src) \<and> externalSymbolName src (ExternalSymbols src ! c) = name"
  by (auto simp: externalSymbolBuckets_def)

text \<open>After the first \<open>n\<close> targets: the map is sound, matched names agree, later targets are
  unmatched, and an unmatched target found every source of its name taken.\<close>

definition named_upto :: "language \<Rightarrow> language \<Rightarrow> nat \<Rightarrow> index_map \<Rightarrow> bool" where
  "named_upto src tgt n m \<longleftrightarrow>
     index_map_ok (length (ExternalSymbols tgt)) (length (ExternalSymbols src)) m \<and>
     (\<forall>i < length (ExternalSymbols tgt). fst m ! i \<noteq> -1 \<longrightarrow>
        i < n \<and> externalSymbolName src (ExternalSymbols src ! nat (fst m ! i)) =
                externalSymbolName tgt (ExternalSymbols tgt ! i)) \<and>
     (\<forall>i < n. fst m ! i = -1 \<longrightarrow>
        (\<forall>c < length (ExternalSymbols src). externalSymbolName src (ExternalSymbols src ! c) =
           externalSymbolName tgt (ExternalSymbols tgt ! i) \<longrightarrow> snd m ! c))"

lemma named_step:
  assumes n: "named_upto src tgt n m" and lt: "n < length (ExternalSymbols tgt)"
  shows "named_upto src tgt (Suc n)
    (assignFirstUnusedExternalSource n (externalSymbolBuckets src (externalSymbolName tgt (ExternalSymbols tgt ! n))) m)"
proof -
  obtain t2s used where m: "m = (t2s, used)" by force
  let ?cs = "externalSymbolBuckets src (externalSymbolName tgt (ExternalSymbols tgt ! n))"
  have ok: "index_map_ok (length (ExternalSymbols tgt)) (length (ExternalSymbols src)) (t2s, used)"
    using n by (simp add: named_upto_def m)
  have len: "length t2s = length (ExternalSymbols tgt)" "length used = length (ExternalSymbols src)"
    using ok by (simp_all add: index_map_ok_def)
  have fresh: "t2s ! n = -1" using n lt by (auto simp: named_upto_def m)
  from assign_cases [of ?cs used n t2s] len consider
      (hit) c where "c \<in> set ?cs" "\<not> used ! c"
        "assignFirstUnusedExternalSource n ?cs (t2s, used) = (t2s[n := int c], used[c := True])"
    | (miss) "\<forall>c \<in> set ?cs. used ! c" "assignFirstUnusedExternalSource n ?cs (t2s, used) = (t2s, used)"
    by (auto simp: buckets_iff)
  then show ?thesis
  proof cases
    case hit
    have c: "c < length (ExternalSymbols src)"
      "externalSymbolName src (ExternalSymbols src ! c) = externalSymbolName tgt (ExternalSymbols tgt ! n)"
      using hit(1) by (simp_all add: buckets_iff)
    have "index_map_ok (length (ExternalSymbols tgt)) (length (ExternalSymbols src)) (t2s[n := int c], used[c := True])"
      by (rule index_map_update [OF ok lt fresh c(1) hit(2)])
    then show ?thesis
      using n hit(3) len c lt unfolding named_upto_def m by (auto simp: nth_list_update less_Suc_eq)
  next
    case miss
    then show ?thesis
      using n fresh unfolding named_upto_def m by (auto simp: less_Suc_eq buckets_iff)
  qed
qed

lemma index_map_start: "index_map_ok nT nS (replicate nT (-1), replicate nS False)"
  by (auto simp: index_map_ok_def)

lemma by_name_map:
  "named_upto src tgt (length (ExternalSymbols tgt)) (mapExternalSymbolsByName src tgt
     (replicate (length (ExternalSymbols tgt)) (-1), replicate (length (ExternalSymbols src)) False))"
proof -
  let ?m0 = "(replicate (length (ExternalSymbols tgt)) (-1 :: int), replicate (length (ExternalSymbols src)) False)"
  let ?f = "\<lambda>(targetIdx, targetSym).
      assignFirstUnusedExternalSource targetIdx (externalSymbolBuckets src (externalSymbolName tgt targetSym))"
  have "n \<le> length (ExternalSymbols tgt) \<Longrightarrow>
      named_upto src tgt n (fold ?f (take n (enumerate 0 (ExternalSymbols tgt))) ?m0)" for n
  proof (induction n)
    case 0
    then show ?case by (simp add: named_upto_def index_map_start)
  next
    case (Suc n)
    then have "take (Suc n) (enumerate 0 (ExternalSymbols tgt)) =
        take n (enumerate 0 (ExternalSymbols tgt)) @ [(n, ExternalSymbols tgt ! n)]"
      by (simp add: take_Suc_conv_app_nth nth_enumerate_eq)
    then show ?case using Suc named_step [of src tgt n] by simp
  qed
  from this [of "length (ExternalSymbols tgt)"] show ?thesis by (simp add: mapExternalSymbolsByName_def)
qed

lemma order_mapping_eq:
  "omTargetToSource (buildExternalScannerOrderMapping src tgt) =
     (let nT = length (ExternalSymbols tgt); nS = length (ExternalSymbols src);
          m0 = (replicate nT (-1), replicate nS False)
      in fst (if externalScannerUsesIndexOnlyMapping src tgt then mapExternalSymbolsByIndex m0
              else mapExternalSymbolsByName src tgt m0))"
  by (auto simp: buildExternalScannerOrderMapping_def newExternalTargetMap_def Let_def
        fillExternalSymbolIndexFallback_def externalScannerUsesIndexOnlyMapping_def)

definition injective_map :: "nat \<Rightarrow> int list \<Rightarrow> bool" where
  "injective_map nS m \<longleftrightarrow>
     (\<forall>i < length m. m ! i \<noteq> -1 \<longrightarrow> 0 \<le> m ! i \<and> m ! i < int nS) \<and>
     (\<forall>i < length m. \<forall>j < length m. m ! i = m ! j \<longrightarrow> m ! i \<noteq> -1 \<longrightarrow> i = j)"

lemma by_index_nth:
  "i < nT \<Longrightarrow> fst (mapExternalSymbolsByIndex (replicate nT (-1), replicate nS False)) ! i =
     (if i < nS then int i else -1)"
  by (simp add: by_index_map nth_append)

lemma order_mapping_ok:
  fixes src tgt
  defines "m \<equiv> omTargetToSource (buildExternalScannerOrderMapping src tgt)"
  shows "length m = length (ExternalSymbols tgt)" and "injective_map (length (ExternalSymbols src)) m"
proof -
  let ?nT = "length (ExternalSymbols tgt)" and ?nS = "length (ExternalSymbols src)"
  have "length m = ?nT \<and> injective_map ?nS m"
  proof (cases "externalScannerUsesIndexOnlyMapping src tgt")
    case True
    then have m: "m = fst (mapExternalSymbolsByIndex (replicate ?nT (-1), replicate ?nS False))"
      by (simp add: m_def order_mapping_eq Let_def)
    then have "length m = ?nT" by (simp add: by_index_map)
    moreover have "\<And>i. i < ?nT \<Longrightarrow> m ! i = (if i < ?nS then int i else -1)" using by_index_nth m by simp
    ultimately show ?thesis by (auto simp: injective_map_def)
  next
    case False
    then show ?thesis
      using by_name_map [of src tgt]
      by (auto simp: m_def order_mapping_eq Let_def named_upto_def index_map_ok_def injective_map_def)
  qed
  then show "length m = ?nT" "injective_map ?nS m" by auto
qed

subsection \<open>Lemmas on the adapted scan\<close>

lemma length_mark_valid [simp]: "length (mark_valid a e sv) = length sv"
  by (auto simp: mark_valid_def Let_def split: prod.split)

lemma length_mark_valid_fold [simp]: "length (fold (mark_valid a) es sv) = length sv"
  by (induction es arbitrary: sv) simp_all

lemma nth_mark_valid:
  "k < length sv \<Longrightarrow> mark_valid a e sv ! k \<longleftrightarrow>
     sv ! k \<or> (snd e \<and> fst e < length (targetToSource a) \<and> targetToSource a ! fst e = int k)"
  by (auto simp: mark_valid_def Let_def nth_list_update split: prod.splits if_splits)

lemma nth_mark_valid_fold:
  "k < length sv \<Longrightarrow> fold (mark_valid a) es sv ! k \<longleftrightarrow>
     sv ! k \<or> (\<exists>e \<in> set es. snd e \<and> fst e < length (targetToSource a) \<and> targetToSource a ! fst e = int k)"
  by (induction es arbitrary: sv) (simp_all add: nth_mark_valid disj_assoc)

lemma mapValidSymbols_iff:
  "length (mapValidSymbols a valid sv) = length sv"
  "k < length sv \<Longrightarrow> mapValidSymbols a valid sv ! k \<longleftrightarrow>
     sv ! k \<or> (\<exists>t < length valid. valid ! t \<and> t < length (targetToSource a) \<and> targetToSource a ! t = int k)"
  by (simp_all add: mapValidSymbols_def nth_mark_valid_fold bex_enumerate)

lemma index_symbol_fold:
  "fold index_symbol es out s = Some k \<Longrightarrow> out s = Some k \<or> (k, s) \<in> set es"
proof (induction es arbitrary: out)
  case (Cons e es)
  have "index_symbol e out s = Some k \<Longrightarrow> out s = Some k \<or> e = (k, s)"
    by (auto simp: index_symbol_def split: prod.splits if_splits)
  then show ?case using Cons.IH [of "index_symbol e out"] Cons.prems by auto
qed simp

lemma symbol_index_found:
  "buildExternalSymbolIndex exts s = Some k \<Longrightarrow> k < length exts \<and> exts ! k = s"
  using index_symbol_fold [of "enumerate 0 exts" "\<lambda>_. None" s k]
  by (auto simp: buildExternalSymbolIndex_def in_set_enumerate_eq)

lemma result_assign_fold:
  assumes dist: "distinct sourceExt" and k: "k < length sourceExt"
  shows "(t, int k) \<in> set es \<Longrightarrow> (\<forall>t'. (t', int k) \<in> set es \<longrightarrow> t' = t) \<Longrightarrow> length (fst st) = length sourceExt \<Longrightarrow>
    fst (fold (result_assign sourceExt targetExt) es st) ! k \<and>
    snd (fold (result_assign sourceExt targetExt) es st) (sourceExt ! k) = Some (targetExt ! t)"
proof (induction es arbitrary: st rule: rev_induct)
  case (snoc e es)
  define st' where "st' = fold (result_assign sourceExt targetExt) es st"
  have "length (fst (fold (result_assign sourceExt targetExt) es' x)) = length (fst x)" for es' x
    by (induction es' arbitrary: x) (auto simp: result_assign_def split: prod.splits)
  then have len: "length (fst st') = length sourceExt" using snoc.prems(3) by (simp add: st'_def)
  obtain t' k' assigned m where e: "e = (t', k')" "st' = (assigned, m)" by (cases e; cases st') auto
  have last: "fold (result_assign sourceExt targetExt) (es @ [e]) st = result_assign sourceExt targetExt e (assigned, m)"
    using e(2) by (simp add: st'_def)
  show ?case
  proof (cases "k' = int k")
    case True
    then have "t' = t" using snoc.prems(2) e by auto
    then show ?thesis unfolding last using True k e len by (simp add: result_assign_def)
  next
    case False
    then have old: "(t, int k) \<in> set es" using snoc.prems(1) e(1) by simp
    have uniq: "\<forall>t'. (t', int k) \<in> set es \<longrightarrow> t' = t" using snoc.prems(2) by simp
    have IH: "assigned ! k \<and> m (sourceExt ! k) = Some (targetExt ! t)"
      using snoc.IH [OF old uniq snoc.prems(3)] unfolding st'_def [symmetric] e(2) by simp
    have "sourceExt ! nat k' \<noteq> sourceExt ! k" "nat k' \<noteq> k" if "0 \<le> k'" "k' < int (length sourceExt)"
      using that False k nth_eq_iff_index_eq [OF dist, of "nat k'" k] by (simp_all add: nat_eq_iff nat_less_iff)
    then show ?thesis unfolding last using IH e by (auto simp: result_assign_def)
  qed
qed simp

lemma unassigned_fold:
  "(\<forall>e \<in> set zs. \<not> snd e \<longrightarrow> fst e \<noteq> x) \<Longrightarrow>
   fold (\<lambda>(s, b) m. if b then m else m(s \<mapsto> s)) zs m x = m x"
  by (induction zs arbitrary: m) (auto split: prod.split)

lemma unassigned_keeps:
  assumes "distinct sourceExt" and "length assigned = length sourceExt" and "k < length sourceExt" and "assigned ! k"
  shows "addUnassignedExternalResultSymbols sourceExt assigned m (sourceExt ! k) = m (sourceExt ! k)"
proof -
  have "fst e \<noteq> sourceExt ! k" if "e \<in> set (zip sourceExt assigned)" "\<not> snd e" for e
    using that assms by (auto simp: set_zip nth_eq_iff_index_eq)
  then show ?thesis unfolding addUnassignedExternalResultSymbols_def by (intro unassigned_fold) auto
qed

lemma length_result_assign_fold:
  "length (fst (fold (result_assign sourceExt targetExt) es st)) = length (fst st)"
  by (induction es arbitrary: st) (auto simp: result_assign_def split: prod.splits)

lemma result_map_value:
  assumes dist: "distinct sourceExt" and inj: "injective_map (length sourceExt) m"
    and t: "t < length m" "m ! t = int k" and k: "k < length sourceExt"
  shows "buildExternalResultSymbolMap sourceExt targetExt m (sourceExt ! k) = Some (targetExt ! t)"
proof -
  let ?st = "(replicate (length sourceExt) False, \<lambda>_. None) :: bool list \<times> (u16 \<rightharpoonup> u16)"
  let ?r = "fold (result_assign sourceExt targetExt) (enumerate 0 m) ?st"
  have mem: "(t, int k) \<in> set (enumerate 0 m)" using t by (simp add: in_set_enumerate_eq)
  have uniq: "\<forall>t'. (t', int k) \<in> set (enumerate 0 m) \<longrightarrow> t' = t"
  proof (intro allI impI)
    fix t' assume "(t', int k) \<in> set (enumerate 0 m)"
    then have "t' < length m" "m ! t' = m ! t" using t by (simp_all add: in_set_enumerate_eq)
    then show "t' = t" using inj t unfolding injective_map_def by auto
  qed
  have "fst ?r ! k" "snd ?r (sourceExt ! k) = Some (targetExt ! t)"
    using result_assign_fold [OF dist k mem uniq, of ?st targetExt] by simp_all
  moreover have "length (fst ?r) = length sourceExt" using length_result_assign_fold by simp
  ultimately show ?thesis
    using unassigned_keeps [OF dist _ k] by (simp add: buildExternalResultSymbolMap_def split_beta)
qed

lemma order_adapter_simps:
  "targetToSource (order_adapter src tgt) = omTargetToSource (buildExternalScannerOrderMapping src tgt)"
  "sourceCount (order_adapter src tgt) = length (ExternalSymbols src)"
  "sourceSymbolToIndex (order_adapter src tgt) = buildExternalSymbolIndex (ExternalSymbols src)"
  "sourceResultToTarget (order_adapter src tgt) = buildExternalResultSymbolMap (ExternalSymbols src) (ExternalSymbols tgt)
     (omTargetToSource (buildExternalScannerOrderMapping src tgt))"
  by (simp_all add: order_adapter_def buildExternalScannerOrderMapping_def Let_def)

lemma mapResultSymbol_found:
  assumes "mapResultSymbol a l sv = (l', True)" and "hasResult l"
  obtains mapped k where "sourceResultToTarget a (resultSymbol l) = Some mapped"
    "sourceSymbolToIndex a (resultSymbol l) = Some k" "k < length sv" "sv ! k" "resultSymbol l' = mapped"
  using assms by (auto simp: mapResultSymbol_def sourceResultWasValid_def split: if_splits option.splits)

subsection \<open>Properties\<close>

text \<open>
  \<^bold>\<open>C37.\<close> An adapted scan returns only what the parser asked for. When the external symbols of
  the source language are distinct and the adapter of two languages reports success with a result, the result is an external symbol of the target
  language at an index that was valid in this call, whatever symbol the inner scanner set.
  In particular a source symbol without a partner in the target never gets out.
\<close>

theorem adapter_scan_sound:
  assumes "distinct (ExternalSymbols src)"
    and "adapter_scan (order_adapter src tgt) inner payload l valid = Some (payload', l', True)" and "hasResult l'"
  shows "\<exists>t < length valid. valid ! t \<and> t < length (ExternalSymbols tgt) \<and> resultSymbol l' = ExternalSymbols tgt ! t"
proof -
  let ?a = "order_adapter src tgt" and ?S = "ExternalSymbols src"
  let ?m = "omTargetToSource (buildExternalScannerOrderMapping src tgt)"
  define sv where "sv = mapValidSymbols ?a valid (replicate (length ?S) False)"
  obtain pl1 l1 ok where out: "adapted_outcome ?a sv (l1, ok) = (l', True)"
    using assms(2) by (auto simp: adapter_scan_inner Let_def sv_def order_adapter_simps(2) split: prod.splits)
  then have m: "mapResultSymbol ?a l1 sv = (l', True)"
    by (auto simp: adapted_outcome_def split: if_splits prod.splits bool.splits)
  then have "hasResult l1" using mapResultSymbol_keeps(2) [OF m] assms(3) by simp
  with m obtain mapped k where r: "sourceResultToTarget ?a (resultSymbol l1) = Some mapped"
    "sourceSymbolToIndex ?a (resultSymbol l1) = Some k" "k < length sv" "sv ! k" "resultSymbol l' = mapped"
    by (rule mapResultSymbol_found)
  have k: "k < length ?S" "?S ! k = resultSymbol l1"
    using symbol_index_found [of ?S] r(2) by (simp_all add: order_adapter_simps)
  obtain t where t: "t < length valid" "valid ! t" "t < length ?m" "?m ! t = int k"
    using r(4) mapValidSymbols_iff(2) [of k "replicate (length ?S) False" ?a valid] k(1)
    by (auto simp: sv_def order_adapter_simps)
  have "mapped = ExternalSymbols tgt ! t"
    using result_map_value [OF assms(1) order_mapping_ok(2) t(3,4) k(1), of "ExternalSymbols tgt"] r(1) k(2)
    by (simp add: order_adapter_simps)
  then show ?thesis using t r(5) order_mapping_ok(1) [of src tgt] by auto
qed

text \<open>The source knows \<open>a, b\<close>, the target \<open>b, c\<close>; the inner program emits the source's \<open>b\<close>.\<close>

definition sample_source :: language where
  "sample_source = sample_language\<lparr>SymbolNames := [[], ''a'', ''b''], ExternalSymbols := [1, 2], GeneratedByGrammargen := False\<rparr>"

definition sample_target :: language where
  "sample_target = sample_language\<lparr>SymbolNames := [[], ''b'', ''c''], ExternalSymbols := [1, 2], GeneratedByGrammargen := False\<rparr>"

definition emit_scan :: "u32 option \<Rightarrow> external_lexer \<Rightarrow> bool list \<Rightarrow> (u32 option \<times> external_lexer \<times> bool) option" where
  "emit_scan = vm_scan no_tables \<lparr>Code = [VMRequireValid 1 3, VMAdvance False, VMEmit 2, VMFail], MaxSteps = 0\<rparr>"

definition emit_methods :: "u32 option scanner" where
  "emit_methods =
     \<lparr>sCreate = vm_create, sSerialize = vm_serialize, sDeserialize = vm_deserialize, sScan = emit_scan,
      preservesState = False, retainsState = False\<rparr>"

lemma sample_adapted_scan:
  "case adapter_scan (order_adapter sample_source sample_target) emit_methods (Plain (Some 0))
      (newExternalLexer [120] 0 0 0) [True, False] of
     None \<Rightarrow> False | Some (pl, l', ok) \<Rightarrow> ok \<and> hasResult l' \<and> resultSymbol l' = 1"
  by code_simp

theorem adapter_scan_sound_witness:
  "\<exists>pl l'. adapter_scan (order_adapter sample_source sample_target) emit_methods (Plain (Some 0))
      (newExternalLexer [120] 0 0 0) [True, False] = Some (pl, l', True) \<and>
     (\<exists>t < length [True, False]. [True, False] ! t \<and> t < length (ExternalSymbols sample_target) \<and>
        resultSymbol l' = ExternalSymbols sample_target ! t)"
proof -
  obtain pl l' where s: "adapter_scan (order_adapter sample_source sample_target) emit_methods (Plain (Some 0))
      (newExternalLexer [120] 0 0 0) [True, False] = Some (pl, l', True)" "hasResult l'"
    using sample_adapted_scan by (auto split: option.splits)
  have "distinct (ExternalSymbols sample_source)" by code_simp
  from adapter_scan_sound [OF this s] s(1) show ?thesis by blast
qed

text \<open>
  \<^bold>\<open>C39.\<close> How two external symbol lists are matched. No source index is used twice and all are
  in range. In index mode target \<open>i\<close> gets source \<open>i\<close> as far as both lists go. Otherwise
  only equal names are matched, and a target stays unmatched only when every source symbol of
  its name went to another target: no slot is ever filled by position in this mode.
\<close>

theorem adapter_mapping_spec:
  "let m = omTargetToSource (buildExternalScannerOrderMapping src tgt);
       nS = length (ExternalSymbols src); nT = length (ExternalSymbols tgt);
       sourceName = (\<lambda>c. externalSymbolName src (ExternalSymbols src ! c));
       targetName = (\<lambda>i. externalSymbolName tgt (ExternalSymbols tgt ! i))
   in length m = nT \<and> injective_map nS m \<and>
      (\<forall>i < nT. if externalScannerUsesIndexOnlyMapping src tgt then m ! i = (if i < nS then int i else -1)
         else if m ! i \<noteq> -1 then sourceName (nat (m ! i)) = targetName i
         else \<forall>c < nS. sourceName c = targetName i \<longrightarrow> (\<exists>j < nT. j \<noteq> i \<and> m ! j = int c))"
proof -
  let ?nT = "length (ExternalSymbols tgt)" and ?nS = "length (ExternalSymbols src)"
  let ?m0 = "(replicate ?nT (-1), replicate ?nS False) :: index_map"
  define m where "m = omTargetToSource (buildExternalScannerOrderMapping src tgt)"
  have each: "if externalScannerUsesIndexOnlyMapping src tgt then m ! i = (if i < ?nS then int i else -1)
     else if m ! i \<noteq> -1 then
       externalSymbolName src (ExternalSymbols src ! nat (m ! i)) = externalSymbolName tgt (ExternalSymbols tgt ! i)
     else \<forall>c < ?nS. externalSymbolName src (ExternalSymbols src ! c) = externalSymbolName tgt (ExternalSymbols tgt ! i)
       \<longrightarrow> (\<exists>j < ?nT. j \<noteq> i \<and> m ! j = int c)" if i: "i < ?nT" for i
  proof (cases "externalScannerUsesIndexOnlyMapping src tgt")
    case True
    then show ?thesis using by_index_nth [OF i] by (simp add: m_def order_mapping_eq Let_def)
  next
    case False
    then have m: "m = fst (mapExternalSymbolsByName src tgt ?m0)" by (simp add: m_def order_mapping_eq Let_def)
    have named: "m ! i \<noteq> -1 \<Longrightarrow>
        externalSymbolName src (ExternalSymbols src ! nat (m ! i)) = externalSymbolName tgt (ExternalSymbols tgt ! i)"
      using by_name_map [of src tgt] i unfolding named_upto_def m by blast
    have "\<exists>j < ?nT. j \<noteq> i \<and> m ! j = int c"
      if un: "m ! i = -1" "c < ?nS"
        "externalSymbolName src (ExternalSymbols src ! c) = externalSymbolName tgt (ExternalSymbols tgt ! i)" for c
    proof -
      have "snd (mapExternalSymbolsByName src tgt ?m0) ! c"
        using by_name_map [of src tgt] i un unfolding named_upto_def m by blast
      then obtain j where "j < ?nT" "m ! j = int c"
        using by_name_map [of src tgt] un(2) unfolding named_upto_def index_map_ok_def m by blast
      then show ?thesis using un(1) by auto
    qed
    then show ?thesis using named False by auto
  qed
  show ?thesis
    unfolding Let_def m_def [symmetric] using each order_mapping_ok [of src tgt] by (simp add: m_def [symmetric])
qed

text \<open>One symbol each, with different names: nothing is matched.\<close>

theorem adapter_mapping_spec_witness:
  "let src = sample_language\<lparr>SymbolNames := [[], ''a''], ExternalSymbols := [1], GeneratedByGrammargen := False\<rparr>;
       tgt = sample_language\<lparr>SymbolNames := [[], ''b''], ExternalSymbols := [1], GeneratedByGrammargen := False\<rparr>;
       m = omTargetToSource (buildExternalScannerOrderMapping src tgt)
   in m = [-1] \<and> injective_map 1 m"
proof -
  let ?src = "sample_language\<lparr>SymbolNames := [[], ''a''], ExternalSymbols := [1], GeneratedByGrammargen := False\<rparr>"
  let ?tgt = "sample_language\<lparr>SymbolNames := [[], ''b''], ExternalSymbols := [1], GeneratedByGrammargen := False\<rparr>"
  have "omTargetToSource (buildExternalScannerOrderMapping ?src ?tgt) = [-1]" by code_simp
  then show ?thesis using adapter_mapping_spec [of ?src ?tgt] by (simp add: Let_def)
qed

text \<open>
  \<^bold>\<open>C35.\<close> The retry loop follows its protocol for every external scanner that keeps the scanner
  contract (a scan ends, stays in the source, sets a result when it succeeds and depends on the
  scanner state only; the state survives serialization; and a scanner that claims to preserve its
  state on failure does so). The loop returns. The outcome is that of the last scan of the
  protocol: masks are tried one after the other, each from the scanner state before the call
  and from the start of the token, without the symbols rejected so far. On success the lexer and
  the scanner state are those of that scan and the token lies in the source with the right
  positions and text; on failure nothing was left to try, and the scanner state is the one before
  the call unless the scanner asks to retain it.
\<close>

theorem retry_scan_safe:
  assumes "external_scanner good view (sCreate sc) (sSerialize sc) (sDeserialize sc) (sScan sc)"
    and "preservesState sc \<longrightarrow> \<not> retainsState sc \<longrightarrow>
      (\<forall>pl l valid pl' l'. good pl \<longrightarrow> sScan sc pl l valid = Some (pl', l', False) \<longrightarrow> view pl' = view pl)"
    and "good pl" and "p \<le> length src" and "length src < 2 ^ 32"
    and "fresh = newExternalLexer src p (Row (point_at src p)) (Column (point_at src p))"
  shows "\<exists>pl' l ok q l'. runExternalScannerWithRetry sc lang dst fresh pl fresh valid = Some (pl', l, ok) \<and>
    concludes sc lang pl fresh valid q l' ok \<and>
    (if ok then l = l' \<and> view pl' = view q \<and> (\<exists>tok. lexer_token l = Some tok \<and> token_in src p tok)
     else retainsState sc \<or> view pl' = view pl)"
proof -
  have client: "scanner_client good view sc" using assms(1) by (simp add: scanner_client_def)
  have keeps: "preservesState sc \<longrightarrow> \<not> retainsState sc \<longrightarrow> scanner_client.keeps_on_failure good view sc"
    using assms(2) by (auto simp: scanner_client.keeps_on_failure_def [OF client])
  have fresh: "lexer_ok src p fresh" using assms by (simp add: newExternalLexer_def reset_lexer_ok)
  obtain pl' l ok where r: "runExternalScannerWithRetry sc lang dst fresh pl fresh valid = Some (pl', l, ok)"
    "lexer_ok src p l" "ok \<longrightarrow> hasResult l" "\<not> ok \<longrightarrow> \<not> retainsState sc \<longrightarrow> view pl' = view pl"
    using scanner_client.with_retry_ok [OF client assms(3) fresh fresh, of lang dst valid] keeps
    unfolding scanner_client.outcome_ok_def [OF client] by blast
  have "\<exists>tok. lexer_token l = Some tok \<and> token_in src p tok" if ok
  proof -
    have "\<exists>tok. lexer_token l = Some tok" using that r(3) by (auto simp: lexer_token_def split: prod.split)
    then show ?thesis using lexer_token_in(1) [OF r(2) _ assms(5)] by blast
  qed
  then show ?thesis
    using scanner_client.with_retry_concludes [OF client assms(3) fresh keeps r(1)] r(1,4) by fastforce
qed

text \<open>
  A scanner that rejects its first symbol: it counts its scans, proposes symbol 10 without
  success while it is valid, and then takes one rune as symbol 11.
\<close>

definition picky_scan :: "u8 \<Rightarrow> external_lexer \<Rightarrow> bool list \<Rightarrow> (u8 \<times> external_lexer \<times> bool) option" where
  "picky_scan n l valid =
     (if valid \<noteq> [] \<and> hd valid then Some (n + 1, SetResultSymbol 10 l, False)
      else Some (n + 1, SetResultSymbol 11 (MarkEnd (Advance False l)), True))"

definition picky_scanner :: "u8 scanner" where
  "picky_scanner =
     \<lparr>sCreate = 0, sSerialize = (\<lambda>n buf. (n # tl buf, 1)), sDeserialize = (\<lambda>_ buf. if buf = [] then 0 else hd buf),
      sScan = picky_scan, preservesState = False, retainsState = False\<rparr>"

lemma hasResult_set: "hasResult (SetResultSymbol s l)"
  by (simp add: SetResultSymbol_def)

lemma picky_contract:
  "external_scanner (\<lambda>_. True) id (sCreate picky_scanner) (sSerialize picky_scanner) (sDeserialize picky_scanner) (sScan picky_scanner)"
proof unfold_locales
  fix n l valid src p
  assume "lexer_ok src p l"
  then show "\<exists>n' l' b. sScan picky_scanner n l valid = Some (n', l', b) \<and> True \<and> lexer_ok src p l' \<and> (b \<longrightarrow> hasResult l')"
    using SetResultSymbol_ok [of src p l 10] SetResultSymbol_ok [OF MarkEnd_ok [OF Advance_ok [of src p l False]], of 11]
    by (auto simp: picky_scanner_def picky_scan_def hasResult_set)
qed (simp_all add: picky_scanner_def, auto)

lemma picky_run:
  "map_option (\<lambda>(n, l, ok). (n, resultSymbol l, ok))
     (runExternalScannerWithRetry picky_scanner (sample_language\<lparr>ExternalSymbols := [10, 11]\<rparr>) []
        (newExternalLexer [97, 98] 0 0 0) 4 (newExternalLexer [97, 98] 0 0 0) [True, True]) = Some (5, 11, True)"
  by code_simp

theorem retry_scan_safe_witness:
  "\<exists>pl' l q. runExternalScannerWithRetry picky_scanner (sample_language\<lparr>ExternalSymbols := [10, 11]\<rparr>) []
       (newExternalLexer [97, 98] 0 0 0) 4 (newExternalLexer [97, 98] 0 0 0) [True, True] = Some (pl', l, True) \<and>
     concludes picky_scanner (sample_language\<lparr>ExternalSymbols := [10, 11]\<rparr>) 4 (newExternalLexer [97, 98] 0 0 0) [True, True] q l True \<and>
     resultSymbol l = 11 \<and> (\<exists>tok. lexer_token l = Some tok \<and> token_in [97, 98] 0 tok)"
proof -
  let ?lang = "sample_language\<lparr>ExternalSymbols := [10, 11]\<rparr>" and ?l = "newExternalLexer [97, 98] 0 0 0"
  have "\<not> preservesState picky_scanner" by (simp add: picky_scanner_def)
  then obtain pl' l ok q l' where r: "runExternalScannerWithRetry picky_scanner ?lang [] ?l 4 ?l [True, True] = Some (pl', l, ok)"
    "concludes picky_scanner ?lang 4 ?l [True, True] q l' ok"
    "if ok then l = l' \<and> id pl' = id q \<and> (\<exists>tok. lexer_token l = Some tok \<and> token_in [97, 98] 0 tok)
     else retainsState picky_scanner \<or> id pl' = id 4"
    using retry_scan_safe [OF picky_contract, where pl = 4 and p = 0 and src = "[97, 98]" and fresh = ?l and lang = ?lang
        and dst = "[]" and valid = "[True, True]"] by auto
  have ok: "ok" "resultSymbol l = 11" using picky_run r(1) by auto
  then have "l' = l" "\<exists>tok. lexer_token l = Some tok \<and> token_in [97, 98] 0 tok" using r(3) by auto
  then show ?thesis using r(1,2) ok by auto
qed

end
