(* ===== verification/Lex_Minimize.thy ===== *)
theory Lex_Minimize
  imports Lexer
begin

text \<open>
  Minimization of generated lexer tables (\<open>grammargen/dfa_minimize.go\<close>): partition refinement
  over the states of all lex modes and the rewriting of states, transitions and mode starts to
  the classes. The environment switch that turns minimization off is an argument. The
  refinement loop is a partial function, \<open>None\<close> standing for a loop that does not end.
\<close>

subsection \<open>Signatures\<close>

definition appendColor :: "int \<Rightarrow> bytes" where
  "appendColor c =
     (let w = word_of_int c :: u32 in [ucast (drop_bit 24 w), ucast (drop_bit 16 w), ucast (drop_bit 8 w), ucast w])"

text \<open>Adjacent ranges with the same class of target and the same skip flag, joined: the loop
  that the signature and the final transitions share.\<close>

fun extend_run :: "nat list \<Rightarrow> rune \<Rightarrow> nat \<Rightarrow> bool \<Rightarrow> lex_transition list \<Rightarrow> rune \<times> lex_transition list" where
  "extend_run color hi tc sk [] = (hi, [])"
| "extend_run color hi tc sk (tr # trs) =
     (if Lo tr = hi + 1 \<and> color ! nat (NextState tr) = tc \<and> trSkip tr = sk
      then extend_run color (Hi tr) tc sk trs else (hi, tr # trs))"

lemma extend_run_length: "length (snd (extend_run color hi tc sk trs)) \<le> length trs"
  by (induction color hi tc sk trs rule: extend_run.induct) auto

function runs :: "nat list \<Rightarrow> lex_transition list \<Rightarrow> (rune \<times> rune \<times> nat \<times> bool) list" where
  "runs color [] = []"
| "runs color (tr # trs) =
     (let tc = color ! nat (NextState tr); r = extend_run color (Hi tr) tc (trSkip tr) trs
      in (Lo tr, fst r, tc, trSkip tr) # runs color (snd r))"
  by pat_completeness auto

termination runs
  by (relation "measure (\<lambda>(c, trs). length trs)") (auto simp: extend_run_length le_imp_less_Suc)

definition lexStateSignature :: "lex_state \<Rightarrow> nat list \<Rightarrow> bytes" where
  "lexStateSignature s color =
     (if Default s \<ge> 0 then 1 # appendColor (int (color ! nat (Default s))) else [0]) @
     (if onEOF s \<ge> 0 then 1 # appendColor (int (color ! nat (onEOF s))) else [0]) @
     concat (map (\<lambda>(lo, hi, tc, sk). appendColor lo @ appendColor hi @ appendColor (int tc) @ [if sk then 1 else 0])
       (runs color (Transitions s)))"

definition coalesceTransitions :: "lex_transition list \<Rightarrow> nat list \<Rightarrow> lex_transition list" where
  "coalesceTransitions trs color =
     map (\<lambda>(lo, hi, tc, sk). \<lparr>Lo = lo, Hi = hi, NextState = int tc, trSkip = sk\<rparr>) (runs color trs)"

subsection \<open>Partition refinement\<close>

text \<open>Numbers by first occurrence, as the maps from keys and from signatures give them.\<close>

definition first_index :: "'k \<Rightarrow> 'k list \<Rightarrow> nat" where
  "first_index k ks = length (takeWhile (\<lambda>x. x \<noteq> k) ks)"

fun number_keys :: "'k list \<Rightarrow> 'k list \<Rightarrow> nat list \<times> 'k list" where
  "number_keys [] seen = ([], seen)"
| "number_keys (k # ks) seen =
     (let seen' = (if k \<in> set seen then seen else seen @ [k]); (ids, keys) = number_keys ks seen'
      in (first_index k seen' # ids, keys))"

definition color_key :: "lex_state \<Rightarrow> u16 \<times> int \<times> bool \<times> bool \<times> bool" where
  "color_key s = (AcceptToken s, AcceptPriority s, Skip s, Default s \<ge> 0, onEOF s \<ge> 0)"

text \<open>One group of a round: the new colors, the number of colors assigned, and whether a group
  was split.\<close>

definition group_members :: "nat list \<Rightarrow> nat \<Rightarrow> nat list" where
  "group_members color c = filter (\<lambda>i. color ! i = c) [0..<length color]"

definition refine_group ::
  "lex_state list \<Rightarrow> nat list \<Rightarrow> nat \<Rightarrow> nat list \<times> nat \<times> bool \<Rightarrow> nat list \<times> nat \<times> bool" where
  "refine_group states color c acc =
     (let (newColor, assignedColor, changed) = acc; members = group_members color c in
      if members = [] then acc
      else if length members = 1 then (newColor[hd members := assignedColor], assignedColor + 1, changed)
      else
        (let (ids, sigMap) = number_keys (map (\<lambda>i. lexStateSignature (states ! i) color) members) []
         in (fold (\<lambda>(i, k) nc. nc[i := assignedColor + k]) (zip members ids) newColor,
             assignedColor + length sigMap, changed \<or> length sigMap > 1)))"

definition refine_round :: "lex_state list \<Rightarrow> nat list \<Rightarrow> nat list \<Rightarrow> nat \<Rightarrow> nat list \<times> nat \<times> bool" where
  "refine_round states color newColor numColors =
     fold (refine_group states color) [0..<numColors] (newColor, 0, False)"

partial_function (option) color_loop :: "lex_state list \<Rightarrow> nat list \<Rightarrow> nat list \<Rightarrow> nat \<Rightarrow> nat list option" where
  "color_loop states color newColor nextColor =
     (case refine_round states color newColor nextColor of (nc, assignedColor, changed) \<Rightarrow>
        if changed then color_loop states nc color assignedColor else Some nc)"

declare color_loop.simps [code]

definition computeLexStateEquivalenceColors :: "lex_state list \<Rightarrow> nat list option" where
  "computeLexStateEquivalenceColors states =
     (case number_keys (map color_key states) [] of (color, keys) \<Rightarrow>
        color_loop states color (replicate (length states) 0) (length keys))"

subsection \<open>The minimized table\<close>

definition representatives :: "nat list \<Rightarrow> nat \<Rightarrow> int list" where
  "representatives color numColors =
     fold (\<lambda>i rep. if rep ! (color ! i) = -1 then rep[color ! i := int i] else rep) [0..<length color]
       (replicate numColors (-1))"

definition class_state :: "nat list \<Rightarrow> lex_state \<Rightarrow> lex_state" where
  "class_state color s =
     \<lparr>AcceptToken = AcceptToken s, AcceptPriority = AcceptPriority s, Skip = Skip s,
      Default = if Default s \<ge> 0 then int (color ! nat (Default s)) else -1,
      onEOF = if onEOF s \<ge> 0 then int (color ! nat (onEOF s)) else -1,
      Transitions = coalesceTransitions (Transitions s) color\<rparr>"

definition minimizeLexStates :: "bool \<Rightarrow> lex_state list \<Rightarrow> int list \<Rightarrow> (lex_state list \<times> int list) option" where
  "minimizeLexStates disabled states modeOffsets =
     (if states = [] \<or> disabled then Some (states, modeOffsets)
      else
        (case computeLexStateEquivalenceColors states of
           None \<Rightarrow> None
         | Some color \<Rightarrow>
             (let numColors = foldl (\<lambda>m c. if c + 1 > m then c + 1 else m) 0 color in
              if numColors = length states then Some (states, modeOffsets)
              else
                (let rep = representatives color numColors
                 in Some (map (\<lambda>c. class_state color (states ! nat (rep ! c))) [0..<numColors],
                          map (\<lambda>off. if off \<ge> 0 \<and> off < int (length states) then int (color ! nat off) else off)
                            modeOffsets)))))"

subsection \<open>Lemmas: numbering\<close>

lemma first_index_nth: "k \<in> set ks \<Longrightarrow> first_index k ks < length ks \<and> ks ! first_index k ks = k"
proof (induction ks)
  case (Cons x ks)
  then show ?case by (cases "x = k") (auto simp: first_index_def)
qed simp

lemma first_index_append: "k \<in> set ks \<Longrightarrow> first_index k (ks @ zs) = first_index k ks"
  unfolding first_index_def by (induction ks) auto

lemma number_keys_spec:
  assumes "distinct seen" and "number_keys ks seen = (ids, keys)"
  shows "(\<exists>new. keys = seen @ new) \<and> distinct keys \<and> set keys = set seen \<union> set ks \<and>
    ids = map (\<lambda>k. first_index k keys) ks"
  using assms
proof (induction ks arbitrary: seen ids)
  case (Cons k ks)
  define seen' where "seen' = (if k \<in> set seen then seen else seen @ [k])"
  obtain ids' where ids': "number_keys ks seen' = (ids', keys)" "ids = first_index k seen' # ids'"
    using Cons.prems(2) by (auto simp: seen'_def Let_def split: prod.splits)
  have "distinct seen'" using Cons.prems(1) by (simp add: seen'_def)
  from Cons.IH [OF this ids'(1)] obtain new where new: "keys = seen' @ new" "distinct keys" "set keys = set seen' \<union> set ks"
    "ids' = map (\<lambda>k. first_index k keys) ks" by blast
  have "k \<in> set seen'" by (simp add: seen'_def)
  then have "first_index k seen' = first_index k keys" using first_index_append new(1) by metis
  moreover have "\<exists>new. keys = seen @ new" using new(1) by (auto simp: seen'_def)
  ultimately show ?case using new ids'(2) by (auto simp: seen'_def)
qed auto

lemma number_keys_start:
  assumes "number_keys ks [] = (ids, keys)"
  shows "length ids = length ks" "set ids = {0..<length keys}" "distinct keys" "set keys = set ks"
    "i < length ks \<Longrightarrow> j < length ks \<Longrightarrow> ids ! i = ids ! j \<longleftrightarrow> ks ! i = ks ! j"
    "i < length ks \<Longrightarrow> ids ! i < length keys"
proof -
  have k: "distinct keys" "set keys = set ks" "ids = map (\<lambda>k. first_index k keys) ks"
    using number_keys_spec [of "[]", OF _ assms] by auto
  have at: "first_index x keys < length keys \<and> keys ! first_index x keys = x" if "x \<in> set ks" for x
    using first_index_nth [of x keys] that k(2) by simp
  show "length ids = length ks" "distinct keys" "set keys = set ks" using k by simp_all
  show "i < length ks \<Longrightarrow> ids ! i < length keys" using at k(3) by simp
  show "ids ! i = ids ! j \<longleftrightarrow> ks ! i = ks ! j" if "i < length ks" "j < length ks"
    using that at k(3) by (metis nth_map nth_mem)
  show "set ids = {0..<length keys}"
  proof
    show "set ids \<subseteq> {0..<length keys}" using at k(3) by auto
    show "{0..<length keys} \<subseteq> set ids"
    proof
      fix m assume "m \<in> {0..<length keys}"
      then have m: "m < length keys" by simp
      then have "keys ! m \<in> set ks" using k(2) nth_mem by metis
      moreover from this have "first_index (keys ! m) keys = m" using at k(1) m by (metis nth_eq_iff_index_eq)
      ultimately show "m \<in> set ids" unfolding k(3) by (metis imageI list.set_map)
    qed
  qed
qed

subsection \<open>Lemmas: one round\<close>

lemma fold_assign:
  "length xs = length ids \<Longrightarrow> distinct xs \<Longrightarrow> \<forall>x \<in> set xs. x < length nc \<Longrightarrow>
     length (fold (\<lambda>(i, k) nc. nc[i := a + k]) (zip xs ids) nc) = length nc \<and>
     (\<forall>j < length xs. fold (\<lambda>(i, k) nc. nc[i := a + k]) (zip xs ids) nc ! (xs ! j) = a + ids ! j) \<and>
     (\<forall>i. i \<notin> set xs \<longrightarrow> fold (\<lambda>(i, k) nc. nc[i := a + k]) (zip xs ids) nc ! i = nc ! i)"
proof (induction xs ids arbitrary: nc rule: list_induct2)
  case (Cons x xs k ids)
  let ?f = "fold (\<lambda>(i, k) nc. nc[i := a + k]) (zip xs ids)"
  have IH: "length (?f (nc[x := a + k])) = length nc"
    "\<forall>j < length xs. ?f (nc[x := a + k]) ! (xs ! j) = a + ids ! j"
    "\<forall>i. i \<notin> set xs \<longrightarrow> ?f (nc[x := a + k]) ! i = nc[x := a + k] ! i"
    using Cons.IH [of "nc[x := a + k]"] Cons.prems by simp_all
  then show ?case using Cons.prems by (auto simp: nth_Cons' split: if_splits)
qed simp

lemma set_group_members [simp]: "i \<in> set (group_members color c) \<longleftrightarrow> i < length color \<and> color ! i = c"
  by (auto simp: group_members_def)

lemma distinct_group_members [simp]: "distinct (group_members color c)"
  by (simp add: group_members_def)

lemma refine_group_general:
  assumes "group_members color c \<noteq> []"
    and "number_keys (map (\<lambda>i. lexStateSignature (states ! i) color) (group_members color c)) [] = (ids, sigMap)"
  shows "refine_group states color c (nc, a, ch) =
    (fold (\<lambda>(i, k) nc. nc[i := a + k]) (zip (group_members color c) ids) nc, a + length sigMap, ch \<or> length sigMap > 1)"
proof (cases "length (group_members color c) = 1")
  case True
  then obtain i where i: "group_members color c = [i]" by (metis One_nat_def length_0_conv length_Suc_conv)
  then have "ids = [0]" "sigMap = [lexStateSignature (states ! i) color]" using assms(2) by (auto simp: first_index_def)
  then show ?thesis using i by (simp add: refine_group_def)
next
  case False
  then show ?thesis using assms by (simp add: refine_group_def)
qed

text \<open>After the groups below \<open>m\<close>: the new colors split the old ones by signature, without gaps.\<close>

definition split_ok :: "lex_state list \<Rightarrow> nat list \<Rightarrow> nat \<Rightarrow> nat list \<times> nat \<times> bool \<Rightarrow> bool" where
  "split_ok states color m acc \<longleftrightarrow>
     (case acc of (nc, a, ch) \<Rightarrow>
        length nc = length color \<and>
        (\<forall>i < length color. color ! i < m \<longrightarrow> nc ! i < a) \<and>
        (\<forall>i < length color. \<forall>j < length color. color ! i < m \<longrightarrow> color ! j < m \<longrightarrow>
          (nc ! i = nc ! j \<longleftrightarrow> color ! i = color ! j \<and> lexStateSignature (states ! i) color = lexStateSignature (states ! j) color)) \<and>
        (\<forall>v < a. \<exists>i < length color. color ! i < m \<and> nc ! i = v) \<and>
        m \<le> a \<and> (ch \<longrightarrow> m < a) \<and> (\<not> ch \<longrightarrow> a = m \<and> (\<forall>i < length color. color ! i < m \<longrightarrow> nc ! i = color ! i)))"

lemma split_ok_step:
  assumes inv: "split_ok states color m (nc, a, ch)" and "\<exists>i < length color. color ! i = m"
  shows "split_ok states color (Suc m) (refine_group states color m (nc, a, ch))"
proof -
  define ms where "ms = group_members color m"
  define sig where "sig = (\<lambda>i. lexStateSignature (states ! i) color)"
  obtain ids sigMap where num: "number_keys (map sig ms) [] = (ids, sigMap)" by fastforce
  have ms: "i \<in> set ms \<longleftrightarrow> i < length color \<and> color ! i = m" "distinct ms" for i by (simp_all add: ms_def)
  then have ne: "ms \<noteq> []" using assms(2) by (metis empty_iff empty_set)
  note nk = number_keys_start [OF num]
  have len: "length ids = length ms" using nk(1) by simp
  have pos: "0 < length sigMap" using nk(4) ne by auto
  define nc' where "nc' = fold (\<lambda>(i, k) nc. nc[i := a + k]) (zip ms ids) nc"
  have step: "refine_group states color m (nc, a, ch) = (nc', a + length sigMap, ch \<or> length sigMap > 1)"
    using refine_group_general [of color m states ids sigMap nc a ch] ne num by (simp add: ms_def nc'_def sig_def)
  have I: "length nc = length color" "\<And>i. i < length color \<Longrightarrow> color ! i < m \<Longrightarrow> nc ! i < a"
    "\<And>i j. i < length color \<Longrightarrow> j < length color \<Longrightarrow> color ! i < m \<Longrightarrow> color ! j < m \<Longrightarrow>
      nc ! i = nc ! j \<longleftrightarrow> color ! i = color ! j \<and> sig i = sig j"
    "\<And>v. v < a \<Longrightarrow> \<exists>i < length color. color ! i < m \<and> nc ! i = v" "m \<le> a" "ch \<Longrightarrow> m < a"
    "\<not> ch \<Longrightarrow> a = m" "\<And>i. \<not> ch \<Longrightarrow> i < length color \<Longrightarrow> color ! i < m \<Longrightarrow> nc ! i = color ! i"
    using inv by (simp_all add: split_ok_def sig_def)
  have f: "length nc' = length nc" "\<And>j. j < length ms \<Longrightarrow> nc' ! (ms ! j) = a + ids ! j" "\<And>i. i \<notin> set ms \<Longrightarrow> nc' ! i = nc ! i"
    using fold_assign [of ms ids nc a] len ms I(1) by (simp_all add: nc'_def)
  have old: "nc' ! i = nc ! i" if "color ! i < m" for i using f(3) [of i] ms(1) [of i] that by auto
  have new: "\<exists>j < length ms. ms ! j = i \<and> nc' ! i = a + ids ! j" if "i < length color" "color ! i = m" for i
    using that ms(1) [of i] f(2) by (metis in_set_conv_nth)
  have A: "nc' ! i < a + length sigMap" if i: "i < length color" "color ! i < Suc m" for i
  proof (cases "color ! i = m")
    case True
    then obtain j where "j < length ms" "nc' ! i = a + ids ! j" using new [OF i(1)] by blast
    then show ?thesis using nk(6) [of j] by simp
  next
    case False
    then show ?thesis using old [of i] I(2) [of i] i by simp
  qed
  have B: "nc' ! i = nc' ! j \<longleftrightarrow> color ! i = color ! j \<and> sig i = sig j"
    if ij: "i < length color" "j < length color" "color ! i < Suc m" "color ! j < Suc m" for i j
  proof -
    consider "color ! i < m" "color ! j < m" | "color ! i < m" "color ! j = m" | "color ! i = m" "color ! j < m"
      | (both) "color ! i = m" "color ! j = m" using ij by linarith
    then show ?thesis
    proof cases
      case 1
      then show ?thesis using old I(3) ij by simp
    next
      case 2
      then have "nc' ! i < a" using old I(2) ij(1) by simp
      moreover have "a \<le> nc' ! j" using new [OF ij(2) 2(2)] by auto
      ultimately show ?thesis using 2 by simp
    next
      case 3
      then have "nc' ! j < a" using old I(2) ij(2) by simp
      moreover have "a \<le> nc' ! i" using new [OF ij(1) 3(1)] by auto
      ultimately show ?thesis using 3 by simp
    next
      case both
      obtain x y where "x < length ms" "ms ! x = i" "nc' ! i = a + ids ! x" "y < length ms" "ms ! y = j" "nc' ! j = a + ids ! y"
        using new [OF ij(1) both(1)] new [OF ij(2) both(2)] by blast
      then show ?thesis using nk(5) [of x y] both by auto
    qed
  qed
  have C: "\<exists>i < length color. color ! i < Suc m \<and> nc' ! i = v" if v: "v < a + length sigMap" for v
  proof (cases "v < a")
    case True
    then obtain i where "i < length color" "color ! i < m" "nc ! i = v" using I(4) by blast
    then show ?thesis using old less_SucI by metis
  next
    case False
    then have "v - a \<in> set ids" using nk(2) v by auto
    then obtain j where j: "j < length ms" "ids ! j = v - a" using len by (metis in_set_conv_nth)
    then have "ms ! j < length color" "color ! (ms ! j) = m" using ms(1) nth_mem by blast+
    then show ?thesis using f(2) [OF j(1)] j(2) False by (intro exI [of _ "ms ! j"]) simp
  qed
  have D: "nc' ! i = color ! i" if i: "\<not> ch" "length sigMap \<le> 1" "i < length color" "color ! i < Suc m" for i
  proof (cases "color ! i = m")
    case True
    then obtain j where "j < length ms" "nc' ! i = a + ids ! j" using new [OF i(3)] by blast
    then show ?thesis using nk(6) [of j] i(1,2) I(7) True by simp
  next
    case False
    then show ?thesis using old [of i] I(8) [of i] i by simp
  qed
  have one: "\<not> Suc 0 < length sigMap \<Longrightarrow> length sigMap = Suc 0" using pos by linarith
  have grow: "Suc m \<le> a + length sigMap" "m < a \<Longrightarrow> Suc m < a + length sigMap" "Suc 0 < length sigMap \<Longrightarrow> Suc m < a + length sigMap"
    using pos I(5) by linarith+
  show ?thesis
    unfolding step split_ok_def
    using A B C D I(1,5-7) f(1) one grow by (auto simp: sig_def)
qed

lemma refine_round_ok:
  assumes "\<forall>c < numColors. \<exists>i < length color. color ! i = c" and "length nc = length color"
  shows "split_ok states color numColors (refine_round states color nc numColors)"
  using assms(1)
proof (induction numColors)
  case 0
  then show ?case using assms(2) by (simp add: refine_round_def split_ok_def)
next
  case (Suc k)
  then have IH: "split_ok states color k (refine_round states color nc k)" by simp
  obtain a b c where r: "refine_round states color nc k = (a, b, c)" by (cases "refine_round states color nc k")
  have "refine_round states color nc (Suc k) = refine_group states color k (a, b, c)"
    using r by (simp add: refine_round_def)
  then show ?case using split_ok_step [of states color k a b c] IH r Suc.prems by simp
qed

subsection \<open>Lemmas: the fixed point\<close>

definition gapless :: "nat list \<Rightarrow> nat \<Rightarrow> bool" where
  "gapless color k \<longleftrightarrow> (\<forall>i < length color. color ! i < k) \<and> (\<forall>c < k. \<exists>i < length color. color ! i = c)"

lemma gapless_le: "gapless color k \<Longrightarrow> k \<le> length color"
proof -
  assume "gapless color k"
  then have "{0..<k} \<subseteq> (\<lambda>i. color ! i) ` {0..<length color}" by (force simp: gapless_def)
  then have "card {0..<k} \<le> card {0..<length color}" by (rule surj_card_le [rotated]) simp
  then show ?thesis by simp
qed

text \<open>States of one class look alike and, class by class, go to the same places.\<close>

definition color_stable :: "lex_state list \<Rightarrow> nat list \<Rightarrow> bool" where
  "color_stable states color \<longleftrightarrow>
     (\<forall>i < length states. \<forall>j < length states. color ! i = color ! j \<longrightarrow>
        color_key (states ! i) = color_key (states ! j) \<and>
        lexStateSignature (states ! i) color = lexStateSignature (states ! j) color)"

lemma color_loop_stable:
  assumes "gapless color k" and "length color = length states" and "length nc = length states"
    and "\<forall>i < length states. \<forall>j < length states. color ! i = color ! j \<longrightarrow> color_key (states ! i) = color_key (states ! j)"
  shows "\<exists>F k'. color_loop states color nc k = Some F \<and> length F = length states \<and> gapless F k' \<and> color_stable states F"
  using assms
proof (induction "length states - k" arbitrary: color nc k rule: less_induct)
  case less
  obtain nc' a ch where r: "refine_round states color nc k = (nc', a, ch)" by (cases "refine_round states color nc k")
  have "split_ok states color k (nc', a, ch)"
    using refine_round_ok [of k color nc states] less.prems r by (simp add: gapless_def)
  then have S: "length nc' = length color" "\<And>i. i < length color \<Longrightarrow> nc' ! i < a"
    "\<And>i j. i < length color \<Longrightarrow> j < length color \<Longrightarrow>
      nc' ! i = nc' ! j \<longleftrightarrow> color ! i = color ! j \<and> lexStateSignature (states ! i) color = lexStateSignature (states ! j) color"
    "\<And>v. v < a \<Longrightarrow> \<exists>i < length color. nc' ! i = v" "ch \<Longrightarrow> k < a" "\<And>i. \<not> ch \<Longrightarrow> i < length color \<Longrightarrow> nc' ! i = color ! i"
    using less.prems(1) unfolding split_ok_def gapless_def by auto
  have gap: "gapless nc' a" using S(1,2,4) by (simp add: gapless_def)
  have keys: "\<forall>i < length states. \<forall>j < length states. nc' ! i = nc' ! j \<longrightarrow> color_key (states ! i) = color_key (states ! j)"
  proof (intro allI impI)
    fix i j assume ij: "i < length states" "j < length states" "nc' ! i = nc' ! j"
    then have "color ! i = color ! j" using S(3) [of i j] less.prems(2) by simp
    then show "color_key (states ! i) = color_key (states ! j)" using less.prems(4) ij(1,2) by blast
  qed
  show ?case
  proof (cases ch)
    case True
    have "k < a" "a \<le> length states" using S(1,5) True gapless_le [OF gap] less.prems(2) by simp_all
    then have "length states - a < length states - k" by linarith
    moreover have "color_loop states color nc k = color_loop states nc' color a"
      by (subst color_loop.simps) (simp add: r True)
    ultimately show ?thesis using less.hyps [OF _ gap _ _ keys, of color] S(1) less.prems(2) by (simp only: )
  next
    case False
    then have "nc' = color" using S(1,6) by (intro nth_equalityI) auto
    then have "color_stable states nc'" unfolding color_stable_def using S(3) keys less.prems(2) by metis
    moreover have "color_loop states color nc k = Some nc'" by (subst color_loop.simps) (simp add: r False)
    ultimately show ?thesis using S(1) gap less.prems(2) by metis
  qed
qed

lemma colors_stable:
  "\<exists>F k. computeLexStateEquivalenceColors states = Some F \<and> length F = length states \<and> gapless F k \<and> color_stable states F"
proof -
  obtain color keys where num: "number_keys (map color_key states) [] = (color, keys)" by fastforce
  note nk = number_keys_start [OF num]
  have len: "length color = length states" using nk(1) by simp
  have "gapless color (length keys)"
    unfolding gapless_def using nk(2,6) len by (metis atLeastLessThan_iff in_set_conv_nth length_map zero_le)
  then show ?thesis
    unfolding computeLexStateEquivalenceColors_def num prod.case
    by (rule color_loop_stable) (use nk(5) len in auto)
qed

subsection \<open>Lemmas: signatures\<close>

text \<open>Tables with state numbers in range (a negative default or end-of-input target is an absent
  one) and with ranges of runes.\<close>

definition valid_table :: "lex_state list \<Rightarrow> bool" where
  "valid_table states \<longleftrightarrow>
     int (length states) < 0x7FFFFFFF \<and>
     (\<forall>st \<in> set states. Default st < int (length states) \<and> onEOF st < int (length states) \<and>
        (\<forall>tr \<in> set (Transitions st). 0 \<le> NextState tr \<and> NextState tr < int (length states) \<and>
           0 \<le> Lo tr \<and> Lo tr \<le> Hi tr \<and> Hi tr < 2 ^ 31))"

lemma appendColor_inj:
  assumes "appendColor a = appendColor b" and "- (2 ^ 31) \<le> a" and "a < 2 ^ 31" and "- (2 ^ 31) \<le> b" and "b < 2 ^ 31"
  shows "a = b"
proof -
  define v w :: u32 where "v = word_of_int a" and "w = word_of_int b"
  have eq: "ucast (drop_bit 24 v) = (ucast (drop_bit 24 w) :: u8)" "ucast (drop_bit 16 v) = (ucast (drop_bit 16 w) :: u8)"
    "ucast (drop_bit 8 v) = (ucast (drop_bit 8 w) :: u8)" "ucast v = (ucast w :: u8)"
    using assms(1) by (simp_all add: appendColor_def Let_def v_def w_def)
  have at: "bit v (k + m) = bit w (k + m)" if "ucast (drop_bit k v) = (ucast (drop_bit k w) :: u8)" "m < 8" for k m
    using arg_cong [OF that(1), of "\<lambda>x. bit x m"] that(2) by (simp add: bit_simps)
  have "bit v n = bit w n" if n: "n < 32" for n
  proof -
    consider "n < 8" | "8 \<le> n" "n < 16" | "16 \<le> n" "n < 24" | "24 \<le> n" "n < 32" using n by linarith
    then show ?thesis
    proof cases
      case 1
      then show ?thesis using at [of 0 n] eq(4) by simp
    next
      case 2
      then show ?thesis using at [of 8 "n - 8"] eq(3) by simp
    next
      case 3
      then show ?thesis using at [of 16 "n - 16"] eq(2) by simp
    next
      case 4
      then show ?thesis using at [of 24 "n - 24"] eq(1) by simp
    qed
  qed
  then have "v = w" by (intro bit_word_eqI) simp
  then have "go_int32 a = go_int32 b" by (simp add: go_int32_def v_def w_def)
  then show ?thesis using go_int32_id assms(2-5) by metis
qed

lemma length_appendColor [simp]: "length (appendColor c) = 4"
  by (simp add: appendColor_def Let_def)

definition run_bytes :: "rune \<times> rune \<times> nat \<times> bool \<Rightarrow> bytes" where
  "run_bytes = (\<lambda>(lo, hi, tc, sk). appendColor lo @ appendColor hi @ appendColor (int tc) @ [if sk then 1 else 0])"

definition run_ok :: "rune \<times> rune \<times> nat \<times> bool \<Rightarrow> bool" where
  "run_ok = (\<lambda>(lo, hi, tc, sk). 0 \<le> lo \<and> lo < 2 ^ 31 \<and> 0 \<le> hi \<and> hi < 2 ^ 31 \<and> int tc < 2 ^ 31)"

lemma run_bytes_inj:
  assumes "run_bytes r @ xs = run_bytes s @ ys" and "run_ok r" and "run_ok s"
  shows "r = s \<and> xs = ys"
proof -
  obtain lo hi tc sk where r: "r = (lo, hi, tc, sk)" by (cases r)
  obtain lo' hi' tc' sk' where s: "s = (lo', hi', tc', sk')" by (cases s)
  have "appendColor lo = appendColor lo' \<and> appendColor hi = appendColor hi' \<and> appendColor (int tc) = appendColor (int tc') \<and>
      sk = sk' \<and> xs = ys"
    using assms(1) by (simp add: r s run_bytes_def append_eq_append_conv split: if_splits)
  moreover from this have "lo = lo'" "hi = hi'" "int tc = int tc'"
    using assms(2,3) unfolding r s run_ok_def by (intro appendColor_inj; simp)+
  ultimately show ?thesis by (simp add: r s)
qed

lemma length_run_bytes [simp]: "run_bytes r \<noteq> []"
  by (cases r) (simp add: run_bytes_def)

lemma concat_run_bytes_inj:
  "concat (map run_bytes rs) = concat (map run_bytes ss) \<Longrightarrow> \<forall>r \<in> set rs. run_ok r \<Longrightarrow> \<forall>s \<in> set ss. run_ok s \<Longrightarrow> rs = ss"
proof (induction rs arbitrary: ss)
  case Nil
  then show ?case by (cases ss) auto
next
  case (Cons r rs)
  then obtain s ss' where ss: "ss = s # ss'" by (cases ss) auto
  then have "r = s \<and> concat (map run_bytes rs) = concat (map run_bytes ss')" using Cons.prems by (intro run_bytes_inj) auto
  then show ?case using Cons ss by simp
qed

lemma extend_run_parts:
  "fst (extend_run color hi tc sk trs) \<in> {hi} \<union> Hi ` set trs" "set (snd (extend_run color hi tc sk trs)) \<subseteq> set trs"
  by (induction color hi tc sk trs rule: extend_run.induct) auto

lemma runs_ok:
  assumes "\<forall>tr \<in> set trs. 0 \<le> Lo tr \<and> Lo tr \<le> Hi tr \<and> Hi tr < 2 ^ 31 \<and> int (color ! nat (NextState tr)) < 2 ^ 31"
  shows "\<forall>r \<in> set (runs color trs). run_ok r"
  using assms
proof (induction color trs rule: runs.induct)
  case (2 color tr trs)
  let ?r = "extend_run color (Hi tr) (color ! nat (NextState tr)) (trSkip tr) trs"
  have parts: "fst ?r \<in> {Hi tr} \<union> Hi ` set trs" "set (snd ?r) \<subseteq> set trs"
    using extend_run_parts [where trs = trs] by blast+
  then have "0 \<le> fst ?r \<and> fst ?r < 2 ^ 31" using 2(2) by fastforce
  moreover have "0 \<le> Lo tr" "Lo tr < 2 ^ 31" "int (color ! nat (NextState tr)) < 2 ^ 31" using 2(2) by force+
  moreover have "\<forall>r \<in> set (runs color (snd ?r)). run_ok r" using 2(1) [OF refl refl] 2(2) parts(2) by (meson list.set_intros(2) subsetD)
  ultimately show ?case by (simp add: Let_def run_ok_def)
qed simp

definition target_bytes :: "nat list \<Rightarrow> int \<Rightarrow> bytes" where
  "target_bytes color q = (if q \<ge> 0 then 1 # appendColor (int (color ! nat q)) else [0])"

lemma target_bytes_inj:
  assumes "target_bytes color q @ xs = target_bytes color r @ ys"
    and "q \<ge> 0 \<Longrightarrow> int (color ! nat q) < 2 ^ 31" "r \<ge> 0 \<Longrightarrow> int (color ! nat r) < 2 ^ 31"
  shows "xs = ys" "(q \<ge> 0) = (r \<ge> 0)" "q \<ge> 0 \<Longrightarrow> color ! nat q = color ! nat r"
proof -
  show same: "(q \<ge> 0) = (r \<ge> 0)" using assms(1) by (auto simp: target_bytes_def split: if_splits)
  then show "xs = ys" using assms(1) by (auto simp: target_bytes_def split: if_splits)
  assume "q \<ge> 0"
  then have "appendColor (int (color ! nat q)) = appendColor (int (color ! nat r))"
    using assms(1) same by (simp add: target_bytes_def)
  then have "int (color ! nat q) = int (color ! nat r)"
    using assms(2,3) \<open>q \<ge> 0\<close> same by (intro appendColor_inj) auto
  then show "color ! nat q = color ! nat r" by simp
qed

lemma signature_runs:
  assumes "lexStateSignature s color = lexStateSignature t color"
    and "\<forall>r \<in> set (runs color (Transitions s)). run_ok r" "\<forall>r \<in> set (runs color (Transitions t)). run_ok r"
    and "Default s \<ge> 0 \<Longrightarrow> int (color ! nat (Default s)) < 2 ^ 31" "Default t \<ge> 0 \<Longrightarrow> int (color ! nat (Default t)) < 2 ^ 31"
    and "onEOF s \<ge> 0 \<Longrightarrow> int (color ! nat (onEOF s)) < 2 ^ 31" "onEOF t \<ge> 0 \<Longrightarrow> int (color ! nat (onEOF t)) < 2 ^ 31"
  shows "runs color (Transitions s) = runs color (Transitions t)"
    "(Default s \<ge> 0) = (Default t \<ge> 0)" "Default s \<ge> 0 \<Longrightarrow> color ! nat (Default s) = color ! nat (Default t)"
    "(onEOF s \<ge> 0) = (onEOF t \<ge> 0)" "onEOF s \<ge> 0 \<Longrightarrow> color ! nat (onEOF s) = color ! nat (onEOF t)"
proof -
  have sig: "lexStateSignature u color = target_bytes color (Default u) @ target_bytes color (onEOF u) @
      concat (map run_bytes (runs color (Transitions u)))" for u
    by (simp add: lexStateSignature_def run_bytes_def target_bytes_def)
  note d = target_bytes_inj [OF assms(1) [unfolded sig] assms(4,5)]
  note e = target_bytes_inj [OF d(1) assms(6,7)]
  show "(Default s \<ge> 0) = (Default t \<ge> 0)" "Default s \<ge> 0 \<Longrightarrow> color ! nat (Default s) = color ! nat (Default t)" using d(2,3) by blast+
  show "(onEOF s \<ge> 0) = (onEOF t \<ge> 0)" "onEOF s \<ge> 0 \<Longrightarrow> color ! nat (onEOF s) = color ! nat (onEOF t)" using e(2,3) by blast+
  show "runs color (Transitions s) = runs color (Transitions t)" using concat_run_bytes_inj [OF e(1) assms(2,3)] .
qed

subsection \<open>Lemmas: classes behave like their states\<close>

definition to_class :: "nat list \<Rightarrow> int \<times> bool \<Rightarrow> int \<times> bool" where
  "to_class color = (\<lambda>(n, sk). (if n < 0 then n else int (color ! nat n), sk))"

lemma extend_run_match:
  assumes "lo \<le> hi + 1" and "\<forall>tr \<in> set trs. 0 \<le> NextState tr \<and> NextState tr < 2 ^ 31 \<and> Lo tr \<le> Hi tr"
  shows "(if lo \<le> r \<and> r \<le> hi then (int tc, sk) else to_class color (match_transition trs r)) =
    (if lo \<le> r \<and> r \<le> fst (extend_run color hi tc sk trs) then (int tc, sk)
     else to_class color (match_transition (snd (extend_run color hi tc sk trs)) r))"
  using assms
proof (induction color hi tc sk trs rule: extend_run.induct)
  case (2 color hi tc sk tr trs)
  show ?case
  proof (cases "Lo tr = hi + 1 \<and> color ! nat (NextState tr) = tc \<and> trSkip tr = sk")
    case True
    have "go_int32 (NextState tr) = NextState tr" "0 \<le> NextState tr" "hi + 1 \<le> Hi tr"
      using 2(3) True by (auto intro!: go_int32_id)
    then have "(if lo \<le> r \<and> r \<le> hi then (int tc, sk) else to_class color (match_transition (tr # trs) r)) =
        (if lo \<le> r \<and> r \<le> Hi tr then (int tc, sk) else to_class color (match_transition trs r))"
      using True 2(2) by (auto simp: to_class_def)
    moreover have "extend_run color hi tc sk (tr # trs) = extend_run color (Hi tr) tc sk trs" using True by simp
    moreover have "lo \<le> Hi tr + 1" "\<forall>x \<in> set trs. 0 \<le> NextState x \<and> NextState x < 2 ^ 31 \<and> Lo x \<le> Hi x"
      using 2(2,3) \<open>hi + 1 \<le> Hi tr\<close> by simp_all
    ultimately show ?thesis using 2(1) [OF True] by (simp only: )
  next
    case False
    then show ?thesis by (simp only: extend_run.simps if_False fst_conv snd_conv)
  qed
qed simp

lemma coalesce_match:
  assumes "\<forall>tr \<in> set trs. 0 \<le> NextState tr \<and> NextState tr < 2 ^ 31 \<and> Lo tr \<le> Hi tr \<and> int (color ! nat (NextState tr)) < 2 ^ 31"
  shows "match_transition (coalesceTransitions trs color) r = to_class color (match_transition trs r)"
  using assms
proof (induction color trs rule: runs.induct)
  case (1 color)
  then show ?case by (simp add: coalesceTransitions_def to_class_def)
next
  case (2 color tr trs)
  define tc where "tc = color ! nat (NextState tr)"
  let ?r = "extend_run color (Hi tr) tc (trSkip tr) trs"
  have tr: "0 \<le> NextState tr" "NextState tr < 2 ^ 31" "Lo tr \<le> Hi tr" "int tc < 2 ^ 31" using 2(2) by (simp_all add: tc_def)
  have "\<forall>x \<in> set (snd ?r). 0 \<le> NextState x \<and> NextState x < 2 ^ 31 \<and> Lo x \<le> Hi x \<and> int (color ! nat (NextState x)) < 2 ^ 31"
    using 2(2) extend_run_parts(2) [of color "Hi tr" tc "trSkip tr" trs] by auto
  then have IH: "match_transition (coalesceTransitions (snd ?r) color) r = to_class color (match_transition (snd ?r) r)"
    using 2(1) [OF refl refl] by (simp add: tc_def)
  have runs: "coalesceTransitions (tr # trs) color =
      \<lparr>Lo = Lo tr, Hi = fst ?r, NextState = int tc, trSkip = trSkip tr\<rparr> # coalesceTransitions (snd ?r) color"
    by (simp add: coalesceTransitions_def Let_def tc_def)
  have "go_int32 (int tc) = int tc" using tr(4) by (intro go_int32_id) simp_all
  then have "match_transition (coalesceTransitions (tr # trs) color) r =
      (if Lo tr \<le> r \<and> r \<le> fst ?r then (int tc, trSkip tr) else to_class color (match_transition (snd ?r) r))"
    by (simp add: runs IH)
  also have "\<dots> = (if Lo tr \<le> r \<and> r \<le> Hi tr then (int tc, trSkip tr) else to_class color (match_transition trs r))"
    using extend_run_match [of "Lo tr" "Hi tr" trs r tc "trSkip tr" color] tr(3) 2(2) by simp
  also have "\<dots> = to_class color (match_transition (tr # trs) r)"
    using go_int32_id [of "NextState tr"] tr(1,2) by (simp add: to_class_def tc_def)
  finally show ?case .
qed

text \<open>The facts about the classes of a table that the rest uses.\<close>

definition classes_ok :: "lex_state list \<Rightarrow> nat list \<Rightarrow> nat \<Rightarrow> bool" where
  "classes_ok states color k \<longleftrightarrow> valid_table states \<and> length color = length states \<and> gapless color k \<and> color_stable states color"

lemma classes_bound:
  assumes "classes_ok states color k" and "0 \<le> q" and "q < int (length states)"
  shows "int (color ! nat q) < int k" "int k \<le> int (length states)" "int (length states) < 0x7FFFFFFF"
  using assms gapless_le [of color k] by (auto simp: classes_ok_def gapless_def valid_table_def)

lemma state_valid:
  assumes "classes_ok states color k" and "i < length states"
  shows "Default (states ! i) < int (length states)" "onEOF (states ! i) < int (length states)"
    and "\<forall>tr \<in> set (Transitions (states ! i)). 0 \<le> NextState tr \<and> NextState tr < int (length states) \<and>
      0 \<le> Lo tr \<and> Lo tr \<le> Hi tr \<and> Hi tr < 2 ^ 31 \<and> int (color ! nat (NextState tr)) < 2 ^ 31"
    and "Default (states ! i) \<ge> 0 \<Longrightarrow> int (color ! nat (Default (states ! i))) < 2 ^ 31"
    and "onEOF (states ! i) \<ge> 0 \<Longrightarrow> int (color ! nat (onEOF (states ! i))) < 2 ^ 31"
proof -
  have st: "states ! i \<in> set states" using assms(2) by simp
  then show d: "Default (states ! i) < int (length states)" "onEOF (states ! i) < int (length states)"
    using assms(1) by (auto simp: classes_ok_def valid_table_def)
  have small: "int (color ! nat q) < 2 ^ 31" if "0 \<le> q" "q < int (length states)" for q
    using classes_bound [OF assms(1) that] by simp
  then show "Default (states ! i) \<ge> 0 \<Longrightarrow> int (color ! nat (Default (states ! i))) < 2 ^ 31"
    "onEOF (states ! i) \<ge> 0 \<Longrightarrow> int (color ! nat (onEOF (states ! i))) < 2 ^ 31" using d by blast+
  show "\<forall>tr \<in> set (Transitions (states ! i)). 0 \<le> NextState tr \<and> NextState tr < int (length states) \<and>
      0 \<le> Lo tr \<and> Lo tr \<le> Hi tr \<and> Hi tr < 2 ^ 31 \<and> int (color ! nat (NextState tr)) < 2 ^ 31"
    using st assms(1) small by (auto simp: classes_ok_def valid_table_def)
qed

lemma class_state_eq:
  assumes "classes_ok states color k" and "i < length states" and "j < length states" and "color ! i = color ! j"
  shows "class_state color (states ! i) = class_state color (states ! j)"
proof -
  have key: "color_key (states ! i) = color_key (states ! j)"
    and sig: "lexStateSignature (states ! i) color = lexStateSignature (states ! j) color"
    using assms unfolding classes_ok_def color_stable_def by blast+
  have runs: "\<forall>r \<in> set (runs color (Transitions (states ! m))). run_ok r" if "m < length states" for m
    using state_valid(3) [OF assms(1) that] by (intro runs_ok) auto
  note s = signature_runs [OF sig runs [OF assms(2)] runs [OF assms(3)]
      state_valid(4) [OF assms(1,2)] state_valid(4) [OF assms(1,3)] state_valid(5) [OF assms(1,2)] state_valid(5) [OF assms(1,3)]]
  show ?thesis
    using key s by (auto simp: class_state_def coalesceTransitions_def color_key_def)
qed

lemma class_next:
  assumes "classes_ok states color k" and "i < length states"
  shows "next_transition None q' (class_state color (states ! i)) b r = to_class color (next_transition None q (states ! i) b r)"
    and "next_transition None q (states ! i) b r = (n, sk) \<Longrightarrow> n < int (length states)"
proof -
  note v = state_valid [OF assms]
  have small: "NextState tr < 2 ^ 31" if "tr \<in> set (Transitions (states ! i))" for tr
    using v(3) that classes_bound(3) [OF assms(1), of 0] assms(2) by fastforce
  have m: "match_transition (coalesceTransitions (Transitions (states ! i)) color) r = to_class color (match_transition (Transitions (states ! i)) r)"
    using v(3) small by (intro coalesce_match) auto
  obtain n0 sk0 where n0: "match_transition (Transitions (states ! i)) r = (n0, sk0)" by fastforce
  have d: "go_int32 (Default (states ! i)) = Default (states ! i)" "go_int32 (int (color ! nat (Default (states ! i)))) = int (color ! nat (Default (states ! i)))"
    if "Default (states ! i) \<ge> 0"
  proof -
    have "0 < int (length states)" using assms(2) by linarith
    then have "Default (states ! i) < 2 ^ 31" using v(1) classes_bound(3) [OF assms(1) order_refl] by simp
    then show "go_int32 (Default (states ! i)) = Default (states ! i)" using that by (intro go_int32_id) auto
    show "go_int32 (int (color ! nat (Default (states ! i)))) = int (color ! nat (Default (states ! i)))"
      using v(4) [OF that] by (intro go_int32_id) auto
  qed
  show "next_transition None q' (class_state color (states ! i)) b r = to_class color (next_transition None q (states ! i) b r)"
    using m n0 d by (auto simp: next_transition_def lookup_transition_def class_state_def to_class_def)
  have "n0 < int (length states)"
  proof (cases "0 \<le> n0")
    case True
    then obtain tr where "tr \<in> set (Transitions (states ! i))" "n0 = go_int32 (NextState tr)"
      using match_transition_found [of "Transitions (states ! i)" r] n0 by auto
    then show ?thesis using v(3) small go_int32_id [of "NextState tr"] by fastforce
  next
    case False
    then show ?thesis by linarith
  qed
  then show "n < int (length states)" if "next_transition None q (states ! i) b r = (n, sk)"
    using that n0 d v(1) by (auto simp: next_transition_def lookup_transition_def split: if_splits)
qed

subsection \<open>Lemmas: the minimized table\<close>

lemma representatives_spec:
  assumes "gapless color k" and "c < k"
  shows "\<exists>i < length color. color ! i = c \<and> representatives color k ! c = int i"
proof -
  let ?f = "\<lambda>i rep. if rep ! (color ! i) = (-1 :: int) then rep[color ! i := int i] else rep"
  have "length (fold ?f [0..<m] (replicate k (-1))) = k \<and>
      (\<forall>c < k. (fold ?f [0..<m] (replicate k (-1)) ! c = -1 \<and> (\<forall>i < m. color ! i \<noteq> c)) \<or>
        (\<exists>i < m. color ! i = c \<and> fold ?f [0..<m] (replicate k (-1)) ! c = int i))" if "m \<le> length color" for m
    using that
  proof (induction m)
    case (Suc m)
    then have m: "color ! m < k" using assms(1) by (simp add: gapless_def)
    show ?case using Suc m by (auto simp: nth_list_update less_Suc_eq)
  qed simp
  note all = this [OF order_refl]
  obtain i where "i < length color" "color ! i = c" using assms by (auto simp: gapless_def)
  then show ?thesis unfolding representatives_def using all assms(2) by blast
qed

lemma num_colors:
  assumes "gapless color k"
  shows "foldl (\<lambda>m c. if c + 1 > m then c + 1 else m) 0 color = k"
proof -
  have max: "foldl (\<lambda>m c. if c + 1 > m then c + 1 else m) a cs = fold max (map Suc cs) a" for a :: nat and cs
    by (induction cs arbitrary: a) (auto simp: max_def)
  have "fold max (map Suc cs) a = Max (set (a # map Suc cs))" for a :: nat and cs
    by (rule Max.set_eq_fold [symmetric])
  then have "foldl (\<lambda>m c. if c + 1 > m then c + 1 else m) 0 color = Max (insert 0 (Suc ` set color))"
    by (simp only: max list.set set_map)
  also have "set color = {0..<k}" using assms by (fastforce simp: gapless_def in_set_conv_nth)
  also have "insert 0 (Suc ` {0..<k}) = {0..k}" by (auto simp: image_iff)
  also have "Max {0..k} = k" by (rule Max_eqI) auto
  finally show ?thesis .
qed

lemma minimized_classes:
  assumes "valid_table states" and "states \<noteq> []"
  shows "\<exists>color k. classes_ok states color k \<and>
    minimizeLexStates False states offs =
      (if k = length states then Some (states, offs)
       else Some (map (\<lambda>c. class_state color (states ! nat (representatives color k ! c))) [0..<k],
         map (\<lambda>off. if off \<ge> 0 \<and> off < int (length states) then int (color ! nat off) else off) offs))"
proof -
  obtain color k where c: "computeLexStateEquivalenceColors states = Some color" "length color = length states"
    "gapless color k" "color_stable states color" using colors_stable [of states] by blast
  then have "classes_ok states color k" using assms(1) by (simp add: classes_ok_def)
  moreover have "minimizeLexStates False states offs =
      (if k = length states then Some (states, offs)
       else Some (map (\<lambda>c. class_state color (states ! nat (representatives color k ! c))) [0..<k],
         map (\<lambda>off. if off \<ge> 0 \<and> off < int (length states) then int (color ! nat off) else off) offs))"
    using assms(2) c(1) num_colors [OF c(3)] by (simp add: minimizeLexStates_def)
  ultimately show ?thesis by blast
qed

text \<open>The class of a state in the minimized table.\<close>

lemma minimized_state:
  assumes "classes_ok states color k" and "i < length states"
  shows "map (\<lambda>c. class_state color (states ! nat (representatives color k ! c))) [0..<k] ! (color ! i) = class_state color (states ! i)"
proof -
  have g: "gapless color k" "length color = length states" using assms by (simp_all add: classes_ok_def)
  then have c: "color ! i < k" "gapless color k" "length color = length states" using assms(2) by (auto simp: gapless_def)
  obtain j where j: "j < length color" "color ! j = color ! i" "representatives color k ! (color ! i) = int j"
    using representatives_spec [OF c(2,1)] by blast
  then show ?thesis using c class_state_eq [OF assms(1) _ assms(2), of j] by simp
qed

subsection \<open>Lemmas: scanning with the minimized table\<close>

text \<open>A lexer with no ASCII table or the one of its states.\<close>

definition tables_match :: "lexer \<Rightarrow> bool" where
  "tables_match l \<longleftrightarrow> asciiTable l = None \<or> asciiTable l = Some (buildLexAsciiTable (lStates l))"

definition scan_class :: "nat list \<Rightarrow> lex_scan \<Rightarrow> lex_scan" where
  "scan_class color s = s\<lparr>sState := int (color ! nat (sState s))\<rparr>"

definition class_lexer :: "lex_state list \<Rightarrow> ascii_table option \<Rightarrow> lexer \<Rightarrow> lexer" where
  "class_lexer states tbl l = l\<lparr>lStates := states, asciiTable := tbl\<rparr>"

lemma ascii_next:
  assumes "tables_match l" and "lex_states_ok (lStates l)" and "0 \<le> q" and "q < int (length (lStates l))" and "bs \<noteq> []"
  shows "next_transition (asciiTable l) q (lStates l ! nat q) (hd bs) (fst (rune_at bs)) =
    next_transition None q (lStates l ! nat q) (hd bs) (fst (rune_at bs))"
  using assms next_transition_ascii [OF assms(2-4), of "hd bs" "fst (rune_at bs)"] rune_at_ascii [of bs]
  by (auto simp: tables_match_def)

lemma runs_target: "r \<in> set (runs color trs) \<Longrightarrow> \<exists>tr \<in> set trs. fst (snd (snd r)) = color ! nat (NextState tr)"
proof (induction color trs rule: runs.induct)
  case (2 color tr trs)
  have sub: "set (snd (extend_run color (Hi tr) (color ! nat (NextState tr)) (trSkip tr) trs)) \<subseteq> set trs"
    by (rule extend_run_parts(2))
  consider "fst (snd (snd r)) = color ! nat (NextState tr)"
    | "r \<in> set (runs color (snd (extend_run color (Hi tr) (color ! nat (NextState tr)) (trSkip tr) trs)))"
    using "2.prems" by (auto simp: Let_def)
  then show ?case
  proof cases
    case 2
    from "2.IH" [OF refl refl this] sub show ?thesis by (meson list.set_intros(2) subsetD)
  qed simp
qed simp

lemma class_table_ok:
  assumes "classes_ok states color k"
  shows "lex_states_ok states"
    "lex_states_ok (map (\<lambda>c. class_state color (states ! nat (representatives color k ! c))) [0..<k])"
proof -
  show "lex_states_ok states"
    using assms by (fastforce simp: classes_ok_def valid_table_def lex_states_ok_def transitions_ok_def)
  have "transitions_ok (Transitions (class_state color (states ! nat (representatives color k ! c))))" if c: "c < k" for c
  proof -
    have g: "gapless color k" "length color = length states" using assms by (simp_all add: classes_ok_def)
    obtain j where j: "j < length states" "representatives color k ! c = int j"
      using representatives_spec [OF g(1) c] g(2) by auto
    have "int (fst (snd (snd r))) < 0x7FFFFFFF" if r: "r \<in> set (runs color (Transitions (states ! j)))" for r
    proof -
      obtain tr where tr: "tr \<in> set (Transitions (states ! j))" "fst (snd (snd r)) = color ! nat (NextState tr)"
        using runs_target [OF r] by blast
      then have "0 \<le> NextState tr" "NextState tr < int (length states)" using state_valid(3) [OF assms j(1)] by auto
      from classes_bound [OF assms this] show ?thesis using tr(2) by linarith
    qed
    then show ?thesis by (fastforce simp: transitions_ok_def class_state_def coalesceTransitions_def j(2))
  qed
  then show "lex_states_ok (map (\<lambda>c. class_state color (states ! nat (representatives color k ! c))) [0..<k])"
    by (auto simp: lex_states_ok_def)
qed

lemma scan_step_at:
  assumes "0 \<le> sState s" and "sState s < int (length (lStates l))" and "lStates l ! nat (sState s) = st"
    and s1: "scan_accept plain_mark l p st s = s1"
  shows "length (lSource l) \<le> cPos (sCursor s) \<Longrightarrow> scan_step l p s = eof_hop l st s1"
    and "cPos (sCursor s) < length (lSource l) \<Longrightarrow> rune_at (drop (cPos (sCursor s)) (lSource l)) = (r, w) \<Longrightarrow>
      next_transition (asciiTable l) (sState s) st (lSource l ! cPos (sCursor s)) r = (n, sk) \<Longrightarrow>
      scan_step l p s =
        (if n < 0 then (s1\<lparr>eofHops := 0\<rparr>, False)
         else (scan_move (s1\<lparr>eofHops := 0\<rparr>)
           ((sCursor s)\<lparr>cPos := cPos (sCursor s) + w, cPoint := advance_point (cPoint (sCursor s)) r w\<rparr>) n sk, True))"
proof -
  have same: "sCursor s1 = sCursor s" "sState s1 = sState s" using s1 by auto
  have guard: "(sState s < 0 \<or> int (length (lStates l)) \<le> sState s) = False" using assms(1,2) by auto
  show "length (lSource l) \<le> cPos (sCursor s) \<Longrightarrow> scan_step l p s = eof_hop l st s1"
    unfolding scan_step_def Let_def assms(3) s1 guard by (simp add: same)
  show "cPos (sCursor s) < length (lSource l) \<Longrightarrow> rune_at (drop (cPos (sCursor s)) (lSource l)) = (r, w) \<Longrightarrow>
      next_transition (asciiTable l) (sState s) st (lSource l ! cPos (sCursor s)) r = (n, sk) \<Longrightarrow>
      scan_step l p s =
        (if n < 0 then (s1\<lparr>eofHops := 0\<rparr>, False)
         else (scan_move (s1\<lparr>eofHops := 0\<rparr>)
           ((sCursor s)\<lparr>cPos := cPos (sCursor s) + w, cPoint := advance_point (cPoint (sCursor s)) r w\<rparr>) n sk, True))"
    unfolding scan_step_def Let_def assms(3) s1 guard by (simp add: same)
qed

text \<open>The minimized table, and what one visit of a state does to the accept.\<close>

definition class_table :: "lex_state list \<Rightarrow> nat list \<Rightarrow> nat \<Rightarrow> lex_state list" where
  "class_table states color k = map (\<lambda>c. class_state color (states ! nat (representatives color k ! c))) [0..<k]"

lemma class_accept:
  assumes "l' = class_lexer states' tbl l"
  shows "scan_accept plain_mark l' p (class_state color st) (scan_class color s) = scan_class color (scan_accept plain_mark l p st s)"
  by (simp add: scan_accept_def can_accept_def accept_at_def scan_class_def class_state_def assms class_lexer_def
      allowsZeroWidthToken_def Let_def)

lemma class_scan_step:
  assumes "classes_ok states color k" and "lStates l = states" and "tables_match l" and "tables_match l'"
    and l': "l' = class_lexer (class_table states color k) tbl l"
    and "0 \<le> sState s" and "sState s < int (length states)" and "cPos (sCursor s) < length (lSource l)" and "scan_step l p s = (s', go)"
  shows "scan_step l' p (scan_class color s) = (scan_class color s', go)" "0 \<le> sState s'" "sState s' < int (length states)"
proof -
  let ?q = "nat (sState s)"
  define st where "st = states ! ?q"
  have i: "?q < length states" using assms(6,7) by linarith
  have out: "lStates l' = class_table states color k" and same: "lSource l' = lSource l" by (simp_all add: l' class_lexer_def)
  have q': "int (color ! ?q) < int k" using classes_bound(1) [OF assms(1,6,7)] .
  have st': "lStates l' ! (color ! ?q) = class_state color st" using minimized_state [OF assms(1) i] by (simp add: out st_def class_table_def)
  have len: "length (lStates l') = k" by (simp add: out class_table_def)
  define s1 where "s1 = scan_accept plain_mark l p st s"
  have acc: "scan_accept plain_mark l' p (class_state color st) (scan_class color s) = scan_class color s1"
    unfolding s1_def by (rule class_accept [OF l'])
  have class_s: "sState (scan_class color s) = int (color ! ?q)" "sCursor (scan_class color s) = sCursor s"
    by (simp_all add: scan_class_def)
  have st: "lStates l ! ?q = st" using assms(2) by (simp add: st_def)
  have in1: "sState s < int (length (lStates l))" using assms(2,7) by simp
  note at = scan_step_at(2) [OF assms(6) in1 st s1_def [symmetric]]
  have in2: "0 \<le> sState (scan_class color s)" "sState (scan_class color s) < int (length (lStates l'))"
    "lStates l' ! nat (sState (scan_class color s)) = class_state color st" using q' st' len by (simp_all add: class_s)
  note at' = scan_step_at(2) [OF in2 acc]
  define bs where "bs = drop (cPos (sCursor s)) (lSource l)"
  have bs: "bs \<noteq> []" "lSource l ! cPos (sCursor s) = hd bs" using assms(8) by (simp_all add: bs_def hd_drop_conv_nth)
  obtain r w where rw: "rune_at bs = (r, w)" by fastforce
  obtain n sk where n: "next_transition None (sState s) st (hd bs) r = (n, sk)" by fastforce
  have 1: "next_transition (asciiTable l) (sState s) st (hd bs) r = (n, sk)"
    using ascii_next [OF assms(3) _ _ _ bs(1), of "sState s"] class_table_ok(1) [OF assms(1)] assms(2,6,7) st rw n by simp
  have "next_transition (asciiTable l') (int (color ! ?q)) (class_state color st) (hd bs) r =
      next_transition None (int (color ! ?q)) (class_state color st) (hd bs) r"
    using ascii_next [OF assms(4) _ _ _ bs(1), of "int (color ! ?q)"] class_table_ok(2) [OF assms(1)] q' len st' rw out
    by (simp add: class_table_def)
  then have 2: "next_transition (asciiTable l') (int (color ! ?q)) (class_state color st) (hd bs) r = to_class color (n, sk)"
    using class_next(1) [OF assms(1) i, where q = "sState s" and b = "hd bs" and r = r] n by (simp add: st_def)
  have lt: "n < int (length states)" using class_next(2) [OF assms(1) i] n by (simp add: st_def)
  have "scan_step l' p (scan_class color s) = (scan_class color s', go) \<and> 0 \<le> sState s' \<and> sState s' < int (length states)"
  proof (cases "n < 0")
    case True
    then show ?thesis
      using at [where r = r and w = w and n = n and sk = sk] at' [where r = r and w = w and n = n and sk = sk]
        assms(8) rw 1 2 bs(2) assms(6,7,9)
      by (auto simp: class_s same s1_def to_class_def bs_def [symmetric] scan_class_def)
  next
    case n0: False
    then show ?thesis
      using at [where r = r and w = w and n = n and sk = sk]
        at' [where r = r and w = w and n = "int (color ! nat n)" and sk = sk] assms(8) rw 1 2 bs(2) assms(6,7,9) lt
      by (auto simp: class_s same s1_def to_class_def bs_def [symmetric] scan_class_def scan_move_def Let_def)
  qed
  then show "scan_step l' p (scan_class color s) = (scan_class color s', go)" "0 \<le> sState s'" "sState s' < int (length states)" by blast+
qed

subsection \<open>Lemmas: the end of input\<close>

text \<open>
  At the end of input the walk hops along the end-of-input transitions. The number of hops is
  bounded by the number of states, which minimization changes; but a walk that runs into the
  bound has visited every state of its cycle, and a second visit never changes the accept.
  \<open>eof_run\<close> is the walk with a given bound.
\<close>

fun eof_run :: "lexer \<Rightarrow> nat \<Rightarrow> nat \<Rightarrow> lex_scan \<Rightarrow> lex_scan" where
  "eof_run l p 0 s = scan_accept plain_mark l p (lStates l ! nat (sState s)) s"
| "eof_run l p (Suc m) s =
     (let st = lStates l ! nat (sState s); s1 = scan_accept plain_mark l p st s
      in if onEOF st \<ge> 0 then eof_run l p m (s1\<lparr>sState := onEOF st\<rparr>) else s1)"

definition eof_targets_ok :: "lexer \<Rightarrow> bool" where
  "eof_targets_ok l \<longleftrightarrow> int (length (lStates l)) < 0x7FFFFFFF \<and> (\<forall>st \<in> set (lStates l). onEOF st < int (length (lStates l)))"

definition in_table :: "lexer \<Rightarrow> lex_scan \<Rightarrow> bool" where
  "in_table l s \<longleftrightarrow> 0 \<le> sState s \<and> sState s < int (length (lStates l))"

lemma eof_target:
  assumes "eof_targets_ok l" and "in_table l s" and "onEOF (lStates l ! nat (sState s)) \<ge> 0"
  shows "go_int32 (onEOF (lStates l ! nat (sState s))) = onEOF (lStates l ! nat (sState s))"
    "in_table l (s'\<lparr>sState := onEOF (lStates l ! nat (sState s))\<rparr>)"
proof -
  have "lStates l ! nat (sState s) \<in> set (lStates l)" using assms(2) by (auto simp: in_table_def)
  then have lt: "onEOF (lStates l ! nat (sState s)) < int (length (lStates l))" "int (length (lStates l)) < 0x7FFFFFFF"
    using assms(1) by (simp_all add: eof_targets_ok_def)
  then show "go_int32 (onEOF (lStates l ! nat (sState s))) = onEOF (lStates l ! nat (sState s))"
    using assms(3) by (intro go_int32_id) simp_all
  show "in_table l (s'\<lparr>sState := onEOF (lStates l ! nat (sState s))\<rparr>)" using lt assms(3) by (simp add: in_table_def)
qed

text \<open>What a scan reports: all but the state and the number of hops.\<close>

definition scan_report :: "lex_scan \<Rightarrow> lex_cursor \<times> lex_cursor \<times> bool \<times> lex_accept option \<times> bool" where
  "scan_report s = (sCursor s, sTokenStart s, sSkippedPrefix s, sAccept s, eofHops s > 0)"

lemma scan_accept_hops: "scan_accept mark l p st (s\<lparr>eofHops := h\<rparr>) = (scan_accept mark l p st s)\<lparr>eofHops := h\<rparr>"
  by (simp add: scan_accept_def accept_at_def)

lemma eof_run_same:
  "sCursor (eof_run l p m s) = sCursor s" "sTokenStart (eof_run l p m s) = sTokenStart s" "sSkippedPrefix (eof_run l p m s) = sSkippedPrefix s"
  by (induction l p m s rule: eof_run.induct) (simp_all add: Let_def)

lemma hops_state: "s\<lparr>eofHops := h, sState := n\<rparr> = s\<lparr>sState := n, eofHops := h\<rparr>"
  by simp

lemma eof_run_hops: "eof_run l p m (s\<lparr>eofHops := h\<rparr>) = (eof_run l p m s)\<lparr>eofHops := h\<rparr>"
proof (induction m arbitrary: s)
  case (Suc m)
  show ?case using Suc [of "(scan_accept plain_mark l p (lStates l ! nat (sState s)) s)\<lparr>sState := onEOF (lStates l ! nat (sState s))\<rparr>"]
    by (simp add: Let_def scan_accept_hops hops_state)
qed (simp add: scan_accept_hops)

lemma scan_loop_eof:
  assumes "eof_targets_ok l" and "in_table l s" and "length (lSource l) \<le> cPos (sCursor s)" and "eofHops s \<le> length (lStates l) + 1"
  shows "sAccept (scan_loop l p s) = sAccept (eof_run l p (length (lStates l) + 1 - eofHops s) s) \<and>
    sCursor (scan_loop l p s) = sCursor s \<and> sTokenStart (scan_loop l p s) = sTokenStart s \<and>
    sSkippedPrefix (scan_loop l p s) = sSkippedPrefix s \<and>
    (eofHops (scan_loop l p s) > 0) = (eofHops s > 0 \<or> onEOF (lStates l ! nat (sState s)) \<ge> 0)"
  using assms(2-4)
proof (induction "length (lStates l) + 1 - eofHops s" arbitrary: s)
  case 0
  let ?st = "lStates l ! nat (sState s)"
  have "scan_step l p s = eof_hop l ?st (scan_accept plain_mark l p ?st s)"
    using 0 by (intro scan_step_at(1)) (simp_all add: in_table_def)
  then have "scan_step l p s = (scan_accept plain_mark l p ?st s, False)" using 0 by (simp add: eof_hop_def)
  then show ?case using 0 by (simp add: scan_loop.simps [of l p s])
next
  case (Suc m)
  let ?st = "lStates l ! nat (sState s)"
  let ?s1 = "scan_accept plain_mark l p ?st s"
  have step: "scan_step l p s = eof_hop l ?st ?s1" using Suc.prems by (intro scan_step_at(1)) (simp_all add: in_table_def)
  have m: "length (lStates l) + 1 - eofHops s = Suc m" using Suc.hyps(2) by simp
  show ?case
  proof (cases "onEOF ?st \<ge> 0")
    case True
    let ?s2 = "?s1\<lparr>sState := onEOF ?st, eofHops := eofHops s + 1\<rparr>"
    have hop: "scan_step l p s = (?s2, True)"
      using step True m eof_target(1) [OF assms(1) Suc.prems(1) True] by (simp add: eof_hop_def)
    have "in_table l ?s2" using eof_target(2) [OF assms(1) Suc.prems(1) True] by (simp add: in_table_def)
    moreover have "m = length (lStates l) + 1 - eofHops ?s2" using m by simp
    moreover have "eofHops ?s2 \<le> length (lStates l) + 1" using m by simp
    ultimately have IH: "sAccept (scan_loop l p ?s2) = sAccept (eof_run l p m ?s2) \<and>
        sCursor (scan_loop l p ?s2) = sCursor s \<and> sTokenStart (scan_loop l p ?s2) = sTokenStart s \<and>
        sSkippedPrefix (scan_loop l p ?s2) = sSkippedPrefix s \<and> eofHops (scan_loop l p ?s2) > 0"
      using Suc.hyps(1) [of ?s2] Suc.prems(2) by simp
    have "?s2 = (?s1\<lparr>sState := onEOF ?st\<rparr>)\<lparr>eofHops := eofHops s + 1\<rparr>" by simp
    then have "sAccept (eof_run l p m ?s2) = sAccept (eof_run l p m (?s1\<lparr>sState := onEOF ?st\<rparr>))"
      using eof_run_hops [where s = "?s1\<lparr>sState := onEOF ?st\<rparr>"] by simp
    then show ?thesis using IH hop True m by (simp add: scan_loop.simps [of l p s] Let_def)
  next
    case False
    then have "scan_step l p s = (?s1, False)" using step by (simp add: eof_hop_def)
    then show ?thesis using False m by (simp add: scan_loop.simps [of l p s] Let_def)
  qed
qed

text \<open>A state whose accept has been considered at this position.\<close>

definition settled :: "lexer \<Rightarrow> nat \<Rightarrow> lex_scan \<Rightarrow> nat \<Rightarrow> bool" where
  "settled l p s q \<longleftrightarrow> \<not> (can_accept l p (lStates l ! q) (sTokenStart s) (sCursor s) \<and>
     better_accept (map_option (\<lambda>a. (aPriority a, aProgressPos a)) (sAccept s)) (AcceptPriority (lStates l ! q)) (cPos (sCursor s)))"

lemma settled_accept: "settled l p s q \<Longrightarrow> scan_accept plain_mark l p (lStates l ! q) s = s"
  by (auto simp: settled_def scan_accept_def)

lemma settled_state [simp]: "settled l p (s\<lparr>sState := n\<rparr>) q = settled l p s q"
  by (simp add: settled_def)

lemma settled_step:
  "settled l p (scan_accept plain_mark l p (lStates l ! q) s) q"
  "settled l p s q' \<Longrightarrow> settled l p (scan_accept plain_mark l p st s) q'"
  by (cases "sAccept s"; auto simp: settled_def scan_accept_def accept_at_def)+

text \<open>Once the walk is in a closed set of settled states, nothing changes any more.\<close>

lemma eof_run_settled:
  assumes "\<forall>q \<in> V. settled l p s q" and "\<forall>q \<in> V. onEOF (lStates l ! q) \<ge> 0 \<longrightarrow> nat (onEOF (lStates l ! q)) \<in> V" and "nat (sState s) \<in> V"
  shows "sAccept (eof_run l p m s) = sAccept s"
  using assms(1,3)
proof (induction m arbitrary: s)
  case 0
  then show ?case using settled_accept by simp
next
  case (Suc m)
  let ?q = "nat (sState s)"
  have "scan_accept plain_mark l p (lStates l ! ?q) s = s" using Suc.prems settled_accept by blast
  moreover have "sAccept (eof_run l p m (s\<lparr>sState := onEOF (lStates l ! ?q)\<rparr>)) = sAccept s" if "onEOF (lStates l ! ?q) \<ge> 0"
    using Suc.IH [of "s\<lparr>sState := onEOF (lStates l ! ?q)\<rparr>"] Suc.prems assms(2) that by simp
  ultimately show ?case by (simp add: Let_def)
qed

lemma eof_run_bound:
  assumes "eof_targets_ok l" and "in_table l s" and "card ({..<length (lStates l)} - V) \<le> m"
    and "\<forall>q \<in> V. settled l p s q"
    and "\<forall>q \<in> V. onEOF (lStates l ! q) \<ge> 0 \<longrightarrow> nat (onEOF (lStates l ! q)) \<in> V \<union> {nat (sState s)}"
  shows "sAccept (eof_run l p (Suc m) s) = sAccept (eof_run l p m s)"
  using assms(2-5)
proof (induction m arbitrary: s V)
  case 0
  have "nat (sState s) \<in> V" using 0(1,2) by (auto simp: in_table_def)
  then show ?case using eof_run_settled [of V l p s] 0(3,4) by (metis Un_insert_right insert_absorb sup_bot.right_neutral)
next
  case (Suc m)
  let ?q = "nat (sState s)"
  show ?case
  proof (cases "?q \<in> V")
    case True
    then have "\<forall>q \<in> V. onEOF (lStates l ! q) \<ge> 0 \<longrightarrow> nat (onEOF (lStates l ! q)) \<in> V" using Suc.prems(4) by auto
    then show ?thesis using eof_run_settled [of V l p s] Suc.prems(3) True by metis
  next
    case False
    let ?s1 = "scan_accept plain_mark l p (lStates l ! ?q) s"
    have "?q \<in> {..<length (lStates l)} - V" using Suc.prems(1) False by (auto simp: in_table_def)
    then have "card ({..<length (lStates l)} - V - {?q}) = card ({..<length (lStates l)} - V) - 1" by (rule card_Diff_singleton)
    moreover have "{..<length (lStates l)} - insert ?q V = {..<length (lStates l)} - V - {?q}" by blast
    ultimately have card: "card ({..<length (lStates l)} - insert ?q V) \<le> m" using Suc.prems(2) by simp
    have settled: "\<forall>q \<in> insert ?q V. settled l p (?s1\<lparr>sState := onEOF (lStates l ! ?q)\<rparr>) q"
      using Suc.prems(3) settled_step by auto
    have closed: "\<forall>q \<in> insert ?q V. onEOF (lStates l ! q) \<ge> 0 \<longrightarrow>
        nat (onEOF (lStates l ! q)) \<in> insert ?q V \<union> {nat (sState (?s1\<lparr>sState := onEOF (lStates l ! ?q)\<rparr>))}"
      using Suc.prems(4) by auto
    show ?thesis
    proof (cases "onEOF (lStates l ! ?q) \<ge> 0")
      case True
      then have "in_table l (?s1\<lparr>sState := onEOF (lStates l ! ?q)\<rparr>)" using eof_target(2) [OF assms(1) Suc.prems(1)] by blast
      from Suc.IH [OF this card settled closed] True show ?thesis by (simp only: eof_run.simps Let_def if_True)
    qed (simp add: Let_def)
  qed
qed

lemma eof_run_enough:
  assumes "eof_targets_ok l" and "in_table l s" and "length (lStates l) \<le> m"
  shows "sAccept (eof_run l p m s) = sAccept (eof_run l p (length (lStates l)) s)"
  using assms(3)
proof (induction m rule: dec_induct)
  case (step m)
  then show ?case using eof_run_bound [OF assms(1,2), of "{}" m p] by simp
qed simp

lemma class_eof_run:
  assumes "classes_ok states color k" and "lStates l = states" and l': "l' = class_lexer (class_table states color k) tbl l"
    and "0 \<le> sState s" and "sState s < int (length states)"
  shows "sAccept (eof_run l' p m (scan_class color s)) = sAccept (eof_run l p m s)"
  using assms(4,5)
proof (induction m arbitrary: s)
  case 0
  then have "nat (sState s) < length states" by linarith
  then have "lStates l' ! (color ! nat (sState s)) = class_state color (states ! nat (sState s))"
    using minimized_state [OF assms(1)] by (simp add: l' class_lexer_def class_table_def)
  moreover have "sState (scan_class color s) = int (color ! nat (sState s))" by (simp add: scan_class_def)
  ultimately show ?case using class_accept [OF l', of p color "states ! nat (sState s)" s] assms(2) by (simp add: scan_class_def)
next
  case (Suc m)
  let ?st = "states ! nat (sState s)"
  have i: "nat (sState s) < length states" using Suc.prems by linarith
  have st': "lStates l' ! nat (sState (scan_class color s)) = class_state color ?st"
    using minimized_state [OF assms(1) i] by (simp add: l' class_lexer_def class_table_def scan_class_def)
  note acc = class_accept [OF l', of p color ?st s]
  have eof: "(onEOF (class_state color ?st) \<ge> 0) = (onEOF ?st \<ge> 0)" by (simp add: class_state_def)
  show ?case
  proof (cases "onEOF ?st \<ge> 0")
    case True
    let ?s1 = "scan_accept plain_mark l p ?st s"
    have "(scan_class color ?s1)\<lparr>sState := onEOF (class_state color ?st)\<rparr> = scan_class color (?s1\<lparr>sState := onEOF ?st\<rparr>)"
      using True by (simp add: scan_class_def class_state_def)
    moreover have "onEOF ?st < int (length states)" using state_valid(2) [OF assms(1) i] .
    ultimately show ?thesis using Suc.IH [of "?s1\<lparr>sState := onEOF ?st\<rparr>"] True eof st' acc assms(2) by (simp add: Let_def)
  next
    case False
    then show ?thesis using eof st' acc assms(2) by (simp add: Let_def scan_class_def)
  qed
qed

lemma class_scan_eof:
  assumes "classes_ok states color k" and "lStates l = states" and l': "l' = class_lexer (class_table states color k) tbl l"
    and "0 \<le> sState s" and "sState s < int (length states)" and "length (lSource l) \<le> cPos (sCursor s)" and "eofHops s = 0"
  shows "scan_report (scan_loop l' p (scan_class color s)) = scan_report (scan_loop l p s)"
proof -
  have i: "nat (sState s) < length states" using assms(4,5) by linarith
  note b = classes_bound [OF assms(1,4,5)]
  have out: "lStates l' = class_table states color k" and len: "length (lStates l') = k" by (simp_all add: l' class_lexer_def class_table_def)
  have ok: "eof_targets_ok l" using assms(1,2) by (simp add: eof_targets_ok_def classes_ok_def valid_table_def)
  have "onEOF st < int k" if st: "st \<in> set (lStates l')" for st
  proof -
    obtain c where c: "c < k" "st = class_state color (states ! nat (representatives color k ! c))"
      using st by (auto simp: out class_table_def)
    obtain j where j: "j < length states" "representatives color k ! c = int j"
      using representatives_spec [of color k c] c(1) assms(1) by (auto simp: classes_ok_def)
    show ?thesis
    proof (cases "onEOF (states ! j) \<ge> 0")
      case True
      then show ?thesis using classes_bound(1) [OF assms(1) True state_valid(2) [OF assms(1) j(1)]] c(2) j(2) by (simp add: class_state_def)
    next
      case False
      then show ?thesis using c j(2) by (simp add: class_state_def)
    qed
  qed
  then have ok': "eof_targets_ok l'" using b len by (simp add: eof_targets_ok_def)
  have in1: "in_table l s" and in2: "in_table l' (scan_class color s)"
    using assms(2,4,5) b(1) len by (simp_all add: in_table_def scan_class_def)
  have kn: "k \<le> length states" using b(2) by simp
  have "sAccept (eof_run l' p (k + 1) (scan_class color s)) = sAccept (eof_run l' p (length states + 1) (scan_class color s))"
    using eof_run_enough [OF ok' in2, of "k + 1" p] eof_run_enough [OF ok' in2, of "length states + 1" p] kn len by simp
  also have "\<dots> = sAccept (eof_run l p (length states + 1) s)" by (rule class_eof_run [OF assms(1,2) l' assms(4,5)])
  finally have acc: "sAccept (eof_run l' p (k + 1) (scan_class color s)) = sAccept (eof_run l p (length states + 1) s)" .
  have "lStates l' ! nat (sState (scan_class color s)) = class_state color (states ! nat (sState s))"
    using minimized_state [OF assms(1) i] by (simp add: out class_table_def scan_class_def)
  then have eof: "(onEOF (lStates l' ! nat (sState (scan_class color s))) \<ge> 0) = (onEOF (states ! nat (sState s)) \<ge> 0)"
    by (simp add: class_state_def)
  have same: "lSource l' = lSource l" "sCursor (scan_class color s) = sCursor s" "eofHops (scan_class color s) = 0"
    "sTokenStart (scan_class color s) = sTokenStart s" "sSkippedPrefix (scan_class color s) = sSkippedPrefix s"
    using assms(7) by (simp_all add: l' class_lexer_def scan_class_def)
  show ?thesis
    using scan_loop_eof [OF ok in1, of p] scan_loop_eof [OF ok' in2, of p] assms(2,6,7) acc eof len same by (simp add: scan_report_def)
qed

lemma class_scan_loop:
  assumes "classes_ok states color k" and "lStates l = states" and "tables_match l" and "tables_match l'"
    and l': "l' = class_lexer (class_table states color k) tbl l"
    and "0 \<le> sState s" and "sState s < int (length states)" and "eofHops s = 0"
  shows "scan_report (scan_loop l' p (scan_class color s)) = scan_report (scan_loop l p s)"
  using assms
proof (induction l p s rule: scan_loop.induct)
  case (1 l p s)
  show ?case
  proof (cases "cPos (sCursor s) < length (lSource l)")
    case pos: True
    obtain s' go where step: "scan_step l p s = (s', go)" by fastforce
    note c = class_scan_step [OF 1(2-8) pos step]
    have hops: "eofHops s' = 0" using step pos 1(9) by (auto simp: scan_step_def Let_def split: if_splits prod.splits)
    show ?thesis
    proof (cases go)
      case True
      then show ?thesis
        using 1(1) [OF step [symmetric] _ 1(2-6) c(2,3) hops] c(1) step
        by (simp add: scan_loop.simps [of l] scan_loop.simps [of l' p "scan_class color s"])
    next
      case False
      then show ?thesis using c(1) step
        by (simp add: scan_loop.simps [of l] scan_loop.simps [of l' p "scan_class color s"]) (simp add: scan_report_def scan_class_def)
    qed
  next
    case False
    then show ?thesis using class_scan_eof [OF 1(2,3,6,7,8) _ 1(9)] by simp
  qed
qed

lemma table_scan_loop:
  assumes "tables_match l" and "tables_match (class_lexer (lStates l) tbl l)" and "lex_states_ok (lStates l)"
  shows "scan_loop (class_lexer (lStates l) tbl l) p s = scan_loop l p s"
  using assms
proof (induction l p s rule: scan_loop.induct)
  case (1 l p s)
  let ?l' = "class_lexer (lStates l) tbl l"
  have same: "lStates ?l' = lStates l" "lSource ?l' = lSource l" by (simp_all add: class_lexer_def)
  have acc: "scan_accept plain_mark ?l' p st s = scan_accept plain_mark l p st s" for st
    by (simp add: scan_accept_def can_accept_def accept_at_def class_lexer_def allowsZeroWidthToken_def Let_def)
  have step: "scan_step ?l' p s = scan_step l p s"
  proof (cases "0 \<le> sState s \<and> sState s < int (length (lStates l)) \<and> cPos (sCursor s) < length (lSource l)")
    case True
    define bs where "bs = drop (cPos (sCursor s)) (lSource l)"
    have bs: "bs \<noteq> []" "lSource l ! cPos (sCursor s) = hd bs" using True by (simp_all add: bs_def hd_drop_conv_nth)
    obtain r w where rw: "rune_at bs = (r, w)" by fastforce
    have "next_transition (asciiTable ?l') (sState s) (lStates l ! nat (sState s)) (hd bs) r =
        next_transition (asciiTable l) (sState s) (lStates l ! nat (sState s)) (hd bs) r"
      using ascii_next [OF 1(2,4) _ _ bs(1), of "sState s"] ascii_next [OF 1(3) _ _ _ bs(1), of "sState s"] 1(4) True rw same
      by simp
    then show ?thesis unfolding scan_step_def Let_def same acc using True rw bs(2) by (simp add: bs_def)
  next
    case False
    then show ?thesis unfolding scan_step_def Let_def same acc by (auto simp: eof_hop_def same)
  qed
  show ?case
    using 1(1) [OF surjective_pairing [symmetric] _ 1(2-4)] step
    by (simp add: scan_loop.simps [of l p s] scan_loop.simps [of ?l' p s] split_beta)
qed

lemma sint_start:
  assumes "0 \<le> off" and "off < 0x7FFFFFFF"
  shows "sint (word_of_int off :: u32) = off"
  using assms by (simp add: sint_sbintrunc' signed_take_bit_int_eq_self)

text \<open>What a scan returns does not depend on the transition tables once the walks correspond.\<close>

lemma scan_result:
  assumes "l' = class_lexer states' tbl l" and "sint q = qi" "sint q' = qi'"
    and "0 \<le> qi" "qi < int (length (lStates l))" "0 \<le> qi'" "qi' < int (length states')"
    and "scan_report (scan_loop l' p (start_scan qi' \<lparr>cPos = p, cPoint = pt, cRangeIdx = 0\<rparr>)) =
      scan_report (scan_loop l p (start_scan qi \<lparr>cPos = p, cPoint = pt, cRangeIdx = 0\<rparr>))"
  shows "scanContiguous l' q' p pt = (\<lambda>(l1, tok, ok). (class_lexer states' tbl l1, tok, ok)) (scanContiguous l q p pt)"
proof -
  let ?s = "scan_loop l p (start_scan qi \<lparr>cPos = p, cPoint = pt, cRangeIdx = 0\<rparr>)"
  let ?s' = "scan_loop l' p (start_scan qi' \<lparr>cPos = p, cPoint = pt, cRangeIdx = 0\<rparr>)"
  have "eof_accept plain_mark ?s' = eof_accept plain_mark ?s" "sTokenStart ?s' = sTokenStart ?s" "sSkippedPrefix ?s' = sSkippedPrefix ?s"
    using assms(8) by (simp_all add: scan_report_def eof_accept_def)
  then show ?thesis
    using assms(1-7) by (auto simp: scanContiguous_def Let_def class_lexer_def split: option.splits)
qed

lemma table_scan:
  assumes "tables_match l" and "tables_match (class_lexer (lStates l) tbl l)" and "valid_table (lStates l)"
    and "0 \<le> off" and "off < int (length (lStates l))"
  shows "scanContiguous (class_lexer (lStates l) tbl l) (word_of_int off) p pt =
    (\<lambda>(l1, tok, ok). (class_lexer (lStates l) tbl l1, tok, ok)) (scanContiguous l (word_of_int off) p pt)"
proof -
  have ok: "lex_states_ok (lStates l)" "int (length (lStates l)) < 0x7FFFFFFF"
    using assms(3) by (fastforce simp: valid_table_def lex_states_ok_def transitions_ok_def)+
  show ?thesis
    by (rule scan_result [OF refl]) (use assms ok(2) in \<open>simp_all add: sint_start table_scan_loop [OF assms(1,2) ok(1)]\<close>)
qed

lemma class_scan:
  assumes "classes_ok (lStates l) color k" and "tables_match l" and "0 \<le> off" and "off < int (length (lStates l))"
    and out: "out = map (\<lambda>c. class_state color (lStates l ! nat (representatives color k ! c))) [0..<k]"
    and "tables_match (class_lexer out tbl l)"
  shows "scanContiguous (class_lexer out tbl l) (word_of_int (int (color ! nat off))) p pt =
    (\<lambda>(l1, tok, ok). (class_lexer out tbl l1, tok, ok)) (scanContiguous l (word_of_int off) p pt)"
proof -
  let ?s = "start_scan off \<lparr>cPos = p, cPoint = pt, cRangeIdx = 0\<rparr>"
  note b = classes_bound [OF assms(1,3,4)]
  have start: "scan_class color ?s = start_scan (int (color ! nat off)) \<lparr>cPos = p, cPoint = pt, cRangeIdx = 0\<rparr>"
    by (simp add: scan_class_def start_scan_def)
  have "scan_report (scan_loop (class_lexer out tbl l) p (scan_class color ?s)) = scan_report (scan_loop l p ?s)"
    by (rule class_scan_loop [OF assms(1) refl assms(2,6)]) (use assms(3,4) in \<open>simp_all add: start_scan_def out class_table_def\<close>)
  then show ?thesis
    unfolding start
    by (intro scan_result [OF refl, where qi = off and qi' = "int (color ! nat off)"])
      (use assms(3,4) b sint_start [of "int (color ! nat off)"] in \<open>simp_all add: sint_start out\<close>)
qed

subsection \<open>Properties\<close>

text \<open>
  \<^bold>\<open>C3.\<close> Minimizing a lexer table never changes what the lexer scans: on a table of fewer than
  \<open>2^31 - 1\<close> states whose targets (of transitions, defaults and end of input) are in range and
  whose rune ranges are not inverted, the refinement ends, and from every remapped mode start a
  scan of any source, from any position and with or without the ASCII table, returns the same
  token at the same place.
\<close>

theorem minimize_preserves_scan:
  assumes "valid_table (lStates l)" and "tables_match l"
    and "\<forall>off \<in> set offs. 0 \<le> off \<and> off < int (length (lStates l))"
  shows "\<exists>states' offs'. minimizeLexStates disabled (lStates l) offs = Some (states', offs') \<and>
    length states' \<le> length (lStates l) \<and> length offs' = length offs \<and>
    (\<forall>i < length offs. \<forall>p pt. \<forall>tbl \<in> {None, Some (buildLexAsciiTable states')}.
      scanContiguous (class_lexer states' tbl l) (word_of_int (offs' ! i)) p pt =
        (\<lambda>(l1, tok, ok). (class_lexer states' tbl l1, tok, ok)) (scanContiguous l (word_of_int (offs ! i)) p pt))"
proof -
  have match: "tables_match (class_lexer states' tbl l)" if "tbl \<in> {None, Some (buildLexAsciiTable states')}" for states' tbl
    using that by (auto simp: tables_match_def class_lexer_def)
  have off: "0 \<le> offs ! i" "offs ! i < int (length (lStates l))" if "i < length offs" for i
    using assms(3) nth_mem [OF that] by blast+
  show ?thesis
  proof (cases "minimizeLexStates disabled (lStates l) offs = Some (lStates l, offs)")
    case True
    then show ?thesis using table_scan [OF assms(2) match assms(1) off] by auto
  next
    case False
    then have d: "lStates l \<noteq> []" "\<not> disabled" by (auto simp: minimizeLexStates_def)
    obtain color k where c: "classes_ok (lStates l) color k" and out: "minimizeLexStates False (lStates l) offs =
      (if k = length (lStates l) then Some (lStates l, offs)
       else Some (map (\<lambda>c. class_state color (lStates l ! nat (representatives color k ! c))) [0..<k],
         map (\<lambda>off. if off \<ge> 0 \<and> off < int (length (lStates l)) then int (color ! nat off) else off) offs))"
      using minimized_classes [OF assms(1) d(1)] by blast
    let ?out = "map (\<lambda>c. class_state color (lStates l ! nat (representatives color k ! c))) [0..<k]"
    let ?offs = "map (\<lambda>off. if off \<ge> 0 \<and> off < int (length (lStates l)) then int (color ! nat off) else off) offs"
    have res: "minimizeLexStates disabled (lStates l) offs = Some (?out, ?offs)" using False d(2) out by auto
    have "scanContiguous (class_lexer ?out tbl l) (word_of_int (?offs ! i)) p pt =
        (\<lambda>(l1, tok, ok). (class_lexer ?out tbl l1, tok, ok)) (scanContiguous l (word_of_int (offs ! i)) p pt)"
      if i: "i < length offs" and tbl: "tbl \<in> {None, Some (buildLexAsciiTable ?out)}" for i p pt tbl
      using class_scan [OF c assms(2) off [OF i] refl match [OF tbl]] off [OF i] i by (simp only: nth_map if_True simp_thms)
    moreover have "length ?out \<le> length (lStates l)"
      using c gapless_le [of color k] by (simp add: classes_ok_def)
    ultimately show ?thesis using res by (intro exI [of _ ?out] exI [of _ ?offs]) auto
  qed
qed

text \<open>Two lex modes that scan words and accept the end of input: the second one splits its range,
  and both share no state.\<close>

definition two_modes :: "lex_state list" where
  "two_modes =
     (let st = (\<lambda>a e trs. \<lparr>AcceptToken = a, AcceptPriority = 0, Skip = False, Default = -1, onEOF = e, Transitions = trs\<rparr>);
          tr = (\<lambda>lo hi n. \<lparr>Lo = lo, Hi = hi, NextState = n, trSkip = False\<rparr>)
      in [st 0 1 [tr 97 122 1], st 3 (-1) [tr 97 122 1],
          st 0 4 [tr 97 109 3, tr 110 122 4], st 3 (-1) [tr 97 122 4], st 3 (-1) [tr 97 98 3, tr 99 122 3]])"

lemma two_modes_minimized:
  "minimizeLexStates False two_modes [0, 2] =
     Some ([\<lparr>AcceptToken = 0, AcceptPriority = 0, Skip = False, Default = -1, onEOF = 1,
              Transitions = [\<lparr>Lo = 97, Hi = 122, NextState = 1, trSkip = False\<rparr>]\<rparr>,
            \<lparr>AcceptToken = 3, AcceptPriority = 0, Skip = False, Default = -1, onEOF = -1,
              Transitions = [\<lparr>Lo = 97, Hi = 122, NextState = 1, trSkip = False\<rparr>]\<rparr>], [0, 0])"
  by code_simp

theorem minimize_preserves_scan_witness:
  "\<exists>states' offs'. minimizeLexStates False two_modes [0, 2] = Some (states', offs') \<and> length states' = 2 \<and>
    scanContiguous (class_lexer states' None (NewLexer two_modes [110, 97, 33])) (word_of_int (offs' ! 1)) 0 \<lparr>Row = 0, Column = 0\<rparr> =
      (\<lambda>(l1, tok, ok). (class_lexer states' None l1, tok, ok))
        (scanContiguous (NewLexer two_modes [110, 97, 33]) 2 0 \<lparr>Row = 0, Column = 0\<rparr>) \<and>
    snd (snd (scanContiguous (NewLexer two_modes [110, 97, 33]) 2 0 \<lparr>Row = 0, Column = 0\<rparr>))"
proof -
  let ?l = "NewLexer two_modes [110, 97, 33]"
  have l: "lStates ?l = two_modes" "asciiTable ?l = None" by (simp_all add: NewLexer_def)
  have "valid_table (lStates ?l)" unfolding l by (simp add: valid_table_def two_modes_def Let_def)
  moreover have "tables_match ?l" by (simp add: tables_match_def l)
  moreover have "\<forall>off \<in> set [0, 2]. 0 \<le> off \<and> off < int (length (lStates ?l))" unfolding l by (simp add: two_modes_def Let_def)
  ultimately obtain states' offs' where m: "minimizeLexStates False two_modes [0, 2] = Some (states', offs')"
    and eq: "\<forall>i < 2. scanContiguous (class_lexer states' None ?l) (word_of_int (offs' ! i)) 0 \<lparr>Row = 0, Column = 0\<rparr> =
      (\<lambda>(l1, tok, ok). (class_lexer states' None l1, tok, ok)) (scanContiguous ?l (word_of_int ([0, 2] ! i)) 0 \<lparr>Row = 0, Column = 0\<rparr>)"
    using minimize_preserves_scan [of ?l "[0, 2]" False] unfolding l by fastforce
  have "snd (snd (scanContiguous ?l 2 0 \<lparr>Row = 0, Column = 0\<rparr>))" by code_simp
  then show ?thesis using m eq [rule_format, of 1] two_modes_minimized by auto
qed

end
