(* ===== verification/Lang_Runs.thy ===== *)
theory Lang_Runs
  imports Main
begin

text \<open>
  Languages and labelled runs, shared by the theories of the lexer generator. A step relation
  has edges labelled with a letter or with none (an epsilon edge); \<open>paths R p q\<close> is the language
  between two states. The central lemma \<open>paths_add\<close> gives that language after one more epsilon
  edge; the lemmas on the gadgets of Thompson's construction follow from it by computation.
\<close>

subsection \<open>Languages\<close>

type_synonym 'a lang = "'a list set"

definition lconc :: "'a lang \<Rightarrow> 'a lang \<Rightarrow> 'a lang" where
  "lconc A B = {u @ v | u v. u \<in> A \<and> v \<in> B}"

inductive_set lstar :: "'a lang \<Rightarrow> 'a lang" for A where
  lstar_Nil [simp, intro]: "[] \<in> lstar A"
| lstar_append [intro]: "u \<in> A \<Longrightarrow> v \<in> lstar A \<Longrightarrow> u @ v \<in> lstar A"

primrec lpow :: "nat \<Rightarrow> 'a lang \<Rightarrow> 'a lang" where
  "lpow 0 A = {[]}"
| "lpow (Suc n) A = lconc A (lpow n A)"

definition lconcs :: "'a lang list \<Rightarrow> 'a lang" where
  "lconcs As = foldr lconc As {[]}"

lemma lconcI [intro]: "u \<in> A \<Longrightarrow> v \<in> B \<Longrightarrow> u @ v \<in> lconc A B"
  by (auto simp: lconc_def)

lemma lconcE [elim]:
  assumes "w \<in> lconc A B"
  obtains u v where "w = u @ v" "u \<in> A" "v \<in> B"
  using assms by (auto simp: lconc_def)

lemma lconc_unit [simp]: "lconc {[]} A = A" "lconc A {[]} = A" "lconc {} A = {}" "lconc A {} = {}"
  by (auto simp: lconc_def)

lemma lconc_assoc: "lconc (lconc A B) C = lconc A (lconc B C)"
proof (intro set_eqI iffI)
  fix w
  show "w \<in> lconc A (lconc B C)" if "w \<in> lconc (lconc A B) C"
    using that by (auto simp: lconc_def) (metis append_assoc)
  show "w \<in> lconc (lconc A B) C" if "w \<in> lconc A (lconc B C)"
    using that by (auto simp: lconc_def) (metis append_assoc)
qed

lemma lconc_Un: "lconc (A \<union> B) C = lconc A C \<union> lconc B C" "lconc A (B \<union> C) = lconc A B \<union> lconc A C"
  by (auto simp: lconc_def)

lemma lstar_empty [simp]: "lstar {} = {[]}"
  by (auto elim: lstar.cases)

lemma lstar_unfold: "lstar A = {[]} \<union> lconc A (lstar A)"
  by (auto elim: lstar.cases)

lemma lstar_trans: "u \<in> lstar A \<Longrightarrow> v \<in> lstar A \<Longrightarrow> u @ v \<in> lstar A"
  by (induction rule: lstar.induct) auto

lemma lstar_conc_right: "lconc (lstar A) A = lconc A (lstar A)"
proof (intro set_eqI iffI)
  fix w
  have "u @ a \<in> lconc A (lstar A)" if "u \<in> lstar A" "a \<in> A" for u a
    using that
  proof (induction rule: lstar.induct)
    case lstar_Nil
    then show ?case using lconcI [of a A "[]" "lstar A"] by simp
  next
    case (lstar_append u v)
    then obtain x y where xy: "v @ a = x @ y" "x \<in> A" "y \<in> lstar A" by blast
    then have "u @ (v @ a) \<in> lconc A (lstar A)" unfolding xy(1) using lstar_append.hyps(1) by blast
    then show ?case by simp
  qed
  then show "w \<in> lconc A (lstar A)" if "w \<in> lconc (lstar A) A" using that by blast
  have "a @ u \<in> lconc (lstar A) A" if "u \<in> lstar A" "a \<in> A" for u a
    using that
  proof (induction arbitrary: a rule: lstar.induct)
    case lstar_Nil
    then show ?case using lconcI [of "[]" "lstar A" a A] by simp
  next
    case (lstar_append u v)
    then obtain x y where xy: "u @ v = x @ y" "x \<in> lstar A" "y \<in> A" by blast
    have "(a @ x) @ y \<in> lconc (lstar A) A" using xy lstar_append.prems by blast
    then show ?case using xy(1) by simp
  qed
  then show "w \<in> lconc (lstar A) A" if "w \<in> lconc A (lstar A)" using that by blast
qed

lemma lconcs_simps [simp]: "lconcs [] = {[]}" "lconcs (A # As) = lconc A (lconcs As)"
  by (simp_all add: lconcs_def)

lemma lconcs_append: "lconcs (As @ Bs) = lconc (lconcs As) (lconcs Bs)"
  by (induction As) (simp_all add: lconc_assoc)

lemma lconcs_replicate: "lconcs (replicate n A) = lpow n A"
  by (induction n) simp_all

lemma lpow_add: "lpow (m + n) A = lconc (lpow m A) (lpow n A)"
  by (induction m) (simp_all add: lconc_assoc)

lemma Nil_in_lconc [simp]: "[] \<in> lconc A B \<longleftrightarrow> [] \<in> A \<and> [] \<in> B"
  by (auto simp: lconc_def)

lemma Nil_in_lconcs: "[] \<in> lconcs As \<longleftrightarrow> (\<forall>A \<in> set As. [] \<in> A)"
  by (induction As) auto

lemma Nil_in_lpow: "[] \<in> lpow n A \<longleftrightarrow> n = 0 \<or> [] \<in> A"
  by (induction n) auto

subsection \<open>Runs\<close>

type_synonym ('s, 'a) steps = "'s \<Rightarrow> 'a option \<Rightarrow> 's \<Rightarrow> bool"

inductive run :: "('s, 'a) steps \<Rightarrow> 's \<Rightarrow> 'a list \<Rightarrow> 's \<Rightarrow> bool" for R where
  run_refl [simp, intro]: "run R p [] p"
| run_eps: "R p None p' \<Longrightarrow> run R p' w q \<Longrightarrow> run R p w q"
| run_letter: "R p (Some a) p' \<Longrightarrow> run R p' w q \<Longrightarrow> run R p (a # w) q"

definition paths :: "('s, 'a) steps \<Rightarrow> 's \<Rightarrow> 's \<Rightarrow> 'a lang" where
  "paths R p q = {w. run R p w q}"

definition add_edge :: "'s \<Rightarrow> 's \<Rightarrow> ('s, 'a) steps \<Rightarrow> ('s, 'a) steps" where
  "add_edge a b R = (\<lambda>p x q. R p x q \<or> p = a \<and> x = None \<and> q = b)"

lemma run_trans: "run R p u q \<Longrightarrow> run R q v r \<Longrightarrow> run R p (u @ v) r"
  by (induction rule: run.induct) (auto intro: run.intros)

lemma run_mono:
  assumes "run R p w q" and "\<And>p x q. R p x q \<Longrightarrow> R' p x q"
  shows "run R' p w q"
  using assms(1) by (induction rule: run.induct) (auto intro: run.intros assms(2))

lemma run_star: "v \<in> lstar (paths R b a) \<Longrightarrow> R a None b \<Longrightarrow> run R b z q \<Longrightarrow> run R b (v @ z) q"
proof (induction rule: lstar.induct)
  case (lstar_append u v)
  then have "run R b u a" "run R a (v @ z) q" by (auto simp: paths_def intro: run_eps)
  then show ?case by (metis append_assoc run_trans)
qed simp

lemma paths_add:
  "paths (add_edge a b R) p q = paths R p q \<union> lconc (paths R p a) (lconc (lstar (paths R b a)) (paths R b q))"
proof (intro set_eqI iffI)
  fix w
  let ?R = "add_edge a b R"
  let ?S = "\<lambda>p. paths R p q \<union> lconc (paths R p a) (lconc (lstar (paths R b a)) (paths R b q))"
  have into: "run ?R p w q \<Longrightarrow> w \<in> ?S p" for p w
  proof (induction rule: run.induct)
    case (run_eps p p' w q)
    show ?case
    proof (cases "R p None p'")
      case True
      then have "paths R p' r \<subseteq> paths R p r" for r by (auto simp: paths_def intro: run.run_eps)
      then show ?thesis using run_eps.IH by (auto simp: lconc_def) (metis subsetD)+
    next
      case False
      then have e: "p = a" "p' = b" using run_eps.hyps(1) by (auto simp: add_edge_def)
      have "[] \<in> paths R a a" by (simp add: paths_def)
      then show ?thesis
        using run_eps.IH unfolding e
        by (auto simp: lconc_def) (metis append_Nil lstar_Nil, metis append_Nil append_assoc lstar_append)
    qed
  next
    case (run_letter p x p' w q)
    then have "R p (Some x) p'" by (simp add: add_edge_def)
    then have "u \<in> paths R p' r \<Longrightarrow> x # u \<in> paths R p r" for r u by (auto simp: paths_def intro: run.run_letter)
    then show ?case using run_letter.IH by (auto simp: lconc_def) (metis append_Cons)
  qed (simp add: paths_def)
  show "w \<in> paths ?R p q \<Longrightarrow> w \<in> ?S p" using into by (simp add: paths_def)
  have R: "?R a None b" "\<And>p x q. R p x q \<Longrightarrow> ?R p x q" by (simp_all add: add_edge_def)
  have mono: "run R p' w q' \<Longrightarrow> run ?R p' w q'" for p' w q' using run_mono R(2) by metis
  have star: "lstar (paths R b a) \<subseteq> lstar (paths ?R b a)"
  proof
    show "v \<in> lstar (paths ?R b a)" if "v \<in> lstar (paths R b a)" for v
      using that by (induction rule: lstar.induct) (auto simp: paths_def intro: mono)
  qed
  have jump: "run ?R p (u @ v @ z) q" if "run R p u a" "v \<in> lstar (paths R b a)" "run R b z q" for u v z
  proof -
    have "run ?R b (v @ z) q" by (rule run_star) (use star that(2,3) R(1) mono in auto)
    then have "run ?R a (v @ z) q" by (rule run_eps [where R = ?R, OF R(1)])
    then show ?thesis using run_trans mono that(1) by metis
  qed
  show "w \<in> ?S p \<Longrightarrow> w \<in> paths ?R p q"
    using mono jump by (auto simp: paths_def lconc_def)
qed

subsection \<open>Closed regions\<close>

definition closed_in :: "('s, 'a) steps \<Rightarrow> 's set \<Rightarrow> bool" where
  "closed_in R D \<longleftrightarrow> (\<forall>p \<in> D. \<forall>x q. R p x q \<longrightarrow> q \<in> D)"

lemma run_closed: "run R p w q \<Longrightarrow> closed_in R D \<Longrightarrow> p \<in> D \<Longrightarrow> q \<in> D"
  by (induction rule: run.induct) (auto simp: closed_in_def)

lemma paths_outside: "closed_in R D \<Longrightarrow> p \<in> D \<Longrightarrow> q \<notin> D \<Longrightarrow> paths R p q = {}"
  using run_closed by (fastforce simp: paths_def)

lemma run_region:
  assumes "run R p w q" and "closed_in R D" and "p \<in> D" and "\<forall>p \<in> D. \<forall>x q. R' p x q = R p x q"
  shows "run R' p w q"
  using assms(1,3)
proof (induction rule: run.induct)
  case (run_eps p p' w q)
  have "p' \<in> D" using run_eps(1,4) assms(2) unfolding closed_in_def by blast
  moreover have "R' p None p'" using run_eps(1,4) assms(4) by blast
  ultimately show ?case using run_eps(3) run.run_eps [of R' p p' w q] by blast
next
  case (run_letter p a p' w q)
  have "p' \<in> D" using run_letter(1,4) assms(2) unfolding closed_in_def by blast
  moreover have "R' p (Some a) p'" using run_letter(1,4) assms(4) by blast
  ultimately show ?case using run_letter(3) run.run_letter [of R' p a p' w q] by blast
qed simp

lemma paths_region:
  assumes "closed_in R D" and "p \<in> D" and "\<forall>p \<in> D. \<forall>x q. R' p x q = R p x q"
  shows "paths R' p q = paths R p q"
proof -
  have "closed_in R' D" using assms(1,3) unfolding closed_in_def by blast
  then have "run R p w q" if "run R' p w q" for w by (rule run_region [OF that]) (use assms(2,3) in auto)
  moreover have "run R' p w q" if "run R p w q" for w by (rule run_region [OF that assms])
  ultimately show ?thesis unfolding paths_def by blast
qed

definition isolated :: "('s, 'a) steps \<Rightarrow> 's \<Rightarrow> bool" where
  "isolated R i \<longleftrightarrow> (\<forall>x q. \<not> R i x q)"

lemma paths_isolated: "isolated R i \<Longrightarrow> paths R i q = (if q = i then {[]} else {})"
  by (auto simp: paths_def isolated_def elim: run.cases)

text \<open>A single labelled step between two states without other edges.\<close>

lemma paths_letters:
  assumes "\<And>x r. R p x r \<longleftrightarrow> r = q \<and> (\<exists>a \<in> A. x = Some a)" and "isolated R q" and "p \<noteq> q"
  shows "paths R p q = {[a] | a. a \<in> A}"
proof (intro set_eqI iffI)
  fix w
  assume "w \<in> paths R p q"
  then have "run R p w q" by (simp add: paths_def)
  then show "w \<in> {[a] | a. a \<in> A}"
  proof cases
    case (run_letter a p' v)
    then have "v \<in> paths R q q" "a \<in> A" using assms(1) by (auto simp: paths_def)
    then show ?thesis using run_letter(1) paths_isolated [OF assms(2)] by simp
  qed (use assms in auto)
next
  fix w
  assume "w \<in> {[a] | a. a \<in> A}"
  then show "w \<in> paths R p q" using assms(1) by (auto simp: paths_def intro: run.intros)
qed

subsection \<open>The gadgets of the construction\<close>

text \<open>One fragment after another.\<close>

lemma paths_seq:
  assumes "paths R s1 e2 = {}" and "paths R s2 e1 = {}"
  shows "paths (add_edge e1 s2 R) s1 e2 = lconc (paths R s1 e1) (paths R s2 e2)"
  using assms by (simp add: paths_add)

text \<open>A fresh pair of states around a fragment.\<close>

definition fresh_pair :: "('s, 'a) steps \<Rightarrow> 's \<Rightarrow> 's \<Rightarrow> 's \<Rightarrow> bool" where
  "fresh_pair R s st en \<longleftrightarrow>
     isolated R st \<and> isolated R en \<and> st \<noteq> en \<and> paths R s st = {} \<and> paths R s en = {}"

lemma fresh_pairD:
  assumes "fresh_pair R s st en"
  shows "paths R st q = (if q = st then {[]} else {})" "paths R en q = (if q = en then {[]} else {})"
    "st \<noteq> en" "en \<noteq> st" "paths R s st = {}" "paths R s en = {}"
  using assms by (auto simp add: fresh_pair_def paths_isolated)

lemma paths_star:
  assumes "fresh_pair R s st en" and "e \<noteq> st" "e \<noteq> en"
  shows "paths (add_edge e en (add_edge e s (add_edge st en (add_edge st s R)))) st en = lstar (paths R s e)"
  using fresh_pairD [OF assms(1)] assms(2,3)
  by (simp add: paths_add lconc_Un lconc_assoc) (metis lconc_unit(2) lconc_Un(2) lstar_conc_right lstar_unfold Un_commute insert_is_Un)

lemma paths_plus:
  assumes "fresh_pair R s st en" and "e \<noteq> st" "e \<noteq> en"
  shows "paths (add_edge e en (add_edge e s (add_edge st s R))) st en = lconc (paths R s e) (lstar (paths R s e))"
  using fresh_pairD [OF assms(1)] assms(2,3)
  by (simp add: paths_add lconc_Un lconc_assoc) (metis lconc_unit(2) lconc_Un(2) lstar_conc_right lstar_unfold Un_commute)

lemma paths_optional:
  assumes "fresh_pair R s st en" and "e \<noteq> st" "e \<noteq> en"
  shows "paths (add_edge e en (add_edge st en (add_edge st s R))) st en = {[]} \<union> paths R s e"
  using fresh_pairD [OF assms(1)] assms(2,3) by (simp add: paths_add lconc_Un)

text \<open>One more branch between \<open>st\<close> and \<open>en\<close>.\<close>

lemma paths_branch:
  assumes "isolated R en" and "paths R s st = {}" "paths R s en = {}" "paths R st st = {[]}" "paths R st e = {}"
    and "en \<noteq> e" "en \<noteq> st"
  shows "paths (add_edge e en (add_edge st s R)) st en = paths R st en \<union> paths R s e"
  using assms paths_isolated [OF assms(1)] by (simp add: paths_add lconc_Un)

text \<open>A loop state after a fragment, and an optional fragment after a fragment.\<close>

lemma paths_loop:
  assumes "isolated R lp" and "paths R s lp = {}" "paths R s ss = {}" "paths R s se = {}" "paths R ss e = {}" "paths R ss lp = {}"
    and "lp \<noteq> e" "lp \<noteq> ss" "lp \<noteq> se"
  shows "paths (add_edge se lp (add_edge lp ss (add_edge e lp R))) s lp = lconc (paths R s e) (lstar (paths R ss se))"
  using assms paths_isolated [OF assms(1)]
  by (simp add: paths_add lconc_Un lconc_assoc) (metis lconc_Un(2) lconc_unit(2) lstar_unfold)

lemma paths_maybe:
  assumes "isolated R en" and "paths R s en = {}" "paths R s oe = {}" "paths R os e = {}" "paths R os en = {}"
    and "en \<noteq> e" "en \<noteq> oe"
  shows "paths (add_edge oe en (add_edge e en (add_edge e os R))) s en = paths R s e \<union> lconc (paths R s e) (paths R os oe)"
  using assms paths_isolated [OF assms(1)] by (simp add: paths_add lconc_Un lconc_assoc)

text \<open>A new leaf reached by letters from one state.\<close>

lemma paths_leaf:
  assumes R': "\<And>p x q. R' p x q \<longleftrightarrow> R p x q \<or> p = src \<and> q = leaf \<and> (\<exists>a \<in> A. x = Some a)"
    and "isolated R leaf" and "\<And>p x. \<not> R p x leaf" and "src \<noteq> leaf" "p \<noteq> leaf"
  shows "q \<noteq> leaf \<Longrightarrow> paths R' p q = paths R p q" "paths R' p leaf = lconc (paths R p src) {[a] | a. a \<in> A}"
proof -
  have leaf: "w = [] \<and> q = leaf" if "run R' leaf w q" for w q
    using that by cases (use R' assms(2,4) in \<open>auto simp: isolated_def\<close>)
  have main: "run R p w q \<or> q = leaf \<and> (\<exists>u a. w = u @ [a] \<and> run R p u src \<and> a \<in> A)" if "run R' p w q" "p \<noteq> leaf" for p w q
    using that
  proof (induction rule: run.induct)
    case (run_eps p p' w q)
    then have "R p None p'" "p' \<noteq> leaf" using R' assms(3) by auto
    then show ?case using run_eps.IH run.run_eps [of R p p'] by blast
  next
    case (run_letter p a p' w q)
    show ?case
    proof (cases "p' = leaf")
      case True
      then have "p = src" "a \<in> A" using run_letter.hyps(1) R' assms(3) by auto
      moreover have "w = [] \<and> q = leaf" using leaf run_letter.hyps(2) True by blast
      ultimately show ?thesis using run_refl [of R src] by (metis append_Nil)
    next
      case False
      then have "R p (Some a) p'" using run_letter.hyps(1) R' by auto
      note step = run.run_letter [of R p a p', OF this]
      show ?thesis using run_letter.IH [OF False]
      proof
        assume "run R p' w q"
        then show ?thesis using step by blast
      next
        assume "q = leaf \<and> (\<exists>u b. w = u @ [b] \<and> run R p' u src \<and> b \<in> A)"
        then obtain u b where "q = leaf" "a # w = (a # u) @ [b]" "run R p (a # u) src" "b \<in> A" using step by auto
        then show ?thesis by blast
      qed
    qed
  qed simp
  have up: "run R' p w q" if "run R p w q" for p w q by (rule run_mono [OF that]) (simp add: R')
  have ext: "run R' p (u @ [a]) leaf" if "run R p u src" "a \<in> A" for p u a
    using run_trans [OF up [OF that(1)], of "[a]" leaf] run.run_letter [of R' src a leaf "[]" leaf] R' that(2) by auto
  have none: "p = leaf" if "run R p w leaf" for p w
  proof -
    have "q = leaf \<longrightarrow> p = leaf" if "run R p w q" for p w q
      using that by (induction rule: run.induct) (use assms(3) in auto)
    then show ?thesis using that by blast
  qed
  show "q \<noteq> leaf \<Longrightarrow> paths R' p q = paths R p q" unfolding paths_def using main [OF _ assms(5)] up by blast
  show "paths R' p leaf = lconc (paths R p src) {[a] | a. a \<in> A}"
  proof (intro set_eqI iffI)
    fix w
    assume "w \<in> paths R' p leaf"
    then obtain u a where "w = u @ [a]" "run R p u src" "a \<in> A"
      using main [OF _ assms(5), of w leaf] none [of p w] assms(5) by (auto simp: paths_def)
    then show "w \<in> lconc (paths R p src) {[a] | a. a \<in> A}" by (auto simp: paths_def)
  next
    fix w
    assume "w \<in> lconc (paths R p src) {[a] | a. a \<in> A}"
    then show "w \<in> paths R' p leaf" using ext by (auto simp: paths_def)
  qed
qed

end
