(* ===== verification/Rune_Ranges.thy ===== *)
theory Rune_Ranges
  imports Go_Prelude
begin

text \<open>
  Sets of runes as lists of inclusive ranges, as the lexer generator keeps character classes:
  merging and complement (\<open>grammargen/nfa.go\<close>), difference and intersection
  (\<open>grammargen/regex.go\<close>). \<open>ranges_set\<close> is the set a list stands for; the lemmas relate each
  operation to the operation on sets.
\<close>

record runeRange =
  rLo :: rune
  rHi :: rune

abbreviation range_of :: "rune \<Rightarrow> rune \<Rightarrow> runeRange" where
  "range_of lo hi \<equiv> \<lparr>rLo = lo, rHi = hi\<rparr>"

definition maxSupportedRune :: rune where
  "maxSupportedRune = 0x10FFFF"

subsection \<open>Merging and complement\<close>

text \<open>The exchange loop of the insertion sort, moving the element at \<open>j\<close> to the left.\<close>

fun sift :: "runeRange list \<Rightarrow> nat \<Rightarrow> runeRange list" where
  "sift xs 0 = xs"
| "sift xs (Suc j) =
     (if rLo (xs ! Suc j) < rLo (xs ! j) then sift (xs[Suc j := xs ! j, j := xs ! Suc j]) j else xs)"

definition sort_by_lo :: "runeRange list \<Rightarrow> runeRange list" where
  "sort_by_lo xs = fold (\<lambda>i ys. sift ys i) [1..<length xs] xs"

definition merge_range :: "runeRange list \<Rightarrow> runeRange \<Rightarrow> runeRange list" where
  "merge_range result r =
     (let l = last result in
      if rLo r \<le> rHi l + 1
      then (if rHi r > rHi l then butlast result @ [l\<lparr>rHi := rHi r\<rparr>] else result)
      else result @ [r])"

definition mergeRanges :: "runeRange list \<Rightarrow> runeRange list" where
  "mergeRanges ranges =
     (if ranges = [] then []
      else (let sorted = sort_by_lo ranges in foldl merge_range [hd sorted] (tl sorted)))"

fun complement_loop :: "rune \<Rightarrow> runeRange list \<Rightarrow> runeRange list" where
  "complement_loop pos [] = (if pos \<le> maxSupportedRune then [range_of pos maxSupportedRune] else [])"
| "complement_loop pos (r # rs) =
     (if rLo r > pos then [range_of pos (rLo r - 1)] else []) @ complement_loop (rHi r + 1) rs"

definition complementRanges :: "runeRange list \<Rightarrow> runeRange list" where
  "complementRanges ranges =
     (if ranges = [] then [range_of 0 maxSupportedRune] else complement_loop 0 (mergeRanges ranges))"

subsection \<open>Difference and intersection\<close>

fun rewind :: "runeRange list \<Rightarrow> rune \<Rightarrow> nat \<Rightarrow> nat" where
  "rewind sub lo 0 = 0"
| "rewind sub lo (Suc si) = (if rHi (sub ! si) \<ge> lo then rewind sub lo si else Suc si)"

text \<open>The inner loop for one base range: the pieces kept, and the values of \<open>lo\<close> and \<open>si\<close> after it.\<close>

function subtract_one :: "runeRange list \<Rightarrow> rune \<Rightarrow> rune \<Rightarrow> nat \<Rightarrow> runeRange list \<times> rune \<times> nat" where
  "subtract_one sub hi lo si =
     (if si < length sub \<and> rLo (sub ! si) \<le> hi
      then
        (let s = sub ! si in
         if rHi s < lo then subtract_one sub hi lo (si + 1)
         else
           (let out = (if rLo s > lo then [range_of lo (rLo s - 1)] else []); lo' = rHi s + 1 in
            if lo' > hi then (out, lo', si)
            else (case subtract_one sub hi lo' (si + 1) of (out', r) \<Rightarrow> (out @ out', r))))
      else ([], lo, si))"
  by pat_completeness auto

termination subtract_one
  by (relation "measure (\<lambda>(sub, hi, lo, si). length sub - si)") auto

declare subtract_one.simps [simp del]

fun subtract_loop :: "runeRange list \<Rightarrow> nat \<Rightarrow> runeRange list \<Rightarrow> runeRange list" where
  "subtract_loop sub si [] = []"
| "subtract_loop sub si (b # bs) =
     (case subtract_one sub (rHi b) (rLo b) (rewind sub (rLo b) si) of (out, lo, si') \<Rightarrow>
        out @ (if lo \<le> rHi b then [range_of lo (rHi b)] else []) @ subtract_loop sub si' bs)"

text \<open>The source sorts both lists with \<open>sort.Slice\<close>, which leaves open how ranges with the same \<open>lo\<close>
  are ordered. The definitions fix one order; C18 below is about the loops on every order by \<open>lo\<close>.\<close>

definition subtractRuneRanges :: "runeRange list \<Rightarrow> runeRange list \<Rightarrow> runeRange list" where
  "subtractRuneRanges base sub = subtract_loop (go_sort_by rLo sub) 0 (go_sort_by rLo base)"

fun intersect_loop :: "runeRange list \<Rightarrow> runeRange list \<Rightarrow> runeRange list" where
  "intersect_loop [] keep = []"
| "intersect_loop base [] = []"
| "intersect_loop (b # base) (k # keep) =
     (let lo = max (rLo b) (rLo k); hi = min (rHi b) (rHi k)
      in (if lo \<le> hi then [range_of lo hi] else []) @
         (if rHi b < rHi k then intersect_loop base (k # keep) else intersect_loop (b # base) keep))"

definition intersectRuneRanges :: "runeRange list \<Rightarrow> runeRange list \<Rightarrow> runeRange list" where
  "intersectRuneRanges base keep = intersect_loop (go_sort_by rLo base) (go_sort_by rLo keep)"

subsection \<open>The set of runes a list stands for\<close>

definition ranges_set :: "runeRange list \<Rightarrow> rune set" where
  "ranges_set rs = (\<Union>r \<in> set rs. {rLo r..rHi r})"

definition range_ok :: "runeRange \<Rightarrow> bool" where
  "range_ok r \<longleftrightarrow> 0 \<le> rLo r \<and> rLo r \<le> rHi r \<and> rHi r \<le> maxSupportedRune"

text \<open>Ascending ranges with a gap between neighbours: the unique smallest list for its set.\<close>

definition runes_separated :: "runeRange list \<Rightarrow> bool" where
  "runes_separated rs \<longleftrightarrow> sorted_wrt (\<lambda>a b. rHi a + 1 < rLo b) rs \<and> (\<forall>r \<in> set rs. rLo r \<le> rHi r)"

lemma ranges_set_simps [simp]:
  "ranges_set [] = {}" "ranges_set (r # rs) = {rLo r..rHi r} \<union> ranges_set rs"
  "ranges_set (xs @ ys) = ranges_set xs \<union> ranges_set ys"
  by (simp_all add: ranges_set_def)

lemma ranges_set_cong: "set xs = set ys \<Longrightarrow> ranges_set xs = ranges_set ys"
  by (simp add: ranges_set_def)

lemma ranges_set_sorted [simp]: "ranges_set (go_sort_by key rs) = ranges_set rs"
  by (rule ranges_set_cong) simp

lemma ranges_set_iff: "x \<in> ranges_set rs \<longleftrightarrow> (\<exists>r \<in> set rs. rLo r \<le> x \<and> x \<le> rHi r)"
  by (auto simp: ranges_set_def)

subsection \<open>Lemmas: merging\<close>

lemma sift_split:
  "\<exists>ys. sift (pre @ x # post) (length pre) = ys @ post \<and> mset ys = add_mset x (mset pre) \<and>
    (sorted (map rLo pre) \<longrightarrow> sorted (map rLo ys))"
proof (induction pre arbitrary: post rule: rev_induct)
  case (snoc y pre)
  show ?case
  proof (cases "rLo x < rLo y")
    case True
    have "sift ((pre @ [y]) @ x # post) (length (pre @ [y])) = sift (pre @ x # y # post) (length pre)"
      using True by (simp add: nth_append list_update_append)
    moreover obtain ys where ys: "sift (pre @ x # (y # post)) (length pre) = ys @ y # post"
      "mset ys = add_mset x (mset pre)" "sorted (map rLo pre) \<longrightarrow> sorted (map rLo ys)"
      using snoc.IH by blast
    moreover have "set ys = insert x (set pre)" using ys(2) by (metis set_mset_add_mset_insert set_mset_mset)
    ultimately show ?thesis
      using True by (intro exI [of _ "ys @ [y]"]) (auto simp: sorted_append)
  next
    case False
    then show ?thesis by (intro exI [of _ "pre @ [y, x]"]) (auto simp: nth_append sorted_append)
  qed
qed simp

lemma sort_by_lo: "mset (sort_by_lo xs) = mset xs" "sorted (map rLo (sort_by_lo xs))"
proof -
  have "mset (fold (\<lambda>i ys. sift ys i) [1..<k] xs) = mset xs \<and>
      drop k (fold (\<lambda>i ys. sift ys i) [1..<k] xs) = drop k xs \<and>
      sorted (map rLo (take k (fold (\<lambda>i ys. sift ys i) [1..<k] xs)))" if "k \<le> length xs" for k
    using that
  proof (induction k)
    case (Suc k)
    let ?ys = "fold (\<lambda>i ys. sift ys i) [1..<k] xs"
    show ?case
    proof (cases "k = 0")
      case True
      then show ?thesis by (cases xs) simp_all
    next
      case False
      have IH: "mset ?ys = mset xs" "drop k ?ys = drop k xs" "sorted (map rLo (take k ?ys))" using Suc by simp_all
      have len: "length ?ys = length xs" using IH(1) by (metis size_mset)
      have split: "?ys = take k ?ys @ xs ! k # drop (Suc k) xs"
        using Suc.prems IH(2) by (metis Cons_nth_drop_Suc Suc_le_lessD append_take_drop_id)
      have lenk: "length (take k ?ys) = k" using Suc.prems len by simp
      obtain zs where zs: "sift (take k ?ys @ xs ! k # drop (Suc k) xs) (length (take k ?ys)) = zs @ drop (Suc k) xs"
        "mset zs = add_mset (xs ! k) (mset (take k ?ys))" "sorted (map rLo (take k ?ys)) \<longrightarrow> sorted (map rLo zs)"
        using sift_split by blast
      have step: "fold (\<lambda>i ys. sift ys i) [1..<Suc k] xs = zs @ drop (Suc k) xs"
        using False zs(1) lenk split by (simp flip: split)
      have "mset ?ys = mset zs + mset (drop (Suc k) xs)"
        by (subst split) (simp add: zs(2))
      moreover have "length zs = Suc k" using zs(2) lenk by (metis size_add_mset size_mset)
      ultimately show ?thesis using step IH(1,3) zs(3) by simp
    qed
  qed simp
  from this [of "length xs"] show "mset (sort_by_lo xs) = mset xs" "sorted (map rLo (sort_by_lo xs))"
    by (simp_all add: sort_by_lo_def) (metis size_mset take_all order_refl)
qed

lemma merge_step:
  assumes "result \<noteq> []" and "runes_separated result" and "rLo r \<le> rHi r" and "rLo (last result) \<le> rLo r"
  shows "runes_separated (merge_range result r)" "merge_range result r \<noteq> []"
    "ranges_set (merge_range result r) = ranges_set result \<union> {rLo r..rHi r}"
    "rLo (last (merge_range result r)) \<le> rLo r"
proof -
  obtain pre l where l: "result = pre @ [l]" using assms(1) by (metis append_butlast_last_id)
  have pre: "sorted_wrt (\<lambda>a b. rHi a + 1 < rLo b) pre" "\<forall>a \<in> set pre. rHi a + 1 < rLo l \<and> rLo a \<le> rHi a" "rLo l \<le> rHi l" "rLo l \<le> rLo r"
    using assms(2,4) l by (auto simp: runes_separated_def sorted_wrt_append)
  then have "\<forall>a \<in> set pre. rHi a + 1 < rLo r" by force
  then show "runes_separated (merge_range result r)"
    using pre assms(3) by (auto simp: l merge_range_def runes_separated_def sorted_wrt_append Let_def)
  show "merge_range result r \<noteq> []" using assms(1) by (simp add: merge_range_def Let_def)
  show "ranges_set (merge_range result r) = ranges_set result \<union> {rLo r..rHi r}"
    using assms l by (auto simp: merge_range_def runes_separated_def Let_def)
  show "rLo (last (merge_range result r)) \<le> rLo r"
    using assms l by (simp add: merge_range_def Let_def)
qed

lemma merge_fold:
  assumes "result \<noteq> []" "runes_separated result" "\<forall>r \<in> set rs. rLo r \<le> rHi r" "sorted (map rLo (last result # rs))"
  shows "runes_separated (foldl merge_range result rs) \<and> ranges_set (foldl merge_range result rs) = ranges_set result \<union> ranges_set rs"
  using assms
proof (induction rs arbitrary: result)
  case (Cons r rs)
  note s = merge_step [of result r]
  have "\<forall>x \<in> set rs. rLo r \<le> rLo x" using Cons.prems(4) by simp
  then have "sorted (map rLo (last (merge_range result r) # rs))" using Cons.prems s(4) by fastforce
  then show ?case using Cons.IH [of "merge_range result r"] Cons.prems s by auto
qed simp

lemma merge_exact:
  assumes "\<forall>r \<in> set ranges. rLo r \<le> rHi r"
  shows "runes_separated (mergeRanges ranges)" "ranges_set (mergeRanges ranges) = ranges_set ranges"
proof -
  have "runes_separated (mergeRanges ranges) \<and> ranges_set (mergeRanges ranges) = ranges_set ranges"
  proof (cases "ranges = []")
    case False
    have set: "set (sort_by_lo ranges) = set ranges" using sort_by_lo(1) by (metis set_mset_mset)
    then obtain x xs where x: "sort_by_lo ranges = x # xs" using False by (cases "sort_by_lo ranges") auto
    have all: "\<forall>r \<in> set (x # xs). rLo r \<le> rHi r" using assms set x by metis
    then have "runes_separated [x]" by (simp add: runes_separated_def)
    then have "runes_separated (foldl merge_range [x] xs) \<and> ranges_set (foldl merge_range [x] xs) = ranges_set [x] \<union> ranges_set xs"
      using merge_fold [of "[x]" xs] all sort_by_lo(2) [of ranges] x by simp
    then show ?thesis using False x ranges_set_cong [OF set] by (simp add: mergeRanges_def)
  qed (simp add: mergeRanges_def runes_separated_def)
  then show "runes_separated (mergeRanges ranges)" "ranges_set (mergeRanges ranges) = ranges_set ranges" by simp_all
qed

lemma ranges_bounds:
  assumes "\<forall>r \<in> set rs. lo \<le> rLo r \<and> rLo r \<le> rHi r \<and> rHi r \<le> hi"
  shows "ranges_set rs \<subseteq> {lo..hi}"
  using assms by (force simp: ranges_set_def)

lemma runes_separated_member_bounds:
  assumes "runes_separated rs" and "ranges_set rs \<subseteq> {lo..hi}" and "r \<in> set rs"
  shows "lo \<le> rLo r" "rHi r \<le> hi"
proof -
  have "rLo r \<le> rHi r" using assms(1,3) by (simp add: runes_separated_def)
  then have "rLo r \<in> ranges_set rs" "rHi r \<in> ranges_set rs" using assms(3) by (auto simp: ranges_set_iff)
  then show "lo \<le> rLo r" "rHi r \<le> hi" using assms(2) by auto
qed

lemma complement_loop_set:
  assumes "runes_separated rs" and "\<forall>r \<in> set rs. pos \<le> rLo r \<and> rHi r \<le> maxSupportedRune"
  shows "ranges_set (complement_loop pos rs) = {pos..maxSupportedRune} - ranges_set rs"
    "runes_separated (complement_loop pos rs)" "\<forall>r \<in> set (complement_loop pos rs). pos \<le> rLo r \<and> rHi r \<le> maxSupportedRune"
proof -
  have "ranges_set (complement_loop pos rs) = {pos..maxSupportedRune} - ranges_set rs \<and>
    runes_separated (complement_loop pos rs) \<and> (\<forall>r \<in> set (complement_loop pos rs). pos \<le> rLo r \<and> rHi r \<le> maxSupportedRune)"
    using assms
  proof (induction rs arbitrary: pos)
    case (Cons r rs)
    have r: "pos \<le> rLo r" "rLo r \<le> rHi r" "rHi r \<le> maxSupportedRune" using Cons.prems by (auto simp: runes_separated_def)
    have gap: "\<forall>b \<in> set rs. rHi r + 1 < rLo b" using Cons.prems(1) by (simp add: runes_separated_def)
    have "runes_separated rs" using Cons.prems(1) by (simp add: runes_separated_def)
    moreover have "\<forall>x \<in> set rs. rHi r + 1 \<le> rLo x \<and> rHi x \<le> maxSupportedRune" using gap Cons.prems(2) by force
    ultimately have IH: "ranges_set (complement_loop (rHi r + 1) rs) = {rHi r + 1..maxSupportedRune} - ranges_set rs"
      "runes_separated (complement_loop (rHi r + 1) rs)"
      "\<forall>x \<in> set (complement_loop (rHi r + 1) rs). rHi r + 1 \<le> rLo x \<and> rHi x \<le> maxSupportedRune"
      using Cons.IH [of "rHi r + 1"] by blast+
    have out: "x \<notin> ranges_set rs" if "x \<le> rHi r" for x using gap that by (force simp: ranges_set_iff)
    have "ranges_set (complement_loop pos (r # rs)) = {pos..maxSupportedRune} - ranges_set (r # rs)"
      using IH(1) r out by auto
    moreover have "runes_separated (complement_loop pos (r # rs))" using IH(2,3) r by (fastforce simp: runes_separated_def)
    moreover have "\<forall>x \<in> set (complement_loop pos (r # rs)). pos \<le> rLo x \<and> rHi x \<le> maxSupportedRune" using IH(3) r by fastforce
    ultimately show ?case by blast
  qed (auto simp: runes_separated_def)
  then show "ranges_set (complement_loop pos rs) = {pos..maxSupportedRune} - ranges_set rs"
    "runes_separated (complement_loop pos rs)" "\<forall>r \<in> set (complement_loop pos rs). pos \<le> rLo r \<and> rHi r \<le> maxSupportedRune" by simp_all
qed

lemma complement_exact:
  assumes "\<forall>r \<in> set ranges. range_ok r"
  shows "ranges_set (complementRanges ranges) = {0..maxSupportedRune} - ranges_set ranges"
    "runes_separated (complementRanges ranges)" "\<forall>r \<in> set (complementRanges ranges). range_ok r"
proof -
  have ok: "\<forall>r \<in> set ranges. 0 \<le> rLo r \<and> rLo r \<le> rHi r \<and> rHi r \<le> maxSupportedRune" using assms by (simp add: range_ok_def)
  have m: "runes_separated (mergeRanges ranges)" "ranges_set (mergeRanges ranges) = ranges_set ranges" using merge_exact ok by blast+
  have "\<forall>r \<in> set (mergeRanges ranges). 0 \<le> rLo r \<and> rHi r \<le> maxSupportedRune"
    using runes_separated_member_bounds [OF m(1)] ranges_bounds [OF ok] m(2) by metis
  note c = complement_loop_set [OF m(1) this]
  show "ranges_set (complementRanges ranges) = {0..maxSupportedRune} - ranges_set ranges"
    using c(1) m(2) by (simp add: complementRanges_def)
  show sep: "runes_separated (complementRanges ranges)"
    using c(2) by (simp add: complementRanges_def runes_separated_def maxSupportedRune_def)
  show "\<forall>r \<in> set (complementRanges ranges). range_ok r"
    using c(3) sep by (auto simp: complementRanges_def runes_separated_def range_ok_def maxSupportedRune_def split: if_splits)
qed

subsection \<open>Lemmas: difference and intersection\<close>

lemma rewind_spec:
  "rewind sub lo si \<le> si" "rewind sub lo si = 0 \<or> rHi (sub ! (rewind sub lo si - 1)) < lo"
  by (induction sub lo si rule: rewind.induct) auto

lemma subtract_one_exact:
  assumes "sorted (map rLo sub)" and "\<forall>s \<in> set sub. rLo s \<le> rHi s" and "subtract_one sub hi lo si = (out, lo', si')"
  shows "ranges_set out \<union> {lo'..hi} = {lo..hi} - ranges_set (drop si sub)"
  using assms
proof (induction sub hi lo si arbitrary: out lo' si' rule: subtract_one.induct)
  case (1 sub hi lo si)
  note step = subtract_one.simps [of sub hi lo si]
  show ?case
  proof (cases "si < length sub \<and> rLo (sub ! si) \<le> hi")
    case True
    let ?s = "sub ! si"
    have d: "drop si sub = ?s # drop (Suc si) sub" using True by (simp add: Cons_nth_drop_Suc)
    have later: "rLo ?s \<le> rLo x" if "x \<in> set (drop (Suc si) sub)" for x
    proof -
      have "sorted (map rLo (drop si sub))" using 1(3) by (metis drop_map sorted_wrt_drop)
      then show ?thesis using that by (simp add: d)
    qed
    have s: "rLo ?s \<le> rHi ?s" using True 1(4) by simp
    consider "rHi ?s < lo" | "\<not> rHi ?s < lo" "rHi ?s + 1 > hi" | "\<not> rHi ?s < lo" "\<not> rHi ?s + 1 > hi" by linarith
    then show ?thesis
    proof cases
      case 1
      then have "subtract_one sub hi lo (si + 1) = (out, lo', si')" using True step "1.prems"(3) by simp
      from "1.IH"(1) [OF True refl 1 "1.prems"(1,2) this] show ?thesis using 1 by (auto simp: d)
    next
      case 2
      have "out = (if rLo ?s > lo then [range_of lo (rLo ?s - 1)] else [])" "lo' = rHi ?s + 1"
        using True step 2 "1.prems"(3) by (simp_all add: Let_def)
      moreover have "x \<notin> ranges_set (drop (Suc si) sub)" if "x < rLo ?s" for x
        using later that by (force simp: ranges_set_iff)
      ultimately show ?thesis using 2 s True by (auto simp: d)
    next
      case 3
      obtain o2 where o2: "subtract_one sub hi (rHi ?s + 1) (si + 1) = (o2, lo', si')"
        "out = (if rLo ?s > lo then [range_of lo (rLo ?s - 1)] else []) @ o2"
        using True step 3 "1.prems"(3) by (auto simp: Let_def split: prod.splits)
      have IH: "ranges_set o2 \<union> {lo'..hi} = {rHi ?s + 1..hi} - ranges_set (drop (si + 1) sub)"
        by (rule "1.IH"(2) [OF True refl 3(1) refl refl 3(2) "1.prems"(1,2) o2(1)])
      have e: "ranges_set out \<union> {lo'..hi} =
          ranges_set (if rLo ?s > lo then [range_of lo (rLo ?s - 1)] else []) \<union> ({rHi ?s + 1..hi} - ranges_set (drop (Suc si) sub))"
        using IH by (simp add: o2(2) Un_assoc)
      have "x \<notin> ranges_set (drop (Suc si) sub)" if "x < rLo ?s" for x
        using later that by (force simp: ranges_set_iff)
      then show ?thesis using 3 s True unfolding e d ranges_set_simps by auto
    qed
  next
    case False
    then have "out = []" "lo' = lo" using step "1.prems"(3) by auto
    moreover have "x \<notin> ranges_set (drop si sub)" if "x \<le> hi" for x
    proof (cases "si < length sub")
      case True
      then have d: "drop si sub = sub ! si # drop (Suc si) sub" by (simp add: Cons_nth_drop_Suc)
      have "sorted (map rLo (drop si sub))" using 1(3) by (metis drop_map sorted_wrt_drop)
      then show ?thesis using False True that by (force simp: d ranges_set_iff)
    qed simp
    ultimately show ?thesis by auto
  qed
qed

lemma subtract_one_index:
  assumes "si \<le> length sub" and "subtract_one sub hi lo si = (out, lo', si')"
  shows "si' \<le> length sub"
  using assms
proof (induction sub hi lo si arbitrary: out rule: subtract_one.induct)
  case (1 sub hi lo si)
  note step = "1.prems"(2) [unfolded subtract_one.simps [of sub hi lo si]]
  show ?case
    using "1.prems"(1) step "1.IH"(1) [OF _ refl] "1.IH"(2) [OF _ refl _ refl refl]
    by (auto simp: Let_def split: if_splits prod.splits)
qed

lemma subtract_loop_exact:
  assumes "sorted (map rLo sub)" and "sorted (map rHi sub)" and "\<forall>s \<in> set sub. rLo s \<le> rHi s" and "si \<le> length sub"
  shows "ranges_set (subtract_loop sub si base) = ranges_set base - ranges_set sub"
  using assms(4)
proof (induction base arbitrary: si)
  case (Cons b base)
  define i where "i = rewind sub (rLo b) si"
  obtain out lo si' where one: "subtract_one sub (rHi b) (rLo b) i = (out, lo, si')" by (metis prod_cases3)
  have i: "i \<le> length sub" using rewind_spec(1) Cons.prems by (metis i_def order_trans)
  then have "si' \<le> length sub" using subtract_one_index one by blast
  then have IH: "ranges_set (subtract_loop sub si' base) = ranges_set base - ranges_set sub" by (rule Cons.IH)
  have "x \<notin> ranges_set (take i sub)" if "rLo b \<le> x" for x
  proof -
    have "rHi (sub ! j) < rLo b" if "j < i" for j
      using rewind_spec(2) [of sub "rLo b" si] that i sorted_nth_mono [OF assms(2), of j "i - 1"] by (force simp: i_def [symmetric])
    then show ?thesis using that i by (force simp: ranges_set_iff in_set_conv_nth)
  qed
  then have "{rLo b..rHi b} - ranges_set (drop i sub) = {rLo b..rHi b} - ranges_set sub"
    using ranges_set_simps(3) [of "take i sub" "drop i sub"] by (auto simp: append_take_drop_id)
  then have "ranges_set out \<union> {lo..rHi b} = {rLo b..rHi b} - ranges_set sub"
    using subtract_one_exact [OF assms(1,3) one] by simp
  moreover have "ranges_set (subtract_loop sub si (b # base)) = ranges_set out \<union> {lo..rHi b} \<union> ranges_set (subtract_loop sub si' base)"
    using one by (auto simp: i_def)
  ultimately show ?case using IH by auto
qed simp

lemma intersect_loop_exact:
  assumes "sorted (map rLo base)" and "sorted (map rLo keep)"
  shows "ranges_set (intersect_loop base keep) = ranges_set base \<inter> ranges_set keep"
  using assms
proof (induction base keep rule: intersect_loop.induct)
  case (3 b base k keep)
  let ?piece = "{max (rLo b) (rLo k)..min (rHi b) (rHi k)}"
  have b: "x \<in> ranges_set base \<Longrightarrow> rLo b \<le> x" and k: "x \<in> ranges_set keep \<Longrightarrow> rLo k \<le> x" for x
    using "3.prems" by (force simp: ranges_set_iff)+
  have head: "ranges_set (intersect_loop (b # base) (k # keep)) = ?piece \<union>
      ranges_set (if rHi b < rHi k then intersect_loop base (k # keep) else intersect_loop (b # base) keep)"
    by (auto simp: Let_def)
  show ?case
  proof (cases "rHi b < rHi k")
    case True
    then have "ranges_set (intersect_loop base (k # keep)) = ranges_set base \<inter> ranges_set (k # keep)"
      using "3.IH"(1) [OF refl refl] "3.prems" by simp
    moreover have "{rLo b..rHi b} \<inter> ranges_set (k # keep) = ?piece" using True k by fastforce
    ultimately show ?thesis unfolding head using True by auto
  next
    case False
    then have "ranges_set (intersect_loop (b # base) keep) = ranges_set (b # base) \<inter> ranges_set keep"
      using "3.IH"(2) [OF refl refl] "3.prems" by simp
    moreover have "ranges_set (b # base) \<inter> {rLo k..rHi k} = ?piece" using False b by fastforce
    ultimately show ?thesis unfolding head using False by auto
  qed
qed simp_all

text \<open>The orders \<open>sort.Slice\<close> may give, and removed ranges none of which lies in a longer one that starts
  no later.\<close>

definition ordered_by_lo :: "runeRange list \<Rightarrow> runeRange list \<Rightarrow> bool" where
  "ordered_by_lo bs xs \<longleftrightarrow> mset bs = mset xs \<and> sorted (map rLo bs)"

definition unnested :: "runeRange list \<Rightarrow> bool" where
  "unnested ys \<longleftrightarrow> (\<forall>r \<in> set ys. \<forall>s \<in> set ys. rLo r \<le> rLo s \<longrightarrow> rHi r \<le> rHi s)"

lemma ordered_sort: "ordered_by_lo (go_sort_by rLo xs) xs"
  by (simp add: ordered_by_lo_def go_sort_by_def)

lemma ordered_set: "ordered_by_lo bs xs \<Longrightarrow> set bs = set xs"
  by (metis ordered_by_lo_def set_mset_mset)

lemma unnested_ordered: "unnested ys \<Longrightarrow> ordered_by_lo ks ys \<Longrightarrow> sorted (map rHi ks)"
  using ordered_set [of ks ys]
  by (auto simp: unnested_def ordered_by_lo_def sorted_map intro: sorted_wrt_mono_rel [rotated])

lemma intersect_any_order:
  assumes "ordered_by_lo bs xs" and "ordered_by_lo ks ys"
  shows "ranges_set (intersect_loop bs ks) = ranges_set xs \<inter> ranges_set ys"
  using assms intersect_loop_exact [of bs ks] ranges_set_cong [OF ordered_set] by (simp add: ordered_by_lo_def)

lemma subtract_any_order:
  assumes "ordered_by_lo bs xs" and "ordered_by_lo ks ys" and "unnested ys" and "\<forall>r \<in> set ys. range_ok r"
  shows "ranges_set (subtract_loop ks 0 bs) = ranges_set xs - ranges_set ys"
  using assms subtract_loop_exact [of ks 0 bs] unnested_ordered [OF assms(3,2)] ordered_set [OF assms(2)]
    ranges_set_cong [OF ordered_set] by (simp add: ordered_by_lo_def range_ok_def)

subsection \<open>Properties\<close>

text \<open>
  \<^bold>\<open>C18.\<close> On ranges that lie in Unicode and are not inverted, the operations on character classes
  compute the set operations: merging keeps the set and gives ascending ranges with gaps, the
  complement is taken in all of Unicode, intersection is exact even for overlapping ranges, and
  difference is exact when no removed range nests in another. For intersection and difference
  this holds for every order by \<open>lo\<close> in which the sort may leave the two lists.
  \<open>subtract_nested_keeps\<close> and \<open>complement_inverted\<close> below show that nested removed ranges and
  inverted ranges are real exceptions.
\<close>

theorem range_algebra_exact:
  assumes "\<forall>r \<in> set xs. range_ok r" and "\<forall>r \<in> set ys. range_ok r"
  shows "ranges_set (mergeRanges xs) = ranges_set xs \<and> runes_separated (mergeRanges xs) \<and>
    ranges_set (complementRanges xs) = {0..0x10FFFF} - ranges_set xs \<and> runes_separated (complementRanges xs) \<and>
    ranges_set (intersectRuneRanges xs ys) = ranges_set xs \<inter> ranges_set ys \<and>
    (unnested ys \<longrightarrow> ranges_set (subtractRuneRanges xs ys) = ranges_set xs - ranges_set ys) \<and>
    (\<forall>bs ks. ordered_by_lo bs xs \<and> ordered_by_lo ks ys \<longrightarrow>
      ranges_set (intersect_loop bs ks) = ranges_set xs \<inter> ranges_set ys \<and>
      (unnested ys \<longrightarrow> ranges_set (subtract_loop ks 0 bs) = ranges_set xs - ranges_set ys))"
proof -
  have "\<forall>r \<in> set xs. rLo r \<le> rHi r" using assms by (simp add: range_ok_def)
  from merge_exact [OF this] show ?thesis
    using complement_exact(1,2) [OF assms(1)] intersect_any_order subtract_any_order [OF _ _ _ assms(2)] ordered_sort
    by (auto simp: maxSupportedRune_def intersectRuneRanges_def subtractRuneRanges_def)
qed

theorem range_algebra_exact_witness:
  "ranges_set (complementRanges [range_of 98 100, range_of 48 57, range_of 99 105]) =
     {0..0x10FFFF} - ranges_set [range_of 98 100, range_of 48 57, range_of 99 105] \<and>
   ranges_set (subtractRuneRanges [range_of 98 100, range_of 48 57, range_of 99 105] [range_of 101 102, range_of 50 50]) =
     ranges_set [range_of 98 100, range_of 48 57, range_of 99 105] - ranges_set [range_of 101 102, range_of 50 50]"
proof -
  have "\<forall>r \<in> set [range_of 98 100, range_of 48 57, range_of 99 105]. range_ok r" "\<forall>r \<in> set [range_of 101 102, range_of 50 50]. range_ok r"
    "unnested [range_of 101 102, range_of 50 50]"
    by (simp_all add: range_ok_def maxSupportedRune_def unnested_def)
  then show ?thesis using range_algebra_exact [of "[range_of 98 100, range_of 48 57, range_of 99 105]" "[range_of 101 102, range_of 50 50]"]
    by simp
qed

text \<open>Difference keeps runes it should remove when the removed ranges nest: \<open>e-f\<close> survives the
  removal of \<open>a-z\<close>, because the index into the removed ranges is rewound past the short range
  \<open>b-c\<close> only.\<close>

lemma subtract_nested_keeps:
  "subtractRuneRanges [range_of 100 255, range_of 101 102] [range_of 97 122, range_of 98 99] = [range_of 123 255, range_of 101 102]"
  by code_simp

text \<open>The complement of an inverted range moves its position backwards: \<open>[^b-dz-a]\<close> contains \<open>b\<close>.\<close>

lemma complement_inverted:
  "complementRanges [range_of 98 100, range_of 122 97] = [range_of 0 97, range_of 101 121, range_of 98 0x10FFFF]"
  by code_simp

end
