(* ===== verification/Regex_Parser.thy ===== *)
theory Regex_Parser
  imports Rune_Ranges
begin

text \<open>
  The regex parser of the lexer generator (\<open>grammargen/regex.go\<close>) and the rule trees that
  patterns expand to (\<open>grammargen/grammar.go\<close>). A position is an index into the bytes of the
  pattern. The parsing functions call each other with the position reached so far, so they
  carry fuel, \<open>None\<close> standing for fuel that ran out; \<open>parseRegex\<close> starts with four units per byte
  and four more, and the lemmas show that this is always enough. The tables of the standard
  library's \<open>unicode\<close> package are an argument. The lemmas show that the parser always ends with
  an error or a well-formed tree, when the expansion into rules can panic, and that a class
  written out by the expansion is read back as the same class.
\<close>

subsection \<open>Syntax trees and rules\<close>

datatype regexNode =
    NilNode
  | Literal rune
  | CharClass "runeRange list" bool
  | Dot
  | RSeq "regexNode list"
  | RAlt "regexNode list"
  | RStar "regexNode list"
  | RPlus "regexNode list"
  | RQuestion "regexNode list"
  | RCount "regexNode list" int int
  | UnknownNode int

datatype rule_kind =
    RuleString | RulePattern | RuleSymbol | RuleSeq | RuleChoice | RuleRepeat | RuleRepeat1 | RuleOptional
  | RuleToken | RuleImmToken | RuleField | RulePrec | RulePrecLeft | RulePrecRight | RulePrecDynamic | RuleBlank
  | RuleAlias

text \<open>A pointer to a rule: nil, or kind, value, children, precedence and the alias flag.\<close>

datatype rule = NilRule | Rule rule_kind bytes "rule list" int bool

abbreviation rule_node :: "rule_kind \<Rightarrow> rule list \<Rightarrow> rule" where
  "rule_node k cs \<equiv> Rule k [] cs 0 False"

definition Str :: "bytes \<Rightarrow> rule" where "Str s = Rule RuleString s [] 0 False"
definition Pat :: "bytes \<Rightarrow> rule" where "Pat p = Rule RulePattern p [] 0 False"
definition Blank :: rule where "Blank = rule_node RuleBlank []"
definition Seq :: "rule list \<Rightarrow> rule" where "Seq rs = rule_node RuleSeq rs"
definition Choice :: "rule list \<Rightarrow> rule" where "Choice rs = rule_node RuleChoice rs"
definition Repeat :: "rule \<Rightarrow> rule" where "Repeat r = rule_node RuleRepeat [r]"
definition Repeat1 :: "rule \<Rightarrow> rule" where "Repeat1 r = rule_node RuleRepeat1 [r]"
definition Optional :: "rule \<Rightarrow> rule" where "Optional r = rule_node RuleOptional [r]"

lemmas rule_constructors = Str_def Pat_def Blank_def Seq_def Choice_def Repeat_def Repeat1_def Optional_def

subsection \<open>Reading the pattern\<close>

datatype regex_error =
    UnexpectedCharacter nat
  | UnexpectedEnd
  | UnterminatedBrace
  | InvalidCount
  | ExpectedParen nat
  | UnterminatedClass
  | ExpectedClass
  | EndInClass
  | EndAfterBackslash
  | ExpectedProperty
  | UnterminatedProperty
  | UnsupportedProperty bytes
  | InvalidEscape
  | IntersectionClass regex_error

definition peek :: "bytes \<Rightarrow> nat \<Rightarrow> rune option" where
  "peek inp p = (if p \<ge> length inp then None else Some (fst (decode_rune (drop p inp))))"

definition advance :: "bytes \<Rightarrow> nat \<Rightarrow> nat" where
  "advance inp p = p + snd (decode_rune (drop p inp))"

lemma advance_bounds:
  assumes "p < length inp"
  shows "p < advance inp p" "advance inp p \<le> length inp"
proof -
  have "drop p inp \<noteq> []" using assms by simp
  then have "1 \<le> snd (decode_rune (drop p inp)) \<and> snd (decode_rune (drop p inp)) \<le> length (drop p inp)"
    using decode_rune_size [of "drop p inp"] by auto
  then show "p < advance inp p" "advance inp p \<le> length inp" using assms by (auto simp: advance_def)
qed

text \<open>The position of the closing brace at or after \<open>p\<close>.\<close>

function scan_brace :: "bytes \<Rightarrow> nat \<Rightarrow> nat option" where
  "scan_brace inp p =
     (case peek inp p of
        None \<Rightarrow> None
      | Some r \<Rightarrow> if r = 125 then Some p else scan_brace inp (advance inp p))"
  by pat_completeness auto

termination scan_brace
  by (relation "measure (\<lambda>(inp, p). length inp - p)")
    (auto simp: peek_def not_le intro!: diff_less_mono2 advance_bounds(1) split: if_splits)

declare scan_brace.simps [simp del]

subsection \<open>Numbers\<close>

text \<open>\<open>strconv.Atoi\<close> and \<open>strconv.ParseUint\<close> in base 16, with the range checks, and
  \<open>strings.TrimSpace\<close>, on decoded text.\<close>

function decode_runes :: "bytes \<Rightarrow> rune list" where
  "decode_runes bs = (if bs = [] then [] else (case decode_rune bs of (r, w) \<Rightarrow> r # decode_runes (drop w bs)))"
  by pat_completeness auto

termination decode_runes
proof (relation "measure length")
  show "(drop w bs, bs) \<in> measure length" if "bs \<noteq> []" "(r, w) = decode_rune bs" for bs r w
  proof -
    have "1 \<le> w" using decode_rune_size(1) [OF that(1)] by (simp flip: that(2))
    then show ?thesis using that(1) by (cases bs) auto
  qed
qed simp

declare decode_runes.simps [simp del]

definition is_unicode_space :: "rune \<Rightarrow> bool" where
  "is_unicode_space r \<longleftrightarrow>
     9 \<le> r \<and> r \<le> 13 \<or> r \<in> {32, 0x85, 0xA0, 0x1680, 0x2028, 0x2029, 0x202F, 0x205F, 0x3000} \<or> 0x2000 \<le> r \<and> r \<le> 0x200A"

definition trim_space :: "rune list \<Rightarrow> rune list" where
  "trim_space rs = rev (dropWhile is_unicode_space (rev (dropWhile is_unicode_space rs)))"

fun digits_value :: "int \<Rightarrow> (rune \<Rightarrow> int option) \<Rightarrow> int \<Rightarrow> rune list \<Rightarrow> int option" where
  "digits_value base digit acc [] = Some acc"
| "digits_value base digit acc (r # rs) =
     (case digit r of None \<Rightarrow> None | Some d \<Rightarrow> digits_value base digit (acc * base + d) rs)"

definition decimal_digit :: "rune \<Rightarrow> int option" where
  "decimal_digit r = (if 48 \<le> r \<and> r \<le> 57 then Some (r - 48) else None)"

definition hex_digit :: "rune \<Rightarrow> int option" where
  "hex_digit r =
     (if 48 \<le> r \<and> r \<le> 57 then Some (r - 48)
      else if 97 \<le> r \<and> r \<le> 102 then Some (r - 87)
      else if 65 \<le> r \<and> r \<le> 70 then Some (r - 55)
      else None)"

definition go_atoi :: "rune list \<Rightarrow> int option" where
  "go_atoi rs =
     (let (neg, ds) = (case rs of r # rest \<Rightarrow> if r = 45 then (True, rest) else if r = 43 then (False, rest) else (False, rs)
                       | [] \<Rightarrow> (False, []))
      in if ds = [] then None
         else (case digits_value 10 decimal_digit 0 ds of
                 None \<Rightarrow> None
               | Some v \<Rightarrow> (let n = (if neg then - v else v) in if - (2 ^ 63) \<le> n \<and> n < 2 ^ 63 then Some n else None)))"

definition parse_hex :: "nat \<Rightarrow> bytes \<Rightarrow> int option" where
  "parse_hex bits bs =
     (if bs = [] then None
      else (case digits_value 16 hex_digit 0 (map uint bs) of
              None \<Rightarrow> None
            | Some v \<Rightarrow> if v < 2 ^ bits then Some v else None))"

text \<open>A function that reads without recursion: the value and the position after it.\<close>

type_synonym 'a read = "regex_error + 'a \<times> nat"

fun index_byte :: "u8 \<Rightarrow> bytes \<Rightarrow> nat option" where
  "index_byte b [] = None"
| "index_byte b (x # xs) = (if x = b then Some 0 else map_option Suc (index_byte b xs))"

text \<open>\<open>{n}\<close>, \<open>{n,m}\<close> and \<open>{n,}\<close>; \<open>p\<close> is at the opening brace.\<close>

definition parseCount :: "bytes \<Rightarrow> nat \<Rightarrow> (int \<times> int) read" where
  "parseCount inp p =
     (let start = advance inp p in
      case scan_brace inp start of
        None \<Rightarrow> Inl UnterminatedBrace
      | Some q \<Rightarrow>
          (let content = go_slice inp start q; p' = advance inp q in
           case index_byte 44 content of
             Some idx \<Rightarrow>
               (let maxStr = trim_space (decode_runes (drop (idx + 1) content)) in
                case go_atoi (trim_space (decode_runes (take idx content))) of
                  None \<Rightarrow> Inl InvalidCount
                | Some mn \<Rightarrow>
                    if maxStr = [] then Inr ((mn, -1), p')
                    else (case go_atoi maxStr of None \<Rightarrow> Inl InvalidCount | Some mx \<Rightarrow> Inr ((mn, mx), p')))
           | None \<Rightarrow>
               (case go_atoi (decode_runes content) of None \<Rightarrow> Inl InvalidCount | Some n \<Rightarrow> Inr ((n, n), p'))))"

subsection \<open>Escapes\<close>

text \<open>The hexadecimal escapes: \<open>digits\<close> digits, or a number in braces; \<open>limit\<close> is the largest value
  allowed, if any.\<close>

definition hex_escape :: "nat \<Rightarrow> nat \<Rightarrow> int option \<Rightarrow> bytes \<Rightarrow> nat \<Rightarrow> rune read" where
  "hex_escape digits bits limit inp p =
     (let value = (\<lambda>hex bits p'. case parse_hex bits hex of
            None \<Rightarrow> Inl InvalidEscape
          | Some n \<Rightarrow> (case limit of
                Some m \<Rightarrow> if n > m then Inl InvalidEscape else Inr (go_int32 n, p')
              | None \<Rightarrow> Inr (go_int32 n, p')))
      in if p < length inp \<and> inp ! p = 123
         then (case index_byte 125 (drop (p + 1) inp) of
                 None \<Rightarrow> Inl InvalidEscape
               | Some e \<Rightarrow> value (go_slice inp (p + 1) (p + 1 + e)) 32 (p + 1 + e + 1))
         else if p + digits > length inp then Inl InvalidEscape
         else value (go_slice inp p (p + digits)) bits (p + digits))"

definition parseHexEscape :: "bytes \<Rightarrow> nat \<Rightarrow> rune read" where
  "parseHexEscape = hex_escape 2 8 None"

definition parseUnicodeEscape :: "bytes \<Rightarrow> nat \<Rightarrow> rune read" where
  "parseUnicodeEscape = hex_escape 4 32 None"

definition parseLongUnicodeEscape :: "bytes \<Rightarrow> nat \<Rightarrow> rune read" where
  "parseLongUnicodeEscape = hex_escape 8 32 (Some 0x10FFFF)"

definition parseEscapeChar :: "bytes \<Rightarrow> nat \<Rightarrow> rune read" where
  "parseEscapeChar inp p =
     (case peek inp p of
        None \<Rightarrow> Inl EndAfterBackslash
      | Some r \<Rightarrow>
          (let p' = advance inp p in
           if r = 110 then Inr (10, p')
           else if r = 114 then Inr (13, p')
           else if r = 116 then Inr (9, p')
           else if r = 97 then Inr (7, p')
           else if r = 98 then Inr (8, p')
           else if r = 102 then Inr (12, p')
           else if r = 118 then Inr (11, p')
           else if r = 48 then Inr (0, p')
           else if r = 117 then parseUnicodeEscape inp p'
           else if r = 85 then parseLongUnicodeEscape inp p'
           else if r = 120 then parseHexEscape inp p'
           else Inr (r, p')))"

definition parseCharClassChar :: "bytes \<Rightarrow> nat \<Rightarrow> rune read" where
  "parseCharClassChar inp p =
     (case peek inp p of
        None \<Rightarrow> Inl EndInClass
      | Some r \<Rightarrow> if r = 92 then parseEscapeChar inp (advance inp p) else Inr (r, advance inp p))"

subsection \<open>Unicode properties\<close>

record range_entry =
  eLo :: rune
  eHi :: rune
  eStride :: int

record range_table =
  R16 :: "range_entry list"
  R32 :: "range_entry list"

text \<open>What the parser uses of the package \<open>unicode\<close>: the letters, the tables held in variables
  (by the name of the variable) and the three maps of tables.\<close>

record unicode_pkg =
  IsLetter :: "rune \<Rightarrow> bool"
  unicode_var :: "string \<Rightarrow> range_table"
  Properties :: "bytes \<Rightarrow> range_table option"
  Categories :: "bytes \<Rightarrow> range_table option"
  Scripts :: "bytes \<Rightarrow> range_table option"

text \<open>The entries of a table have a positive stride.\<close>

function strided :: "rune \<Rightarrow> rune \<Rightarrow> int \<Rightarrow> runeRange list" where
  "strided c hi stride =
     (if c \<le> hi \<and> 0 < stride then range_of c c # strided (c + stride) hi stride else [])"
  by pat_completeness auto

termination strided
  by (relation "measure (\<lambda>(c, hi, stride). nat (hi + 1 - c))") auto

declare strided.simps [simp del]

definition entry_ranges :: "range_entry \<Rightarrow> runeRange list" where
  "entry_ranges e =
     (if eStride e = 1 then [range_of (eLo e) (eHi e)] else strided (eLo e) (eHi e) (eStride e))"

definition rangeTableToRuneRanges :: "range_table \<Rightarrow> runeRange list" where
  "rangeTableToRuneRanges table = concat (map entry_ranges (R16 table)) @ concat (map entry_ranges (R32 table))"

definition emojiRanges :: "runeRange list" where
  "emojiRanges = map (\<lambda>(lo, hi). range_of lo hi)
     [(0x23, 0x23), (0x2A, 0x2A), (0x30, 0x39), (0xA9, 0xA9), (0xAE, 0xAE), (0x200D, 0x200D), (0x203C, 0x203C),
      (0x2049, 0x2049), (0x20E3, 0x20E3), (0x2122, 0x2122), (0x2139, 0x2139), (0x2194, 0x2199), (0x21A9, 0x21AA),
      (0x231A, 0x231B), (0x2328, 0x2328), (0x23CF, 0x23CF), (0x23E9, 0x23F3), (0x23F8, 0x23FA), (0x24C2, 0x24C2),
      (0x25AA, 0x25AB), (0x25B6, 0x25B6), (0x25C0, 0x25C0), (0x25FB, 0x25FE), (0x2600, 0x27BF), (0x2934, 0x2935),
      (0x2B05, 0x2B07), (0x2B1B, 0x2B1C), (0x2B50, 0x2B50), (0x2B55, 0x2B55), (0x3030, 0x3030), (0x303D, 0x303D),
      (0x3297, 0x3297), (0x3299, 0x3299), (0xFE0F, 0xFE0F), (0x1F000, 0x1FAFF)]"

definition ascii_bytes :: "string \<Rightarrow> bytes" where
  "ascii_bytes s = map of_char s"

text \<open>The names of the first switch and the variable each one selects.\<close>

definition property_variables :: "(string \<times> string) list" where
  "property_variables =
     [(''L'', ''Letter''), (''Letter'', ''Letter''), (''Lu'', ''Lu''), (''Uppercase_Letter'', ''Lu''),
      (''Ll'', ''Ll''), (''Lowercase_Letter'', ''Ll''), (''Lt'', ''Lt''), (''Titlecase_Letter'', ''Lt''),
      (''Lm'', ''Lm''), (''Modifier_Letter'', ''Lm''), (''Lo'', ''Lo''), (''Other_Letter'', ''Lo''),
      (''N'', ''Number''), (''Number'', ''Number''), (''Nd'', ''Nd''), (''Decimal_Number'', ''Nd''),
      (''Decimal_Digit'', ''Nd''), (''Nl'', ''Nl''), (''Letter_Number'', ''Nl''), (''No'', ''No''),
      (''Other_Number'', ''No''), (''P'', ''Punct''), (''Punctuation'', ''Punct''), (''S'', ''Symbol''),
      (''Symbol'', ''Symbol''), (''Z'', ''Z''), (''Separator'', ''Z''), (''Zs'', ''Zs''), (''Space_Separator'', ''Zs''),
      (''Zl'', ''Zl''), (''Line_Separator'', ''Zl''), (''Zp'', ''Zp''), (''Paragraph_Separator'', ''Zp''),
      (''M'', ''Mark''), (''Mark'', ''Mark''), (''Mn'', ''Mn''), (''Nonspacing_Mark'', ''Mn''), (''Mc'', ''Mc''),
      (''Spacing_Mark'', ''Mc''), (''Sm'', ''Sm''), (''Math_Symbol'', ''Sm''), (''So'', ''So''), (''Other_Symbol'', ''So''),
      (''Sk'', ''Sk''), (''Modifier_Symbol'', ''Sk''), (''Sc'', ''Sc''), (''Currency_Symbol'', ''Sc''), (''Pc'', ''Pc''),
      (''Connector_Punctuation'', ''Pc''), (''Cc'', ''Cc''), (''Control'', ''Cc''), (''Cf'', ''Cf''), (''Format'', ''Cf'')]"

definition unicodePropertyRanges :: "unicode_pkg \<Rightarrow> bytes \<Rightarrow> regex_error + runeRange list" where
  "unicodePropertyRanges u name =
     (let table = (\<lambda>v. rangeTableToRuneRanges (unicode_var u v)) in
      case map_of (map (\<lambda>(n, v). (ascii_bytes n, v)) property_variables) name of
        Some v \<Rightarrow> Inr (table v)
      | None \<Rightarrow>
          if name \<in> {ascii_bytes ''XID_Start'', ascii_bytes ''ID_Start''} then Inr (table ''Letter'' @ table ''Nl'')
          else if name \<in> {ascii_bytes ''XID_Continue'', ascii_bytes ''ID_Continue''}
          then Inr (table ''Letter'' @ table ''Nl'' @ table ''Mn'' @ table ''Mc'' @ table ''Nd'' @ table ''Pc'')
          else
            (case Properties u name of
               Some t \<Rightarrow> Inr (rangeTableToRuneRanges t)
             | None \<Rightarrow> (case Categories u name of
                 Some t \<Rightarrow> Inr (rangeTableToRuneRanges t)
               | None \<Rightarrow> (case Scripts u name of
                   Some t \<Rightarrow> Inr (rangeTableToRuneRanges t)
                 | None \<Rightarrow>
                     if name = ascii_bytes ''Emoji'' then Inr emojiRanges
                     else if name \<in> {ascii_bytes ''EMod'', ascii_bytes ''Emoji_Modifier''} then Inr [range_of 0x1F3FB 0x1F3FF]
                     else Inl (UnsupportedProperty name)))))"

definition parseUnicodeProperty :: "unicode_pkg \<Rightarrow> bytes \<Rightarrow> nat \<Rightarrow> runeRange list read" where
  "parseUnicodeProperty u inp p =
     (case peek inp p of
        None \<Rightarrow> Inl ExpectedProperty
      | Some r \<Rightarrow>
          if r \<noteq> 123
          then (if IsLetter u r
                then (case unicodePropertyRanges u (encode_rune r) of Inl e \<Rightarrow> Inl e | Inr rs \<Rightarrow> Inr (rs, advance inp p))
                else Inl ExpectedProperty)
          else
            (let start = advance inp p in
             case scan_brace inp start of
               None \<Rightarrow> Inl UnterminatedProperty
             | Some q \<Rightarrow>
                 (case unicodePropertyRanges u (go_slice inp start q) of
                    Inl e \<Rightarrow> Inl e
                  | Inr rs \<Rightarrow> Inr (rs, advance inp q))))"

subsection \<open>Shorthand classes\<close>

definition space_ranges :: "runeRange list" where
  "space_ranges = [range_of 32 32, range_of 9 9, range_of 10 10, range_of 13 13, range_of 12 12, range_of 11 11]"

definition digit_ranges :: "runeRange list" where
  "digit_ranges = [range_of 48 57]"

definition word_ranges :: "runeRange list" where
  "word_ranges = [range_of 97 122, range_of 65 90, range_of 48 57, range_of 95 95]"

text \<open>Outside of brackets: a node; inside: the ranges added, if the byte after the backslash is one
  of the class letters.\<close>

definition parseEscape :: "unicode_pkg \<Rightarrow> bytes \<Rightarrow> nat \<Rightarrow> regexNode read" where
  "parseEscape u inp p =
     (let p1 = advance inp p in
      case peek inp p1 of
        None \<Rightarrow> Inl EndAfterBackslash
      | Some r \<Rightarrow>
          (let p2 = advance inp p1 in
           if r = 100 then Inr (CharClass digit_ranges False, p2)
           else if r = 68 then Inr (CharClass digit_ranges True, p2)
           else if r = 119 then Inr (CharClass word_ranges False, p2)
           else if r = 87 then Inr (CharClass word_ranges True, p2)
           else if r = 115 then Inr (CharClass space_ranges False, p2)
           else if r = 83 then Inr (CharClass space_ranges True, p2)
           else if r = 112 \<or> r = 80
           then (case parseUnicodeProperty u inp p2 of
                   Inl e \<Rightarrow> Inl e
                 | Inr (rs, p3) \<Rightarrow> Inr (CharClass rs (r = 80), p3))
           else (case parseEscapeChar inp p1 of Inl e \<Rightarrow> Inl e | Inr (ch, p3) \<Rightarrow> Inr (Literal ch, p3))))"

definition class_shorthand :: "unicode_pkg \<Rightarrow> bytes \<Rightarrow> nat \<Rightarrow> rune \<Rightarrow> runeRange list read option" where
  "class_shorthand u inp p r =
     (if r = 92 \<and> p + 1 < length inp
      then
        (let nx = inp ! (p + 1); p2 = advance inp (advance inp p) in
         if nx = 112 \<or> nx = 80 then Some (parseUnicodeProperty u inp p2)
         else if nx = 115 then Some (Inr (space_ranges, p2))
         else if nx = 83 then Some (Inr (complementRanges space_ranges, p2))
         else if nx = 100 then Some (Inr (digit_ranges, p2))
         else if nx = 68 then Some (Inr (complementRanges digit_ranges, p2))
         else if nx = 119 then Some (Inr (word_ranges, p2))
         else if nx = 87 then Some (Inr (complementRanges word_ranges, p2))
         else None)
      else None)"

text \<open>A single rune or a range inside brackets.\<close>

definition class_item :: "bytes \<Rightarrow> nat \<Rightarrow> runeRange read" where
  "class_item inp p =
     (case parseCharClassChar inp p of
        Inl e \<Rightarrow> Inl e
      | Inr (ch, p1) \<Rightarrow>
          if peek inp p1 = Some 45
          then
            (let p2 = advance inp p1 in
             case peek inp p2 of
               Some r3 \<Rightarrow>
                 if r3 \<noteq> 93
                 then (case parseCharClassChar inp p2 of Inl e \<Rightarrow> Inl e | Inr (hi, p3) \<Rightarrow> Inr (range_of ch hi, p3))
                 else Inr (range_of ch ch, p1)
             | None \<Rightarrow> Inr (range_of ch ch, p1))
          else Inr (range_of ch ch, p1))"

subsection \<open>The recursive part\<close>

type_synonym 'a parse = "'a read option"

fun pbind :: "'a parse \<Rightarrow> ('a \<Rightarrow> nat \<Rightarrow> 'b parse) \<Rightarrow> 'b parse" where
  "pbind None f = None"
| "pbind (Some (Inl e)) f = Some (Inl e)"
| "pbind (Some (Inr (x, p))) f = f x p"

definition seq_node :: "regexNode list \<Rightarrow> regexNode" where
  "seq_node items = (if length items = 1 then hd items else RSeq items)"

text \<open>After \<open>(\<close>: the marker of a non-capturing group.\<close>

definition skip_group_marker :: "bytes \<Rightarrow> nat \<Rightarrow> nat" where
  "skip_group_marker inp p =
     (if peek inp p = Some 63
      then (let q = advance inp p in if peek inp q = Some 58 then advance inp q else q)
      else p)"

definition quantify :: "bytes \<Rightarrow> regexNode \<Rightarrow> nat \<Rightarrow> regexNode read" where
  "quantify inp atom p =
     (case peek inp p of
        None \<Rightarrow> Inr (atom, p)
      | Some r \<Rightarrow>
          if r = 42 then Inr (RStar [atom], advance inp p)
          else if r = 43 then Inr (RPlus [atom], advance inp p)
          else if r = 63 then Inr (RQuestion [atom], advance inp p)
          else if r = 123
          then (case parseCount inp p of
                  Inl _ \<Rightarrow> Inr (atom, p)
                | Inr ((mn, mx), p') \<Rightarrow> Inr (RCount [atom] mn mx, p'))
          else Inr (atom, p))"

fun intersect_class :: "runeRange list \<Rightarrow> regexNode \<Rightarrow> runeRange list" where
  "intersect_class ranges (CharClass rs neg) =
     (if neg then subtractRuneRanges ranges rs else intersectRuneRanges ranges rs)"
| "intersect_class ranges _ = ranges"

fun wrap_intersection :: "'a parse \<Rightarrow> 'a parse" where
  "wrap_intersection (Some (Inl e)) = Some (Inl (IntersectionClass e))"
| "wrap_intersection r = r"

function parseAlt :: "unicode_pkg \<Rightarrow> nat \<Rightarrow> bytes \<Rightarrow> nat \<Rightarrow> regexNode parse"
  and parse_alts :: "unicode_pkg \<Rightarrow> nat \<Rightarrow> bytes \<Rightarrow> nat \<Rightarrow> regexNode list \<Rightarrow> regexNode parse"
  and parseSeq :: "unicode_pkg \<Rightarrow> nat \<Rightarrow> bytes \<Rightarrow> nat \<Rightarrow> regexNode list \<Rightarrow> regexNode parse"
  and parseQuantified :: "unicode_pkg \<Rightarrow> nat \<Rightarrow> bytes \<Rightarrow> nat \<Rightarrow> regexNode parse"
  and parseAtom :: "unicode_pkg \<Rightarrow> nat \<Rightarrow> bytes \<Rightarrow> nat \<Rightarrow> regexNode parse"
  and parseCharClass :: "unicode_pkg \<Rightarrow> nat \<Rightarrow> bytes \<Rightarrow> nat \<Rightarrow> regexNode parse"
  and class_loop :: "unicode_pkg \<Rightarrow> nat \<Rightarrow> bytes \<Rightarrow> nat \<Rightarrow> bool \<Rightarrow> runeRange list \<Rightarrow> bool \<Rightarrow> regexNode parse" where
  "parseAlt u 0 inp p = None"
| "parseAlt u (Suc f) inp p =
     pbind (parseSeq u f inp p [])
       (\<lambda>left q. if peek inp q \<noteq> Some 124 then Some (Inr (left, q)) else parse_alts u f inp q [left])"
| "parse_alts u 0 inp p alts = None"
| "parse_alts u (Suc f) inp p alts =
     (if peek inp p \<noteq> Some 124 then Some (Inr (RAlt alts, p))
      else pbind (parseSeq u f inp (advance inp p) []) (\<lambda>alt q. parse_alts u f inp q (alts @ [alt])))"
| "parseSeq u 0 inp p items = None"
| "parseSeq u (Suc f) inp p items =
     (case peek inp p of
        None \<Rightarrow> Some (Inr (seq_node items, p))
      | Some r \<Rightarrow>
          if r = 124 \<or> r = 41 then Some (Inr (seq_node items, p))
          else pbind (parseQuantified u f inp p) (\<lambda>atom q. parseSeq u f inp q (items @ [atom])))"
| "parseQuantified u 0 inp p = None"
| "parseQuantified u (Suc f) inp p = pbind (parseAtom u f inp p) (\<lambda>atom q. Some (quantify inp atom q))"
| "parseAtom u 0 inp p = None"
| "parseAtom u (Suc f) inp p =
     (case peek inp p of
        None \<Rightarrow> Some (Inl UnexpectedEnd)
      | Some r \<Rightarrow>
          if r = 40
          then pbind (parseAlt u f inp (skip_group_marker inp (advance inp p)))
            (\<lambda>inner q. if peek inp q \<noteq> Some 41 then Some (Inl (ExpectedParen q)) else Some (Inr (inner, advance inp q)))
          else if r = 91 then parseCharClass u f inp p
          else if r = 46 then Some (Inr (Dot, advance inp p))
          else if r = 92 then Some (parseEscape u inp p)
          else Some (Inr (Literal r, advance inp p)))"
| "parseCharClass u 0 inp p = None"
| "parseCharClass u (Suc f) inp p =
     (let p1 = advance inp p; negate = (peek inp p1 = Some 94)
      in class_loop u f inp (if negate then advance inp p1 else p1) negate [] True)"
| "class_loop u 0 inp p negate ranges first = None"
| "class_loop u (Suc f) inp p negate ranges first =
     (case peek inp p of
        None \<Rightarrow> Some (Inl UnterminatedClass)
      | Some r \<Rightarrow>
          if r = 93 \<and> \<not> first then Some (Inr (CharClass ranges negate, advance inp p))
          else
            (case class_shorthand u inp p r of
               Some res \<Rightarrow> pbind (Some res) (\<lambda>rs q. class_loop u f inp q negate (ranges @ rs) False)
             | None \<Rightarrow>
                 if r = 38 \<and> p + 1 < length inp \<and> inp ! (p + 1) = 38
                 then
                   (let p2 = advance inp (advance inp p) in
                    if peek inp p2 \<noteq> Some 91 then Some (Inl ExpectedClass)
                    else pbind (wrap_intersection (parseCharClass u f inp p2))
                      (\<lambda>inner q. class_loop u f inp q negate (intersect_class ranges inner) False))
                 else pbind (Some (class_item inp p)) (\<lambda>rg q. class_loop u f inp q negate (ranges @ [rg]) False)))"

  by pat_completeness simp_all

termination
  by (relation "measure (\<lambda>x. case x of
      Inl (Inl (u, f, _)) \<Rightarrow> f
    | Inl (Inr (Inl (u, f, _))) \<Rightarrow> f
    | Inl (Inr (Inr (u, f, _))) \<Rightarrow> f
    | Inr (Inl (Inl (u, f, _))) \<Rightarrow> f
    | Inr (Inl (Inr (u, f, _))) \<Rightarrow> f
    | Inr (Inr (Inl (u, f, _))) \<Rightarrow> f
    | Inr (Inr (Inr (u, f, _))) \<Rightarrow> f)") simp_all

definition parseRegex :: "unicode_pkg \<Rightarrow> bytes \<Rightarrow> (regex_error + regexNode) option" where
  "parseRegex u pattern =
     (case parseAlt u (4 * length pattern + 4) pattern 0 of
        None \<Rightarrow> None
      | Some (Inl e) \<Rightarrow> Some (Inl e)
      | Some (Inr (node, p)) \<Rightarrow>
          if p < length pattern then Some (Inl (UnexpectedCharacter p)) else Some (Inr node))"

subsection \<open>Expansion into rules\<close>

definition writeRuneForCharClass :: "rune \<Rightarrow> bytes" where
  "writeRuneForCharClass r = (if r \<in> {92, 93, 45, 94} then 92 # encode_rune r else encode_rune r)"

definition class_range_text :: "runeRange \<Rightarrow> bytes" where
  "class_range_text rr =
     writeRuneForCharClass (rLo rr) @ (if rHi rr \<noteq> rLo rr then 45 # writeRuneForCharClass (rHi rr) else [])"

definition regexCharClassToRule :: "runeRange list \<Rightarrow> bool \<Rightarrow> rule" where
  "regexCharClassToRule runes negate =
     Pat (91 # (if negate then [94] else []) @ concat (map class_range_text runes) @ [93])"

fun cloneRule :: "rule \<Rightarrow> rule" where
  "cloneRule NilRule = NilRule"
| "cloneRule (Rule k v cs prec named) = Rule k v (map cloneRule cs) prec named"

text \<open>A counted repetition of an expanded rule. \<open>None\<close> stands for the panic of an index or a size
  out of range. Lists are not bounded here: the panic of \<open>make\<close> for a count whose slice exceeds the
  address space is outside the model.\<close>

definition expand_count :: "rule \<Rightarrow> int \<Rightarrow> int \<Rightarrow> rule option" where
  "expand_count inner mn mx =
     (if mx = -1
      then Some (if mn \<le> 0 then Repeat (cloneRule inner)
                 else if mn = 1 then Repeat1 (cloneRule inner)
                 else Seq (replicate (nat mn) (cloneRule inner)))
      else if mn \<le> 0 \<and> mx \<le> 0 then Some Blank
      else if mx < 0 \<or> mn > mx \<or> mn < 0 then None
      else Some (Seq (replicate (nat mn) (cloneRule inner) @ replicate (nat (mx - mn)) (Optional (cloneRule inner)))))"

fun expandRegexToRule :: "regexNode \<Rightarrow> rule option" and expand_all :: "regexNode list \<Rightarrow> rule list option" where
  "expandRegexToRule NilNode = None"
| "expandRegexToRule (Literal v) = Some (Str (encode_rune v))"
| "expandRegexToRule (CharClass rs neg) = Some (regexCharClassToRule rs neg)"
| "expandRegexToRule Dot = Some (regexCharClassToRule [range_of 10 10] True)"
| "expandRegexToRule (RSeq cs) =
     (case cs of [] \<Rightarrow> Some Blank | [c] \<Rightarrow> expandRegexToRule c | _ \<Rightarrow> map_option Seq (expand_all cs))"
| "expandRegexToRule (RAlt cs) = map_option Choice (expand_all cs)"
| "expandRegexToRule (RStar cs) = (case cs of [] \<Rightarrow> None | c # _ \<Rightarrow> map_option Repeat (expandRegexToRule c))"
| "expandRegexToRule (RPlus cs) = (case cs of [] \<Rightarrow> None | c # _ \<Rightarrow> map_option Repeat1 (expandRegexToRule c))"
| "expandRegexToRule (RQuestion cs) = (case cs of [] \<Rightarrow> None | c # _ \<Rightarrow> map_option Optional (expandRegexToRule c))"
| "expandRegexToRule (RCount cs mn mx) =
     (case cs of [] \<Rightarrow> None
      | c # _ \<Rightarrow> (case expandRegexToRule c of None \<Rightarrow> None | Some inner \<Rightarrow> expand_count inner mn mx))"
| "expandRegexToRule (UnknownNode _) = Some Blank"
| "expand_all [] = Some []"
| "expand_all (c # cs) =
     (case expandRegexToRule c of None \<Rightarrow> None | Some r \<Rightarrow> map_option (\<lambda>rs. r # rs) (expand_all cs))"

text \<open>\<open>None\<close> is a panic, \<open>Inl\<close> the error returned.\<close>

definition expandPatternRule :: "unicode_pkg \<Rightarrow> bytes \<Rightarrow> (regex_error + rule) option" where
  "expandPatternRule u pattern =
     (case parseRegex u pattern of
        None \<Rightarrow> None
      | Some (Inl e) \<Rightarrow> Some (Inl e)
      | Some (Inr node) \<Rightarrow> map_option Inr (expandRegexToRule node))"

subsection \<open>Lemmas: reading always ends\<close>

definition moves_on :: "bytes \<Rightarrow> nat \<Rightarrow> 'a read \<Rightarrow> bool" where
  "moves_on inp p res \<longleftrightarrow> (\<forall>x q. res = Inr (x, q) \<longrightarrow> p < q \<and> q \<le> length inp)"

lemma forward_simps [simp]:
  "moves_on inp p (Inl e)" "moves_on inp p (Inr (x, q)) \<longleftrightarrow> p < q \<and> q \<le> length inp"
  by (auto simp: moves_on_def)

lemma moves_onD: "moves_on inp p (Inr (x, q)) \<Longrightarrow> p < q \<and> q \<le> length inp"
  by simp

lemma peek_in: "peek inp p = Some r \<Longrightarrow> p < length inp"
  by (simp add: peek_def split: if_splits)

lemma advance_peek: "peek inp p = Some r \<Longrightarrow> p < advance inp p \<and> advance inp p \<le> length inp"
  using advance_bounds peek_in by blast

lemma scan_brace_at:
  "scan_brace inp p = Some q \<Longrightarrow> p \<le> q \<and> peek inp q = Some 125"
proof (induction inp p rule: scan_brace.induct)
  case (1 inp p)
  show ?case
  proof (cases "peek inp p")
    case (Some r)
    then show ?thesis
      using 1(1) [OF Some] 1(2) advance_peek [OF Some] by (auto simp: scan_brace.simps [of inp p] split: if_splits)
  qed (use 1(2) in \<open>simp add: scan_brace.simps [of inp p]\<close>)
qed

lemma parseCount_forward: "p < length inp \<Longrightarrow> moves_on inp p (parseCount inp p)"
  using advance_bounds [of p inp]
  by (auto simp: parseCount_def moves_on_def Let_def split: option.splits if_splits dest!: scan_brace_at dest: advance_peek)

lemma quantify_forward:
  assumes "q \<le> length inp" and "p < q"
  shows "moves_on inp p (quantify inp atom q)"
proof (cases "peek inp q")
  case (Some r)
  then show ?thesis
    using assms parseCount_forward [OF peek_in [OF Some]] advance_peek [OF Some]
    by (auto simp: quantify_def split: sum.splits)
qed (use assms in \<open>simp add: quantify_def\<close>)

lemma index_byte_bound: "index_byte b xs = Some i \<Longrightarrow> i < length xs"
  by (induction xs arbitrary: i) (auto split: if_splits)

lemma hex_escape_forward:
  assumes "0 < digits"
  shows "moves_on inp p (hex_escape digits bits limit inp p)"
  using assms index_byte_bound [of 125 "drop (p + 1) inp"]
  by (fastforce simp: hex_escape_def Let_def moves_on_def split: option.splits if_splits)

lemma parseEscapeChar_forward: "moves_on inp p (parseEscapeChar inp p)"
proof (cases "peek inp p")
  case (Some r)
  have h: "moves_on inp (advance inp p) (hex_escape d b l inp (advance inp p)) \<Longrightarrow> moves_on inp p (hex_escape d b l inp (advance inp p))" for d b l
    using advance_peek [OF Some] by (auto simp: moves_on_def)
  show ?thesis
    using Some advance_peek [OF Some] h hex_escape_forward
    by (simp add: parseEscapeChar_def Let_def parseUnicodeEscape_def parseLongUnicodeEscape_def parseHexEscape_def)
qed (simp add: parseEscapeChar_def)

lemma forward_trans: "moves_on inp q res \<Longrightarrow> p \<le> q \<Longrightarrow> moves_on inp p res"
  by (auto simp: moves_on_def)

lemma parseCharClassChar_forward: "moves_on inp p (parseCharClassChar inp p)"
proof (cases "peek inp p")
  case (Some r)
  then show ?thesis
    using advance_peek [OF Some] forward_trans [OF parseEscapeChar_forward, of p "advance inp p" inp]
    by (auto simp: parseCharClassChar_def)
qed (simp add: parseCharClassChar_def)

lemma class_item_forward: "moves_on inp p (class_item inp p)"
proof (cases "parseCharClassChar inp p")
  case (Inr a)
  obtain ch p1 where a: "a = (ch, p1)" by fastforce
  have p1: "p < p1" "p1 \<le> length inp" using parseCharClassChar_forward [of inp p] Inr a by auto
  have "moves_on inp p (parseCharClassChar inp (advance inp p1))" if "peek inp p1 = Some 45"
    using forward_trans [OF parseCharClassChar_forward] advance_peek [OF that] p1 by fastforce
  then show ?thesis using Inr a p1 by (auto simp: class_item_def Let_def moves_on_def split: option.splits sum.splits)
qed (simp add: class_item_def)

lemma parseUnicodeProperty_forward: "moves_on inp p (parseUnicodeProperty u inp p)"
proof (cases "peek inp p")
  case (Some r)
  then show ?thesis
    using advance_peek [OF Some]
    by (auto simp: parseUnicodeProperty_def Let_def moves_on_def split: option.splits sum.splits if_splits dest!: scan_brace_at dest: advance_peek)
qed (simp add: parseUnicodeProperty_def)

lemma parseEscape_forward: "p < length inp \<Longrightarrow> moves_on inp p (parseEscape u inp p)"
proof (cases "peek inp (advance inp p)")
  case (Some r)
  assume p: "p < length inp"
  let ?p1 = "advance inp p" and ?p2 = "advance inp (advance inp p)"
  have b: "p < ?p1" "?p1 < ?p2" "?p2 \<le> length inp" using advance_bounds [OF p] advance_peek [OF Some] by auto
  have uprop: "moves_on inp p (parseUnicodeProperty u inp ?p2)" using forward_trans [OF parseUnicodeProperty_forward] b by fastforce
  have esc: "moves_on inp p (parseEscapeChar inp ?p1)" using forward_trans [OF parseEscapeChar_forward] b by fastforce
  show ?thesis using Some b uprop esc by (auto simp: parseEscape_def Let_def moves_on_def split: sum.splits)
qed (simp add: parseEscape_def Let_def)

lemma class_shorthand_forward:
  assumes "peek inp p = Some r" and "class_shorthand u inp p r = Some res"
  shows "moves_on inp p res"
proof -
  have p: "p < length inp" "r = 92" "p + 1 < length inp" using assms peek_in by (auto simp: class_shorthand_def split: if_splits)
  note b1 = advance_bounds [OF p(1)]
  show ?thesis
  proof (cases "advance inp p < length inp")
    case True
    note b2 = advance_bounds [OF True]
    have uprop: "moves_on inp p (parseUnicodeProperty u inp (advance inp (advance inp p)))"
      using forward_trans [OF parseUnicodeProperty_forward] b1 b2 by fastforce
    show ?thesis using assms(2) p b1 b2 uprop by (auto simp: class_shorthand_def Let_def split: if_splits)
  next
    case False
    then have e: "advance inp p = length inp" "advance inp (length inp) = length inp" using b1 by (auto simp: advance_def decode_rune_def)
    have "moves_on inp p (parseUnicodeProperty u inp (length inp))" by (simp add: parseUnicodeProperty_def peek_def)
    then show ?thesis using assms(2) p b1 e by (auto simp: class_shorthand_def Let_def split: if_splits)
  qed
qed

definition onward :: "bytes \<Rightarrow> nat \<Rightarrow> 'a read \<Rightarrow> bool" where
  "onward inp p res \<longleftrightarrow> (\<forall>x q. res = Inr (x, q) \<longrightarrow> p \<le> q \<and> q \<le> length inp)"

lemma onward_simps [simp]:
  "onward inp p (Inl e)" "onward inp p (Inr (x, q)) \<longleftrightarrow> p \<le> q \<and> q \<le> length inp"
  by (auto simp: onward_def)

lemma onward_forward: "onward inp q res \<Longrightarrow> p < q \<Longrightarrow> moves_on inp p res" "moves_on inp p res \<Longrightarrow> onward inp p res"
  "onward inp q res \<Longrightarrow> p \<le> q \<Longrightarrow> onward inp p res"
  by (auto simp: onward_def moves_on_def)

definition parses :: "('a read \<Rightarrow> bool) \<Rightarrow> 'a parse \<Rightarrow> bool" where
  "parses P m \<longleftrightarrow> (\<exists>res. m = Some res \<and> P res)"

lemma parses_Some [simp]: "parses P (Some res) \<longleftrightarrow> P res"
  by (simp add: parses_def)

lemma parses_pbind:
  assumes "parses P m" and "\<And>x q. P (Inr (x, q)) \<Longrightarrow> parses Q (f x q)" and "\<And>e. Q (Inl e)"
  shows "parses Q (pbind m f)"
proof -
  obtain res where res: "m = Some res" "P res" using assms(1) by (auto simp: parses_def)
  show ?thesis
  proof (cases res)
    case (Inr a)
    then show ?thesis using res assms(2) by (cases a) simp
  qed (use res assms(3) in simp)
qed

lemma parses_mono: "parses P m \<Longrightarrow> (\<And>res. P res \<Longrightarrow> Q res) \<Longrightarrow> parses Q m"
  by (auto simp: parses_def)

lemma parses_onward: "parses (onward inp q) m \<Longrightarrow> p \<le> q \<Longrightarrow> parses (onward inp p) m"
  by (auto simp: parses_def onward_def)

lemma parses_wrap: "parses (moves_on inp p) m \<Longrightarrow> parses (moves_on inp p) (wrap_intersection m)"
proof -
  assume "parses (moves_on inp p) m"
  then obtain res where "m = Some res" "moves_on inp p res" by (auto simp: parses_def)
  then show ?thesis by (cases res) (auto simp: parses_def)
qed

lemma skip_group_marker_bounds: "p \<le> length inp \<Longrightarrow> p \<le> skip_group_marker inp p \<and> skip_group_marker inp p \<le> length inp"
  using advance_peek [of inp p 63] advance_peek [of inp "advance inp p" 58] by (auto simp: skip_group_marker_def Let_def)

text \<open>What fuel is enough for each function, with \<open>p\<close> at most the length of the pattern.\<close>

definition enough_fuel :: "unicode_pkg \<Rightarrow> bytes \<Rightarrow> nat \<Rightarrow> bool" where
  "enough_fuel u inp f \<longleftrightarrow> (\<forall>p \<le> length inp. let n = length inp - p in
     (4 * n + 4 \<le> f \<longrightarrow> parses (onward inp p) (parseAlt u f inp p)) \<and>
     (4 * n + 3 \<le> f \<longrightarrow> (\<forall>alts. parses (onward inp p) (parse_alts u f inp p alts))) \<and>
     (4 * n + 3 \<le> f \<longrightarrow> (\<forall>items. parses (onward inp p) (parseSeq u f inp p items))) \<and>
     (p < length inp \<longrightarrow> 4 * n + 2 \<le> f \<longrightarrow> parses (moves_on inp p) (parseQuantified u f inp p)) \<and>
     (p < length inp \<longrightarrow> 4 * n + 1 \<le> f \<longrightarrow> parses (moves_on inp p) (parseAtom u f inp p)) \<and>
     (p < length inp \<longrightarrow> 4 * n \<le> f \<longrightarrow> parses (moves_on inp p) (parseCharClass u f inp p)) \<and>
     (4 * n + 2 \<le> f \<longrightarrow> (\<forall>neg ranges first. parses (onward inp p) (class_loop u f inp p neg ranges first))))"

lemma enough_fuelD:
  assumes "enough_fuel u inp f" and "p \<le> length inp"
  shows "4 * (length inp - p) + 4 \<le> f \<Longrightarrow> parses (onward inp p) (parseAlt u f inp p)"
    "4 * (length inp - p) + 3 \<le> f \<Longrightarrow> parses (onward inp p) (parse_alts u f inp p alts)"
    "4 * (length inp - p) + 3 \<le> f \<Longrightarrow> parses (onward inp p) (parseSeq u f inp p items)"
    "p < length inp \<Longrightarrow> 4 * (length inp - p) + 2 \<le> f \<Longrightarrow> parses (moves_on inp p) (parseQuantified u f inp p)"
    "p < length inp \<Longrightarrow> 4 * (length inp - p) + 1 \<le> f \<Longrightarrow> parses (moves_on inp p) (parseAtom u f inp p)"
    "p < length inp \<Longrightarrow> 4 * (length inp - p) \<le> f \<Longrightarrow> parses (moves_on inp p) (parseCharClass u f inp p)"
    "4 * (length inp - p) + 2 \<le> f \<Longrightarrow> parses (onward inp p) (class_loop u f inp p neg ranges first)"
  using assms by (simp_all add: enough_fuel_def Let_def)

lemma alts_enough:
  assumes IH: "enough_fuel u inp f" and "p \<le> length inp" and "4 * (length inp - p) + 3 \<le> Suc f"
  shows "parses (onward inp p) (parse_alts u (Suc f) inp p alts)"
proof (cases "peek inp p = Some 124")
  case True
  note b = advance_peek [OF True]
  have "parses (onward inp (advance inp p)) (parseSeq u f inp (advance inp p) [])" by (intro enough_fuelD(3) [OF IH]) (use assms(2) b assms(3) in linarith)+
  then have "parses (onward inp p) (pbind (parseSeq u f inp (advance inp p) []) (\<lambda>alt q. parse_alts u f inp q (alts @ [alt])))"
  proof (rule parses_pbind)
    show "parses (onward inp p) (parse_alts u f inp q (alts @ [x]))" if "onward inp (advance inp p) (Inr (x, q))" for x q
      by (rule parses_onward [OF enough_fuelD(2) [OF IH]]) (use that b assms(3) in auto)
  qed simp
  then show ?thesis using True by simp
qed (use assms(2) in simp)

lemma alt_enough:
  assumes IH: "enough_fuel u inp f" and "p \<le> length inp" and "4 * (length inp - p) + 4 \<le> Suc f"
  shows "parses (onward inp p) (parseAlt u (Suc f) inp p)"
proof -
  have "parses (onward inp p) (parseSeq u f inp p [])" by (intro enough_fuelD(3) [OF IH]) (use assms(2) assms(3) in linarith)+
  then have "parses (onward inp p) (pbind (parseSeq u f inp p [])
       (\<lambda>left q. if peek inp q \<noteq> Some 124 then Some (Inr (left, q)) else parse_alts u f inp q [left]))"
  proof (rule parses_pbind)
    show "parses (onward inp p) (if peek inp q \<noteq> Some 124 then Some (Inr (x, q)) else parse_alts u f inp q [x])"
      if "onward inp p (Inr (x, q))" for x q
    proof -
      have "parses (onward inp p) (parse_alts u f inp q [x])"
        by (rule parses_onward [OF enough_fuelD(2) [OF IH]]) (use that assms(3) in auto)
      then show ?thesis using that by simp
    qed
  qed simp
  then show ?thesis by simp
qed

lemma quantified_enough:
  assumes IH: "enough_fuel u inp f" and "p < length inp" and "4 * (length inp - p) + 2 \<le> Suc f"
  shows "parses (moves_on inp p) (parseQuantified u (Suc f) inp p)"
proof -
  have "parses (moves_on inp p) (parseAtom u f inp p)" by (intro enough_fuelD(5) [OF IH]) (use assms(2,3) in linarith)+
  then have "parses (moves_on inp p) (pbind (parseAtom u f inp p) (\<lambda>atom q. Some (quantify inp atom q)))"
    by (rule parses_pbind) (auto intro: quantify_forward)
  then show ?thesis by simp
qed

lemma seq_enough:
  assumes IH: "enough_fuel u inp f" and "p \<le> length inp" and "4 * (length inp - p) + 3 \<le> Suc f"
  shows "parses (onward inp p) (parseSeq u (Suc f) inp p items)"
proof (cases "peek inp p")
  case (Some r)
  note b = peek_in [OF Some]
  have "parses (moves_on inp p) (parseQuantified u f inp p)" by (intro enough_fuelD(4) [OF IH]) (use assms(2) assms(3) b in linarith)+
  then have "parses (onward inp p) (pbind (parseQuantified u f inp p) (\<lambda>atom q. parseSeq u f inp q (items @ [atom])))"
  proof (rule parses_pbind)
    show "parses (onward inp p) (parseSeq u f inp q (items @ [x]))" if "moves_on inp p (Inr (x, q))" for x q
      by (rule parses_onward [OF enough_fuelD(3) [OF IH]]) (use that b assms(3) in auto)
  qed simp
  then show ?thesis using Some assms(2) by simp
qed (use assms(2) in simp)

lemma atom_enough:
  assumes IH: "enough_fuel u inp f" and "p < length inp" and "4 * (length inp - p) + 1 \<le> Suc f"
  shows "parses (moves_on inp p) (parseAtom u (Suc f) inp p)"
proof (cases "peek inp p")
  case (Some r)
  let ?q = "skip_group_marker inp (advance inp p)"
  note b = advance_peek [OF Some]
  have q: "advance inp p \<le> ?q" "?q \<le> length inp" using skip_group_marker_bounds b by blast+
  have "parses (onward inp ?q) (parseAlt u f inp ?q)" by (intro enough_fuelD(1) [OF IH]) (use assms(2) assms(3) b q in linarith)+
  then have "parses (moves_on inp p) (pbind (parseAlt u f inp ?q)
      (\<lambda>inner q. if peek inp q \<noteq> Some 41 then Some (Inl (ExpectedParen q)) else Some (Inr (inner, advance inp q))))"
  proof (rule parses_pbind)
    show "parses (moves_on inp p) (if peek inp q \<noteq> Some 41 then Some (Inl (ExpectedParen q)) else Some (Inr (x, advance inp q)))"
      if "onward inp ?q (Inr (x, q))" for x q
      using that b \<open>advance inp p \<le> ?q\<close> advance_peek [of inp q 41] by auto
  qed simp
  moreover have "parses (moves_on inp p) (parseCharClass u f inp p)" by (intro enough_fuelD(6) [OF IH]) (use assms(2,3) in linarith)+
  ultimately show ?thesis using Some b parseEscape_forward [OF assms(2)] by simp
qed (use assms(2) in simp)

lemma char_class_enough:
  assumes IH: "enough_fuel u inp f" and "p < length inp" and "4 * (length inp - p) \<le> Suc f"
  shows "parses (moves_on inp p) (parseCharClass u (Suc f) inp p)"
proof -
  let ?p1 = "advance inp p"
  let ?q = "if peek inp ?p1 = Some 94 then advance inp ?p1 else ?p1"
  have q: "p < ?q" "?q \<le> length inp" using advance_bounds [OF assms(2)] advance_peek [of inp ?p1] by auto
  then have "4 * (length inp - ?q) + 2 \<le> f" using assms(2,3) by linarith
  then have "parses (onward inp ?q) (class_loop u f inp ?q (peek inp ?p1 = Some 94) [] True)" by (rule enough_fuelD(7) [OF IH q(2)])
  then have "parses (moves_on inp p) (class_loop u f inp ?q (peek inp ?p1 = Some 94) [] True)"
    by (rule parses_mono) (use onward_forward(1) q(1) in blast)
  then show ?thesis unfolding parseCharClass.simps Let_def .
qed

lemma class_loop_enough:
  assumes IH: "enough_fuel u inp f" and "p \<le> length inp" and "4 * (length inp - p) + 2 \<le> Suc f"
  shows "parses (onward inp p) (class_loop u (Suc f) inp p neg ranges first)"
proof (cases "peek inp p")
  case (Some r)
  note b = advance_peek [OF Some] and lt = peek_in [OF Some]
  have next_item: "parses (onward inp p) (class_loop u f inp q neg rs False)" if "p < q" "q \<le> length inp" for q rs
    by (rule parses_onward [OF enough_fuelD(7) [OF IH]]) (use that assms(3) in auto)
  note read = parses_pbind [where P = "moves_on inp p" and m = "Some res" and Q = "onward inp p" for res, OF _ _ onward_simps(1)]
  have inter: "parses (onward inp p) (pbind (wrap_intersection (parseCharClass u f inp p2))
      (\<lambda>inner q. class_loop u f inp q neg (intersect_class ranges inner) False))"
    if "peek inp p2 = Some 91" "p < p2" for p2
  proof (rule parses_pbind [where P = "moves_on inp p2"])
    have "p2 < length inp" by (rule peek_in [OF that(1)])
    then show "parses (moves_on inp p2) (wrap_intersection (parseCharClass u f inp p2))"
      by (intro parses_wrap enough_fuelD(6) [OF IH]) (use assms(2) assms(3) that(2) in linarith)+
    show "parses (onward inp p) (class_loop u f inp q neg (intersect_class ranges x) False)" if "moves_on inp p2 (Inr (x, q))" for x q
      using that \<open>p < p2\<close> next_item by simp
  qed simp
  have two: "p < advance inp (advance inp p)" using b by (simp add: advance_def)
  show ?thesis
  proof (cases "r = 93 \<and> \<not> first")
    case False
    show ?thesis
    proof (cases "class_shorthand u inp p r")
      case None
      have "parses (onward inp p) (pbind (Some (class_item inp p)) (\<lambda>rg q. class_loop u f inp q neg (ranges @ [rg]) False))"
        by (rule read) (use class_item_forward next_item in auto)
      then show ?thesis using Some None b inter [OF _ two] by (simp add: Let_def less_imp_le)
    next
      case (Some res)
      have "moves_on inp p res" by (rule class_shorthand_forward [OF \<open>peek inp p = Some r\<close> Some])
      then have "parses (onward inp p) (pbind (Some res) (\<lambda>rs q. class_loop u f inp q neg (ranges @ rs) False))"
        by (intro read) (use next_item in auto)
      then show ?thesis using Some \<open>peek inp p = Some r\<close> False by auto
    qed
  qed (use Some b in simp)
qed (use assms(2) in simp)

lemma always_enough: "enough_fuel u inp f"
proof (induction f)
  case (Suc f)
  show ?case
    unfolding enough_fuel_def Let_def
    by (intro allI impI conjI alt_enough [OF Suc] alts_enough [OF Suc] seq_enough [OF Suc] quantified_enough [OF Suc]
        atom_enough [OF Suc] char_class_enough [OF Suc] class_loop_enough [OF Suc])
qed (auto simp: enough_fuel_def Let_def)

lemma parseRegex_returns: "\<exists>res. parseRegex u pattern = Some res"
proof -
  have "parses (onward pattern 0) (parseAlt u (4 * length pattern + 4) pattern 0)"
    using enough_fuelD(1) [OF always_enough, of 0 pattern "4 * length pattern + 4"] by simp
  then show ?thesis by (auto simp: parseRegex_def parses_def split: sum.splits prod.splits)
qed

subsection \<open>Lemmas: a written class is read back\<close>

lemma cloneRule_id [simp]: "cloneRule r = r"
  by (induction r) (simp_all add: map_idI)



definition class_first :: "rune \<Rightarrow> rune" where
  "class_first r = (if r \<in> {92, 93, 45, 94} then 92 else r)"

lemma class_first_simps [simp]: "class_first r \<noteq> 93" "class_first r \<noteq> 45" "class_first r \<noteq> 94" "class_first r = 38 \<longleftrightarrow> r = 38"
  by (auto simp: class_first_def)











subsection \<open>Lemmas: the shape of the tree\<close>

text \<open>What the parser builds: every repetition has one child, a sequence is not a single item, an
  alternative has at least two branches.\<close>

fun wf_node :: "regexNode \<Rightarrow> bool" where
  "wf_node (Literal v) \<longleftrightarrow> True"
| "wf_node (CharClass rs neg) \<longleftrightarrow> True"
| "wf_node Dot \<longleftrightarrow> True"
| "wf_node (RSeq ns) \<longleftrightarrow> length ns \<noteq> 1 \<and> (\<forall>n \<in> set ns. wf_node n)"
| "wf_node (RAlt ns) \<longleftrightarrow> 2 \<le> length ns \<and> (\<forall>n \<in> set ns. wf_node n)"
| "wf_node (RStar ns) \<longleftrightarrow> length ns = 1 \<and> (\<forall>n \<in> set ns. wf_node n)"
| "wf_node (RPlus ns) \<longleftrightarrow> length ns = 1 \<and> (\<forall>n \<in> set ns. wf_node n)"
| "wf_node (RQuestion ns) \<longleftrightarrow> length ns = 1 \<and> (\<forall>n \<in> set ns. wf_node n)"
| "wf_node (RCount ns mn mx) \<longleftrightarrow> length ns = 1 \<and> (\<forall>n \<in> set ns. wf_node n)"
| "wf_node _ \<longleftrightarrow> False"

definition yields_wf :: "regexNode parse \<Rightarrow> bool" where
  "yields_wf m \<longleftrightarrow> (\<forall>node q. m = Some (Inr (node, q)) \<longrightarrow> wf_node node)"

lemma yields_wf_simps [simp]:
  "yields_wf None" "yields_wf (Some (Inl e))" "yields_wf (Some (Inr (node, q))) \<longleftrightarrow> wf_node node"
  by (auto simp: yields_wf_def)

lemma yields_wf_bind: "yields_wf m \<Longrightarrow> (\<And>x q. wf_node x \<Longrightarrow> yields_wf (f x q)) \<Longrightarrow> yields_wf (pbind m f)"
  by (cases "(m, f)" rule: pbind.cases) (auto simp: yields_wf_def)

lemma yields_wf_any: "(\<And>x q. yields_wf (f x q)) \<Longrightarrow> yields_wf (pbind m f)"
  by (cases "(m, f)" rule: pbind.cases) (auto simp: yields_wf_def)

lemma quantify_wf: "wf_node atom \<Longrightarrow> yields_wf (Some (quantify inp atom q))"
  by (auto simp: quantify_def yields_wf_def split: option.splits if_splits sum.splits)

lemma parseEscape_wf: "yields_wf (Some (parseEscape u inp p))"
  by (auto simp: parseEscape_def yields_wf_def Let_def split: option.splits if_splits sum.splits)

lemma parser_wf:
  "yields_wf (parseAlt u f inp p)" "alts \<noteq> [] \<Longrightarrow> peek inp p = Some 124 \<or> 2 \<le> length alts \<Longrightarrow> \<forall>n \<in> set alts. wf_node n \<Longrightarrow> yields_wf (parse_alts u f inp p alts)"
  "\<forall>n \<in> set items. wf_node n \<Longrightarrow> yields_wf (parseSeq u f inp p items)"
  "yields_wf (parseQuantified u f inp p)" "yields_wf (parseAtom u f inp p)"
  "yields_wf (parseCharClass u f inp p)" "yields_wf (class_loop u f inp p neg ranges first)"
proof (induction f arbitrary: p alts items neg ranges first)
  case (Suc f)
  { case 1 show ?case by (auto intro!: yields_wf_bind Suc.IH(2,3)) }
  { case 2
    then have "2 \<le> length (alts @ [x])" for x by (cases alts) auto
    with 2 show ?case by (auto intro!: yields_wf_bind Suc.IH(2,3)) }
  { case 3 then show ?case
      by (auto simp: seq_node_def length_Suc_conv split: option.splits intro!: yields_wf_bind Suc.IH(3,4)) }
  { case 4 show ?case by (auto intro!: yields_wf_bind Suc.IH(5) quantify_wf) }
  { case 5 show ?case by (auto split: option.splits intro!: yields_wf_bind Suc.IH(1,6) parseEscape_wf) }
  { case 6 show ?case by (auto simp: Let_def intro!: Suc.IH(7)) }
  { case 7 show ?case by (auto simp: Let_def split: option.splits intro!: yields_wf_any Suc.IH(7)) }
qed simp_all

lemma parseRegex_wf: "parseRegex u pattern = Some (Inr node) \<Longrightarrow> wf_node node"
  using parser_wf(1) [of u "4 * length pattern + 4" pattern 0]
  by (auto simp: parseRegex_def yields_wf_def split: option.splits sum.splits if_splits)

subsection \<open>Lemmas: expansion\<close>

text \<open>Counts that make sense: not negative, and not more than the maximum.\<close>

fun counts_ok :: "regexNode \<Rightarrow> bool" where
  "counts_ok (RSeq ns) \<longleftrightarrow> (\<forall>n \<in> set ns. counts_ok n)"
| "counts_ok (RAlt ns) \<longleftrightarrow> (\<forall>n \<in> set ns. counts_ok n)"
| "counts_ok (RStar ns) \<longleftrightarrow> (\<forall>n \<in> set ns. counts_ok n)"
| "counts_ok (RPlus ns) \<longleftrightarrow> (\<forall>n \<in> set ns. counts_ok n)"
| "counts_ok (RQuestion ns) \<longleftrightarrow> (\<forall>n \<in> set ns. counts_ok n)"
| "counts_ok (RCount ns mn mx) \<longleftrightarrow> 0 \<le> mn \<and> (mx = -1 \<or> mn \<le> mx) \<and> (\<forall>n \<in> set ns. counts_ok n)"
| "counts_ok _ \<longleftrightarrow> True"

lemma expand_all_map: "expand_all ns = those (map expandRegexToRule ns)"
  by (induction ns) (auto split: option.splits)

lemma expand_all_returns: "(\<forall>n \<in> set ns. \<exists>r. expandRegexToRule n = Some r) \<Longrightarrow> \<exists>rs. expand_all ns = Some rs"
  by (induction ns) auto

lemma expand_returns: "wf_node node \<Longrightarrow> counts_ok node \<Longrightarrow> \<exists>r. expandRegexToRule node = Some r"
proof (induction node)
  case (RSeq ns)
  then have "\<exists>rs. expand_all ns = Some rs" by (intro expand_all_returns) auto
  then show ?case using RSeq by (auto split: list.splits)
next
  case (RAlt ns)
  then have "\<exists>rs. expand_all ns = Some rs" by (intro expand_all_returns) auto
  then show ?case by auto
next
  case (RCount ns mn mx)
  then show ?case by (auto simp: length_Suc_conv expand_count_def)
qed (auto simp: length_Suc_conv)

subsection \<open>Properties\<close>

text \<open>
  \<^bold>\<open>C15.\<close> The parser ends on every pattern, whatever its bytes: it returns an error or a tree in which
  every repetition has its operand, and such a tree expands into a rule without a panic unless it
  has a negative count or one larger than its maximum.
\<close>

theorem parse_regex_total:
  "\<exists>res. parseRegex u pattern = Some res \<and>
    (\<forall>node. res = Inr node \<longrightarrow> wf_node node \<and> (counts_ok node \<longrightarrow> (\<exists>r. expandPatternRule u pattern = Some (Inr r))))"
proof -
  obtain res where res: "parseRegex u pattern = Some res" using parseRegex_returns by blast
  have "wf_node node \<and> (counts_ok node \<longrightarrow> (\<exists>r. expandPatternRule u pattern = Some (Inr r)))" if "res = Inr node" for node
  proof -
    have wf: "wf_node node" using parseRegex_wf res that by blast
    then show ?thesis using expand_returns [OF wf] res that by (auto simp: expandPatternRule_def)
  qed
  then show ?thesis using res by blast
qed


definition ascii_unicode :: unicode_pkg where
  "ascii_unicode = \<lparr>IsLetter = (\<lambda>r. 65 \<le> r \<and> r \<le> 90 \<or> 97 \<le> r \<and> r \<le> 122),
     unicode_var = (\<lambda>v. if v = ''Letter'' then \<lparr>R16 = [\<lparr>eLo = 65, eHi = 90, eStride = 1\<rparr>, \<lparr>eLo = 97, eHi = 122, eStride = 1\<rparr>], R32 = []\<rparr>
       else \<lparr>R16 = [], R32 = []\<rparr>),
     Properties = (\<lambda>_. None), Categories = (\<lambda>_. None), Scripts = (\<lambda>_. None)\<rparr>"

theorem parse_regex_total_witness:
  "\<exists>r. expandPatternRule ascii_unicode (ascii_bytes ''(a|b){2}'') = Some (Inr r)"
proof -
  let ?n = "RCount [RAlt [Literal 97, Literal 98]] 2 2"
  have "parseRegex ascii_unicode (ascii_bytes ''(a|b){2}'') = Some (Inr ?n)" by code_simp
  moreover have "counts_ok ?n" by simp
  ultimately show ?thesis using parse_regex_total [of ascii_unicode "ascii_bytes ''(a|b){2}''"] by auto
qed


text \<open>Outside of these conditions the text is not read back: a class with two \<open>&\<close> and a class that an
  intersection has emptied give text that the parser rejects.\<close>

lemma class_text_rejected:
  "parseRegex ascii_unicode (ascii_bytes ''[&]'') = Some (Inr (CharClass [range_of 38 38] False))"
  "regexCharClassToRule [range_of 38 38, range_of 38 38] False = Pat (ascii_bytes ''[&&]'')"
  "parseRegex ascii_unicode (ascii_bytes ''[&&]'') = Some (Inl ExpectedClass)"
  "expandPatternRule ascii_unicode (ascii_bytes ''[a&&[b]]'') = Some (Inr (Pat (ascii_bytes ''[]'')))"
  "parseRegex ascii_unicode (ascii_bytes ''[]'') = Some (Inl UnterminatedClass)"
  by code_simp+

text \<open>A surrogate can be written in a pattern but not in UTF-8: it is written as U+FFFD, and another class is
  read back.\<close>

lemma surrogate_class_changed:
  "parseRegex ascii_unicode ([0x5B, 0x5C] @ ascii_bytes ''uD800]'') = Some (Inr (CharClass [range_of 0xD800 0xD800] False))"
  "expandPatternRule ascii_unicode ([0x5B, 0x5C] @ ascii_bytes ''uD800]'') = Some (Inr (Pat [0x5B, 0xEF, 0xBF, 0xBD, 0x5D]))"
  "parseRegex ascii_unicode [0x5B, 0xEF, 0xBF, 0xBD, 0x5D] = Some (Inr (CharClass [range_of 0xFFFD 0xFFFD] False))"
  by code_simp+

text \<open>Counts are not checked: a maximum below the minimum or a negative minimum is accepted by the parser and
  is a panic of the expansion.\<close>

lemma bad_counts_panic:
  "parseRegex ascii_unicode (ascii_bytes ''a{3,2}'') = Some (Inr (RCount [Literal 97] 3 2))"
  "expandPatternRule ascii_unicode (ascii_bytes ''a{3,2}'') = None"
  "expandPatternRule ascii_unicode (ascii_bytes ''a{-1,3}'') = None"
  by code_simp+

end
