(* ===== verification/Lex_NFA.thy ===== *)
theory Lex_NFA
  imports Lang_Runs Regex_Parser
begin

text \<open>
  Thompson's construction of the lexer generator (\<open>grammargen/nfa.go\<close>): the builder with its
  states, fragments for regex trees and for terminal rules, and the combined automaton of a list
  of terminal patterns. The builder is passed through every function; an error of the code is
  \<open>Inl\<close>. The theorems give the language of every fragment and what the combined automaton accepts.
\<close>

subsection \<open>The builder\<close>

record nfaTransition =
  nLo :: rune
  nHi :: rune
  nEpsilon :: bool
  nNext :: nat

record nfaState =
  nTransitions :: "nfaTransition list"
  nAccept :: int
  nPriority :: int
  nTieOrder :: int

record nfa =
  nfaStates :: "nfaState list"
  nfaStart :: nat

record nfaFragment =
  fStart :: nat
  fEnd :: nat

abbreviation frag :: "nat \<Rightarrow> nat \<Rightarrow> nfaFragment" where
  "frag s e \<equiv> \<lparr>fStart = s, fEnd = e\<rparr>"

type_synonym builder = "nfaState list"

definition empty_state :: nfaState where
  "empty_state = \<lparr>nTransitions = [], nAccept = 0, nPriority = 0, nTieOrder = 0\<rparr>"

definition addState :: "builder \<Rightarrow> nat \<times> builder" where
  "addState b = (length b, b @ [empty_state])"

definition add_transition :: "nat \<Rightarrow> nfaTransition \<Rightarrow> builder \<Rightarrow> builder" where
  "add_transition src t b = b[src := (b ! src)\<lparr>nTransitions := nTransitions (b ! src) @ [t]\<rparr>]"

definition addEpsilon :: "nat \<Rightarrow> nat \<Rightarrow> builder \<Rightarrow> builder" where
  "addEpsilon src dst = add_transition src \<lparr>nLo = 0, nHi = 0, nEpsilon = True, nNext = dst\<rparr>"

definition addCharRange :: "nat \<Rightarrow> rune \<Rightarrow> rune \<Rightarrow> nat \<Rightarrow> builder \<Rightarrow> builder" where
  "addCharRange src lo hi dst = add_transition src \<lparr>nLo = lo, nHi = hi, nEpsilon = False, nNext = dst\<rparr>"

text \<open>\<open>OutOfFuel\<close> is the case of the parser's model that never occurs.\<close>

datatype nfa_error = ParseRegex regex_error | UnsupportedRule rule_kind | UnsupportedNode | OutOfFuel | Terminal int nfa_error

type_synonym build = "builder \<Rightarrow> nfa_error + nfaFragment \<times> builder"

definition buildEpsilon :: build where
  "buildEpsilon b = (let (s, b1) = addState b; (e, b2) = addState b1 in Inr (frag s e, addEpsilon s e b2))"

text \<open>A start and an end state with the given ranges between them.\<close>

definition build_ranges :: "runeRange list \<Rightarrow> build" where
  "build_ranges ranges b =
     (let (s, b1) = addState b; (e, b2) = addState b1
      in Inr (frag s e, fold (\<lambda>rr. addCharRange s (rLo rr) (rHi rr) e) ranges b2))"

fun string_chain :: "rune list \<Rightarrow> nat \<Rightarrow> builder \<Rightarrow> nat \<times> builder" where
  "string_chain [] cur b = (cur, b)"
| "string_chain (r # rs) cur b = (let (nx, b1) = addState b in string_chain rs nx (addCharRange cur r r nx b1))"

definition buildString :: "bytes \<Rightarrow> build" where
  "buildString s b =
     (if s = [] \<or> s = [0] then buildEpsilon b
      else (let (start, b1) = addState b; (cur, b2) = string_chain (decode_runes s) start b1 in Inr (frag start cur, b2)))"

subsection \<open>Combinators\<close>

text \<open>The loops that regex nodes and rules share, over the function that builds a child.\<close>

fun chain_rest :: "build list \<Rightarrow> nfaFragment \<Rightarrow> build" where
  "chain_rest [] cur b = Inr (cur, b)"
| "chain_rest (f # fs) cur b =
     (case f b of
        Inl e \<Rightarrow> Inl e
      | Inr (nx, b1) \<Rightarrow> chain_rest fs (frag (fStart cur) (fEnd nx)) (addEpsilon (fEnd cur) (fStart nx) b1))"

definition build_chain :: "build list \<Rightarrow> build" where
  "build_chain fs b =
     (case fs of [] \<Rightarrow> buildEpsilon b
      | f # fs' \<Rightarrow> (case f b of Inl e \<Rightarrow> Inl e | Inr (cur, b1) \<Rightarrow> chain_rest fs' cur b1))"

fun branches :: "build list \<Rightarrow> nat \<Rightarrow> nat \<Rightarrow> build" where
  "branches [] start en b = Inr (frag start en, b)"
| "branches (f # fs) start en b =
     (case f b of
        Inl e \<Rightarrow> Inl e
      | Inr (fr, b1) \<Rightarrow> branches fs start en (addEpsilon (fEnd fr) en (addEpsilon start (fStart fr) b1)))"

definition build_alt :: "build list \<Rightarrow> build" where
  "build_alt fs b =
     (if fs = [] then buildEpsilon b
      else (let (start, b1) = addState b; (en, b2) = addState b1 in branches fs start en b2))"

text \<open>A fragment between a new start and a new end, connected by \<open>wire\<close>.\<close>

definition build_around :: "(nat \<Rightarrow> nat \<Rightarrow> nfaFragment \<Rightarrow> builder \<Rightarrow> builder) \<Rightarrow> build \<Rightarrow> build" where
  "build_around wire f b =
     (case f b of
        Inl e \<Rightarrow> Inl e
      | Inr (inner, b1) \<Rightarrow>
          (let (start, b2) = addState b1; (en, b3) = addState b2 in Inr (frag start en, wire start en inner b3)))"

definition build_star :: "build \<Rightarrow> build" where
  "build_star = build_around (\<lambda>start en inner b.
     addEpsilon (fEnd inner) en (addEpsilon (fEnd inner) (fStart inner) (addEpsilon start en (addEpsilon start (fStart inner) b))))"

definition build_plus :: "build \<Rightarrow> build" where
  "build_plus = build_around (\<lambda>start en inner b.
     addEpsilon (fEnd inner) en (addEpsilon (fEnd inner) (fStart inner) (addEpsilon start (fStart inner) b)))"

definition build_optional :: "build \<Rightarrow> build" where
  "build_optional = build_around (\<lambda>start en inner b.
     addEpsilon (fEnd inner) en (addEpsilon start en (addEpsilon start (fStart inner) b)))"

text \<open>The required copies; a negative count leaves the zero fragment.\<close>

definition min_copies :: "build \<Rightarrow> int \<Rightarrow> build" where
  "min_copies f mn b =
     (if mn = 0 then buildEpsilon b else if mn < 0 then Inr (frag 0 0, b) else build_chain (replicate (nat mn) f) b)"

fun opt_copies :: "build \<Rightarrow> nat \<Rightarrow> nfaFragment \<Rightarrow> build" where
  "opt_copies f 0 cur b = Inr (cur, b)"
| "opt_copies f (Suc k) cur b =
     (case f b of
        Inl e \<Rightarrow> Inl e
      | Inr (opt, b1) \<Rightarrow>
          (let (en, b2) = addState b1
           in opt_copies f k (frag (fStart cur) en)
                (addEpsilon (fEnd opt) en (addEpsilon (fEnd cur) en (addEpsilon (fEnd cur) (fStart opt) b2)))))"

definition star_tail :: "build \<Rightarrow> nfaFragment \<Rightarrow> build" where
  "star_tail f cur b =
     (case f b of
        Inl e \<Rightarrow> Inl e
      | Inr (star, b1) \<Rightarrow>
          (let (lp, b2) = addState b1
           in Inr (frag (fStart cur) lp, addEpsilon (fEnd star) lp (addEpsilon lp (fStart star) (addEpsilon (fEnd cur) lp b2)))))"

definition build_count :: "build \<Rightarrow> int \<Rightarrow> int \<Rightarrow> build" where
  "build_count f mn countMax b =
     (let mx = (if countMax = 0 then mn else countMax) in
      case min_copies f mn b of
        Inl e \<Rightarrow> Inl e
      | Inr (cur, b1) \<Rightarrow>
          if mx < 0 then (if mn \<ge> 2 then Inr (cur, b1) else star_tail f cur b1)
          else opt_copies f (nat (mx - mn)) cur b1)"

subsection \<open>Regex trees\<close>

fun buildFromRegexNode :: "regexNode \<Rightarrow> build" where
  "buildFromRegexNode NilNode b = buildEpsilon b"
| "buildFromRegexNode (Literal v) b = build_ranges [range_of v v] b"
| "buildFromRegexNode (CharClass rs neg) b = build_ranges (if neg then complementRanges rs else mergeRanges rs) b"
| "buildFromRegexNode Dot b = build_ranges [range_of 0 9, range_of 11 0x10FFFF] b"
| "buildFromRegexNode (RSeq cs) b = build_chain (map (\<lambda>c b. buildFromRegexNode c b) cs) b"
| "buildFromRegexNode (RAlt cs) b = build_alt (map (\<lambda>c b. buildFromRegexNode c b) cs) b"
| "buildFromRegexNode (RStar cs) b = (case cs of [] \<Rightarrow> buildEpsilon b | c # _ \<Rightarrow> build_star (\<lambda>b. buildFromRegexNode c b) b)"
| "buildFromRegexNode (RPlus cs) b = (case cs of [] \<Rightarrow> buildEpsilon b | c # _ \<Rightarrow> build_plus (\<lambda>b. buildFromRegexNode c b) b)"
| "buildFromRegexNode (RQuestion cs) b =
     (case cs of [] \<Rightarrow> buildEpsilon b | c # _ \<Rightarrow> build_optional (\<lambda>b. buildFromRegexNode c b) b)"
| "buildFromRegexNode (RCount cs mn mx) b =
     (case cs of [] \<Rightarrow> buildEpsilon b | c # _ \<Rightarrow> build_count (\<lambda>b. buildFromRegexNode c b) mn mx b)"
| "buildFromRegexNode (UnknownNode _) b = Inl UnsupportedNode"

definition buildPattern :: "unicode_pkg \<Rightarrow> bytes \<Rightarrow> build" where
  "buildPattern u pattern b =
     (case parseRegex u pattern of
        None \<Rightarrow> Inl OutOfFuel
      | Some (Inl e) \<Rightarrow> Inl (ParseRegex e)
      | Some (Inr node) \<Rightarrow> buildFromRegexNode node b)"

subsection \<open>Rules\<close>

fun is_string :: "rule \<Rightarrow> bool" where
  "is_string (Rule RuleString v cs prec named) \<longleftrightarrow> True"
| "is_string _ \<longleftrightarrow> False"

fun rule_value :: "rule \<Rightarrow> bytes" where
  "rule_value (Rule k v cs prec named) = v"
| "rule_value NilRule = []"

text \<open>The children of a sequence with neighbouring strings joined.\<close>

fun join_strings :: "rule list \<Rightarrow> (bytes + rule) list" where
  "join_strings [] = []"
| "join_strings (r # rs) =
     (if is_string r
      then (case join_strings rs of Inl s # gs \<Rightarrow> Inl (rule_value r @ s) # gs | gs \<Rightarrow> Inl (rule_value r) # gs)
      else Inr r # join_strings rs)"

text \<open>The trie of a choice of strings: the edges out of a state.\<close>

type_synonym edges = "nat \<Rightarrow> (rune \<times> nat) list"

definition next_state :: "nat \<Rightarrow> rune \<Rightarrow> builder \<times> edges \<Rightarrow> nat \<times> builder \<times> edges" where
  "next_state src r = (\<lambda>(b, es).
     case map_of (es src) r of
       Some dst \<Rightarrow> (dst, b, es)
     | None \<Rightarrow> (let (dst, b1) = addState b in (dst, addCharRange src r r dst b1, es(src := (r, dst) # es src))))"

fun add_word :: "rune list \<Rightarrow> nat \<Rightarrow> builder \<times> edges \<Rightarrow> nat \<times> builder \<times> edges" where
  "add_word [] cur t = (cur, t)"
| "add_word (r # rs) cur t = (case next_state cur r t of (nx, t') \<Rightarrow> add_word rs nx t')"

definition buildStringChoice :: "rule list \<Rightarrow> builder \<Rightarrow> (nfaFragment \<times> builder) option" where
  "buildStringChoice children b =
     (if \<exists>c \<in> set children. \<not> is_string c then None
      else
        (let (start, b1) = addState b; (en, b2) = addState b1;
             (b3, es) = fold (\<lambda>c t. case add_word (decode_runes (rule_value c)) start t of
                (cur, b', es) \<Rightarrow> (addEpsilon cur en b', es)) children (b2, \<lambda>_. [])
         in Some (frag start en, b3)))"

definition buildChoice :: "rule list \<Rightarrow> build list \<Rightarrow> build" where
  "buildChoice children fs b =
     (if children = [] then buildEpsilon b
      else (case buildStringChoice children b of Some r \<Rightarrow> Inr r | None \<Rightarrow> build_alt fs b))"

lemma join_strings_rules: "Inr r \<in> set (join_strings rs) \<Longrightarrow> r \<in> set rs"
  by (induction rs) (auto split: if_splits list.splits sum.splits)

function buildFromRule :: "unicode_pkg \<Rightarrow> rule \<Rightarrow> build" where
  "buildFromRule u NilRule b = buildEpsilon b"
| "buildFromRule u (Rule k v cs prec named) b =
     (case k of
        RuleString \<Rightarrow> buildString v b
      | RulePattern \<Rightarrow> buildPattern u v b
      | RuleSeq \<Rightarrow> build_chain (map (\<lambda>g b. case g of Inl s \<Rightarrow> buildString s b | Inr r \<Rightarrow> buildFromRule u r b) (join_strings cs)) b
      | RuleChoice \<Rightarrow> buildChoice cs (map (\<lambda>r b. buildFromRule u r b) cs) b
      | RuleRepeat \<Rightarrow> (case cs of [] \<Rightarrow> buildEpsilon b | c # _ \<Rightarrow> build_star (\<lambda>b. buildFromRule u c b) b)
      | RuleRepeat1 \<Rightarrow> (case cs of [] \<Rightarrow> buildEpsilon b | c # _ \<Rightarrow> build_plus (\<lambda>b. buildFromRule u c b) b)
      | RuleOptional \<Rightarrow> (case cs of [] \<Rightarrow> buildEpsilon b | c # _ \<Rightarrow> build_optional (\<lambda>b. buildFromRule u c b) b)
      | RuleBlank \<Rightarrow> buildEpsilon b
      | _ \<Rightarrow> Inl (UnsupportedRule k))"
  by pat_completeness auto

termination buildFromRule
  by (relation "measure (\<lambda>(u, r, b). size r)")
    (auto dest!: join_strings_rules simp: less_Suc_eq_le size_list_estimation' trans_le_add1)

subsection \<open>The combined automaton\<close>

record TerminalPattern =
  SymbolID :: int
  tpRule :: rule
  tpPriority :: int
  Immediate :: bool

definition string_count :: "TerminalPattern list \<Rightarrow> bytes \<Rightarrow> nat" where
  "string_count pats v = length (filter (\<lambda>p. is_string (tpRule p) \<and> rule_value (tpRule p) = v) pats)"

definition mark_accept :: "nat \<Rightarrow> int \<Rightarrow> int \<Rightarrow> int \<Rightarrow> builder \<Rightarrow> builder" where
  "mark_accept q symID priority tieOrder b = b[q := (b ! q)\<lparr>nAccept := symID, nPriority := priority, nTieOrder := tieOrder\<rparr>]"

definition in_trie :: "TerminalPattern list \<Rightarrow> TerminalPattern \<Rightarrow> bool" where
  "in_trie pats pat \<longleftrightarrow>
     is_string (tpRule pat) \<and> rule_value (tpRule pat) \<noteq> [0] \<and> string_count pats (rule_value (tpRule pat)) = 1"

fun combine ::
  "unicode_pkg \<Rightarrow> TerminalPattern list \<Rightarrow> nat \<Rightarrow> nat \<Rightarrow> TerminalPattern list \<Rightarrow> builder \<times> edges \<Rightarrow> nfa_error + builder \<times> edges" where
  "combine u pats start i [] t = Inr t"
| "combine u pats start i (pat # rest) t =
     (if in_trie pats pat
      then (case add_word (decode_runes (rule_value (tpRule pat))) start t of (cur, b, es) \<Rightarrow>
              combine u pats start (i + 1) rest (mark_accept cur (SymbolID pat) (tpPriority pat) (int i) b, es))
      else (case buildFromRule u (tpRule pat) (fst t) of
              Inl e \<Rightarrow> Inl (Terminal (SymbolID pat) e)
            | Inr (fr, b) \<Rightarrow>
                combine u pats start (i + 1) rest
                  (mark_accept (fEnd fr) (SymbolID pat) (tpPriority pat) (int i) (addEpsilon start (fStart fr) b), snd t)))"

definition buildCombinedNFA :: "unicode_pkg \<Rightarrow> TerminalPattern list \<Rightarrow> nfa_error + nfa" where
  "buildCombinedNFA u patterns =
     (let (start, b) = addState [] in
      case combine u patterns start 0 patterns (b, \<lambda>_. []) of
        Inl e \<Rightarrow> Inl e
      | Inr (b', _) \<Rightarrow> Inr \<lparr>nfaStates = b', nfaStart = start\<rparr>)"

subsection \<open>Empty matches\<close>

fun regexCanMatchEmpty :: "regexNode \<Rightarrow> bool" where
  "regexCanMatchEmpty NilNode \<longleftrightarrow> True"
| "regexCanMatchEmpty (Literal _) \<longleftrightarrow> False"
| "regexCanMatchEmpty (CharClass _ _) \<longleftrightarrow> False"
| "regexCanMatchEmpty Dot \<longleftrightarrow> False"
| "regexCanMatchEmpty (RSeq cs) \<longleftrightarrow> (\<forall>c \<in> set cs. regexCanMatchEmpty c)"
| "regexCanMatchEmpty (RAlt cs) \<longleftrightarrow> (\<exists>c \<in> set cs. regexCanMatchEmpty c)"
| "regexCanMatchEmpty (RStar _) \<longleftrightarrow> True"
| "regexCanMatchEmpty (RQuestion _) \<longleftrightarrow> True"
| "regexCanMatchEmpty (RPlus cs) \<longleftrightarrow> (case cs of [] \<Rightarrow> True | c # _ \<Rightarrow> regexCanMatchEmpty c)"
| "regexCanMatchEmpty (RCount cs mn _) \<longleftrightarrow> mn = 0 \<or> (case cs of [] \<Rightarrow> True | c # _ \<Rightarrow> regexCanMatchEmpty c)"
| "regexCanMatchEmpty (UnknownNode _) \<longleftrightarrow> False"

fun terminalRuleCanMatchEmpty :: "unicode_pkg \<Rightarrow> rule \<Rightarrow> bool" where
  "terminalRuleCanMatchEmpty u NilRule \<longleftrightarrow> True"
| "terminalRuleCanMatchEmpty u (Rule k v cs prec named) \<longleftrightarrow>
     (case k of
        RuleBlank \<Rightarrow> True
      | RuleString \<Rightarrow> v = [] \<or> v = [0]
      | RulePattern \<Rightarrow> (case parseRegex u v of Some (Inr node) \<Rightarrow> regexCanMatchEmpty node | _ \<Rightarrow> False)
      | RuleSeq \<Rightarrow> (\<forall>c \<in> set cs. terminalRuleCanMatchEmpty u c)
      | RuleChoice \<Rightarrow> (\<exists>c \<in> set cs. terminalRuleCanMatchEmpty u c)
      | RuleRepeat \<Rightarrow> True
      | RuleOptional \<Rightarrow> True
      | RuleRepeat1 \<Rightarrow> (case cs of [] \<Rightarrow> True | c # _ \<Rightarrow> terminalRuleCanMatchEmpty u c)
      | _ \<Rightarrow> (case cs of [] \<Rightarrow> False | c # _ \<Rightarrow> terminalRuleCanMatchEmpty u c))"

subsection \<open>Reference: the languages\<close>

definition runes_lang :: "rune set \<Rightarrow> rune lang" where
  "runes_lang A = {[r] | r. r \<in> A}"

text \<open>\<open>{n,}\<close> with \<open>n\<close> at least 2 is \<open>{n}\<close>, as the code documents.\<close>

definition count_lang :: "rune lang \<Rightarrow> int \<Rightarrow> int \<Rightarrow> rune lang" where
  "count_lang X mn mx =
     (if mx < 0 then (if mn \<ge> 2 then lpow (nat mn) X else lconc (lpow (nat mn) X) (lstar X))
      else (\<Union>k \<in> {nat mn..nat mx}. lpow k X))"

fun node_lang :: "regexNode \<Rightarrow> rune lang" where
  "node_lang NilNode = {[]}"
| "node_lang (Literal v) = {[v]}"
| "node_lang (CharClass rs neg) = runes_lang (if neg then {0..0x10FFFF} - ranges_set rs else ranges_set rs)"
| "node_lang Dot = runes_lang ({0..0x10FFFF} - {10})"
| "node_lang (RSeq cs) = lconcs (map node_lang cs)"
| "node_lang (RAlt cs) = (\<Union>c \<in> set cs. node_lang c)"
| "node_lang (RStar cs) = (case cs of [] \<Rightarrow> {[]} | c # _ \<Rightarrow> lstar (node_lang c))"
| "node_lang (RPlus cs) = (case cs of [] \<Rightarrow> {[]} | c # _ \<Rightarrow> lconc (node_lang c) (lstar (node_lang c)))"
| "node_lang (RQuestion cs) = (case cs of [] \<Rightarrow> {[]} | c # _ \<Rightarrow> {[]} \<union> node_lang c)"
| "node_lang (RCount cs mn mx) = (case cs of [] \<Rightarrow> {[]} | c # _ \<Rightarrow> count_lang (node_lang c) mn mx)"
| "node_lang (UnknownNode _) = {}"

fun rule_lang :: "unicode_pkg \<Rightarrow> rule \<Rightarrow> rune lang" where
  "rule_lang u NilRule = {[]}"
| "rule_lang u (Rule k v cs prec named) =
     (case k of
        RuleString \<Rightarrow> if v = [0] then {[]} else {decode_runes v}
      | RulePattern \<Rightarrow> (case parseRegex u v of Some (Inr node) \<Rightarrow> node_lang node | _ \<Rightarrow> {})
      | RuleSeq \<Rightarrow> lconcs (map (rule_lang u) cs)
      | RuleChoice \<Rightarrow> (\<Union>c \<in> set cs. rule_lang u c)
      | RuleRepeat \<Rightarrow> (case cs of [] \<Rightarrow> {[]} | c # _ \<Rightarrow> lstar (rule_lang u c))
      | RuleRepeat1 \<Rightarrow> (case cs of [] \<Rightarrow> {[]} | c # _ \<Rightarrow> lconc (rule_lang u c) (lstar (rule_lang u c)))
      | RuleOptional \<Rightarrow> (case cs of [] \<Rightarrow> {[]} | c # _ \<Rightarrow> {[]} \<union> rule_lang u c)
      | RuleBlank \<Rightarrow> {[]}
      | _ \<Rightarrow> {})"

text \<open>Trees and rules the theorems are about: class ranges inside Unicode and not inverted, counts
  that make sense, strings in UTF-8, and the end-of-input sentinel \<open>"\x00"\<close> neither next to a string
  in a sequence (they are joined) nor in a choice that has only strings (it becomes a trie).\<close>

fun node_ok :: "regexNode \<Rightarrow> bool" where
  "node_ok (Literal v) \<longleftrightarrow> 0 \<le> v \<and> v \<le> 0x10FFFF"
| "node_ok (CharClass rs neg) \<longleftrightarrow> (\<forall>r \<in> set rs. range_ok r)"
| "node_ok Dot \<longleftrightarrow> True"
| "node_ok (RSeq cs) \<longleftrightarrow> (\<forall>c \<in> set cs. node_ok c)"
| "node_ok (RAlt cs) \<longleftrightarrow> cs \<noteq> [] \<and> (\<forall>c \<in> set cs. node_ok c)"
| "node_ok (RStar cs) \<longleftrightarrow> (\<forall>c \<in> set cs. node_ok c)"
| "node_ok (RPlus cs) \<longleftrightarrow> (\<forall>c \<in> set cs. node_ok c)"
| "node_ok (RQuestion cs) \<longleftrightarrow> (\<forall>c \<in> set cs. node_ok c)"
| "node_ok (RCount cs mn mx) \<longleftrightarrow> 0 \<le> mn \<and> (mx = -1 \<or> mn \<le> mx) \<and> (\<forall>c \<in> set cs. node_ok c)"
| "node_ok NilNode \<longleftrightarrow> True"
| "node_ok (UnknownNode _) \<longleftrightarrow> False"

definition utf8_text :: "bytes \<Rightarrow> bool" where
  "utf8_text v \<longleftrightarrow> concat (map encode_rune (decode_runes v)) = v \<and> (\<forall>r \<in> set (decode_runes v). valid_rune r)"

definition sentinel :: "rule \<Rightarrow> bool" where
  "sentinel r \<longleftrightarrow> is_string r \<and> rule_value r = [0]"

fun sentinels_alone :: "rule list \<Rightarrow> bool" where
  "sentinels_alone (r # s # rs) \<longleftrightarrow>
     (is_string r \<and> is_string s \<longrightarrow> \<not> sentinel r \<and> \<not> sentinel s) \<and> sentinels_alone (s # rs)"
| "sentinels_alone _ \<longleftrightarrow> True"

fun rule_ok :: "unicode_pkg \<Rightarrow> rule \<Rightarrow> bool" where
  "rule_ok u NilRule \<longleftrightarrow> True"
| "rule_ok u (Rule k v cs prec named) \<longleftrightarrow>
     (case k of
        RuleString \<Rightarrow> utf8_text v
      | RulePattern \<Rightarrow> (case parseRegex u v of Some (Inr node) \<Rightarrow> node_ok node | _ \<Rightarrow> False)
      | RuleSeq \<Rightarrow> (\<forall>c \<in> set cs. rule_ok u c) \<and> sentinels_alone cs
      | RuleChoice \<Rightarrow> cs \<noteq> [] \<and> (\<forall>c \<in> set cs. rule_ok u c) \<and>
          ((\<forall>c \<in> set cs. is_string c) \<longrightarrow> (\<forall>c \<in> set cs. \<not> sentinel c))
      | RuleRepeat \<Rightarrow> (\<forall>c \<in> set cs. rule_ok u c)
      | RuleRepeat1 \<Rightarrow> (\<forall>c \<in> set cs. rule_ok u c)
      | RuleOptional \<Rightarrow> (\<forall>c \<in> set cs. rule_ok u c)
      | RuleBlank \<Rightarrow> True
      | _ \<Rightarrow> False)"

subsection \<open>Lemmas: steps of the builder's automaton\<close>

definition nfa_step :: "builder \<Rightarrow> (nat, rune) steps" where
  "nfa_step b p x q \<longleftrightarrow> p < length b \<and>
     (\<exists>t \<in> set (nTransitions (b ! p)). nNext t = q \<and>
        (case x of None \<Rightarrow> nEpsilon t | Some r \<Rightarrow> \<not> nEpsilon t \<and> nLo t \<le> r \<and> r \<le> nHi t))"

lemma addState_simps [simp]: "addState b = (length b, b @ [empty_state])"
  by (simp add: addState_def)

lemma length_add [simp]:
  "length (add_transition src t b) = length b" "length (addEpsilon src dst b) = length b" "length (addCharRange src lo hi dst b) = length b"
  "length (mark_accept q s p i b) = length b"
  by (simp_all add: add_transition_def addEpsilon_def addCharRange_def mark_accept_def)

lemma step_new_state: "nfa_step (b @ [empty_state]) = nfa_step b"
  by (auto simp: nfa_step_def fun_eq_iff nth_append empty_state_def less_Suc_eq)

lemma step_mark: "nfa_step (mark_accept q s p i b) = nfa_step b"
proof -
  have "nTransitions (mark_accept q s p i b ! j) = nTransitions (b ! j)" for j
    by (cases "q < length b") (auto simp: mark_accept_def nth_list_update list_update_beyond)
  then show ?thesis by (simp add: nfa_step_def fun_eq_iff)
qed

lemma step_epsilon: "src < length b \<Longrightarrow> nfa_step (addEpsilon src dst b) = add_edge src dst (nfa_step b)"
  by (auto simp: nfa_step_def fun_eq_iff addEpsilon_def add_transition_def add_edge_def nth_list_update split: option.splits)

lemma step_char:
  "src < length b \<Longrightarrow> nfa_step (addCharRange src lo hi dst b) p x q \<longleftrightarrow>
    nfa_step b p x q \<or> p = src \<and> q = dst \<and> (\<exists>r. x = Some r \<and> lo \<le> r \<and> r \<le> hi)"
  by (auto simp: nfa_step_def addCharRange_def add_transition_def nth_list_update split: option.splits)

lemma step_in: "nfa_step b p x q \<Longrightarrow> p < length b"
  by (simp add: nfa_step_def)

lemma isolated_beyond: "length b \<le> i \<Longrightarrow> isolated (nfa_step b) i"
  by (simp add: isolated_def nfa_step_def)

subsection \<open>Lemmas: fragments\<close>

text \<open>What building a fragment does to a builder: old states are kept, new ones accept nothing and lead only
  to new ones, and the fragment is made of new states.\<close>

definition sealed :: "nat \<Rightarrow> builder \<Rightarrow> bool" where
  "sealed n b \<longleftrightarrow> (\<forall>p x q. n \<le> p \<longrightarrow> nfa_step b p x q \<longrightarrow> n \<le> q \<and> q < length b)"

definition range_state :: "nfaState \<Rightarrow> bool" where
  "range_state s \<longleftrightarrow> (\<forall>t \<in> set (nTransitions s). nEpsilon t \<or> 0 \<le> nLo t \<and> nLo t \<le> nHi t \<and> nHi t \<le> 0x10FFFF)"

definition new_ok :: "nfaState \<Rightarrow> bool" where
  "new_ok s \<longleftrightarrow> nAccept s = 0 \<and> range_state s"

definition grown :: "builder \<Rightarrow> builder \<Rightarrow> bool" where
  "grown b b' \<longleftrightarrow> length b \<le> length b' \<and> (\<forall>i < length b. b' ! i = b ! i) \<and>
     (\<forall>i. length b \<le> i \<longrightarrow> i < length b' \<longrightarrow> new_ok (b' ! i)) \<and> sealed (length b) b'"

definition in_new :: "builder \<Rightarrow> builder \<Rightarrow> nat \<Rightarrow> bool" where
  "in_new b b' p \<longleftrightarrow> length b \<le> p \<and> p < length b'"

definition frag_ok :: "builder \<Rightarrow> builder \<Rightarrow> nfaFragment \<Rightarrow> rune lang \<Rightarrow> bool" where
  "frag_ok b b' fr X \<longleftrightarrow> grown b b' \<and> in_new b b' (fStart fr) \<and> in_new b b' (fEnd fr) \<and>
     paths (nfa_step b') (fStart fr) (fEnd fr) = X"

definition builds :: "build \<Rightarrow> rune lang \<Rightarrow> bool" where
  "builds f X \<longleftrightarrow> (\<forall>b. \<exists>fr b'. f b = Inr (fr, b') \<and> frag_ok b b' fr X)"

lemma buildsE:
  assumes "builds f X"
  obtains fr b' where "f b = Inr (fr, b')" "frag_ok b b' fr X"
  using assms unfolding builds_def by blast

lemma frag_okD:
  assumes "frag_ok b b' fr X"
  shows "grown b b'" "length b \<le> length b'" "length b \<le> fStart fr" "fStart fr < length b'" "length b \<le> fEnd fr" "fEnd fr < length b'"
    "paths (nfa_step b') (fStart fr) (fEnd fr) = X"
  using assms by (auto simp: frag_ok_def in_new_def grown_def)

lemma grown_refl [simp]: "grown b b"
  by (auto simp: grown_def sealed_def nfa_step_def)

lemma grown_steps: "grown b b' \<Longrightarrow> p < length b \<Longrightarrow> nfa_step b' p x q = nfa_step b p x q"
  by (auto simp: grown_def nfa_step_def)

lemma grownD:
  assumes "grown b b'"
  shows "length b \<le> length b'" "i < length b \<Longrightarrow> b' ! i = b ! i" "length b \<le> i \<Longrightarrow> i < length b' \<Longrightarrow> new_ok (b' ! i)"
    "length b \<le> p \<Longrightarrow> nfa_step b' p x q \<Longrightarrow> length b \<le> q \<and> q < length b'" "sealed (length b) b'"
  using assms unfolding grown_def sealed_def by blast+

lemma grownI:
  assumes "length b \<le> length b'" and "\<And>i. i < length b \<Longrightarrow> b' ! i = b ! i"
    and "\<And>i. length b \<le> i \<Longrightarrow> i < length b' \<Longrightarrow> new_ok (b' ! i)"
    and "\<And>p x q. length b \<le> p \<Longrightarrow> nfa_step b' p x q \<Longrightarrow> length b \<le> q \<and> q < length b'"
  shows "grown b b'"
  using assms unfolding grown_def sealed_def by blast

lemma grown_trans:
  assumes "grown a b" and "grown b c"
  shows "grown a c"
proof (rule grownI)
  note ab = grownD [OF assms(1)] and bc = grownD [OF assms(2)]
  show "length a \<le> length c" using ab(1) bc(1) by linarith
  show "c ! i = a ! i" if "i < length a" for i using ab(1,2) bc(2) that by simp
  show "new_ok (c ! i)" if "length a \<le> i" "i < length c" for i
  proof (cases "i < length b")
    case True
    then show ?thesis using bc(2) ab(3) that by simp
  qed (use bc(3) that in simp)
  show "length a \<le> q \<and> q < length c" if "length a \<le> p" "nfa_step c p x q" for p x q
  proof (cases "p < length b")
    case True
    then have "nfa_step b p x q" using grown_steps [OF assms(2)] that(2) by blast
    then have "length a \<le> q \<and> q < length b" using ab(4) that(1) by blast
    then show ?thesis using bc(1) by linarith
  next
    case False
    then have "length b \<le> q \<and> q < length c" using bc(4) [OF _ that(2)] by linarith
    then show ?thesis using ab(1) by linarith
  qed
qed

lemma sealed_closed: "sealed n b \<Longrightarrow> closed_in (nfa_step b) {n..<length b}"
  by (auto simp: sealed_def closed_in_def)

text \<open>Languages inside an old region do not change, and nothing leads out of it.\<close>

lemma grown_paths:
  assumes "sealed n b" and "grown b b'" and "n \<le> p" "p < length b"
  shows "paths (nfa_step b') p q = paths (nfa_step b) p q"
  by (rule paths_region [OF sealed_closed [OF assms(1)]]) (use assms grown_steps [OF assms(2)] in auto)

lemma sealed_paths: "sealed n b \<Longrightarrow> n \<le> p \<Longrightarrow> p < length b \<Longrightarrow> \<not> (n \<le> q \<and> q < length b) \<Longrightarrow> paths (nfa_step b) p q = {}"
  by (rule paths_outside [OF sealed_closed]) auto

text \<open>Extending by empty states and by epsilon edges between new states.\<close>

lemma grown_state:
  assumes "grown a b"
  shows "grown a (b @ [empty_state])"
proof -
  have "grown b (b @ [empty_state])"
  proof (rule grownI)
    show "length b \<le> q \<and> q < length (b @ [empty_state])" if "length b \<le> p" "nfa_step (b @ [empty_state]) p x q" for p x q
      using that step_in [of b p x q] by (simp add: step_new_state)
  qed (auto simp: nth_append empty_state_def new_ok_def range_state_def)
  then show ?thesis using grown_trans assms by blast
qed

lemma grown_transition:
  assumes "grown a b" and "in_new a b src" and steps: "\<And>p x q. nfa_step (add_transition src t b) p x q \<Longrightarrow> nfa_step b p x q \<or> in_new a b q"
    and "nEpsilon t \<or> 0 \<le> nLo t \<and> nLo t \<le> nHi t \<and> nHi t \<le> 0x10FFFF"
  shows "grown a (add_transition src t b)"
proof (rule grownI)
  note ab = grownD [OF assms(1)]
  show "length a \<le> length (add_transition src t b)" using ab(1) by simp
  show "add_transition src t b ! i = a ! i" if "i < length a" for i
    using ab(2) that assms(2) by (simp add: add_transition_def in_new_def)
  show "new_ok (add_transition src t b ! i)" if "length a \<le> i" "i < length (add_transition src t b)" for i
    using ab(3) [of i] ab(3) [of src] assms(2,4) that by (auto simp: add_transition_def nth_list_update in_new_def new_ok_def range_state_def)
  show "length a \<le> q \<and> q < length (add_transition src t b)" if "length a \<le> p" "nfa_step (add_transition src t b) p x q" for p x q
    using steps [OF that(2)] ab(4) [OF that(1)] by (auto simp: in_new_def)
qed

lemma grown_epsilon:
  assumes "grown a b" and "in_new a b src" and "in_new a b dst"
  shows "grown a (addEpsilon src dst b)"
  unfolding addEpsilon_def
proof (rule grown_transition [OF assms(1,2)])
  have "src < length b" using assms(2) by (simp add: in_new_def)
  from step_epsilon [OF this] assms(3)
  show "nfa_step b p x q \<or> in_new a b q" if "nfa_step (add_transition src \<lparr>nLo = 0, nHi = 0, nEpsilon = True, nNext = dst\<rparr> b) p x q" for p x q
    using that unfolding addEpsilon_def [symmetric] by (auto simp: add_edge_def)
qed simp

lemma grown_char:
  assumes "grown a b" and "in_new a b src" and "in_new a b dst" and "0 \<le> lo" "lo \<le> hi" "hi \<le> 0x10FFFF"
  shows "grown a (addCharRange src lo hi dst b)"
  unfolding addCharRange_def
proof (rule grown_transition [OF assms(1,2)])
  have "src < length b" using assms(2) by (simp add: in_new_def)
  from step_char [OF this] assms(3)
  show "nfa_step b p x q \<or> in_new a b q" if "nfa_step (add_transition src \<lparr>nLo = lo, nHi = hi, nEpsilon = False, nNext = dst\<rparr> b) p x q" for p x q
    using that unfolding addCharRange_def [symmetric] by auto
qed (use assms(4-6) in simp)

lemma in_new_simps [simp]:
  "in_new a (b @ [s]) p \<longleftrightarrow> length a \<le> p \<and> p \<le> length b" "in_new a (addEpsilon src dst b) p \<longleftrightarrow> in_new a b p"
  "in_new a (addCharRange src lo hi dst b) p \<longleftrightarrow> in_new a b p"
  by (auto simp: in_new_def)

subsection \<open>Lemmas: languages of the gadgets\<close>

lemma builds_epsilon: "builds buildEpsilon {[]}"
  unfolding builds_def
proof (intro allI exI conjI)
  fix b :: builder
  let ?b2 = "(b @ [empty_state]) @ [empty_state]" and ?s = "length b" and ?e = "Suc (length b)"
  show "buildEpsilon b = Inr (frag ?s ?e, addEpsilon ?s ?e ?b2)" by (simp add: buildEpsilon_def)
  have R: "nfa_step (addEpsilon ?s ?e ?b2) = add_edge ?s ?e (nfa_step b)"
    by (subst step_epsilon) (simp_all only: step_new_state, simp)
  have iso: "isolated (nfa_step b) ?s" "isolated (nfa_step b) ?e" by (simp_all add: isolated_beyond)
  have "paths (nfa_step (addEpsilon ?s ?e ?b2)) ?s ?e = {[]}"
    unfolding R using paths_isolated [OF iso(1)] paths_isolated [OF iso(2)] by (simp add: paths_add)
  moreover have "grown b (addEpsilon ?s ?e ?b2)" by (intro grown_epsilon grown_state grown_refl) (simp_all add: in_new_def)
  ultimately show "frag_ok b (addEpsilon ?s ?e ?b2) (frag ?s ?e) {[]}" by (simp add: frag_ok_def in_new_def)
qed

lemma ranges_steps:
  assumes "in_new a b s" and "in_new a b e" and "grown a b" and ok: "\<forall>r \<in> set ranges. range_ok r"
    and "b' = fold (\<lambda>rr. addCharRange s (rLo rr) (rHi rr) e) ranges b"
  shows "length b' = length b" "grown a b'"
    "nfa_step b' p x q \<longleftrightarrow> nfa_step b p x q \<or> p = s \<and> q = e \<and> (\<exists>r \<in> ranges_set ranges. x = Some r)"
proof -
  have "length b' = length b \<and> grown a b' \<and>
    (\<forall>p x q. nfa_step b' p x q \<longleftrightarrow> nfa_step b p x q \<or> p = s \<and> q = e \<and> (\<exists>r \<in> ranges_set ranges. x = Some r))"
    using assms(1-3) ok unfolding assms(5)
  proof (induction ranges arbitrary: b)
    case (Cons rr ranges)
    let ?b = "addCharRange s (rLo rr) (rHi rr) e b"
    have "grown a ?b" using Cons.prems by (intro grown_char) (simp_all add: range_ok_def maxSupportedRune_def)
    from Cons.IH [OF _ _ this] Cons.prems
    have IH: "length (fold (\<lambda>rr. addCharRange s (rLo rr) (rHi rr) e) ranges ?b) = length b"
      "grown a (fold (\<lambda>rr. addCharRange s (rLo rr) (rHi rr) e) ranges ?b)"
      "\<forall>p x q. nfa_step (fold (\<lambda>rr. addCharRange s (rLo rr) (rHi rr) e) ranges ?b) p x q \<longleftrightarrow>
        nfa_step ?b p x q \<or> p = s \<and> q = e \<and> (\<exists>r \<in> ranges_set ranges. x = Some r)" by simp_all
    have "s < length b" using Cons.prems(1) by (simp add: in_new_def)
    then show ?case using IH by (auto simp: step_char)
  qed simp
  then show "length b' = length b" "grown a b'"
    "nfa_step b' p x q \<longleftrightarrow> nfa_step b p x q \<or> p = s \<and> q = e \<and> (\<exists>r \<in> ranges_set ranges. x = Some r)" by blast+
qed

lemma builds_ranges:
  assumes "\<forall>r \<in> set ranges. range_ok r"
  shows "builds (build_ranges ranges) (runes_lang (ranges_set ranges))"
  unfolding builds_def
proof (intro allI exI conjI)
  fix b :: builder
  let ?b2 = "(b @ [empty_state]) @ [empty_state]" and ?s = "length b" and ?e = "Suc (length b)"
  let ?b' = "fold (\<lambda>rr. addCharRange ?s (rLo rr) (rHi rr) ?e) ranges ?b2"
  show "build_ranges ranges b = Inr (frag ?s ?e, ?b')" by (simp add: build_ranges_def)
  have g: "grown b ?b2" by (intro grown_state grown_refl)
  have new: "in_new b ?b2 ?s" "in_new b ?b2 ?e" by (simp_all add: in_new_def)
  note r = ranges_steps [OF new g assms refl]
  have old: "nfa_step ?b2 = nfa_step b" by (simp only: step_new_state)
  have "paths (nfa_step ?b') ?s ?e = {[r] | r. r \<in> ranges_set ranges}"
  proof (rule paths_letters)
    show "nfa_step ?b' ?s x q \<longleftrightarrow> q = ?e \<and> (\<exists>r \<in> ranges_set ranges. x = Some r)" for x q
      using r(3) old step_in [of b ?s x q] by auto
    show "isolated (nfa_step ?b') ?e" unfolding isolated_def using r(3) old step_in [of b ?e] by auto
  qed simp
  then show "frag_ok b ?b' (frag ?s ?e) (runes_lang (ranges_set ranges))"
    using r(1,2) new by (simp add: frag_ok_def runes_lang_def in_new_def)
qed

subsection \<open>Lemmas: sequences\<close>

lemma seq_frag:
  assumes "frag_ok a b f1 X" and "frag_ok b c f2 Y"
  shows "frag_ok a (addEpsilon (fEnd f1) (fStart f2) c) (frag (fStart f1) (fEnd f2)) (lconc X Y)"
proof -
  note d1 = frag_okD [OF assms(1)] and d2 = frag_okD [OF assms(2)]
  have s1: "sealed (length a) b" "sealed (length b) c" using grownD(5) d1(1) d2(1) by blast+
  have R: "nfa_step (addEpsilon (fEnd f1) (fStart f2) c) = add_edge (fEnd f1) (fStart f2) (nfa_step c)"
    by (rule step_epsilon) (use d1 d2 in linarith)
  have p1: "paths (nfa_step c) (fStart f1) q = paths (nfa_step b) (fStart f1) q" for q
    by (rule grown_paths [OF s1(1) d2(1)]) (use d1 in linarith)+
  have "paths (nfa_step c) (fStart f1) (fEnd f2) = {}"
    unfolding p1 by (rule sealed_paths [OF s1(1)]) (use d1 d2 in linarith)+
  moreover have "paths (nfa_step c) (fStart f2) (fEnd f1) = {}"
    by (rule sealed_paths [OF s1(2)]) (use d1 d2 in linarith)+
  ultimately have "paths (add_edge (fEnd f1) (fStart f2) (nfa_step c)) (fStart f1) (fEnd f2) = lconc X Y"
    using p1 d1(7) d2(7) by (simp add: paths_seq)
  moreover have "grown a (addEpsilon (fEnd f1) (fStart f2) c)"
    by (intro grown_epsilon grown_trans [OF d1(1) d2(1)]) (use d1 d2 in \<open>simp_all add: in_new_def\<close>)
  ultimately show ?thesis using d1 d2 by (simp add: frag_ok_def R in_new_def)
qed

lemma chain_rest_builds:
  assumes "list_all2 builds fs Xs" and "frag_ok a b cur X"
  shows "\<exists>fr b'. chain_rest fs cur b = Inr (fr, b') \<and> frag_ok a b' fr (lconc X (lconcs Xs))"
  using assms
proof (induction fs Xs arbitrary: cur b X rule: list_all2_induct)
  case (Cons f fs Y Ys)
  obtain nx b1 where f: "f b = Inr (nx, b1)" "frag_ok b b1 nx Y" using Cons.hyps(1) by (rule buildsE)
  from Cons.IH [OF seq_frag [OF Cons.prems f(2)]] show ?case using f(1) by (simp add: lconc_assoc)
qed simp

lemma builds_chain:
  assumes "list_all2 builds fs Xs"
  shows "builds (build_chain fs) (lconcs Xs)"
proof (cases fs)
  case Nil
  then show ?thesis using assms builds_epsilon by (simp add: builds_def build_chain_def)
next
  case (Cons f fs')
  then obtain Y Ys where Xs: "Xs = Y # Ys" "builds f Y" "list_all2 builds fs' Ys" using assms by (auto simp: list_all2_Cons1)
  show ?thesis unfolding builds_def
  proof
    fix b
    obtain cur b1 where f: "f b = Inr (cur, b1)" "frag_ok b b1 cur Y" using Xs(2) by (rule buildsE)
    from chain_rest_builds [OF Xs(3) f(2)] show "\<exists>fr b'. build_chain fs b = Inr (fr, b') \<and> frag_ok b b' fr (lconcs Xs)"
      using f(1) by (simp add: build_chain_def Cons Xs(1))
  qed
qed

subsection \<open>Lemmas: alternatives\<close>

definition alt_ok :: "builder \<Rightarrow> builder \<Rightarrow> nat \<Rightarrow> nat \<Rightarrow> rune lang \<Rightarrow> bool" where
  "alt_ok a b st en X \<longleftrightarrow> grown a b \<and> in_new a b st \<and> in_new a b en \<and> st \<noteq> en \<and> isolated (nfa_step b) en \<and>
     paths (nfa_step b) st st = {[]} \<and> paths (nfa_step b) st en = X"

lemma branch_ok:
  assumes "alt_ok a b st en X" and "frag_ok b c fr Y"
  shows "alt_ok a (addEpsilon (fEnd fr) en (addEpsilon st (fStart fr) c)) st en (X \<union> Y)"
proof -
  let ?c = "addEpsilon (fEnd fr) en (addEpsilon st (fStart fr) c)"
  have a: "grown a b" "in_new a b st" "in_new a b en" "st \<noteq> en" "isolated (nfa_step b) en"
    "paths (nfa_step b) st st = {[]}" "paths (nfa_step b) st en = X" using assms(1) by (simp_all add: alt_ok_def)
  note d = frag_okD [OF assms(2)]
  have lt: "st < length b" "en < length b" "length a \<le> st" "length a \<le> en" using a(2,3) by (simp_all add: in_new_def)
  have s: "sealed (length a) b" "sealed (length b) c" using grownD(5) a(1) d(1) by blast+
  have R: "nfa_step ?c = add_edge (fEnd fr) en (add_edge st (fStart fr) (nfa_step c))"
    using d lt by (simp add: step_epsilon)
  have st: "paths (nfa_step c) st q = paths (nfa_step b) st q" for q
    by (rule grown_paths [OF s(1) d(1)]) (use lt in linarith)+
  have st_e: "paths (nfa_step c) st (fEnd fr) = {}"
    unfolding st by (rule sealed_paths [OF s(1)]) (use lt d in linarith)+
  have out: "paths (nfa_step c) (fStart fr) q = {}" if "q < length b" for q
    by (rule sealed_paths [OF s(2)]) (use that d in linarith)+
  have en: "isolated (nfa_step c) en" using a(5) grown_steps [OF d(1) lt(2)] by (simp add: isolated_def)
  have ne: "en \<noteq> fEnd fr" "en \<noteq> st" using lt d a(4) by linarith+
  have "paths (nfa_step ?c) st en = X \<union> Y"
    unfolding R using paths_branch [OF en out out _ st_e ne] lt st a(6,7) d(7) by simp
  moreover have "paths (nfa_step ?c) st st = {[]}"
    unfolding R using paths_isolated [OF en] out lt st a(6) ne by (simp add: paths_add)
  moreover have "isolated (nfa_step ?c) en" unfolding R using en ne by (auto simp: isolated_def add_edge_def)
  moreover have "grown a ?c"
    by (intro grown_epsilon grown_trans [OF a(1) d(1)]) (use lt d in \<open>simp_all add: in_new_def\<close>)
  ultimately show ?thesis using a(4) lt d by (simp add: alt_ok_def in_new_def)
qed

lemma branches_build:
  assumes "list_all2 builds fs Xs" and "alt_ok a b st en X"
  shows "\<exists>b'. branches fs st en b = Inr (frag st en, b') \<and> alt_ok a b' st en (X \<union> \<Union> (set Xs))"
  using assms
proof (induction fs Xs arbitrary: b X rule: list_all2_induct)
  case (Cons f fs Y Ys)
  obtain fr b1 where f: "f b = Inr (fr, b1)" "frag_ok b b1 fr Y" using Cons.hyps(1) by (rule buildsE)
  from Cons.IH [OF branch_ok [OF Cons.prems f(2)]] show ?case using f(1) by (simp add: Un_assoc)
qed simp

lemma alt_start: "alt_ok b ((b @ [empty_state]) @ [empty_state]) (length b) (Suc (length b)) {}"
proof -
  let ?b2 = "(b @ [empty_state]) @ [empty_state]"
  have R: "nfa_step ?b2 = nfa_step b" by (simp only: step_new_state)
  have "isolated (nfa_step b) (length b)" "isolated (nfa_step b) (Suc (length b))" by (simp_all add: isolated_beyond)
  moreover have "grown b ?b2" by (intro grown_state grown_refl)
  ultimately show ?thesis unfolding alt_ok_def R by (simp add: paths_isolated in_new_def)
qed

lemma alt_frag: "alt_ok a b st en X \<Longrightarrow> frag_ok a b (frag st en) X"
  by (simp add: alt_ok_def frag_ok_def)

lemma builds_alt:
  assumes "list_all2 builds fs Xs" and "fs \<noteq> []"
  shows "builds (build_alt fs) (\<Union> (set Xs))"
  unfolding builds_def
proof
  fix b
  from branches_build [OF assms(1) alt_start [of b]] assms(2)
  show "\<exists>fr b'. build_alt fs b = Inr (fr, b') \<and> frag_ok b b' fr (\<Union> (set Xs))"
    by (auto simp: build_alt_def intro: alt_frag)
qed

subsection \<open>Lemmas: repetitions\<close>

text \<open>A fragment with a fresh pair of states, and the wiring of the three operators.\<close>

lemma builds_around:
  assumes "builds f X"
    and steps: "\<And>st en fr b. st < length b \<Longrightarrow> en < length b \<Longrightarrow> fEnd fr < length b \<Longrightarrow> nfa_step (wire st en fr b) = g st en fr (nfa_step b)"
    and lang: "\<And>R st en fr. fresh_pair R (fStart fr) st en \<Longrightarrow> fEnd fr \<noteq> st \<Longrightarrow> fEnd fr \<noteq> en \<Longrightarrow>
      paths (g st en fr R) st en = Y (paths R (fStart fr) (fEnd fr))"
    and grow: "\<And>st en fr a b. grown a b \<Longrightarrow> in_new a b st \<Longrightarrow> in_new a b en \<Longrightarrow> in_new a b (fStart fr) \<Longrightarrow> in_new a b (fEnd fr) \<Longrightarrow>
      grown a (wire st en fr b) \<and> length (wire st en fr b) = length b"
  shows "builds (build_around wire f) (Y X)"
  unfolding builds_def
proof
  fix b
  obtain fr b1 where f: "f b = Inr (fr, b1)" "frag_ok b b1 fr X" using assms(1) by (rule buildsE)
  note d = frag_okD [OF f(2)]
  let ?st = "length b1" and ?en = "Suc (length b1)" and ?b3 = "(b1 @ [empty_state]) @ [empty_state]"
  have old: "nfa_step ?b3 = nfa_step b1" by (simp only: step_new_state)
  have s: "sealed (length b) b1" using grownD(5) d(1) .
  have "fresh_pair (nfa_step b1) (fStart fr) ?st ?en"
    using isolated_beyond [of b1] sealed_paths [OF s d(3,4)] by (simp add: fresh_pair_def)
  then have "paths (g ?st ?en fr (nfa_step b1)) ?st ?en = Y X" using lang d by fastforce
  then have "paths (nfa_step (wire ?st ?en fr ?b3)) ?st ?en = Y X" using steps [of ?st ?b3 ?en fr] d(6) old by simp
  moreover have "grown b (wire ?st ?en fr ?b3) \<and> length (wire ?st ?en fr ?b3) = length ?b3"
    by (rule grow) (use d in \<open>simp_all add: grown_state in_new_def del: append_assoc\<close>)
  ultimately have "frag_ok b (wire ?st ?en fr ?b3) (frag ?st ?en) (Y X)" using d(2) by (simp add: frag_ok_def in_new_def)
  then show "\<exists>fr b'. build_around wire f b = Inr (fr, b') \<and> frag_ok b b' fr (Y X)" using f(1) by (simp add: build_around_def)
qed

lemma builds_star: "builds f X \<Longrightarrow> builds (build_star f) (lstar X)"
  unfolding build_star_def
  by (rule builds_around [where Y = lstar and g = "\<lambda>st en fr R. add_edge (fEnd fr) en (add_edge (fEnd fr) (fStart fr) (add_edge st en (add_edge st (fStart fr) R)))"])
    (simp_all add: step_epsilon paths_star grown_epsilon)

lemma builds_plus: "builds f X \<Longrightarrow> builds (build_plus f) (lconc X (lstar X))"
  unfolding build_plus_def
  by (rule builds_around [where Y = "\<lambda>X. lconc X (lstar X)" and g = "\<lambda>st en fr R. add_edge (fEnd fr) en (add_edge (fEnd fr) (fStart fr) (add_edge st (fStart fr) R))"])
    (simp_all add: step_epsilon paths_plus grown_epsilon)

lemma builds_optional: "builds f X \<Longrightarrow> builds (build_optional f) ({[]} \<union> X)"
  unfolding build_optional_def
  by (rule builds_around [where Y = "\<lambda>X. {[]} \<union> X" and g = "\<lambda>st en fr R. add_edge (fEnd fr) en (add_edge st en (add_edge st (fStart fr) R))"])
    (simp_all add: step_epsilon paths_optional grown_epsilon)

subsection \<open>Lemmas: counted repetitions\<close>

lemma tail_setup:
  assumes "frag_ok a b cur X" and "frag_ok b c fr Y"
  shows "isolated (nfa_step c) (length c)" "paths (nfa_step c) (fStart cur) (fEnd cur) = X" "paths (nfa_step c) (fStart fr) (fEnd fr) = Y"
    "paths (nfa_step c) (fStart cur) (length c) = {}" "paths (nfa_step c) (fStart cur) (fStart fr) = {}"
    "paths (nfa_step c) (fStart cur) (fEnd fr) = {}" "paths (nfa_step c) (fStart fr) (fEnd cur) = {}"
    "paths (nfa_step c) (fStart fr) (length c) = {}"
proof -
  note d1 = frag_okD [OF assms(1)] and d2 = frag_okD [OF assms(2)]
  have s: "sealed (length a) b" "sealed (length b) c" using grownD(5) d1(1) d2(1) by blast+
  have cur: "paths (nfa_step c) (fStart cur) q = paths (nfa_step b) (fStart cur) q" for q
    by (rule grown_paths [OF s(1) d2(1)]) (use d1 in linarith)+
  have out: "paths (nfa_step c) (fStart cur) q = {}" if "length b \<le> q" for q
    unfolding cur by (rule sealed_paths [OF s(1)]) (use d1 that in linarith)+
  show "isolated (nfa_step c) (length c)" by (simp add: isolated_beyond)
  show "paths (nfa_step c) (fStart cur) (fEnd cur) = X" using cur d1(7) by simp
  show "paths (nfa_step c) (fStart fr) (fEnd fr) = Y" by (rule d2(7))
  show "paths (nfa_step c) (fStart cur) (length c) = {}" "paths (nfa_step c) (fStart cur) (fStart fr) = {}"
    "paths (nfa_step c) (fStart cur) (fEnd fr) = {}" using out d2 by simp_all
  show "paths (nfa_step c) (fStart fr) (fEnd cur) = {}" "paths (nfa_step c) (fStart fr) (length c) = {}"
    by (rule sealed_paths [OF s(2)]; use d1 d2 in linarith)+
qed

lemma star_tail_builds:
  assumes "builds f Y" and "frag_ok a b cur X"
  shows "\<exists>fr b'. star_tail f cur b = Inr (fr, b') \<and> frag_ok a b' fr (lconc X (lstar Y))"
proof -
  obtain fr c where f: "f b = Inr (fr, c)" "frag_ok b c fr Y" using assms(1) by (rule buildsE)
  note d1 = frag_okD [OF assms(2)] and d2 = frag_okD [OF f(2)] and t = tail_setup [OF assms(2) f(2)]
  let ?lp = "length c" and ?c = "c @ [empty_state]"
  let ?b' = "addEpsilon (fEnd fr) ?lp (addEpsilon ?lp (fStart fr) (addEpsilon (fEnd cur) ?lp ?c))"
  have R: "nfa_step ?b' = add_edge (fEnd fr) ?lp (add_edge ?lp (fStart fr) (add_edge (fEnd cur) ?lp (nfa_step c)))"
    using d1 d2 by (simp add: step_epsilon step_new_state)
  have "?lp \<noteq> fEnd cur" "?lp \<noteq> fStart fr" "?lp \<noteq> fEnd fr" using d1 d2 by linarith+
  then have "paths (nfa_step ?b') (fStart cur) ?lp = lconc X (lstar Y)"
    unfolding R using paths_loop [OF t(1,4,5,6,7,8)] t(2,3) by simp
  moreover have "grown a ?b'"
    by (intro grown_epsilon grown_state grown_trans [OF d1(1) d2(1)]) (use d1 d2 in \<open>simp_all add: in_new_def\<close>)
  ultimately have "frag_ok a ?b' (frag (fStart cur) ?lp) (lconc X (lstar Y))" using d1 d2 by (simp add: frag_ok_def in_new_def)
  then show ?thesis using f(1) by (simp add: star_tail_def)
qed

lemma opt_copies_builds:
  assumes "builds f Y" and "frag_ok a b cur X"
  shows "\<exists>fr b'. opt_copies f k cur b = Inr (fr, b') \<and> frag_ok a b' fr (lconc X (\<Union>i \<le> k. lpow i Y))"
  using assms(2)
proof (induction k arbitrary: cur b X)
  case (Suc k)
  obtain fr c where f: "f b = Inr (fr, c)" "frag_ok b c fr Y" using assms(1) by (rule buildsE)
  note d1 = frag_okD [OF Suc.prems] and d2 = frag_okD [OF f(2)] and t = tail_setup [OF Suc.prems f(2)]
  let ?en = "length c" and ?c = "c @ [empty_state]"
  let ?b' = "addEpsilon (fEnd fr) ?en (addEpsilon (fEnd cur) ?en (addEpsilon (fEnd cur) (fStart fr) ?c))"
  have R: "nfa_step ?b' = add_edge (fEnd fr) ?en (add_edge (fEnd cur) ?en (add_edge (fEnd cur) (fStart fr) (nfa_step c)))"
    using d1 d2 by (simp add: step_epsilon step_new_state)
  have "?en \<noteq> fEnd cur" "?en \<noteq> fEnd fr" using d1 d2 by linarith+
  then have "paths (nfa_step ?b') (fStart cur) ?en = X \<union> lconc X Y"
    unfolding R using paths_maybe [OF t(1,4,6,7,8)] t(2,3) by simp
  moreover have "grown a ?b'"
    by (intro grown_epsilon grown_state grown_trans [OF d1(1) d2(1)]) (use d1 d2 in \<open>simp_all add: in_new_def\<close>)
  ultimately have "frag_ok a ?b' (frag (fStart cur) ?en) (X \<union> lconc X Y)" using d1 d2 by (simp add: frag_ok_def in_new_def)
  from Suc.IH [OF this] f(1)
  have "\<exists>fr b'. opt_copies f (Suc k) cur b = Inr (fr, b') \<and> frag_ok a b' fr (lconc (X \<union> lconc X Y) (\<Union>i \<le> k. lpow i Y))"
    by simp
  moreover have "lconc (X \<union> lconc X Y) (\<Union>i \<le> k. lpow i Y) = lconc X (\<Union>i \<le> Suc k. lpow i Y)"
  proof -
    have "(\<Union>i \<le> Suc k. lpow i Y) = {[]} \<union> (\<Union>i \<le> k. lpow (Suc i) Y)" by (simp add: atMost_Suc_eq_insert_0)
    also have "(\<Union>i \<le> k. lpow (Suc i) Y) = lconc Y (\<Union>i \<le> k. lpow i Y)" by (auto simp: lconc_def)
    finally have "(\<Union>i \<le> Suc k. lpow i Y) = (\<Union>i \<le> k. lpow i Y) \<union> lconc Y (\<Union>i \<le> k. lpow i Y)" by auto
    then show ?thesis by (simp add: lconc_Un lconc_assoc)
  qed
  ultimately show ?case by simp
qed simp

lemma count_split:
  assumes "0 \<le> mn" and "mn \<le> mx"
  shows "lconc (lpow (nat mn) X) (\<Union>i \<le> nat (mx - mn). lpow i X) = count_lang X mn mx"
proof -
  have "{nat mn..nat mx} = (+) (nat mn) ` {..nat (mx - mn)}"
    using assms by (auto simp: image_iff) (metis atMost_iff diff_le_mono le_add_diff_inverse nat_diff_distrib)
  then show ?thesis using assms by (auto simp: count_lang_def lpow_add lconc_def)
qed

lemma builds_count:
  assumes "builds f X" and "0 \<le> mn" and "mx = -1 \<or> mn \<le> mx"
  shows "builds (build_count f mn mx) (count_lang X mn mx)"
  unfolding builds_def
proof
  fix b
  have "builds (min_copies f mn) (lpow (nat mn) X)"
  proof (cases "mn = 0")
    case True
    then show ?thesis using builds_epsilon by (simp add: builds_def min_copies_def)
  next
    case False
    have "list_all2 builds (replicate (nat mn) f) (replicate (nat mn) X)" using assms(1) by (simp add: list_all2_conv_all_nth)
    from builds_chain [OF this] False assms(2) show ?thesis by (simp add: builds_def min_copies_def lconcs_replicate)
  qed
  then obtain cur b1 where m: "min_copies f mn b = Inr (cur, b1)" "frag_ok b b1 cur (lpow (nat mn) X)" by (rule buildsE)
  show "\<exists>fr b'. build_count f mn mx b = Inr (fr, b') \<and> frag_ok b b' fr (count_lang X mn mx)"
  proof (cases "mx = -1")
    case True
    then show ?thesis using m star_tail_builds [OF assms(1) m(2)] by (auto simp: build_count_def count_lang_def)
  next
    case False
    then have le: "mn \<le> mx" using assms(3) by simp
    have "(if mx = 0 then mn else mx) = mx" using le assms(2) by simp
    moreover note count_split [OF assms(2) le]
    ultimately show ?thesis using m opt_copies_builds [OF assms(1) m(2), of "nat (mx - mn)"] le assms(2) by (simp add: build_count_def)
  qed
qed

subsection \<open>Lemmas: regex trees\<close>

lemma dot_ranges: "ranges_set [range_of 0 9, range_of 11 0x10FFFF] = {0..0x10FFFF} - {10}"
  by auto

lemma builds_map: "(\<And>c. c \<in> set cs \<Longrightarrow> builds (f c) (L c)) \<Longrightarrow> list_all2 builds (map f cs) (map L cs)"
  by (simp add: list_all2_map1 list_all2_map2 list_all2_same)

lemma builds_eta: "builds (\<lambda>b. f b) X \<longleftrightarrow> builds f X"
  by simp

lemma merged_ok:
  assumes "\<forall>r \<in> set ranges. range_ok r"
  shows "\<forall>r \<in> set (mergeRanges ranges). range_ok r"
proof
  fix r
  assume r: "r \<in> set (mergeRanges ranges)"
  have "ranges_set (mergeRanges ranges) = ranges_set ranges" using merge_exact(2) assms by (simp add: range_ok_def)
  moreover have "ranges_set ranges \<subseteq> {0..maxSupportedRune}" using assms unfolding ranges_set_def range_ok_def by fastforce
  moreover have le: "rLo r \<le> rHi r" using r merge_exact(1) [of ranges] assms by (auto simp: runes_separated_def range_ok_def)
  moreover have "rLo r \<in> ranges_set (mergeRanges ranges)" "rHi r \<in> ranges_set (mergeRanges ranges)" using r le by (force simp: ranges_set_def)+
  ultimately show "range_ok r" by (auto simp: range_ok_def)
qed

lemma builds_node: "node_ok n \<Longrightarrow> builds (buildFromRegexNode n) (node_lang n)"
proof (induction n)
  case (Literal v)
  then show ?case using builds_ranges [of "[range_of v v]"] by (simp add: builds_def runes_lang_def range_ok_def maxSupportedRune_def)
next
  case (CharClass rs neg)
  then have "ranges_set (if neg then complementRanges rs else mergeRanges rs) = (if neg then {0..0x10FFFF} - ranges_set rs else ranges_set rs)"
    using complement_exact(1) [of rs] merge_exact(2) [of rs] by (auto simp: maxSupportedRune_def range_ok_def)
  moreover have "\<forall>r \<in> set (if neg then complementRanges rs else mergeRanges rs). range_ok r"
    using CharClass complement_exact(3) [of rs] merged_ok [of rs] by simp
  ultimately show ?case using builds_ranges [of "if neg then complementRanges rs else mergeRanges rs"] by (simp add: builds_def)
next
  case Dot
  then show ?case using builds_ranges [of "[range_of 0 9, range_of 11 0x10FFFF]"] unfolding dot_ranges by (simp add: builds_def range_ok_def maxSupportedRune_def)
next
  case (RSeq cs)
  then have "list_all2 builds (map buildFromRegexNode cs) (map node_lang cs)" by (intro builds_map) simp
  from builds_chain [OF this] show ?case by (simp add: builds_def)
next
  case (RAlt cs)
  then have "list_all2 builds (map buildFromRegexNode cs) (map node_lang cs)" by (intro builds_map) simp
  from builds_alt [OF this] RAlt.prems show ?case by (simp add: builds_def)
next
  case (RStar cs)
  then show ?case using builds_star builds_epsilon by (cases cs) (simp_all add: builds_def)
next
  case (RPlus cs)
  then show ?case using builds_plus builds_epsilon by (cases cs) (simp_all add: builds_def)
next
  case (RQuestion cs)
  then show ?case using builds_optional builds_epsilon by (cases cs) (simp_all add: builds_def)
next
  case (RCount cs mn mx)
  then show ?case using builds_count builds_epsilon by (cases cs) (simp_all add: builds_def)
qed (use builds_epsilon in \<open>simp_all add: builds_def\<close>)

subsection \<open>Lemmas: strings\<close>

text \<open>A new state reached by one letter from an old one, in a region that nothing leaves.\<close>

lemma leaf_paths:
  assumes "sealed n b" and "n \<le> src" "src < length b"
    and b': "b' = addCharRange src r r (length b) (b @ [empty_state])"
  shows "n \<le> p \<Longrightarrow> p < length b \<Longrightarrow> q \<noteq> length b \<Longrightarrow> paths (nfa_step b') p q = paths (nfa_step b) p q"
    "n \<le> p \<Longrightarrow> p < length b \<Longrightarrow> paths (nfa_step b') p (length b) = lconc (paths (nfa_step b) p src) {[r]}"
    "isolated (nfa_step b') (length b)" "sealed n b'" "length b' = Suc (length b)"
proof -
  have step: "nfa_step b' p x q \<longleftrightarrow> nfa_step b p x q \<or> p = src \<and> q = length b \<and> (\<exists>a \<in> {r}. x = Some a)" for p x q
    unfolding b' using assms(3) by (auto simp: step_char step_new_state)
  show len: "length b' = Suc (length b)" by (simp add: b')
  show "isolated (nfa_step b') (length b)" using step assms(3) step_in [of b "length b"] by (auto simp: isolated_def)
  have in_b: "n \<le> q \<and> q < length b" if "n \<le> p" "nfa_step b p x q" for p x q using assms(1) that by (simp add: sealed_def)
  show s': "sealed n b'" unfolding sealed_def
  proof (intro allI impI)
    show "n \<le> q \<and> q < length b'" if "n \<le> p" "nfa_step b' p x q" for p x q
      using that in_b [OF that(1)] step len assms(2,3) less_SucI by (metis less_imp_le_nat lessI order_trans)
  qed
  define R where "R = (\<lambda>p x q. nfa_step b p x q \<and> n \<le> p)"
  define R' where "R' = (\<lambda>p x q. nfa_step b' p x q \<and> n \<le> p)"
  have "closed_in R {n..<length b}" using sealed_closed [OF assms(1)] unfolding closed_in_def R_def by blast
  then have pR: "paths (nfa_step b) p q = paths R p q" if "n \<le> p" "p < length b" for p q
    by (rule paths_region) (use that in \<open>auto simp: R_def\<close>)
  have "closed_in R' {n..<length b'}" using sealed_closed [OF s'] unfolding closed_in_def R'_def by blast
  then have pR': "paths (nfa_step b') p q = paths R' p q" if "n \<le> p" "p < length b" for p q
    by (rule paths_region) (use that len in \<open>auto simp: R'_def\<close>)
  have R': "R' p x q \<longleftrightarrow> R p x q \<or> p = src \<and> q = length b \<and> (\<exists>y \<in> {r}. x = Some y)" for p x q
    using step assms(2) by (auto simp: R_def R'_def)
  have iso: "isolated R (length b)" using isolated_beyond [of b "length b"] by (simp add: isolated_def R_def)
  have no: "\<not> R p x (length b)" for p x using in_b by (auto simp: R_def)
  note leaf = paths_leaf [where R' = R' and R = R and A = "{r}", OF R' iso no]
  show "n \<le> p \<Longrightarrow> p < length b \<Longrightarrow> q \<noteq> length b \<Longrightarrow> paths (nfa_step b') p q = paths (nfa_step b) p q" for p q
    using leaf(1) pR pR' assms(3) by simp
  show "n \<le> p \<Longrightarrow> p < length b \<Longrightarrow> paths (nfa_step b') p (length b) = lconc (paths (nfa_step b) p src) {[r]}" for p
    using leaf(2) pR pR' assms(3) by simp
qed

lemma leaf_frag:
  assumes "frag_ok a b (frag st cur) X" and "0 \<le> r" "r \<le> 0x10FFFF"
  shows "frag_ok a (addCharRange cur r r (length b) (b @ [empty_state])) (frag st (length b)) (lconc X {[r]})"
proof -
  note d = frag_okD [OF assms(1), simplified]
  note l = leaf_paths [where r = r, OF grownD(5) [OF d(1)] d(5,6) refl]
  have "grown a (addCharRange cur r r (length b) (b @ [empty_state]))"
    by (intro grown_char grown_state d(1)) (use d assms(2,3) in \<open>simp_all add: in_new_def\<close>)
  then show ?thesis using l(2) [OF d(3,4)] d by (simp add: frag_ok_def in_new_def)
qed

lemma decode_rune_range: "0 \<le> fst (decode_rune bs)" "fst (decode_rune bs) \<le> 0x10FFFF"
proof -
  have "0 \<le> fst (decode_rune bs) \<and> fst (decode_rune bs) \<le> 0x10FFFF"
  proof (cases bs)
    case (Cons b rest)
    have "decode2 x rest = (r, k) \<Longrightarrow> 0xC2 \<le> x \<Longrightarrow> x < 0xE0 \<Longrightarrow> 0 \<le> r \<and> r \<le> 0x10FFFF" for x r k
      by (auto simp: decode2_def is_cont_def RuneError_def split: list.splits if_splits)
    moreover have "decode3 x rest = (r, k) \<Longrightarrow> 0xE0 \<le> x \<Longrightarrow> x < 0xF0 \<Longrightarrow> 0 \<le> r \<and> r \<le> 0x10FFFF" for x r k
      by (auto simp: decode3_def is_cont_def RuneError_def split: list.splits if_splits)
    moreover have "decode4 x rest = (r, k) \<Longrightarrow> 0xF0 \<le> x \<Longrightarrow> x \<le> 0xF4 \<Longrightarrow> 0 \<le> r \<and> r \<le> 0x10FFFF" for x r k
      by (auto simp: decode4_def is_cont_def RuneError_def split: list.splits if_splits)
    ultimately show ?thesis
      using Cons by (cases "decode2 (uint b) rest"; cases "decode3 (uint b) rest"; cases "decode4 (uint b) rest")
        (simp add: decode_rune_def Let_def RuneError_def)
  qed (simp add: decode_rune_def RuneError_def)
  then show "0 \<le> fst (decode_rune bs)" "fst (decode_rune bs) \<le> 0x10FFFF" by simp_all
qed

lemma decode_runes_range: "r \<in> set (decode_runes bs) \<Longrightarrow> 0 \<le> r \<and> r \<le> 0x10FFFF"
proof (induction bs rule: decode_runes.induct)
  case (1 bs)
  obtain x w where d: "decode_rune bs = (x, w)" by (cases "decode_rune bs")
  then have "bs \<noteq> []" "r = x \<or> r \<in> set (decode_runes (drop w bs))"
    using "1.prems" by (subst (asm) decode_runes.simps, simp split: if_splits)+
  then show ?case using "1.IH" d decode_rune_range [of bs] by auto
qed

lemma string_chain_builds:
  assumes "frag_ok a b (frag st cur) X" and "\<forall>r \<in> set rs. 0 \<le> r \<and> r \<le> 0x10FFFF"
  shows "\<exists>cur' b'. string_chain rs cur b = (cur', b') \<and> frag_ok a b' (frag st cur') (lconc X {rs})"
  using assms
proof (induction rs arbitrary: cur b X)
  case (Cons r rs)
  have e: "lconc (lconc X {[r]}) {rs} = lconc X {r # rs}" by (auto simp: lconc_def)
  show ?case using Cons.IH [OF leaf_frag [OF Cons.prems(1), of r]] Cons.prems(2) unfolding e by simp
qed auto

lemma builds_string: "s \<noteq> [0] \<Longrightarrow> builds (buildString s) {decode_runes s}"
proof (cases "s = []")
  case True
  then show ?thesis using builds_epsilon by (simp add: builds_def buildString_def decode_runes.simps)
next
  case False
  assume s: "s \<noteq> [0]"
  show ?thesis unfolding builds_def
  proof
    fix b :: builder
    have iso: "isolated (nfa_step (b @ [empty_state])) (length b)" by (simp add: step_new_state isolated_beyond)
    then have "frag_ok b (b @ [empty_state]) (frag (length b) (length b)) {[]}"
      by (simp add: frag_ok_def grown_state paths_isolated)
    from string_chain_builds [OF this, of "decode_runes s"]
    show "\<exists>fr b'. buildString s b = Inr (fr, b') \<and> frag_ok b b' fr {decode_runes s}"
      using False s decode_runes_range by (auto simp: buildString_def)
  qed
qed

subsection \<open>Lemmas: tries\<close>

fun follow :: "edges \<Rightarrow> nat \<Rightarrow> rune list \<Rightarrow> nat option" where
  "follow es v [] = Some v"
| "follow es v (r # rs) = (case map_of (es v) r of None \<Rightarrow> None | Some x \<Rightarrow> follow es x rs)"

lemma follow_append: "follow es v (rs @ ts) = (case follow es v rs of None \<Rightarrow> None | Some x \<Rightarrow> follow es x ts)"
  by (induction rs arbitrary: v) (auto split: option.splits)

lemma follow_snoc: "follow es v (rs @ [r]) = (case follow es v rs of None \<Rightarrow> None | Some x \<Rightarrow> map_of (es x) r)"
  by (auto simp: follow_append split: option.splits)

text \<open>Every node of the trie is reached from the root by one word only.\<close>

definition trie_ok :: "builder \<Rightarrow> edges \<Rightarrow> nat \<Rightarrow> bool" where
  "trie_ok b es root \<longleftrightarrow> root < length b \<and> sealed root b \<and>
     (\<forall>w v. follow es root w = Some v \<longrightarrow> root \<le> v \<and> v < length b \<and> paths (nfa_step b) root v = {w}) \<and>
     (\<forall>v. length b \<le> v \<longrightarrow> es v = [])"

lemma trie_okD:
  assumes "trie_ok b es root"
  shows "root < length b" "sealed root b"
    "follow es root w = Some v \<Longrightarrow> v < length b" "follow es root w = Some v \<Longrightarrow> paths (nfa_step b) root v = {w}"
    "length b \<le> v \<Longrightarrow> es v = []" "follow es root w = Some v \<Longrightarrow> root \<le> v"
  using assms unfolding trie_ok_def by blast+

lemma follow_new:
  assumes "trie_ok b es root" and "follow es root u = Some src" and "map_of (es src) r = None"
    and es': "es' src = (r, length b) # es src" "\<And>v. v \<noteq> src \<Longrightarrow> es' v = es v"
  shows "follow es' root w = (if w = u @ [r] then Some (length b) else follow es root w)"
proof (induction w rule: rev_induct)
  case Nil
  then show ?case by simp
next
  case (snoc a w)
  note t = trie_okD [OF assms(1)]
  have none: "follow es root (u @ [r]) = None" using assms(2,3) by (simp add: follow_snoc)
  show ?case
  proof (cases "w = u @ [r]")
    case True
    have "es' (length b) = []" using t(3) [OF assms(2)] t(5) [of "length b"] es'(2) by auto
    moreover have "follow es' root w = Some (length b)" "follow es root w = None" "w @ [a] \<noteq> u @ [r]"
      using snoc True none by simp_all
    ultimately show ?thesis by (simp add: follow_snoc)
  next
    case False
    then have f: "follow es' root w = follow es root w" using snoc by simp
    show ?thesis
    proof (cases "follow es root w = Some src")
      case True
      then have "w = u" using t(4) [OF True] t(4) [OF assms(2)] by simp
      then show ?thesis using f True es'(1) by (auto simp: follow_snoc)
    next
      case False
      then have "w \<noteq> u" using assms(2) by blast
      then show ?thesis using f False es'(2) by (auto simp: follow_snoc split: option.splits)
    qed
  qed
qed

text \<open>What one step of a word does to the trie and to the rest of the automaton.\<close>

definition trie_grows :: "builder \<Rightarrow> edges \<Rightarrow> nat \<Rightarrow> builder \<Rightarrow> edges \<Rightarrow> bool" where
  "trie_grows b es root b' es' \<longleftrightarrow> length b \<le> length b' \<and>
     (\<forall>w v. follow es root w = Some v \<longrightarrow> follow es' root w = Some v) \<and>
     (\<forall>w v. follow es' root w = Some v \<longrightarrow> follow es root w = Some v \<or> length b \<le> v) \<and>
     (\<forall>p q. root \<le> p \<longrightarrow> p < length b \<longrightarrow> q < length b \<longrightarrow> paths (nfa_step b') p q = paths (nfa_step b) p q) \<and>
     (\<forall>i < length b. isolated (nfa_step b) i \<longrightarrow> (\<forall>w. follow es root w \<noteq> Some i) \<longrightarrow> isolated (nfa_step b') i) \<and>
     (\<forall>i < length b. nAccept (b' ! i) = nAccept (b ! i) \<and> nPriority (b' ! i) = nPriority (b ! i) \<and> nTieOrder (b' ! i) = nTieOrder (b ! i)) \<and>
     (\<forall>i. length b \<le> i \<longrightarrow> i < length b' \<longrightarrow> nAccept (b' ! i) = 0)"

lemma trie_grows_refl: "trie_grows b es root b es"
  by (simp add: trie_grows_def)

lemma trie_growsD:
  assumes "trie_grows b es root b' es'"
  shows "length b \<le> length b'" "follow es root w = Some v \<Longrightarrow> follow es' root w = Some v"
    "follow es' root w = Some v \<Longrightarrow> follow es root w = Some v \<or> length b \<le> v"
    "root \<le> p \<Longrightarrow> p < length b \<Longrightarrow> q < length b \<Longrightarrow> paths (nfa_step b') p q = paths (nfa_step b) p q"
    "i < length b \<Longrightarrow> isolated (nfa_step b) i \<Longrightarrow> \<forall>w. follow es root w \<noteq> Some i \<Longrightarrow> isolated (nfa_step b') i"
    "i < length b \<Longrightarrow> nAccept (b' ! i) = nAccept (b ! i)" "i < length b \<Longrightarrow> nPriority (b' ! i) = nPriority (b ! i)"
    "i < length b \<Longrightarrow> nTieOrder (b' ! i) = nTieOrder (b ! i)" "length b \<le> i \<Longrightarrow> i < length b' \<Longrightarrow> nAccept (b' ! i) = 0"
  using assms unfolding trie_grows_def by blast+

lemma trie_grows_trans:
  assumes "trie_grows a es root b es'" and "trie_grows b es' root c es''"
  shows "trie_grows a es root c es''"
proof -
  note ab = trie_growsD [OF assms(1)] and bc = trie_growsD [OF assms(2)]
  have "isolated (nfa_step c) i" if "i < length a" "isolated (nfa_step a) i" "\<forall>w. follow es root w \<noteq> Some i" for i
  proof -
    have "\<forall>w. follow es' root w \<noteq> Some i" using ab(3) that(1,3) by (meson leD)
    then show ?thesis using ab(1) ab(5) [OF that] bc(5) [of i] that(1) by simp
  qed
  moreover have "nAccept (c ! i) = 0" if "length a \<le> i" "i < length c" for i
  proof (cases "i < length b")
    case True
    then show ?thesis using bc(6) ab(9) that by simp
  qed (use bc(9) that in simp)
  moreover have "follow es root w = Some v \<or> length a \<le> v" if "follow es'' root w = Some v" for w v
    using bc(3) [OF that] ab(3) [of w v] ab(1) by linarith
  moreover have "paths (nfa_step c) p q = paths (nfa_step a) p q" if "root \<le> p" "p < length a" "q < length a" for p q
    using ab(1,4) bc(4) that by simp
  moreover have "follow es'' root w = Some v" if "follow es root w = Some v" for w v using ab(2) bc(2) that by blast
  moreover have "nAccept (c ! i) = nAccept (a ! i) \<and> nPriority (c ! i) = nPriority (a ! i) \<and> nTieOrder (c ! i) = nTieOrder (a ! i)"
    if "i < length a" for i using ab(1,6-8) bc(6-8) that by simp
  ultimately show ?thesis using ab(1) bc(1) unfolding trie_grows_def by (meson order_trans)
qed

lemma next_state_ok:
  assumes "trie_ok b es root" and "follow es root u = Some src" and "next_state src r (b, es) = (nx, b', es')"
  shows "trie_ok b' es' root" "follow es' root (u @ [r]) = Some nx" "trie_grows b es root b' es'"
proof -
  note t = trie_okD [OF assms(1)]
  have "trie_ok b' es' root \<and> follow es' root (u @ [r]) = Some nx \<and> trie_grows b es root b' es'"
  proof (cases "map_of (es src) r")
    case (Some x)
    then have "nx = x" "b' = b" "es' = es" using assms(3) by (simp_all add: next_state_def)
    then show ?thesis using assms(1,2) Some trie_grows_refl by (simp add: follow_snoc)
  next
    case None
    then have e: "nx = length b" "es' = es(src := (r, length b) # es src)"
      and b': "b' = addCharRange src r r (length b) (b @ [empty_state])" using assms(3) by (auto simp: next_state_def)
    have src: "src < length b" using t(3) [OF assms(2)] .
    have le: "root \<le> src" using t(6) [OF assms(2)] .
    note l = leaf_paths [OF t(2) le src b']
    have acc: "nAccept (b' ! length b) = 0" "i < length b \<Longrightarrow> nAccept (b' ! i) = nAccept (b ! i)" for i
      using src by (auto simp: b' addCharRange_def add_transition_def nth_list_update nth_append empty_state_def)
    have f: "follow es' root w = (if w = u @ [r] then Some (length b) else follow es root w)" for w
      by (rule follow_new [OF assms(1,2) None]) (simp_all add: e)
    have root: "paths (nfa_step b') root (length b) = {u @ [r]}" using l(2) [OF order_refl t(1)] t(4) [OF assms(2)] by (auto simp: lconc_def)
    have "root \<le> v \<and> v < length b' \<and> paths (nfa_step b') root v = {w}" if "follow es' root w = Some v" for w v
    proof (cases "w = u @ [r]")
      case True
      then have "v = length b" using that f by (simp add: e)
      then show ?thesis using root l(5) True t(1) by simp
    next
      case False
      then have "follow es root w = Some v" using that f by (simp add: e)
      then show ?thesis using t(3) [of w v] t(4) [of w v] t(6) [of w v] l(1) [OF order_refl t(1), of v] l(5) by simp
    qed
    moreover have "es' v = []" if "length b' \<le> v" for v using that t(5) [of v] src l(5) by (simp add: e)
    ultimately have ok: "trie_ok b' es' root" using t(1) l(4,5) unfolding trie_ok_def by auto
    have "isolated (nfa_step b') i" if "i < length b" "isolated (nfa_step b) i" "\<forall>w. follow es root w \<noteq> Some i" for i
    proof -
      have "i \<noteq> src" using that(3) assms(2) by blast
      then show ?thesis using that src by (auto simp: isolated_def b' step_char step_new_state)
    qed
    moreover have "nPriority (b' ! i) = nPriority (b ! i) \<and> nTieOrder (b' ! i) = nTieOrder (b ! i)" if "i < length b" for i
      using that src by (auto simp: b' addCharRange_def add_transition_def nth_list_update nth_append)
    moreover have "paths (nfa_step b') p q = paths (nfa_step b) p q" if "root \<le> p" "p < length b" "q < length b" for p q using l(1) that by simp
    moreover have "nAccept (b' ! i) = 0" if "length b \<le> i" "i < length b'" for i using that l(5) acc(1) by (simp add: le_less_Suc_eq)
    moreover have "follow es' root w = Some v" if "follow es root w = Some v" for w v
    proof -
      have "w \<noteq> u @ [r]" using that assms(2) None by (auto simp: follow_snoc)
      then show ?thesis using that f by (simp add: e)
    qed
    moreover have "follow es root w = Some v \<or> length b \<le> v" if "follow es' root w = Some v" for w v
      using that f by (auto simp: e split: if_splits)
    ultimately have "trie_grows b es root b' es'" using l(5) acc(2) unfolding trie_grows_def by simp
    then show ?thesis using ok f by (simp add: e)
  qed
  then show "trie_ok b' es' root" "follow es' root (u @ [r]) = Some nx" "trie_grows b es root b' es'" by blast+
qed

lemma add_word_ok:
  assumes "trie_ok b es root" and "follow es root u = Some v" and "add_word rs v (b, es) = (cur, b', es')"
  shows "trie_ok b' es' root \<and> follow es' root (u @ rs) = Some cur \<and> trie_grows b es root b' es'"
  using assms
proof (induction rs arbitrary: b es u v)
  case Nil
  then show ?case using trie_grows_refl by simp
next
  case (Cons r rs)
  obtain nx b1 es1 where n: "next_state v r (b, es) = (nx, b1, es1)" by (metis prod_cases3)
  note s = next_state_ok [OF Cons.prems(1,2) n]
  have "add_word rs nx (b1, es1) = (cur, b', es')" using Cons.prems(3) n by simp
  from Cons.IH [OF s(1,2) this] show ?case using trie_grows_trans [OF s(3)] by simp
qed

subsection \<open>Lemmas: choices of strings\<close>

definition choice_ok :: "builder \<Rightarrow> builder \<Rightarrow> edges \<Rightarrow> nat \<Rightarrow> rune lang \<Rightarrow> bool" where
  "choice_ok a b es en W \<longleftrightarrow> grown a b \<and> trie_ok b es (length a) \<and> length a < en \<and> en < length b \<and>
     isolated (nfa_step b) en \<and> (\<forall>w. follow es (length a) w \<noteq> Some en) \<and> paths (nfa_step b) (length a) en = W"

lemma next_state_grown:
  assumes "grown a b" and "in_new a b src" and "next_state src r (b, es) = (nx, b', es')" and "trie_ok b es (length a)" and "0 \<le> r" "r \<le> 0x10FFFF"
  shows "grown a b'"
  using assms grown_char [OF grown_state [OF assms(1)], of src "length b" r r]
  by (auto simp: next_state_def in_new_def grown_def split: option.splits)

lemma add_word_grown:
  assumes "grown a b" and "trie_ok b es (length a)" and "follow es (length a) u = Some v" and "add_word rs v (b, es) = (cur, b', es')"
    and "\<forall>r \<in> set rs. 0 \<le> r \<and> r \<le> 0x10FFFF"
  shows "grown a b'"
  using assms
proof (induction rs arbitrary: b es u v)
  case (Cons r rs)
  obtain nx b1 es1 where n: "next_state v r (b, es) = (nx, b1, es1)" by (metis prod_cases3)
  note s = next_state_ok [OF Cons.prems(2,3) n]
  have "in_new a b v" using trie_okD(3,6) [OF Cons.prems(2,3)] by (simp add: in_new_def)
  then have "grown a b1" using next_state_grown [OF Cons.prems(1) _ n Cons.prems(2)] Cons.prems(5) by simp
  moreover have "add_word rs nx (b1, es1) = (cur, b', es')" using Cons.prems(4) n by simp
  ultimately show ?case using Cons.IH s(1,2) Cons.prems(5) by simp
qed simp

lemma choice_word:
  assumes "choice_ok a b es en W" and "add_word rs (length a) (b, es) = (cur, b', es')"
    and "\<forall>r \<in> set rs. 0 \<le> r \<and> r \<le> 0x10FFFF"
  shows "choice_ok a (addEpsilon cur en b') es' en (insert rs W)"
proof -
  have c: "grown a b" "trie_ok b es (length a)" "length a < en" "en < length b" "isolated (nfa_step b) en"
    "\<forall>w. follow es (length a) w \<noteq> Some en" "paths (nfa_step b) (length a) en = W"
    using assms(1) by (simp_all add: choice_ok_def)
  have start: "follow es (length a) [] = Some (length a)" by simp
  have w: "trie_ok b' es' (length a)" "follow es' (length a) rs = Some cur" "trie_grows b es (length a) b' es'"
    using add_word_ok [OF c(2) start assms(2)] by simp_all
  note t = trie_okD [OF w(1)] and g = trie_growsD [OF w(3)]
  have g': "grown a b'" by (rule add_word_grown [OF c(1,2) start assms(2,3)])
  have no_en: "\<forall>w. follow es' (length a) w \<noteq> Some en" using g(3) c(4,6) by (metis not_le)
  then have cur: "cur \<noteq> en" "cur < length b'" "length a \<le> cur" using w(2) t(3,6) by auto
  have iso: "isolated (nfa_step b') en" using g(5) c(4,5,6) by blast
  have R: "nfa_step (addEpsilon cur en b') = add_edge cur en (nfa_step b')" using cur(2) by (rule step_epsilon)
  have keep: "paths (nfa_step (addEpsilon cur en b')) (length a) v = paths (nfa_step b') (length a) v" if "v \<noteq> en" for v
    unfolding R using paths_isolated [OF iso] that by (simp add: paths_add)
  have "paths (nfa_step b') (length a) en = W" using g(4) [of "length a" en] c(3,4,7) by simp
  then have lang: "paths (nfa_step (addEpsilon cur en b')) (length a) en = insert rs W"
    unfolding R using paths_isolated [OF iso] t(4) [OF w(2)] cur(1) by (simp add: paths_add)
  have grown: "grown a (addEpsilon cur en b')"
    by (rule grown_epsilon [OF g']) (use cur c(3,4) g(1) in \<open>simp_all add: in_new_def\<close>)
  have "paths (nfa_step (addEpsilon cur en b')) (length a) v = {w}" if "follow es' (length a) w = Some v" for w v
    using t(4) [OF that] no_en that keep [of v] by auto
  then have "trie_ok (addEpsilon cur en b') es' (length a)"
    using t(1,3,5,6) grownD(5) [OF grown] unfolding trie_ok_def by auto
  moreover have "isolated (nfa_step (addEpsilon cur en b')) en" unfolding R using iso cur(1) by (auto simp: isolated_def add_edge_def)
  ultimately show ?thesis using grown lang no_en c(3,4) g(1) by (simp add: choice_ok_def)
qed

lemma choice_start: "choice_ok b ((b @ [empty_state]) @ [empty_state]) (\<lambda>_. []) (Suc (length b)) {}"
proof -
  let ?b2 = "(b @ [empty_state]) @ [empty_state]"
  have a: "grown b ?b2" "isolated (nfa_step ?b2) (Suc (length b))" "paths (nfa_step ?b2) (length b) (length b) = {[]}"
    "paths (nfa_step ?b2) (length b) (Suc (length b)) = {}" using alt_start [of b] by (simp_all add: alt_ok_def)
  have f: "follow (\<lambda>_. []) (length b) w = Some v \<longleftrightarrow> w = [] \<and> v = length b" for w v by (cases w) auto
  have "trie_ok ?b2 (\<lambda>_. []) (length b)" using a grownD(5) [OF a(1)] by (auto simp: trie_ok_def f)
  then show ?thesis using a by (simp add: choice_ok_def f)
qed

lemma choice_fold:
  assumes "choice_ok a b es en W"
  shows "\<exists>b' es'. fold (\<lambda>c t. case add_word (decode_runes (rule_value c)) (length a) t of (cur, b', es) \<Rightarrow> (addEpsilon cur en b', es)) cs (b, es) =
      (b', es') \<and> choice_ok a b' es' en (W \<union> (\<lambda>c. decode_runes (rule_value c)) ` set cs)"
  using assms
proof (induction cs arbitrary: b es W)
  case (Cons c cs)
  obtain cur b1 es1 where w: "add_word (decode_runes (rule_value c)) (length a) (b, es) = (cur, b1, es1)" by (metis prod_cases3)
  from Cons.IH [OF choice_word [OF Cons.prems w]] show ?case using w decode_runes_range by simp
qed simp

lemma builds_string_choice:
  assumes "\<forall>c \<in> set cs. is_string c"
  shows "\<exists>fr b'. buildStringChoice cs b = Some (fr, b') \<and> frag_ok b b' fr ((\<lambda>c. decode_runes (rule_value c)) ` set cs)"
proof -
  obtain b' es' where f: "fold (\<lambda>c t. case add_word (decode_runes (rule_value c)) (length b) t of (cur, b', es) \<Rightarrow>
        (addEpsilon cur (Suc (length b)) b', es)) cs ((b @ [empty_state]) @ [empty_state], \<lambda>_. []) = (b', es')"
    and c: "choice_ok b b' es' (Suc (length b)) ((\<lambda>c. decode_runes (rule_value c)) ` set cs)"
    using choice_fold [OF choice_start, of b cs] by auto
  have "frag_ok b b' (frag (length b) (Suc (length b))) ((\<lambda>c. decode_runes (rule_value c)) ` set cs)"
    using c by (auto simp: choice_ok_def frag_ok_def in_new_def)
  then show ?thesis using f assms by (simp add: buildStringChoice_def)
qed

subsection \<open>Lemmas: rules\<close>

lemma decode_encode_append:
  assumes "\<forall>r \<in> set rs. valid_rune r"
  shows "decode_runes (concat (map encode_rune rs) @ t) = rs @ decode_runes t"
  using assms
proof (induction rs)
  case (Cons r rs)
  have "encode_rune r \<noteq> []" by (simp add: encode_rune_def encode_valid_def)
  then show ?case
    using Cons decode_encode_rune [of r "concat (map encode_rune rs) @ t"]
    by (subst decode_runes.simps) simp
qed simp

lemma decode_utf8_append: "utf8_text s \<Longrightarrow> decode_runes (s @ t) = decode_runes s @ decode_runes t"
  using decode_encode_append [of "decode_runes s" t] by (simp add: utf8_text_def)

lemma decode_utf8_inj: "utf8_text s \<Longrightarrow> utf8_text t \<Longrightarrow> decode_runes s = decode_runes t \<Longrightarrow> s = t"
  by (metis utf8_text_def)

fun group_lang :: "unicode_pkg \<Rightarrow> bytes + rule \<Rightarrow> rune lang" where
  "group_lang u (Inl s) = (if s = [0] then {[]} else {decode_runes s})"
| "group_lang u (Inr r) = rule_lang u r"

lemma is_string_cases:
  assumes "is_string r"
  obtains v cs prec named where "r = Rule RuleString v cs prec named"
  using assms by (cases r rule: is_string.cases) auto

lemma string_rule:
  assumes "is_string r" and "rule_ok u r"
  shows "utf8_text (rule_value r)" "\<not> sentinel r \<Longrightarrow> rule_lang u r = {decode_runes (rule_value r)}"
    "sentinel r \<longleftrightarrow> rule_value r = [0]" "rule_lang u r = group_lang u (Inl (rule_value r))"
  using assms by (auto elim!: is_string_cases simp: sentinel_def)


lemma sentinels_alone_tl: "sentinels_alone (c # cs) \<Longrightarrow> sentinels_alone cs"
  by (cases cs) auto

lemma join_strings_head:
  assumes "sentinels_alone cs" and "join_strings cs = Inl s # gs" and "\<not> sentinel (hd cs)"
  shows "s \<noteq> [0]"
  using assms
proof (induction cs arbitrary: s gs)
  case (Cons c cs)
  have c: "is_string c" "rule_value c \<noteq> [0]" using Cons.prems(2,3) by (auto simp: sentinel_def split: if_splits)
  show ?case
  proof (cases "\<exists>t gs. join_strings cs = Inl t # gs")
    case True
    then obtain t ts where t: "join_strings cs = Inl t # ts" by blast
    then obtain d ds where d: "cs = d # ds" "is_string d" by (cases cs) (auto split: if_splits)
    then have "\<not> sentinel (hd cs)" using Cons.prems(1) c(1) by simp
    then have "t \<noteq> [0]" using Cons.IH [OF sentinels_alone_tl [OF Cons.prems(1)] t] by simp
    then show ?thesis using Cons.prems(2) c t by (auto simp: append_eq_Cons_conv)
  next
    case False
    then show ?thesis using Cons.prems(2) c by (auto split: list.splits sum.splits)
  qed
qed simp

lemma join_strings_lang:
  assumes "\<forall>c \<in> set cs. rule_ok u c" and "sentinels_alone cs"
  shows "lconcs (map (group_lang u) (join_strings cs)) = lconcs (map (rule_lang u) cs)"
  using assms
proof (induction cs)
  case (Cons c cs)
  have IH: "lconcs (map (group_lang u) (join_strings cs)) = lconcs (map (rule_lang u) cs)"
    using Cons sentinels_alone_tl by simp
  show ?case
  proof (cases "is_string c")
    case False
    then show ?thesis using IH by simp
  next
    case True
    have c: "utf8_text (rule_value c)" "rule_lang u c = group_lang u (Inl (rule_value c))"
      using string_rule(1,4) [OF True, of u] Cons.prems(1) by auto
    show ?thesis
    proof (cases "\<exists>s gs. join_strings cs = Inl s # gs")
      case join: True
      then obtain s gs where g: "join_strings cs = Inl s # gs" by blast
      then obtain d ds where d: "cs = d # ds" "is_string d" by (cases cs) (auto split: if_splits)
      then have ns: "rule_value c \<noteq> [0]" "\<not> sentinel (hd cs)" using Cons.prems(2) True by (simp_all add: sentinel_def)
      then have s: "s \<noteq> [0]" using join_strings_head [OF sentinels_alone_tl [OF Cons.prems(2)] g] by simp
      then have "rule_value c @ s \<noteq> [0]" using ns(1) by (auto simp: append_eq_Cons_conv)
      moreover have "lconc {decode_runes (rule_value c @ s)} X = lconc {decode_runes (rule_value c)} (lconc {decode_runes s} X)" for X
        unfolding decode_utf8_append [OF c(1)] by (auto simp: lconc_def)
      ultimately show ?thesis using IH g c(2) True s ns(1) by simp
    next
      case False
      then have "join_strings (c # cs) = Inl (rule_value c) # join_strings cs"
        using True by (auto split: list.splits sum.splits)
      then show ?thesis using IH c(2) by (simp del: group_lang.simps)
    qed
  qed
qed simp

lemma builds_seq_rule:
  assumes ok: "\<forall>c \<in> set cs. rule_ok u c" "sentinels_alone cs" and IH: "\<forall>c \<in> set cs. builds (buildFromRule u c) (rule_lang u c)"
  shows "builds (buildFromRule u (Rule RuleSeq v cs prec named)) (lconcs (map (rule_lang u) cs))"
proof -
  let ?f = "\<lambda>g b. case g of Inl s \<Rightarrow> buildString s b | Inr r \<Rightarrow> buildFromRule u r b"
  have "builds (?f g) (group_lang u g)" if "g \<in> set (join_strings cs)" for g
  proof (cases g)
    case (Inl s)
    then show ?thesis using builds_string builds_epsilon by (simp add: builds_def buildString_def)
  next
    case (Inr r)
    then have "r \<in> set cs" using that join_strings_rules by blast
    then show ?thesis using IH Inr by (simp add: builds_def)
  qed
  then have "list_all2 builds (map ?f (join_strings cs)) (map (group_lang u) (join_strings cs))" by (rule builds_map)
  from builds_chain [OF this] have "builds (build_chain (map ?f (join_strings cs))) (lconcs (map (rule_lang u) cs))"
    unfolding join_strings_lang [OF ok] .
  then show ?thesis by (simp add: builds_def)
qed

lemma builds_choice_rule:
  assumes "cs \<noteq> []" and ok: "\<forall>c \<in> set cs. rule_ok u c" "(\<forall>c \<in> set cs. is_string c) \<longrightarrow> (\<forall>c \<in> set cs. \<not> sentinel c)"
    and IH: "\<forall>c \<in> set cs. builds (buildFromRule u c) (rule_lang u c)"
  shows "builds (buildFromRule u (Rule RuleChoice v cs prec named)) (\<Union>c \<in> set cs. rule_lang u c)"
proof (cases "\<forall>c \<in> set cs. is_string c")
  case True
  have lang: "(\<Union>c \<in> set cs. rule_lang u c) = (\<lambda>c. decode_runes (rule_value c)) ` set cs"
    using True ok string_rule(2) by (auto simp: image_iff)
  show ?thesis unfolding builds_def lang
  proof
    fix b
    show "\<exists>fr b'. buildFromRule u (Rule RuleChoice v cs prec named) b = Inr (fr, b') \<and> frag_ok b b' fr ((\<lambda>c. decode_runes (rule_value c)) ` set cs)"
      using builds_string_choice [OF True, of b] assms(1) by (auto simp: buildChoice_def)
  qed
next
  case False
  then have none: "buildStringChoice cs b = None" for b by (auto simp: buildStringChoice_def)
  have "list_all2 builds (map (buildFromRule u) cs) (map (rule_lang u) cs)" by (rule builds_map) (use IH in simp)
  from builds_alt [OF this] show ?thesis using assms(1) none by (simp add: builds_def buildChoice_def)
qed

lemma builds_rule: "rule_ok u r \<Longrightarrow> builds (buildFromRule u r) (rule_lang u r)"
proof (induction r)
  case NilRule
  then show ?case using builds_epsilon by (simp add: builds_def)
next
  case (Rule k v cs prec named)
  show ?case
  proof (cases k)
    case RuleString
    then show ?thesis using builds_string [of v] builds_epsilon by (simp add: builds_def buildString_def)
  next
    case RulePattern
    then show ?thesis
      using Rule.prems builds_node by (auto simp: builds_def buildPattern_def split: option.splits sum.splits)
  next
    case RuleSeq
    then show ?thesis using Rule builds_seq_rule [of cs u v prec named] by (simp del: buildFromRule.simps)
  next
    case RuleChoice
    then show ?thesis using Rule builds_choice_rule [of cs u v prec named] by (simp del: buildFromRule.simps)
  next
    case RuleRepeat
    then show ?thesis using Rule builds_star builds_epsilon by (cases cs) (simp_all add: builds_def)
  next
    case RuleRepeat1
    then show ?thesis using Rule builds_plus builds_epsilon by (cases cs) (simp_all add: builds_def)
  next
    case RuleOptional
    then show ?thesis using Rule builds_optional builds_epsilon by (cases cs) (simp_all add: builds_def)
  next
    case RuleBlank
    then show ?thesis using builds_epsilon by (simp add: builds_def)
  qed (use Rule.prems in simp_all)
qed

subsection \<open>Lemmas: the combined automaton\<close>

text \<open>What the automaton says of a word: the symbol, priority and order of the states it can be in.\<close>

definition accepts_at :: "builder \<Rightarrow> rune list \<Rightarrow> (int \<times> int \<times> int) set" where
  "accepts_at b w = {(nAccept (b ! v), nPriority (b ! v), nTieOrder (b ! v)) | v.
     v < length b \<and> w \<in> paths (nfa_step b) 0 v \<and> nAccept (b ! v) > 0}"

definition pattern_matches :: "unicode_pkg \<Rightarrow> TerminalPattern list \<Rightarrow> nat \<Rightarrow> rune list \<Rightarrow> (int \<times> int \<times> int) set" where
  "pattern_matches u pats n w = {(SymbolID (pats ! i), tpPriority (pats ! i), int i) | i. i < n \<and> w \<in> rule_lang u (tpRule (pats ! i))}"

definition patterns_ok :: "unicode_pkg \<Rightarrow> TerminalPattern list \<Rightarrow> bool" where
  "patterns_ok u pats \<longleftrightarrow> (\<forall>p \<in> set pats. 0 < SymbolID p \<and> rule_ok u (tpRule p))"

definition combined_ok :: "unicode_pkg \<Rightarrow> TerminalPattern list \<Rightarrow> nat \<Rightarrow> builder \<Rightarrow> edges \<Rightarrow> bool" where
  "combined_ok u pats n b es \<longleftrightarrow> trie_ok b es 0 \<and> (\<forall>w. accepts_at b w = pattern_matches u pats n w) \<and>
     (\<forall>s \<in> set b. range_state s) \<and>
     (\<forall>w v. follow es 0 w = Some v \<longrightarrow> nAccept (b ! v) \<noteq> 0 \<longrightarrow>
        (\<exists>i < n. in_trie pats (pats ! i) \<and> decode_runes (rule_value (tpRule (pats ! i))) = w))"

lemma pattern_matches_Suc:
  "pattern_matches u pats (Suc n) w = pattern_matches u pats n w \<union>
     (if w \<in> rule_lang u (tpRule (pats ! n)) then {(SymbolID (pats ! n), tpPriority (pats ! n), int n)} else {})"
  by (auto simp: pattern_matches_def less_Suc_eq)

lemma mark_fields:
  "i < length b \<Longrightarrow> nAccept (mark_accept q s p t b ! i) = (if i = q then s else nAccept (b ! i))"
  "i < length b \<Longrightarrow> nPriority (mark_accept q s p t b ! i) = (if i = q then p else nPriority (b ! i))"
  "i < length b \<Longrightarrow> nTieOrder (mark_accept q s p t b ! i) = (if i = q then t else nTieOrder (b ! i))"
  by (auto simp: mark_accept_def nth_list_update)

lemma accepts_mark:
  assumes "q < length b" and "nAccept (b ! q) = 0" and "0 < s"
  shows "accepts_at (mark_accept q s p t b) w = accepts_at b w \<union> (if w \<in> paths (nfa_step b) 0 q then {(s, p, t)} else {})"
proof (intro set_eqI iffI)
  fix x
  assume "x \<in> accepts_at (mark_accept q s p t b) w"
  then obtain v where v: "v < length b" "w \<in> paths (nfa_step b) 0 v" "nAccept (mark_accept q s p t b ! v) > 0"
    "x = (nAccept (mark_accept q s p t b ! v), nPriority (mark_accept q s p t b ! v), nTieOrder (mark_accept q s p t b ! v))"
    by (auto simp: accepts_at_def step_mark)
  show "x \<in> accepts_at b w \<union> (if w \<in> paths (nfa_step b) 0 q then {(s, p, t)} else {})"
    using v by (cases "v = q") (auto simp: accepts_at_def mark_fields)
next
  fix x
  assume x: "x \<in> accepts_at b w \<union> (if w \<in> paths (nfa_step b) 0 q then {(s, p, t)} else {})"
  then consider v where "v < length b" "w \<in> paths (nfa_step b) 0 v" "nAccept (b ! v) > 0" "x = (nAccept (b ! v), nPriority (b ! v), nTieOrder (b ! v))"
    | "w \<in> paths (nfa_step b) 0 q" "x = (s, p, t)"
    by (auto simp: accepts_at_def split: if_splits)
  then show "x \<in> accepts_at (mark_accept q s p t b) w"
  proof cases
    case 1
    then have "v \<noteq> q" using assms(2) by auto
    then show ?thesis using 1 unfolding accepts_at_def by (auto simp: step_mark mark_fields intro!: exI [of _ v])
  next
    case 2
    then show ?thesis using assms unfolding accepts_at_def by (auto simp: step_mark mark_fields intro!: exI [of _ q])
  qed
qed

text \<open>States added without an accept mark, and without changing the languages of the old ones, add nothing.\<close>

lemma accepts_grow:
  assumes "length b \<le> length b'" and "0 < length b" and "\<And>q. q < length b \<Longrightarrow> paths (nfa_step b') 0 q = paths (nfa_step b) 0 q"
    and "\<And>i. i < length b \<Longrightarrow> nAccept (b' ! i) = nAccept (b ! i) \<and> nPriority (b' ! i) = nPriority (b ! i) \<and> nTieOrder (b' ! i) = nTieOrder (b ! i)"
    and "\<And>i. length b \<le> i \<Longrightarrow> i < length b' \<Longrightarrow> nAccept (b' ! i) = 0"
  shows "accepts_at b' w = accepts_at b w"
proof (intro set_eqI iffI)
  fix x
  assume "x \<in> accepts_at b' w"
  then obtain v where v: "v < length b'" "w \<in> paths (nfa_step b') 0 v" "nAccept (b' ! v) > 0" "x = (nAccept (b' ! v), nPriority (b' ! v), nTieOrder (b' ! v))"
    by (auto simp: accepts_at_def)
  then have "v < length b" using assms(5) [of v] by linarith
  then show "x \<in> accepts_at b w" using v assms(3,4) by (auto simp: accepts_at_def intro!: exI [of _ v])
next
  fix x
  assume "x \<in> accepts_at b w"
  then obtain v where v: "v < length b" "w \<in> paths (nfa_step b) 0 v" "nAccept (b ! v) > 0" "x = (nAccept (b ! v), nPriority (b ! v), nTieOrder (b ! v))"
    by (auto simp: accepts_at_def)
  then show "x \<in> accepts_at b' w" using assms(1,3,4) by (auto simp: accepts_at_def intro!: exI [of _ v])
qed

lemma sealed_grown:
  assumes "sealed 0 b" and "grown b c"
  shows "sealed 0 c"
  unfolding sealed_def
proof (intro allI impI)
  fix p x q
  assume step: "nfa_step c p x q"
  show "0 \<le> q \<and> q < length c"
  proof (cases "p < length b")
    case True
    then have "q < length b" using grown_steps [OF assms(2) True] step assms(1) by (simp add: sealed_def)
    then show ?thesis using grownD(1) [OF assms(2)] by linarith
  next
    case False
    then show ?thesis using grownD(4) [OF assms(2) _ step] by simp
  qed
qed

lemma string_count_two:
  assumes "i < n" and "n < length pats" and "is_string (tpRule (pats ! i))" "is_string (tpRule (pats ! n))"
    and "rule_value (tpRule (pats ! i)) = v" "rule_value (tpRule (pats ! n)) = v"
  shows "string_count pats v \<noteq> 1"
proof -
  let ?P = "\<lambda>p. is_string (tpRule p) \<and> rule_value (tpRule p) = v"
  have "length (filter ?P pats) = card {k. k < length pats \<and> ?P (pats ! k)}" by (rule length_filter_conv_card)
  moreover have "{i, n} \<subseteq> {k. k < length pats \<and> ?P (pats ! k)}" using assms by auto
  then have "card {i, n} \<le> card {k. k < length pats \<and> ?P (pats ! k)}" by (intro card_mono) auto
  ultimately show ?thesis using assms(1) by (simp add: string_count_def)
qed

lemma range_states:
  assumes "\<forall>s \<in> set b. range_state s"
  shows "\<forall>s \<in> set (b @ [empty_state]). range_state s" "\<forall>s \<in> set (mark_accept q s p t b). range_state s"
    "nEpsilon tr \<or> 0 \<le> nLo tr \<and> nLo tr \<le> nHi tr \<and> nHi tr \<le> 0x10FFFF \<Longrightarrow> \<forall>s \<in> set (add_transition src tr b). range_state s"
proof -
  show "\<forall>s \<in> set (b @ [empty_state]). range_state s" using assms by (auto simp: range_state_def empty_state_def)
  have upd: "\<forall>s \<in> set (b[i := y]). range_state s" if "i < length b \<Longrightarrow> range_state y" for i y
  proof (cases "i < length b")
    case True
    then show ?thesis using assms that set_update_subset_insert [of b i y] by blast
  qed (use assms in \<open>simp add: list_update_beyond\<close>)
  have at: "range_state (b ! i)" if "i < length b" for i using assms that by simp
  show "\<forall>s \<in> set (mark_accept q s p t b). range_state s" unfolding mark_accept_def
    by (intro upd) (use at in \<open>simp add: range_state_def\<close>)
  show "\<forall>s \<in> set (add_transition src tr b). range_state s"
    if "nEpsilon tr \<or> 0 \<le> nLo tr \<and> nLo tr \<le> nHi tr \<and> nHi tr \<le> 0x10FFFF"
    unfolding add_transition_def by (intro upd) (use at that in \<open>auto simp: range_state_def\<close>)
qed

lemma add_word_ranges:
  assumes "\<forall>s \<in> set b. range_state s" and "add_word rs v (b, es) = (cur, b', es')" and "\<forall>r \<in> set rs. 0 \<le> r \<and> r \<le> 0x10FFFF"
  shows "\<forall>s \<in> set b'. range_state s"
  using assms
proof (induction rs arbitrary: b es v)
  case (Cons r rs)
  obtain nx b1 es1 where n: "next_state v r (b, es) = (nx, b1, es1)" by (metis prod_cases3)
  then have "\<forall>s \<in> set b1. range_state s"
    using Cons.prems(1,3) range_states(3) [OF range_states(1) [OF Cons.prems(1)], of "\<lparr>nLo = r, nHi = r, nEpsilon = False, nNext = length b\<rparr>" v]
    by (auto simp: next_state_def addCharRange_def split: option.splits)
  then show ?case using Cons n by simp
qed simp

lemma combine_string:
  assumes "combined_ok u pats n b es" and "n < length pats" and "patterns_ok u pats" and "in_trie pats (pats ! n)"
    and "add_word (decode_runes (rule_value (tpRule (pats ! n)))) 0 (b, es) = (cur, b', es')"
  shows "combined_ok u pats (Suc n) (mark_accept cur (SymbolID (pats ! n)) (tpPriority (pats ! n)) (int n) b') es'"
proof -
  let ?w = "decode_runes (rule_value (tpRule (pats ! n)))"
  have c: "trie_ok b es 0" "\<forall>w. accepts_at b w = pattern_matches u pats n w"
    "follow es 0 w = Some v \<Longrightarrow> nAccept (b ! v) \<noteq> 0 \<Longrightarrow> \<exists>i < n. in_trie pats (pats ! i) \<and> decode_runes (rule_value (tpRule (pats ! i))) = w" for w v
    using assms(1) by (auto simp: combined_ok_def)
  have fine: "\<forall>s \<in> set b. range_state s" using assms(1) by (simp add: combined_ok_def)
  have fine': "\<forall>s \<in> set b'. range_state s" using add_word_ranges [OF fine assms(5)] decode_runes_range by blast
  have w: "trie_ok b' es' 0" "follow es' 0 ?w = Some cur" "trie_grows b es 0 b' es'"
    using add_word_ok [OF c(1) _ assms(5), of "[]"] by simp_all
  note t = trie_okD [OF w(1)] and g = trie_growsD [OF w(3)]
  have ok: "0 < SymbolID (pats ! i) \<and> rule_ok u (tpRule (pats ! i))" if "i < length pats" for i
    using assms(3) that by (simp add: patterns_ok_def)
  have str: "is_string (tpRule (pats ! n))" "rule_value (tpRule (pats ! n)) \<noteq> [0]" "string_count pats (rule_value (tpRule (pats ! n))) = 1"
    using assms(4) by (simp_all add: in_trie_def)
  have lang: "rule_lang u (tpRule (pats ! n)) = {?w}" using string_rule [OF str(1), of u] ok assms(2) str(2) by simp
  have fresh: "\<not> (\<exists>i < n. in_trie pats (pats ! i) \<and> decode_runes (rule_value (tpRule (pats ! i))) = ?w)"
  proof
    assume "\<exists>i < n. in_trie pats (pats ! i) \<and> decode_runes (rule_value (tpRule (pats ! i))) = ?w"
    then obtain i where i: "i < n" "is_string (tpRule (pats ! i))" "decode_runes (rule_value (tpRule (pats ! i))) = ?w" by (auto simp: in_trie_def)
    have "rule_value (tpRule (pats ! i)) = rule_value (tpRule (pats ! n))"
      using decode_utf8_inj [OF _ _ i(3)] string_rule(1) [OF i(2), of u] string_rule(1) [OF str(1), of u] ok i(1) assms(2) by simp
    then show False using string_count_two [OF i(1) assms(2) i(2) str(1)] str(3) by blast
  qed
  have cur: "cur < length b'" using t(3) [OF w(2)] .
  have "nAccept (b' ! cur) = 0"
  proof (cases "cur < length b")
    case True
    then have "follow es 0 ?w = Some cur" using g(3) [OF w(2)] by linarith
    then show ?thesis using c(3) fresh g(6) [OF True] by metis
  qed (use g(9) cur in simp)
  note m = accepts_mark [OF cur this, of "SymbolID (pats ! n)" "tpPriority (pats ! n)" "int n"]
  have "accepts_at b' w = accepts_at b w" for w
    using trie_okD(1) [OF c(1)] g(1,4,6-9) by (intro accepts_grow) auto
  then have acc: "accepts_at (mark_accept cur (SymbolID (pats ! n)) (tpPriority (pats ! n)) (int n) b') w = pattern_matches u pats (Suc n) w" for w
    using m ok assms(2) c(2) t(4) [OF w(2)] by (simp add: pattern_matches_Suc lang)
  have "\<exists>i < Suc n. in_trie pats (pats ! i) \<and> decode_runes (rule_value (tpRule (pats ! i))) = w"
    if "follow es' 0 w = Some v" "nAccept (mark_accept cur (SymbolID (pats ! n)) (tpPriority (pats ! n)) (int n) b' ! v) \<noteq> 0" for w v
  proof (cases "v = cur")
    case True
    then have "w = ?w" using t(4) [OF that(1)] t(4) [OF w(2)] by simp
    then show ?thesis using assms(4) by blast
  next
    case False
    then have "nAccept (b' ! v) \<noteq> 0" using that(2) mark_fields(1) [OF t(3) [OF that(1)]] by simp
    then have "v < length b" using g(9) t(3) [OF that(1)] by (meson not_le)
    then have "follow es 0 w = Some v" "nAccept (b ! v) \<noteq> 0" using g(3) [OF that(1)] g(6) \<open>nAccept (b' ! v) \<noteq> 0\<close> by auto
    then show ?thesis using c(3) less_SucI by blast
  qed
  moreover have "trie_ok (mark_accept cur (SymbolID (pats ! n)) (tpPriority (pats ! n)) (int n) b') es' 0"
    using w(1) by (simp add: trie_ok_def step_mark sealed_def)
  ultimately show ?thesis using acc range_states(2) [OF fine'] by (simp add: combined_ok_def)
qed

lemma combine_rule:
  assumes "combined_ok u pats n b es" and "n < length pats" and "patterns_ok u pats"
    and "buildFromRule u (tpRule (pats ! n)) b = Inr (fr, c)" and "frag_ok b c fr (rule_lang u (tpRule (pats ! n)))"
  shows "combined_ok u pats (Suc n)
    (mark_accept (fEnd fr) (SymbolID (pats ! n)) (tpPriority (pats ! n)) (int n) (addEpsilon 0 (fStart fr) c)) es"
proof -
  let ?c = "addEpsilon 0 (fStart fr) c" and ?X = "rule_lang u (tpRule (pats ! n))"
  let ?m = "mark_accept (fEnd fr) (SymbolID (pats ! n)) (tpPriority (pats ! n)) (int n) ?c"
  have o: "trie_ok b es 0" "\<forall>w. accepts_at b w = pattern_matches u pats n w"
    "follow es 0 w = Some v \<Longrightarrow> nAccept (b ! v) \<noteq> 0 \<Longrightarrow> \<exists>i < n. in_trie pats (pats ! i) \<and> decode_runes (rule_value (tpRule (pats ! i))) = w" for w v
    using assms(1) by (auto simp: combined_ok_def)
  have fine: "\<forall>s \<in> set b. range_state s" using assms(1) by (simp add: combined_ok_def)
  note t = trie_okD [OF o(1)] and d = frag_okD [OF assms(5)]
  note g = grownD [OF d(1)]
  have "range_state (c ! i)" if "i < length c" for i
    using fine g(2) [of i] g(3) [of i] that by (cases "i < length b") (auto simp: new_ok_def)
  then have "\<forall>s \<in> set c. range_state s" by (auto simp: in_set_conv_nth)
  then have fine': "\<forall>s \<in> set ?m. range_state s" unfolding addEpsilon_def by (intro range_states) simp_all
  have R: "nfa_step ?c = add_edge 0 (fStart fr) (nfa_step c)" by (rule step_epsilon) (use t(1) d(2) in linarith)
  have old: "paths (nfa_step c) 0 q = paths (nfa_step b) 0 q" for q by (rule grown_paths [OF t(2) d(1)]) (use t(1) in simp_all)
  have root: "paths (nfa_step b) 0 0 = {[]}" using t(4) [of "[]" 0] by simp
  have out: "paths (nfa_step c) (fStart fr) q = {}" if "q < length b" for q
    by (rule sealed_paths [OF g(5)]) (use that d in linarith)+
  have keep: "paths (nfa_step ?c) 0 q = paths (nfa_step b) 0 q" if "q < length b" for q
    unfolding R using old root out [OF that] out [OF t(1)] by (simp add: paths_add)
  have "paths (nfa_step b) 0 (fEnd fr) = {}" by (rule sealed_paths [OF t(2)]) (use t(1) d in linarith)+
  then have lang: "paths (nfa_step ?c) 0 (fEnd fr) = ?X"
    unfolding R using old root out [OF t(1)] d(7) by (simp add: paths_add)
  have fields: "nAccept (?c ! i) = nAccept (c ! i) \<and> nPriority (?c ! i) = nPriority (c ! i) \<and> nTieOrder (?c ! i) = nTieOrder (c ! i)" if "i < length c" for i
    using that by (cases "i = 0") (auto simp: addEpsilon_def add_transition_def)
  have "accepts_at ?c w = accepts_at b w" for w
    using t(1) g(1-3) keep fields by (intro accepts_grow) (auto simp: new_ok_def)
  moreover have "nAccept (?c ! fEnd fr) = 0" using fields d g(3) by (simp add: new_ok_def)
  moreover have "0 < SymbolID (pats ! n)" using assms(2,3) by (simp add: patterns_ok_def)
  ultimately have acc: "accepts_at ?m w = pattern_matches u pats (Suc n) w" for w
    using accepts_mark [of "fEnd fr" ?c] d(6) lang o(2) by (simp add: pattern_matches_Suc)
  have sealed: "sealed 0 ?m"
    using sealed_grown [OF t(2) d(1)] d unfolding sealed_def by (auto simp: step_mark R add_edge_def)
  have "v < length c \<and> paths (nfa_step ?m) 0 v = {w}" if "follow es 0 w = Some v" for w v
    using t(3) [OF that] t(4) [OF that] keep [of v] d(2) by (simp add: step_mark)
  moreover have "es v = []" if "length c \<le> v" for v using t(5) d(2) that by simp
  ultimately have "trie_ok ?m es 0" using t(1) sealed d(2) unfolding trie_ok_def by auto
  moreover have "\<exists>i < Suc n. in_trie pats (pats ! i) \<and> decode_runes (rule_value (tpRule (pats ! i))) = w"
    if "follow es 0 w = Some v" "nAccept (?m ! v) \<noteq> 0" for w v
  proof -
    have v: "v < length b" using t(3) [OF that(1)] .
    then have "nAccept (?m ! v) = nAccept (b ! v)" using mark_fields(1) [of v ?c] fields [of v] d g(2) by simp
    then show ?thesis using o(3) that less_SucI by metis
  qed
  ultimately show ?thesis using acc fine' by (simp add: combined_ok_def)
qed

lemma combine_ok:
  assumes "patterns_ok u pats" and "combined_ok u pats n b es" and "rest = drop n pats" and "n \<le> length pats"
  shows "\<exists>b' es'. combine u pats 0 n rest (b, es) = Inr (b', es') \<and> combined_ok u pats (length pats) b' es'"
  using assms(2-4)
proof (induction rest arbitrary: n b es)
  case Nil
  then show ?case by simp
next
  case (Cons pat rest)
  have n: "n < length pats" "pats ! n = pat" "rest = drop (Suc n) pats"
    using Cons.prems(2) by (metis drop_all list.distinct(1) not_le, metis nth_via_drop, metis drop_Suc list.sel(3) tl_drop)
  show ?case
  proof (cases "in_trie pats pat")
    case True
    obtain cur b1 es1 where w: "add_word (decode_runes (rule_value (tpRule pat))) 0 (b, es) = (cur, b1, es1)" by (metis prod_cases3)
    have "combined_ok u pats (Suc n) (mark_accept cur (SymbolID pat) (tpPriority pat) (int n) b1) es1"
      using combine_string [OF Cons.prems(1) n(1) assms(1)] n(2) True w by simp
    from Cons.IH [OF this n(3)] n(1) show ?thesis using True w by simp
  next
    case False
    have "rule_ok u (tpRule pat)" using assms(1) n(1,2) by (metis nth_mem patterns_ok_def)
    from builds_rule [OF this] obtain fr c where f: "buildFromRule u (tpRule pat) b = Inr (fr, c)" "frag_ok b c fr (rule_lang u (tpRule pat))"
      by (rule buildsE)
    have "combined_ok u pats (Suc n) (mark_accept (fEnd fr) (SymbolID pat) (tpPriority pat) (int n) (addEpsilon 0 (fStart fr) c)) es"
      using combine_rule [OF Cons.prems(1) n(1) assms(1)] n(2) f by simp
    from Cons.IH [OF this n(3)] n(1) show ?thesis using False f(1) by simp
  qed
qed

lemma combined_nfa:
  assumes "patterns_ok u pats"
  shows "\<exists>a. buildCombinedNFA u pats = Inr a \<and> nfaStart a = 0 \<and> 0 < length (nfaStates a) \<and> sealed 0 (nfaStates a) \<and>
    (\<forall>s \<in> set (nfaStates a). range_state s) \<and> (\<forall>w. accepts_at (nfaStates a) w = pattern_matches u pats (length pats) w)"
proof -
  have R: "nfa_step [empty_state] = nfa_step []" using step_new_state [of "[]"] by simp
  have "isolated (nfa_step [empty_state]) 0" unfolding R by (simp add: isolated_beyond)
  then have p: "paths (nfa_step [empty_state]) 0 q = (if q = 0 then {[]} else {})" for q by (rule paths_isolated)
  have f: "follow (\<lambda>_. []) 0 w = Some v \<longleftrightarrow> w = [] \<and> v = 0" for w v by (cases w) auto
  have "nAccept empty_state = 0" "sealed 0 [empty_state]" "range_state empty_state"
    by (simp_all add: empty_state_def sealed_def nfa_step_def range_state_def)
  then have "combined_ok u pats 0 [empty_state] (\<lambda>_. [])"
    by (auto simp: combined_ok_def trie_ok_def f p accepts_at_def pattern_matches_def)
  from combine_ok [OF assms this, of pats] obtain b es where
    c: "combine u pats 0 0 pats ([empty_state], \<lambda>_. []) = Inr (b, es)" "combined_ok u pats (length pats) b es" by auto
  then have "0 < length b" "sealed 0 b" using trie_okD(1,2) by (auto simp: combined_ok_def)
  then show ?thesis using c by (simp add: buildCombinedNFA_def combined_ok_def)
qed

subsection \<open>Lemmas: empty matches\<close>

lemma Nil_in_count: "0 \<le> mn \<Longrightarrow> mx = -1 \<or> mn \<le> mx \<Longrightarrow> [] \<in> count_lang X mn mx \<longleftrightarrow> mn = 0 \<or> [] \<in> X"
  by (cases "mx = -1") (auto simp: count_lang_def Nil_in_lpow intro!: bexI [of _ "nat mn"])

lemma node_empty: "node_ok n \<Longrightarrow> regexCanMatchEmpty n \<longleftrightarrow> [] \<in> node_lang n"
proof (induction n)
  case (CharClass rs neg)
  then show ?case by (simp add: runes_lang_def)
next
  case Dot
  then show ?case by (simp add: runes_lang_def)
next
  case (RSeq cs)
  then show ?case by (auto simp: Nil_in_lconcs)
next
  case (RCount cs mn mx)
  then show ?case by (cases cs) (auto simp: Nil_in_count)
qed (auto split: list.splits)

lemma decode_runes_Nil [simp]: "decode_runes v = [] \<longleftrightarrow> v = []" "[] = decode_runes v \<longleftrightarrow> v = []"
  using decode_runes.simps [of v] by (auto split: prod.splits if_splits)

lemma rule_empty: "rule_ok u r \<Longrightarrow> terminalRuleCanMatchEmpty u r \<longleftrightarrow> [] \<in> rule_lang u r"
proof (induction r)
  case (Rule k v cs prec named)
  show ?case
  proof (cases k)
    case RulePattern
    then show ?thesis using Rule.prems node_empty by (auto split: option.splits sum.splits)
  next
    case RuleSeq
    then show ?thesis using Rule by (auto simp: Nil_in_lconcs)
  next
    case RuleRepeat1
    then show ?thesis using Rule by (cases cs) auto
  next
    case RuleRepeat
    then show ?thesis by (cases cs) auto
  next
    case RuleOptional
    then show ?thesis by (cases cs) auto
  qed (use Rule in \<open>auto\<close>)
qed simp

subsection \<open>Lemmas: expanded patterns\<close>











subsection \<open>Properties\<close>

text \<open>
  \<^bold>\<open>C13.\<close> Thompson's construction is correct: from any builder, a terminal rule gives a fragment of
  new states whose words from start to end are exactly the language of the rule, and leaves all
  older states as they were.
\<close>

theorem rule_fragment_lang:
  assumes "rule_ok u r"
  shows "\<exists>fr b'. buildFromRule u r b = Inr (fr, b') \<and> length b \<le> fStart fr \<and> length b \<le> fEnd fr \<and>
    (\<forall>i < length b. b' ! i = b ! i) \<and> paths (nfa_step b') (fStart fr) (fEnd fr) = rule_lang u r"
proof -
  obtain fr b' where f: "buildFromRule u r b = Inr (fr, b')" "frag_ok b b' fr (rule_lang u r)"
    using builds_rule [OF assms] by (rule buildsE)
  then show ?thesis using frag_okD [OF f(2)] grownD(2) [of b b'] by auto
qed

text \<open>
  \<^bold>\<open>C4.\<close> The combined automaton of a list of terminal patterns is built, and after any word its
  accepting states are exactly those of the patterns that match the word, with the symbol and
  priority of the pattern and its place in the list.
\<close>

theorem combined_nfa_accepts:
  assumes "patterns_ok u pats"
  shows "\<exists>a. buildCombinedNFA u pats = Inr a \<and>
    (\<forall>w. accepts_at (nfaStates a) w =
      {(SymbolID (pats ! i), tpPriority (pats ! i), int i) | i. i < length pats \<and> w \<in> rule_lang u (tpRule (pats ! i))})"
  using combined_nfa [OF assms] by (auto simp: pattern_matches_def)

text \<open>
  \<^bold>\<open>C21.\<close> The test whether a terminal can match the empty string is exact for the automaton that is
  built for the terminal, for every rule the builder handles (patterns that parse, with proper
  ranges and counts, strings in UTF-8, no empty choice) in which the sentinel \<open>"\x00"\<close> is neither an
  alternative of a choice of strings only nor next to a string in a sequence.
  \<open>choice_sentinel_literal\<close> below shows that test and automaton disagree in the excluded case.
\<close>

theorem can_match_empty_exact:
  assumes "rule_ok u r"
  shows "terminalRuleCanMatchEmpty u r \<longleftrightarrow>
    (\<exists>fr b'. buildFromRule u r [] = Inr (fr, b') \<and> [] \<in> paths (nfa_step b') (fStart fr) (fEnd fr))"
proof -
  obtain fr b' where f: "buildFromRule u r [] = Inr (fr, b')" "frag_ok [] b' fr (rule_lang u r)"
    using builds_rule [OF assms] by (rule buildsE)
  then show ?thesis using rule_empty [OF assms] frag_okD(7) [OF f(2)] by auto
qed


text \<open>Keywords and an identifier, with a repeated choice of strings.\<close>

definition sample_patterns :: "TerminalPattern list" where
  "sample_patterns =
     [\<lparr>SymbolID = 1, tpRule = Str (ascii_bytes ''if''), tpPriority = 0, Immediate = False\<rparr>,
      \<lparr>SymbolID = 2, tpRule = Pat (ascii_bytes ''[a-z]+''), tpPriority = 0, Immediate = False\<rparr>,
      \<lparr>SymbolID = 3, tpRule = Repeat1 (Choice [Str (ascii_bytes ''<''), Str (ascii_bytes ''<='')]), tpPriority = 1, Immediate = False\<rparr>]"

lemma sample_patterns_ok: "patterns_ok ascii_unicode sample_patterns"
proof -
  have "parseRegex ascii_unicode (ascii_bytes ''[a-z]+'') = Some (Inr (RPlus [CharClass [range_of 97 122] False]))" by code_simp
  then have "rule_ok ascii_unicode (Pat (ascii_bytes ''[a-z]+''))" by (simp add: Pat_def range_ok_def maxSupportedRune_def)
  moreover have "utf8_text (ascii_bytes ''if'')" "utf8_text (ascii_bytes ''<'')" "utf8_text (ascii_bytes ''<='')"
    "ascii_bytes ''<'' \<noteq> [0]" "ascii_bytes ''<='' \<noteq> [0]" by code_simp+
  ultimately show ?thesis by (simp add: patterns_ok_def sample_patterns_def rule_constructors sentinel_def)
qed

theorem rule_fragment_lang_witness:
  "\<exists>fr b'. buildFromRule ascii_unicode (tpRule (sample_patterns ! 2)) [empty_state] = Inr (fr, b') \<and>
    paths (nfa_step b') (fStart fr) (fEnd fr) = rule_lang ascii_unicode (tpRule (sample_patterns ! 2))"
proof -
  have "rule_ok ascii_unicode (tpRule (sample_patterns ! 2))"
    using sample_patterns_ok by (simp add: patterns_ok_def sample_patterns_def)
  from rule_fragment_lang [OF this, of "[empty_state]"] show ?thesis by blast
qed

theorem combined_nfa_accepts_witness:
  "\<exists>a. buildCombinedNFA ascii_unicode sample_patterns = Inr a \<and> (1, 0, 0) \<in> accepts_at (nfaStates a) [105, 102]"
proof -
  obtain a where a: "buildCombinedNFA ascii_unicode sample_patterns = Inr a"
    "\<forall>w. accepts_at (nfaStates a) w = {(SymbolID (sample_patterns ! i), tpPriority (sample_patterns ! i), int i) | i.
       i < length sample_patterns \<and> w \<in> rule_lang ascii_unicode (tpRule (sample_patterns ! i))}"
    using combined_nfa_accepts [OF sample_patterns_ok] by blast
  have "decode_runes (ascii_bytes ''if'') = [105, 102]" "ascii_bytes ''if'' \<noteq> [0]" by code_simp+
  then have "[105, 102] \<in> rule_lang ascii_unicode (tpRule (sample_patterns ! 0))" by (simp add: sample_patterns_def Str_def)
  then have "(1, 0, 0) \<in> accepts_at (nfaStates a) [105, 102]"
    unfolding a(2) [rule_format] by (intro CollectI exI [of _ 0]) (simp add: sample_patterns_def)
  then show ?thesis using a(1) by blast
qed

theorem can_match_empty_exact_witness:
  "\<exists>fr b'. buildFromRule ascii_unicode (Choice [Str [0], Pat (ascii_bytes ''[a-z]+'')]) [] = Inr (fr, b') \<and>
     [] \<in> paths (nfa_step b') (fStart fr) (fEnd fr)"
proof -
  have "utf8_text [0]" by code_simp
  then have "rule_ok ascii_unicode (Choice [Str [0], Pat (ascii_bytes ''[a-z]+'')])"
    using sample_patterns_ok by (simp add: patterns_ok_def sample_patterns_def rule_constructors)
  from can_match_empty_exact [OF this] show ?thesis by (simp add: rule_constructors)
qed


text \<open>The pattern of a NUL character: its tree matches that character, but it expands into the sentinel
  string, whose fragment matches the empty word.\<close>

lemma nul_literal_differs:
  "parseRegex ascii_unicode [0] = Some (Inr (Literal 0))"
  "expandPatternRule ascii_unicode [0] = Some (Inr (Str [0]))"
  "map_sum id (map (map (\<lambda>t. (nEpsilon t, nLo t, nHi t, nNext t)) \<circ> nTransitions) \<circ> snd) (buildFromRegexNode (Literal 0) []) =
     Inr [[(False, 0, 0, 1)], []]"
  "map_sum id (map (map (\<lambda>t. (nEpsilon t, nNext t)) \<circ> nTransitions) \<circ> snd) (buildFromRule ascii_unicode (Str [0]) []) =
     Inr [[(True, 1)], []]"
  by code_simp+

text \<open>In a choice that has only strings, the sentinel is a literal NUL, although the test for empty
  matches says that the choice can match the empty string.\<close>

lemma choice_sentinel_literal:
  "terminalRuleCanMatchEmpty ascii_unicode (Choice [Str [0], Str [97]])"
  "map (map (\<lambda>t. (nEpsilon t, nLo t, nNext t)) \<circ> nTransitions)
     (case buildFromRule ascii_unicode (Choice [Str [0], Str [97]]) [] of Inr (_, b) \<Rightarrow> b | Inl _ \<Rightarrow> []) =
   [[(False, 0, 2), (False, 97, 3)], [], [(True, 0, 1)], [(True, 0, 1)]]"
  by code_simp+

text \<open>A negative count leaves the zero fragment, so the copies are attached to state 0 of the automaton.\<close>

lemma negative_count_fragment:
  "parseRegex ascii_unicode (ascii_bytes ''a{-1,1}'') = Some (Inr (RCount [Literal 97] (-1) 1))"
  "map_sum id (fStart \<circ> fst) (buildFromRegexNode (RCount [Literal 97] (-1) 1) [empty_state, empty_state]) = Inr 0"
  by code_simp+

end
