(* ===== verification/Spec2Isabelle.thy ===== *)
theory Spec2Isabelle
  imports Rewriter Lexer_Next Utf16 Tree_Edit Reduce_Tables Scanner_Adapter Lex_Minimize Lex_NFA
begin

text \<open>
  \<^bold>\<open>A verification library for gotreesitter.\<close>

  gotreesitter is a tree-sitter runtime in Go. A \<open>Language\<close> holds the tables of a grammar:
  lexer DFAs, keyword DFA, dense and compressed parse tables, field maps and alias sequences.
  Source text arrives as bytes or as UTF-16 code units, possibly restricted to included ranges.
  The lexer walks a DFA over it; where a grammar needs more than a DFA, an external scanner
  produces the token, in Go code or as a program of a small bytecode machine. The parser looks
  up its actions in the tables and in further tables that it derives from them when it is
  created. Trees are edited with byte/point edit records, which the rewriter produces together
  with the edited text. The generator \<open>grammargen\<close> makes the tables from a grammar; its lexer half
  parses the regular expressions of the terminals, builds automata for them and writes the lexer
  DFAs.

  \<^bold>\<open>Conventions.\<close> \<open>uint8\<close>, \<open>uint16\<close>, \<open>uint32\<close>, \<open>uint64\<close> and \<open>int8\<close> are words of their width,
  so that conversions and additions wrap as in Go; a Go \<open>int\<close> that indexes or counts is a
  \<open>nat\<close>, a \<open>rune\<close> an \<open>int\<close>. Byte slices are lists of 8-bit words, \<open>nil\<close> slices are empty lists.
  An error result or a panic is \<open>None\<close> or a value of an error datatype. Structs are records
  with the names of the Go fields, prefixed where two structs share a name. A method that
  changes its receiver returns the changed record. A loop is a fold, a structural recursion or
  a function with a termination proof; the loops whose end depends on the data (\<open>scanIncluded\<close>,
  \<open>errorRunToken\<close>, \<open>Next\<close>) are partial functions in the option type; theorems say when they
  return.

  \<^bold>\<open>The theories.\<close>

  \<^item> \<open>Go_Prelude\<close>: machine types, conversions, slices, and what the code uses of Go's library
    (\<open>utf8.DecodeRune\<close>, \<open>utf8.EncodeRune\<close>, \<open>utf16\<close> surrogates, stable sorting, binary search).
    The locale \<open>monotone_search\<close> states what \<open>sort.Search\<close> finds on a monotone predicate; it is
    interpreted on the line starts of the UTF-16 map and on the overflow pairs of the parse
    tables.

  \<^item> \<open>Source_Positions\<close> (\<open>Point\<close>, \<open>Range\<close>, \<open>InputEdit\<close>, \<open>advancePointByBytes\<close>,
    \<open>computeNewEndPoint\<close>, \<open>addPointDelta\<close>): the three ways the code moves a point over text agree.

  \<^item> \<open>Rewriter\<close> (\<open>rewrite.go\<close>): \<open>Apply\<close> succeeds exactly on edits that are in bounds and
    compatible, its result is independent of the order of the calls, and replaying the edit
    records it returns on the old text gives the new text.

  \<^item> \<open>Included_Ranges\<close> (\<open>normalizeIncludedRanges\<close>, \<open>coalesceRanges\<close>): normalization is canonical.

  \<^item> \<open>Lex_Tables\<close> (\<open>language.go\<close>, the keyword walk of \<open>parser_dfa_token_source.go\<close>): DFA states, lex
    modes, the ASCII fast path, which is equivalent to the search of the transitions, and the
    keyword prefilter, which rejects no keyword of a keyword DFA without end-of-input
    transitions. With such transitions it can reject one (\<open>keyword_prefilter_eof_gap\<close>).

  \<^item> \<open>Lexer\<close>, \<open>Lexer_Included\<close>, \<open>Lexer_Next\<close> (\<open>lexer.go\<close>, \<open>lexer_included_ranges.go\<close>): the walk over
    contiguous bytes, the same walk over included ranges, and the token loop with error runs and
    byte order mark. \<open>scanContiguous\<close> returns the best match of the DFA walk; \<open>scanIncluded\<close> is
    \<open>scanContiguous\<close> on the joined ranges; the token loop returns over contiguous source, and
    over included ranges unless a leading byte order mark reaches the end of a range, where it can
    hang (\<open>bom_next_diverges\<close>); over contiguous source its tokens carry the text and positions they
    span. The locale \<open>lexer_progress\<close> states what the token
    loop needs from a scan; it is interpreted on both walks.

  \<^item> \<open>Utf16\<close> (\<open>utf16.go\<close>): decoding with byte order marks, the UTF-8 text with its offset map,
    positions, ranges and edits in code units, with round trips and exact error conditions.

  \<^item> \<open>Tree_Edit\<close> (\<open>Tree.Edit\<close> and what it calls in \<open>tree.go\<close>): moving the nodes of a tree, in all
    their representations, to their places in an edited text. \<open>tree_ok\<close> says that spans, points
    and nesting fit a source; edits keep it, mark exactly the nodes they overlap, and leave the
    text of all others alone. The shortcut for one replaced byte is equivalent to the general
    edit. The present theory closes with two clients, \<open>Rewriter.ApplyToTree\<close> and
    \<open>Tree.EditUTF16\<close>, which put the edit records of \<open>Rewriter\<close> and \<open>Utf16\<close> to use on a tree.

  \<^item> \<open>Parse_Tables\<close>, \<open>Table_Clients\<close>, \<open>Reduce_Tables\<close> (\<open>parser_tables.go\<close>, \<open>lookahead.go\<close>,
    \<open>parser_default_reduce.go\<close>, \<open>parser_recovery.go\<close>, \<open>lex_mode_repair.go\<close>, the table builders of
    \<open>parser_reduce.go\<close>): lookups through the derived dense rows and overflow pairs agree with the
    plain scan of the compressed table, enumerations are complete (locale \<open>action_table\<close>), and
    every derived table is characterised by lookups in the original one: eager default
    reductions, recover actions, keyword states, external token masks, lookahead symbols (missing
    for dense states of a language without \<open>LargeStateCount\<close>), field plans, shared anonymous tokens, the index of reduce-chain hints.

  \<^item> \<open>External_Lexer\<close>, \<open>External_VM\<close>, \<open>Scanner_Adapter\<close> (\<open>external_lexer.go\<close>, \<open>external_vm.go\<close>,
    \<open>external_scanner_adapter.go\<close>, the retry loop of \<open>parser_dfa_token_source.go\<close>): the lexer that
    scanners drive, the bytecode machine, the scanner interface, the adapter for reordered
    external symbols and the retry with state snapshots. The locale \<open>external_scanner\<close> states
    the contract of a scanner and is interpreted on the bytecode machine; \<open>scanner_client\<close> and
    \<open>adapted_scanner\<close> carry the proofs of the retry loop over any scanner and over an adapted
    one, and are interpreted on the bytecode machine as well. A bytecode scan never fails with a
    result set, so the theorem on the retry loop takes the scanner as a parameter with the
    contract as its hypothesis, and its witness is a scanner that is retried.

  \<^item> \<open>Rune_Ranges\<close>, \<open>Regex_Parser\<close> (\<open>grammargen/regex.go\<close>, the range functions of
    \<open>grammargen/nfa.go\<close>): the operations on character classes are the set operations on ranges that are
    not inverted and, for difference, when no removed range nests in another
    (\<open>complement_inverted\<close> and \<open>subtract_nested_keeps\<close> show what happens otherwise); the parser of
    patterns returns on every byte string; a class that is written out is read back, unless it is
    empty, has \<open>&&\<close> in its text or a surrogate as an end. \<open>sort.Slice\<close> is not stable, so the result
    on ranges is proved for every order by \<open>lo\<close>. The mutually
    recursive parser carries fuel, which \<open>parseRegex\<close> sets from the length of the pattern and which
    is proved to be enough; package \<open>unicode\<close> is the argument \<open>unicode_pkg\<close>.

  \<^item> \<open>Lang_Runs\<close>, \<open>Lex_NFA\<close> (\<open>grammargen/nfa.go\<close>): languages and runs of automata; Thompson's
    construction. A fragment built for a rule accepts exactly the language of the rule, the
    combined automaton of a lex mode reports exactly the patterns that match a word, the
    expansion of a pattern into a rule keeps its language. Rules are those with patterns that
    parse, UTF-8 strings, proper ranges and counts, and the NUL sentinel neither in a choice of
    strings only nor next to a string of a sequence, where the code takes it for a character
    (\<open>choice_sentinel_literal\<close>); expansion also excludes NUL and surrogate literals
    (\<open>nul_literal_differs\<close>).

  \<^item> \<open>Lex_Minimize\<close> (\<open>grammargen/dfa_minimize.go\<close>): merging the equivalent states of a lexer table.
    The refinement ends, and the lexer of \<open>Lexer\<close> scans the same tokens on the smaller table.

  \<^bold>\<open>Hypotheses that recur.\<close> \<open>tables_ok\<close> and \<open>states_split\<close> describe parse tables as generators
  write them: rows of at most 65536 symbols, groups of a compressed state complete and without
  a repeated symbol, dense states before compressed ones. \<open>states_fit\<close> and the length bounds of
  sources say that positions and states fit \<open>uint32\<close>. Each is shown to hold on a concrete value
  by the witness of the theorem that assumes it.

  \<^bold>\<open>Not modelled.\<close> The GLR driver (\<open>parser.go\<close>, \<open>glr.go\<close>, \<open>glr_gss.go\<close>, \<open>glr_forest.go\<close>), the
  application of reductions and error recovery, which work on shared mutable node arenas and
  are steered by hundreds of language-specific conditions; the phase-0 parser core, which is a
  second driver behind a switch; the compatibility rewrites of finished trees per language
  (\<open>parser_result_*.go\<close>); incremental reuse of nodes; the query engine; of \<open>grammargen\<close> the LR
  tables, the choice of lex modes, the readers and writers of grammar files and the grammars
  themselves; the grammars, scanners and blobs under \<open>grammars\<close>; the command line tools,
  harnesses, telemetry and benchmarks. Synchronisation and buffer pooling are left out
  throughout: the once-per-language caches appear as the value they hold.
\<close>

subsection \<open>Editing a tree through its clients\<close>

definition ApplyToTree :: "rewriter \<Rightarrow> tree \<Rightarrow> rewrite_error + bytes \<times> tree" where
  "ApplyToTree r tr =
     (case Apply r of
        Inl err \<Rightarrow> Inl err
      | Inr (newSource, recs) \<Rightarrow> Inr (newSource, foldl tree_Edit tr recs))"

definition EditUTF16 :: "tree \<Rightarrow> utf16_map \<Rightarrow> utf16_edit \<Rightarrow> u16 list \<Rightarrow> tree \<times> bool" where
  "EditUTF16 tr m ed newSource =
     (case InputEditForUTF16 m ed newSource of
        None \<Rightarrow> (tr, False)
      | Some inputEdit \<Rightarrow> (tree_Edit tr inputEdit, True))"

lemma tree_edits_fit:
  assumes "tree_fits src tr" and "edits_ok src (zip recs ts)" and "length recs = length ts"
    and "length src + (\<Sum>t\<leftarrow>ts. length t) < 2 ^ 32"
  shows "tree_fits (run_edits src (zip recs ts)) (foldl tree_Edit tr recs)"
  using assms
proof (induction recs arbitrary: src tr ts)
  case (Cons ed recs)
  then obtain t ts' where ts: "ts = t # ts'" by (cases ts) auto
  have ok: "edit_ok src ed t" "edits_ok (run_edit src ed t) (zip recs ts')" using Cons.prems(2) by (simp_all add: ts)
  have len: "length (run_edit src ed t) \<le> length src + length t"
    using ok(1) by (auto simp: run_edit_def edit_ok_def word_le_nat_alt)
  have "good_edit src ed t" using ok(1) len Cons.prems(4) by (simp add: good_edit_def ts)
  then have "tree_fits (run_edit src ed t) (tree_Edit tr ed)" using tree_edit_fits Cons.prems(1) by blast
  moreover have "length (run_edit src ed t) + (\<Sum>t\<leftarrow>ts'. length t) < 2 ^ 32" using len Cons.prems(4) by (simp add: ts)
  ultimately show ?case using Cons.IH [OF _ ok(2)] Cons.prems(3) by (simp add: ts)
qed simp

text \<open>
  \<^bold>\<open>C8.\<close> Rewriting a source and its tree together: when \<open>ApplyToTree\<close> succeeds, the tree, edited
  with the records of \<open>Apply\<close> one after the other, has the positions of the new source, for
  every set of edits.
\<close>

theorem apply_to_tree_fits:
  assumes "tree_fits (source r) tr" and "ApplyToTree r tr = Inr (out, tr')"
    and "length (source r) + (\<Sum>e\<leftarrow>edits r. length (newText e)) < 2 ^ 32"
  shows "tree_fits out tr'"
proof -
  obtain recs where r: "Apply r = Inr (out, recs)" "tr' = foldl tree_Edit tr recs"
    using assms(2) by (auto simp: ApplyToTree_def split: sum.splits)
  let ?ts = "map newText (go_sort_by edit_key (edits r))"
  have "(\<Sum>t\<leftarrow>?ts. length t) = (\<Sum>e\<leftarrow>edits r. length (newText e))"
    by (simp only: sum_mset_sum_list [symmetric] mset_map mset_go_sort_by map_map comp_def)
  then show ?thesis
    using tree_edits_fit [OF assms(1), of recs ?ts] apply_replay [OF r(1) assms(3)] assms(3) r(2) by simp
qed

theorem apply_to_tree_fits_witness:
  "\<exists>out tr'. ApplyToTree sample_rewriter sample_tree = Inr (out, tr') \<and> out = [97, 120, 10, 121, 99, 122, 100] \<and> tree_fits out tr'"
proof -
  have src: "source sample_rewriter = [97, 98, 10, 99, 100]"
    by (simp add: sample_rewriter_def NewRewriter_def Delete_def InsertAfter_def Replace_def add_edit_def)
  have len: "length (source sample_rewriter) + (\<Sum>e\<leftarrow>edits sample_rewriter. length (newText e)) < 2 ^ 32"
    by (simp add: sample_rewriter_def NewRewriter_def Delete_def InsertAfter_def Replace_def add_edit_def)
  obtain tr' where "ApplyToTree sample_rewriter sample_tree = Inr ([97, 120, 10, 121, 99, 122, 100], tr')"
    by (simp add: ApplyToTree_def sample_rewriter_result)
  moreover from apply_to_tree_fits [OF _ this len] have "tree_fits [97, 120, 10, 121, 99, 122, 100] tr'"
    using sample_edits(3) by (simp only: src)
  ultimately show ?thesis by blast
qed

text \<open>
  \<^bold>\<open>C9.\<close> Editing a tree in UTF-16 code units: when the new source agrees with the old one outside
  the edited units, \<open>EditUTF16\<close> succeeds exactly on well-placed offsets (ends not before the start,
  all on character boundaries) and then gives a tree with the positions of the UTF-8 text of the
  new source; otherwise it leaves the tree alone.
\<close>

theorem edit_utf16_fits:
  assumes "3 * length S < 2 ^ 32" and "3 * length N < 2 ^ 32"
    and "take (unat (editStartCodeUnit e)) N = take (unat (editStartCodeUnit e)) S"
    and "drop (unat (editNewEndCodeUnit e)) N = drop (unat (editOldEndCodeUnit e)) S"
    and "tree_fits (enc S) tr"
  shows "case EditUTF16 tr (encodeUTF16ToUTF8WithMap S) e N of (tr', ok) \<Rightarrow>
    ok = edit_placed S e N \<and> (if ok then tree_fits (enc N) tr' else tr' = tr)"
proof (cases "InputEditForUTF16 (encodeUTF16ToUTF8WithMap S) e N")
  case None
  then show ?thesis using utf16_input_edit [OF assms(1-4) refl] by (simp add: EditUTF16_def)
next
  case (Some ie)
  let ?R = "enc (go_slice N (unat (editStartCodeUnit e)) (unat (editNewEndCodeUnit e)))"
  have ok: "run_edit (enc S) ie ?R = enc N" "edit_ok (enc S) ie ?R" "edit_placed S e N"
    using utf16_input_edit [OF assms(1-4) refl] Some by simp_all
  have "length (enc S) < 2 ^ 32" "length (enc N) < 2 ^ 32" using assms(1,2) length_enc [of S] length_enc [of N] by linarith+
  then have "good_edit (enc S) ie ?R" using ok by (simp add: good_edit_def)
  then show ?thesis using tree_edit_fits [OF assms(5), of ie ?R] ok(1,3) Some by (simp add: EditUTF16_def)
qed

definition sample_utf16_tree :: tree where
  "sample_utf16_tree =
     \<lparr>tRoot = Some (Branch FullNode \<lparr>nStartByte = 0, nEndByte = 4, nSymbol = 1, nDirty = False,
        nStartPoint = \<lparr>Row = 0, Column = 0\<rparr>, nEndPoint = \<lparr>Row = 0, Column = 4\<rparr>\<rparr> []), tEdits = [], lastEditedLeaf = None\<rparr>"

theorem edit_utf16_fits_witness:
  "case EditUTF16 sample_utf16_tree (encodeUTF16ToUTF8WithMap [0xE9, 0x61, 0x62])
     \<lparr>editStartCodeUnit = 1, editOldEndCodeUnit = 2, editNewEndCodeUnit = 3\<rparr> [0xE9, 0xD83D, 0xDE00, 0x62] of
   (tr', ok) \<Rightarrow> ok \<and> tree_fits (enc [0xE9, 0xD83D, 0xDE00, 0x62]) tr'"
proof -
  let ?r = "EditUTF16 sample_utf16_tree (encodeUTF16ToUTF8WithMap [0xE9, 0x61, 0x62])
     \<lparr>editStartCodeUnit = 1, editOldEndCodeUnit = 2, editNewEndCodeUnit = 3\<rparr> [0xE9, 0xD83D, 0xDE00, 0x62]"
  have "snd ?r" by code_simp
  moreover have "tree_fits (enc [0xE9, 0x61, 0x62]) sample_utf16_tree" by code_simp
  ultimately show ?thesis
    using edit_utf16_fits [of "[0xE9, 0x61, 0x62]" "[0xE9, 0xD83D, 0xDE00, 0x62]"
        "\<lparr>editStartCodeUnit = 1, editOldEndCodeUnit = 2, editNewEndCodeUnit = 3\<rparr>" sample_utf16_tree]
    by (cases ?r) simp
qed

end
